(* ===== verification/Prelude.thy ===== *)
theory Prelude
  imports Main "HOL-Library.Word" "HOL-Library.Multiset"
begin

unbundle bit_operations_syntax

text \<open>
  Shared vocabulary of the development: the machine integer types of
  \<^verbatim>\<open>sqliteInt.h\<close>, the result codes of \<^verbatim>\<open>sqlite.h.in\<close>, reads and writes of
  byte buffers, and the generic lemmas on lists and words that the component
  theories use.
\<close>

section \<open>Machine integers and result codes\<close>

type_synonym u8 = "8 word"
type_synonym u16 = "16 word"
type_synonym u32 = "32 word"
type_synonym u64 = "64 word"

text \<open>A byte buffer, and an SQLite result code (a C \<^verbatim>\<open>int\<close>).\<close>

type_synonym bytes = "u8 list"
type_synonym rc = int

abbreviation (input) SQLITE_OK :: rc where "SQLITE_OK \<equiv> 0"
abbreviation (input) SQLITE_ERROR :: rc where "SQLITE_ERROR \<equiv> 1"
abbreviation (input) SQLITE_BUSY :: rc where "SQLITE_BUSY \<equiv> 5"
abbreviation (input) SQLITE_NOMEM :: rc where "SQLITE_NOMEM \<equiv> 7"
abbreviation (input) SQLITE_READONLY :: rc where "SQLITE_READONLY \<equiv> 8"
abbreviation (input) SQLITE_INTERRUPT :: rc where "SQLITE_INTERRUPT \<equiv> 9"
abbreviation (input) SQLITE_IOERR :: rc where "SQLITE_IOERR \<equiv> 10"
abbreviation (input) SQLITE_CORRUPT :: rc where "SQLITE_CORRUPT \<equiv> 11"
abbreviation (input) SQLITE_CANTOPEN :: rc where "SQLITE_CANTOPEN \<equiv> 14"
abbreviation (input) SQLITE_PROTOCOL :: rc where "SQLITE_PROTOCOL \<equiv> 15"

abbreviation (input) LARGEST_INT64 :: int where "LARGEST_INT64 \<equiv> 9223372036854775807"
abbreviation (input) SMALLEST_INT64 :: int where "SMALLEST_INT64 \<equiv> - 9223372036854775808"

definition is_i64 :: "int \<Rightarrow> bool" where
  "is_i64 x \<longleftrightarrow> SMALLEST_INT64 \<le> x \<and> x \<le> LARGEST_INT64"

section \<open>Buffers\<close>

text \<open>
  A read of one byte of a buffer. The C code has no bounds check; a read past
  the end of the modelled buffer yields 0, and the theorems that matter state
  that results do not depend on such reads.
\<close>

definition at :: "bytes \<Rightarrow> nat \<Rightarrow> u8" where
  "at p i = (if i < length p then p ! i else 0)"

lemma at_append1 [simp]: "i < length p \<Longrightarrow> at (p @ q) i = at p i"
  by (simp add: at_def nth_append)

lemma at_Cons_0 [simp]: "at (x # p) 0 = x"
  by (simp add: at_def)

lemma at_Cons_Suc [simp]: "at (x # p) (Suc i) = at p i"
  by (simp add: at_def)

lemma at_take [simp]: "i < n \<Longrightarrow> at (take n p) i = at p i"
  by (simp add: at_def)

lemma at_drop [simp]: "at (drop n p) i = at p (n + i)"
  by (simp add: at_def) (metis less_diff_conv add.commute)

section \<open>Natural numbers\<close>

lemma first_below:
  fixes m :: nat
  assumes "\<exists>d\<le>m. P d"
  shows "\<exists>d\<le>m. P d \<and> (\<forall>e<d. \<not> P e)"
proof -
  obtain c where c: "c \<le> m" "P c" using assms by blast
  have "Least P \<le> m" using Least_le [of P, OF c(2)] c(1) by (rule order_trans)
  then show ?thesis using LeastI [of P, OF c(2)] not_less_Least [of _ P] by blast
qed

section \<open>Words\<close>

lemma unat_drop_bit: "unat (drop_bit n w) = unat w div 2 ^ n" for w :: "'a::len word"
  by (simp add: unat_drop_bit_eq drop_bit_eq_div [of n "unat w"])

lemma unat_drop_bit_less:
  fixes v :: "'a::len word"
  assumes "drop_bit n v \<noteq> 0" "0 < n"
  shows "unat (drop_bit n v) < unat v"
proof -
  have "unat v \<noteq> 0" using assms(1) by (auto simp: unat_eq_0)
  moreover have "1 < (2::nat) ^ n" using assms(2) by (rule one_less_power [rotated]) simp
  ultimately show ?thesis
    unfolding unat_drop_bit by (intro div_less_dividend) auto
qed

text \<open>Equality of words by evaluating every bit: the goal is closed by \<open>bit_simps\<close>.\<close>

lemma u64_bit_eqI:
  assumes "list_all (\<lambda>n. bit (x :: u64) n = bit y n)
    [0,1,2,3,4,5,6,7,8,9,10,11,12,13,14,15,16,17,18,19,20,21,22,23,24,25,26,27,28,29,30,31,32,
     33,34,35,36,37,38,39,40,41,42,43,44,45,46,47,48,49,50,51,52,53,54,55,56,57,58,59,60,61,62,
     63]"
  shows "x = y"
proof (rule bit_word_eqI)
  fix n :: nat assume "n < LENGTH(64)"
  then have "n \<in> set [0,1,2,3,4,5,6,7,8,9,10,11,12,13,14,15,16,17,18,19,20,21,22,23,24,25,
     26,27,28,29,30,31,32,33,34,35,36,37,38,39,40,41,42,43,44,45,46,47,48,49,50,51,52,53,54,55,
     56,57,58,59,60,61,62,63]"
    by (simp, presburger)
  with assms show "bit x n = bit y n" by (auto simp: list_all_iff simp del: set_simps)
qed

lemma u32_bit_eqI:
  assumes "list_all (\<lambda>n. bit (x :: u32) n = bit y n)
    [0,1,2,3,4,5,6,7,8,9,10,11,12,13,14,15,16,17,18,19,20,21,22,23,24,25,26,27,28,29,30,31]"
  shows "x = y"
proof (rule bit_word_eqI)
  fix n :: nat assume "n < LENGTH(32)"
  then have "n \<in> set [0,1,2,3,4,5,6,7,8,9,10,11,12,13,14,15,16,17,18,19,20,21,22,23,24,25,
     26,27,28,29,30,31]"
    by (simp, presburger)
  with assms show "bit x n = bit y n" by (auto simp: list_all_iff simp del: set_simps)
qed

lemma u8_bit_eqI:
  assumes "list_all (\<lambda>n. bit (x :: u8) n = bit y n) [0,1,2,3,4,5,6,7]"
  shows "x = y"
proof (rule bit_word_eqI)
  fix n :: nat assume "n < LENGTH(8)"
  then have "n \<in> set [0,1,2,3,4,5,6,7]" by (simp, presburger)
  with assms show "bit x n = bit y n" by (auto simp: list_all_iff simp del: set_simps)
qed

lemma u8_bit_beyond [simp]: "8 \<le> n \<Longrightarrow> \<not> bit (x :: u8) n"
  using bit_imp_le_length [of x n] by auto

lemma u32_bit_beyond [simp]: "32 \<le> n \<Longrightarrow> \<not> bit (x :: u32) n"
  using bit_imp_le_length [of x n] by auto

lemma u64_bit_beyond [simp]: "64 \<le> n \<Longrightarrow> \<not> bit (x :: u64) n"
  using bit_imp_le_length [of x n] by auto

lemma u32_le_max [simp]: "(x :: u32) \<le> 0xFFFFFFFF"
proof -
  have "unat x < 2 ^ 32" using unsigned_less [of x, where 'a = nat] by simp
  then show ?thesis by (simp add: word_le_nat_alt)
qed

lemma sint_u8_ge0: "0 \<le> sint (x :: u8) \<longleftrightarrow> \<not> bit x 7"
  using bit_last_iff [of x] by auto

lemma and_0x80_u32: "x AND 0x80 = 0 \<longleftrightarrow> \<not> bit (x :: u32) 7"
proof -
  have "(0x80 :: u32) = push_bit 7 1" by simp
  then show ?thesis using and_exp_eq_0_iff_not_bit [of x 7] by simp
qed

lemma and_0x80_u8: "x AND 0x80 = 0 \<longleftrightarrow> \<not> bit (x :: u8) 7"
proof -
  have "(0x80 :: u8) = push_bit 7 1" by simp
  then show ?thesis using and_exp_eq_0_iff_not_bit [of x 7] by simp
qed

lemma u8_less_0x80: "x < 0x80 \<longleftrightarrow> \<not> bit (x :: u8) 7"
proof -
  have "x < 0x80 \<longleftrightarrow> x AND 0x7f = x"
    using mask_eq_iff_w2p [of 7 x] by (simp add: word_size mask_eq_exp_minus_1)
  also have "\<dots> \<longleftrightarrow> \<not> bit x 7"
  proof
    assume "x AND 0x7f = x"
    then have "bit (x AND 0x7f) 7 = bit x 7" by simp
    then show "\<not> bit x 7" by (simp add: bit_simps)
  next
    assume "\<not> bit x 7"
    then show "x AND 0x7f = x" by (intro u8_bit_eqI) (simp add: bit_simps)
  qed
  finally show ?thesis .
qed

end
