(* ===== verification/Varint.thy ===== *)
theory Varint
  imports Prelude
begin

unbundle bit_operations_syntax

text \<open>
  Variable-length and big-endian integers of \<^verbatim>\<open>util.c\<close>: the encoders and decoders
  every database page, record and WAL structure is read and written with. The
  decoder is the hand-unrolled one of the source, with its 32-bit accumulators
  and masks; it is proved equal to a byte-at-a-time reference and inverse to the
  encoder. A routine that fills a buffer through a pointer returns the bytes it
  writes, a routine that reads a number through a pointer returns the number and
  the count of bytes read.
\<close>

section \<open>Operations\<close>

abbreviation SLOT_2_0 :: u32 where "SLOT_2_0 \<equiv> 0x001fc07f"
abbreviation SLOT_4_2_0 :: u32 where "SLOT_4_2_0 \<equiv> 0xf01fc07f"

text \<open>\<^verbatim>\<open>sqlite3GetVarint\<close>: every early return of the source is one branch. The
  test on a \<^verbatim>\<open>signed char\<close> is a signed comparison, all of \<open>a\<close>, \<open>b\<close> and \<open>s\<close> are
  32 bits wide and lose the bits shifted out of them.\<close>

definition sqlite3GetVarint :: "bytes \<Rightarrow> u64 \<times> nat" where
  "sqlite3GetVarint p =
    (if 0 \<le> sint (at p 0) then (ucast (at p 0), 1)
     else if 0 \<le> sint (at p 1) then
       (ucast (push_bit 7 (ucast (at p 0 AND 0x7f)) OR ucast (at p 1) :: u32), 2)
     else
       let a = push_bit 14 (ucast (at p 0)) :: u32;
           b = ucast (at p 1) :: u32;
           a = a OR ucast (at p 2)
       in if a AND 0x80 = 0 then
         (let a = a AND SLOT_2_0; b = b AND 0x7f; b = push_bit 7 b; a = a OR b
          in (ucast a, 3))
       else
       let a = a AND SLOT_2_0;
           b = push_bit 14 b;
           b = b OR ucast (at p 3)
       in if b AND 0x80 = 0 then
         (let b = b AND SLOT_2_0; a = push_bit 7 a; a = a OR b in (ucast a, 4))
       else
       let b = b AND SLOT_2_0;
           s = a;
           a = push_bit 14 a;
           a = a OR ucast (at p 4)
       in if a AND 0x80 = 0 then
         (let b = push_bit 7 b; a = a OR b; s = drop_bit 18 s
          in (push_bit 32 (ucast s) OR ucast a, 5))
       else
       let s = push_bit 7 s;
           s = s OR b;
           b = push_bit 14 b;
           b = b OR ucast (at p 5)
       in if b AND 0x80 = 0 then
         (let a = a AND SLOT_2_0; a = push_bit 7 a; a = a OR b; s = drop_bit 18 s
          in (push_bit 32 (ucast s) OR ucast a, 6))
       else
       let a = push_bit 14 a;
           a = a OR ucast (at p 6)
       in if a AND 0x80 = 0 then
         (let a = a AND SLOT_4_2_0; b = b AND SLOT_2_0; b = push_bit 7 b; a = a OR b;
              s = drop_bit 11 s
          in (push_bit 32 (ucast s) OR ucast a, 7))
       else
       let a = a AND SLOT_2_0;
           b = push_bit 14 b;
           b = b OR ucast (at p 7)
       in if b AND 0x80 = 0 then
         (let b = b AND SLOT_4_2_0; a = push_bit 7 a; a = a OR b; s = drop_bit 4 s
          in (push_bit 32 (ucast s) OR ucast a, 8))
       else
       let a = push_bit 15 a;
           a = a OR ucast (at p 8);
           b = b AND SLOT_2_0;
           b = push_bit 8 b;
           a = a OR b;
           s = push_bit 4 s;
           b = ucast (at p 4);
           b = b AND 0x7f;
           b = drop_bit 3 b;
           s = s OR b
       in (push_bit 32 (ucast s) OR ucast a, 9))"

text \<open>\<^verbatim>\<open>putVarint64\<close>: the \<^verbatim>\<open>do\<close> loop that fills \<^verbatim>\<open>buf\<close> low bits first (\<open>put_buf\<close>),
  the loop that fills \<^verbatim>\<open>p[7]\<close> down to \<^verbatim>\<open>p[0]\<close> for nine-byte values (\<open>put_fixed\<close>), and
  the routine itself; the final copy loop reverses \<^verbatim>\<open>buf\<close>.\<close>

function put_buf :: "u64 \<Rightarrow> bytes" where
  "put_buf v = (ucast (v AND 0x7f) OR 0x80) #
     (let v = drop_bit 7 v in if v \<noteq> 0 then put_buf v else [])"
  by pat_completeness auto
termination
  by (relation "measure unat") (auto simp: unat_drop_bit_less)

declare put_buf.simps [simp del]

fun put_fixed :: "nat \<Rightarrow> u64 \<Rightarrow> bytes \<Rightarrow> bytes" where
  "put_fixed 0 v p = p"
| "put_fixed (Suc i) v p = put_fixed i (drop_bit 7 v) ((ucast (v AND 0x7f) OR 0x80) # p)"

definition putVarint64 :: "u64 \<Rightarrow> bytes" where
  "putVarint64 v =
    (if v AND push_bit 32 0xff000000 \<noteq> 0 then put_fixed 8 (drop_bit 8 v) [ucast v]
     else let buf = put_buf v; buf = buf[0 := buf ! 0 AND 0x7f] in rev buf)"

definition sqlite3PutVarint :: "u64 \<Rightarrow> bytes" where
  "sqlite3PutVarint v =
    (if v \<le> 0x7f then [ucast (v AND 0x7f)]
     else if v \<le> 0x3fff then [ucast (drop_bit 7 v AND 0x7f OR 0x80), ucast (v AND 0x7f)]
     else putVarint64 v)"

text \<open>\<^verbatim>\<open>sqlite3GetVarint32\<close> assumes the first byte has its high bit set; the
  macro \<^verbatim>\<open>getVarint32\<close> of \<^verbatim>\<open>sqliteInt.h\<close> handles the other case before calling it.\<close>

definition sqlite3GetVarint32 :: "bytes \<Rightarrow> u32 \<times> nat" where
  "sqlite3GetVarint32 p =
    (if at p 1 AND 0x80 = 0 then
       (push_bit 7 (ucast (at p 0 AND 0x7f)) OR ucast (at p 1), 2)
     else if at p 2 AND 0x80 = 0 then
       (push_bit 14 (ucast (at p 0 AND 0x7f)) OR push_bit 7 (ucast (at p 1 AND 0x7f))
          OR ucast (at p 2), 3)
     else
       let (v64, n) = sqlite3GetVarint p
       in (if v64 AND 0xffffffff \<noteq> v64 then 0xffffffff else ucast v64, n))"

definition getVarint32 :: "bytes \<Rightarrow> u32 \<times> nat" where
  "getVarint32 A = (if at A 0 < 0x80 then (ucast (at A 0), 1) else sqlite3GetVarint32 A)"

function varintLen_loop :: "nat \<Rightarrow> u64 \<Rightarrow> nat" where
  "varintLen_loop i v =
     (let v = drop_bit 7 v in if v \<noteq> 0 then varintLen_loop (Suc i) v else i)"
  by pat_completeness auto
termination
  by (relation "measure (unat \<circ> snd)") (auto simp: unat_drop_bit_less)

declare varintLen_loop.simps [simp del]

definition sqlite3VarintLen :: "u64 \<Rightarrow> nat" where
  "sqlite3VarintLen v = varintLen_loop 1 v"

text \<open>Big-endian 32-bit reads and writes (the portable branch of the source; the
  other branches are byte-swapping loads of the same value).\<close>

definition sqlite3Get4byte :: "bytes \<Rightarrow> u32" where
  "sqlite3Get4byte p =
     push_bit 24 (ucast (at p 0)) OR push_bit 16 (ucast (at p 1))
       OR push_bit 8 (ucast (at p 2)) OR ucast (at p 3)"

definition sqlite3Put4byte :: "u32 \<Rightarrow> bytes" where
  "sqlite3Put4byte v =
     [ucast (drop_bit 24 v), ucast (drop_bit 16 v), ucast (drop_bit 8 v), ucast v]"

section \<open>The decoder against a reference\<close>

text \<open>The format as the file-format comment gives it: seven bits per byte while
  the high bit is set, and all eight bits of a ninth byte. \<open>k\<close> is how many
  seven-bit bytes may still come, \<open>i\<close> the read position.\<close>

fun varint_ref :: "nat \<Rightarrow> nat \<Rightarrow> u64 \<Rightarrow> bytes \<Rightarrow> u64 \<times> nat" where
  "varint_ref 0 i acc p = (push_bit 8 acc OR ucast (at p i), Suc i)"
| "varint_ref (Suc k) i acc p =
     (if bit (at p i) 7 then varint_ref k (Suc i) (push_bit 7 acc OR ucast (at p i AND 0x7f)) p
      else (push_bit 7 acc OR ucast (at p i), Suc i))"

lemma varint_ref_rec:
  "varint_ref k i acc p = (if k = 0 then (push_bit 8 acc OR ucast (at p i), Suc i)
     else if bit (at p i) 7 then varint_ref (k - 1) (Suc i) (push_bit 7 acc OR ucast (at p i AND 0x7f)) p
      else (push_bit 7 acc OR ucast (at p i), Suc i))"
  by (cases k) simp_all

lemma GetVarint_eq_ref: "sqlite3GetVarint p = varint_ref 8 0 0 p"
proof -
  note [simp] = sint_u8_ge0 and_0x80_u32
  consider "\<not> bit (at p 0) 7" | "bit (at p 0) 7" "\<not> bit (at p 1) 7"
    | "bit (at p 0) 7" "bit (at p 1) 7" "\<not> bit (at p 2) 7"
    | "bit (at p 0) 7" "bit (at p 1) 7" "bit (at p 2) 7" "\<not> bit (at p 3) 7"
    | "bit (at p 0) 7" "bit (at p 1) 7" "bit (at p 2) 7" "bit (at p 3) 7" "\<not> bit (at p 4) 7"
    | "bit (at p 0) 7" "bit (at p 1) 7" "bit (at p 2) 7" "bit (at p 3) 7" "bit (at p 4) 7" 
      "\<not> bit (at p 5) 7"
    | "bit (at p 0) 7" "bit (at p 1) 7" "bit (at p 2) 7" "bit (at p 3) 7" "bit (at p 4) 7" 
      "bit (at p 5) 7" "\<not> bit (at p 6) 7"
    | "bit (at p 0) 7" "bit (at p 1) 7" "bit (at p 2) 7" "bit (at p 3) 7" "bit (at p 4) 7" 
      "bit (at p 5) 7" "bit (at p 6) 7" "\<not> bit (at p 7) 7"
    | "bit (at p 0) 7" "bit (at p 1) 7" "bit (at p 2) 7" "bit (at p 3) 7" "bit (at p 4) 7" 
      "bit (at p 5) 7" "bit (at p 6) 7" "bit (at p 7) 7"
    by blast
  then show ?thesis
    apply cases
            apply (simp_all add: sqlite3GetVarint_def Let_def bit_simps varint_ref_rec numeral_2_eq_2[symmetric])
    apply (rule u64_bit_eqI, simp add: bit_simps; fail)+
    done
qed


section \<open>The encoder\<close>

lemma drop_bit_7_0_iff: "drop_bit 7 v = 0 \<longleftrightarrow> v < (128 :: u64)"
  by (simp add: unat_eq_0 [symmetric] unat_drop_bit word_less_nat_alt div_eq_0_iff)

text \<open>The bytes of \<open>put_buf\<close> in the order they reach the output.\<close>

definition put_cont :: "u64 \<Rightarrow> bytes" where "put_cont v = rev (put_buf v)"

lemma put_cont_rec:
  "put_cont v = (if v < 128 then [] else put_cont (drop_bit 7 v)) @ [ucast (v AND 0x7f) OR 0x80]"
  unfolding put_cont_def by (subst put_buf.simps) (simp add: Let_def drop_bit_7_0_iff)

lemma seven_bits_cont: "(ucast (v AND 0x7f) OR 0x80) AND 0x7f = (ucast (v AND 0x7f) :: u8)"
  for v :: u64
  by (rule bit_word_eqI) (auto simp: bit_simps numeral_eq_Suc less_Suc_eq)

lemma bit7_cont: "bit (ucast (v AND 0x7f) OR 0x80 :: u8) 7" for v :: u64
  by (simp add: bit_simps)

lemma glue7: "push_bit 7 (drop_bit 7 v) OR ucast (ucast (v AND 0x7f) :: u8) = (v :: u64)"
  by (rule u64_bit_eqI) (simp add: bit_simps)

lemma ref_put_cont:
  "varint_ref (k + length (put_cont w)) 0 0 (put_cont w @ r) =
   varint_ref k (length (put_cont w)) w (put_cont w @ r)"
proof (induction w arbitrary: k r rule: put_buf.induct)
  case (1 w)
  show ?case
  proof (cases "w < 128")
    case True
    then have "put_cont w = [ucast (w AND 0x7f) OR 0x80]" by (subst put_cont_rec) simp
    moreover have "ucast (ucast (w AND 0x7f) :: u8) = w"
      using glue7 [of w] True by (simp add: drop_bit_7_0_iff [symmetric])
    ultimately show ?thesis by (simp add: seven_bits_cont bit7_cont)
  next
    case False
    let ?w = "drop_bit 7 w" and ?c = "ucast (w AND 0x7f) OR 0x80 :: u8"
    have rec: "put_cont w = put_cont ?w @ [?c]" using False by (subst put_cont_rec) simp
    have "varint_ref (Suc k + length (put_cont ?w)) 0 0 (put_cont ?w @ (?c # r)) =
      varint_ref (Suc k) (length (put_cont ?w)) ?w (put_cont ?w @ (?c # r))"
      using False by (intro "1.IH") (simp add: drop_bit_7_0_iff)+
    also have "at (put_cont ?w @ (?c # r)) (length (put_cont ?w)) = ?c"
      by (simp add: at_def)
    then have "varint_ref (Suc k) (length (put_cont ?w)) ?w (put_cont ?w @ (?c # r)) =
      varint_ref k (Suc (length (put_cont ?w))) w (put_cont ?w @ (?c # r))"
      by (simp add: seven_bits_cont bit7_cont glue7)
    finally show ?thesis by (simp add: rec)
  qed
qed


lemma length_put_cont_le: "unat w < 2 ^ (7 * m) \<Longrightarrow> 0 < m \<Longrightarrow> length (put_cont w) \<le> m"
proof (induction w arbitrary: m rule: put_buf.induct)
  case (1 w)
  show ?case
  proof (cases "w < 128")
    case True
    then show ?thesis using "1.prems" by (subst put_cont_rec) simp
  next
    case False
    then have "128 \<le> unat w" by (simp add: word_less_nat_alt)
    with "1.prems" obtain m' where m: "m = Suc m'" "0 < m'"
      by (cases m; cases "m - 1") auto
    have "unat (drop_bit 7 w) < 2 ^ (7 * m')"
      using "1.prems" m by (simp add: unat_drop_bit less_mult_imp_div_less power_add)
    then have "length (put_cont (drop_bit 7 w)) \<le> m'"
      using "1.IH" [of "drop_bit 7 w" m'] False m by (simp add: drop_bit_7_0_iff)
    then show ?thesis using False m by (subst put_cont_rec) simp
  qed
qed

lemma length_put_cont_gt: "2 ^ (7 * m) \<le> unat w \<Longrightarrow> m < length (put_cont w)"
proof (induction w arbitrary: m rule: put_buf.induct)
  case (1 w)
  show ?case
  proof (cases m)
    case 0
    then show ?thesis by (subst put_cont_rec) simp
  next
    case (Suc m')
    have big: "128 \<le> unat w"
      using "1.prems" Suc order_trans [of "2 ^ 7" "2 ^ (7 * m)" "unat w"] by (simp add: power_add)
    then have ge: "\<not> w < 128" by (simp add: word_less_nat_alt)
    have "2 ^ (7 * m') \<le> unat (drop_bit 7 w)"
      using "1.prems" Suc by (simp add: unat_drop_bit power_add less_eq_div_iff_mult_less_eq mult.commute)
    then have "m' < length (put_cont (drop_bit 7 w))"
      using "1.IH" [of "drop_bit 7 w" m'] ge by (simp add: drop_bit_7_0_iff)
    then show ?thesis using ge Suc by (subst put_cont_rec) simp
  qed
qed

lemma top_byte_0_iff: "v AND 0xff00000000000000 = 0 \<longleftrightarrow> unat (v :: u64) < 2 ^ 56"
proof -
  have *: "v AND 0xff00000000000000 = push_bit 56 (drop_bit 56 v)"
    by (rule u64_bit_eqI) (simp add: bit_simps)
  have **: "drop_bit 56 (push_bit 56 (drop_bit 56 v)) = drop_bit 56 v"
    by (rule u64_bit_eqI) (simp add: bit_simps)
  have "v AND 0xff00000000000000 = 0 \<longleftrightarrow> drop_bit 56 v = 0"
    unfolding * using ** by auto
  also have "\<dots> \<longleftrightarrow> unat v < 2 ^ 56"
    by (simp add: unat_eq_0 [symmetric] unat_drop_bit div_eq_0_iff del: unat_eq_0)
  finally show ?thesis .
qed

lemma length_put_fixed: "length (put_fixed i v p) = i + length p"
  by (induction i v p rule: put_fixed.induct) simp_all

lemma put_fixed_rec:
  "put_fixed i v p = (if i = 0 then p
     else put_fixed (i - 1) (drop_bit 7 v) ((ucast (v AND 0x7f) OR 0x80) # p))"
  by (cases i) simp_all

lemma putVarint64_small:
  "unat v < 2 ^ 56 \<Longrightarrow> 128 \<le> unat v \<Longrightarrow>
   putVarint64 v = put_cont (drop_bit 7 v) @ [ucast (v AND 0x7f)]"
  using seven_bits_cont [of v]
  by (simp add: putVarint64_def top_byte_0_iff put_buf.simps [of v] Let_def put_cont_def
      drop_bit_7_0_iff word_less_nat_alt)

lemma sqlite3PutVarint_2:
  assumes "128 \<le> unat v" "unat v < 2 ^ 14"
  shows "sqlite3PutVarint v = put_cont (drop_bit 7 v) @ [ucast (v AND 0x7f)]"
proof -
  have "drop_bit 7 v < 128" using assms by (simp add: word_less_nat_alt unat_drop_bit)
  moreover have "\<not> v \<le> 0x7f" "v \<le> 0x3fff" using assms by (simp_all add: word_le_nat_alt)
  moreover have "ucast (drop_bit 7 v AND 0x7f OR 0x80) = (ucast (drop_bit 7 v AND 0x7f) OR 0x80 :: u8)"
    by (rule bit_word_eqI) (auto simp: bit_simps)
  ultimately show ?thesis by (simp add: sqlite3PutVarint_def put_cont_rec [of "drop_bit 7 v"])
qed

lemma sqlite3PutVarint_mid:
  "128 \<le> unat v \<Longrightarrow> unat v < 2 ^ 56 \<Longrightarrow>
   sqlite3PutVarint v = put_cont (drop_bit 7 v) @ [ucast (v AND 0x7f)]"
  by (cases "unat v < 2 ^ 14")
     (simp add: sqlite3PutVarint_2, simp add: sqlite3PutVarint_def putVarint64_small word_le_nat_alt)

lemma sqlite3PutVarint_big:
  "2 ^ 56 \<le> unat v \<Longrightarrow> sqlite3PutVarint v = put_fixed 8 (drop_bit 8 v) [ucast v]"
  by (simp add: sqlite3PutVarint_def putVarint64_def top_byte_0_iff word_le_nat_alt)

lemma varint_roundtrip_big:
  assumes "2 ^ 56 \<le> unat v"
  shows "sqlite3GetVarint (put_fixed 8 (drop_bit 8 v) [ucast v] @ rest) = (v, 9)"
  unfolding GetVarint_eq_ref
  by (simp add: put_fixed_rec varint_ref_rec bit_simps numeral_2_eq_2 [symmetric] at_def)
     (rule u64_bit_eqI, simp add: bit_simps)

text \<open>C26. Encoding and then decoding a 64-bit integer gives the integer back and
  consumes exactly the bytes written, whatever follows them in the buffer.\<close>

theorem varint_roundtrip:
  "sqlite3GetVarint (sqlite3PutVarint v @ rest) = (v, length (sqlite3PutVarint v))"
proof -
  consider "unat v < 128" | "128 \<le> unat v" "unat v < 2 ^ 56" | "2 ^ 56 \<le> unat v" by linarith
  then show ?thesis
  proof cases
    case 1
    then have "v < 128" "v \<le> 0x7f" by (simp_all add: word_less_nat_alt word_le_nat_alt)
    moreover have "ucast (ucast (v AND 0x7f) :: u8) = v"
      using glue7 [of v] \<open>v < 128\<close> by (simp add: drop_bit_7_0_iff [symmetric])
    ultimately show ?thesis by (simp add: sqlite3PutVarint_def GetVarint_eq_ref varint_ref_rec bit_simps)
  next
    case 2
    let ?w = "drop_bit 7 v"
    have "unat ?w < 2 ^ (7 * 7)" using 2 by (simp add: unat_drop_bit)
    then have "length (put_cont ?w) \<le> 7" by (rule length_put_cont_le) simp
    then obtain k where k: "8 = Suc k + length (put_cont ?w)"
      using that [of "7 - length (put_cont ?w)"] by simp
    have "sqlite3GetVarint (sqlite3PutVarint v @ rest) =
      varint_ref (Suc k) (length (put_cont ?w)) ?w (put_cont ?w @ [ucast (v AND 0x7f)] @ rest)"
      unfolding GetVarint_eq_ref k sqlite3PutVarint_mid [OF 2] using ref_put_cont [of "Suc k" ?w "ucast (v AND 0x7f) # rest"] by (simp del: varint_ref.simps)
    also have "\<dots> = (v, Suc (length (put_cont ?w)))"
      by (simp add: at_def glue7 bit_simps)
    finally show ?thesis using sqlite3PutVarint_mid [OF 2] by simp
  next
    case 3
    then show ?thesis by (simp add: sqlite3PutVarint_big varint_roundtrip_big length_put_fixed)
  qed
qed


lemma varint_ref_snd_gt: "i < snd (varint_ref k i acc p)"
  by (induction k i acc p rule: varint_ref.induct) (auto intro: Suc_lessD)

lemma varint_ref_snd_le: "snd (varint_ref k i acc p) \<le> Suc (i + k)"
  by (induction k i acc p rule: varint_ref.induct) auto

lemma varint_ref_cong:
  "(\<And>j. j < snd (varint_ref k i acc p) \<Longrightarrow> at p j = at q j) \<Longrightarrow>
   varint_ref k i acc p = varint_ref k i acc q"
proof (induction k i acc p rule: varint_ref.induct)
  case (1 i acc p)
  then have "at p i = at q i" by simp
  then show ?case by simp
next
  case (2 k i acc p)
  have "i < snd (varint_ref (Suc k) i acc p)"
    using varint_ref_snd_gt by blast
  then have eq: "at p i = at q i" using "2.prems" by blast
  show ?case
  proof (cases "bit (at p i) 7")
    case True
    then show ?thesis using "2.IH" [OF True] "2.prems" eq by simp
  next
    case False
    then show ?thesis using eq by simp
  qed
qed

text \<open>C28. The unrolled decoder equals the byte-at-a-time reference and reads between
  one and nine bytes.\<close>

theorem GetVarint_reference:
  "sqlite3GetVarint p = varint_ref 8 0 0 p \<and> snd (sqlite3GetVarint p) \<in> {1..9}"
  using varint_ref_snd_gt [of 0 8 0 p] varint_ref_snd_le [of 8 0 0 p]
  by (simp add: GetVarint_eq_ref)

text \<open>The decoder looks at no byte past the ones it reports as consumed: two
  buffers that agree on those bytes decode alike.\<close>

theorem GetVarint_no_overread:
  assumes "take (snd (sqlite3GetVarint p)) p = take (snd (sqlite3GetVarint p)) q"
    and "snd (sqlite3GetVarint p) \<le> length p"
  shows "sqlite3GetVarint q = sqlite3GetVarint p"
proof -
  let ?n = "snd (sqlite3GetVarint p)"
  have "length (take ?n p) = length (take ?n q)" using assms(1) by simp
  then have len: "?n \<le> length q" using assms(2) by simp
  have "at p j = at q j" if "j < ?n" for j
    using that assms len by (metis at_take order_less_le_trans)
  then show ?thesis
    unfolding GetVarint_eq_ref by (rule varint_ref_cong [symmetric])
qed

theorem GetVarint_no_overread_witness:
  "sqlite3GetVarint [0x81, 0x05, 0xff] = sqlite3GetVarint [0x81, 0x05, 0x00, 0x07]"
  by (rule GetVarint_no_overread)
     (simp_all add: GetVarint_eq_ref varint_ref_rec bit_simps at_def)

section \<open>Lengths\<close>

lemma varintLen_loop_eq: "varintLen_loop i v = i + length (put_cont v) - 1"
proof (induction i v rule: varintLen_loop.induct)
  case (1 i v)
  then show ?case
    by (subst varintLen_loop.simps, subst put_cont_rec)
       (auto simp: Let_def drop_bit_7_0_iff  put_cont_rec [of "drop_bit 7 v"])
qed

lemma VarintLen_eq: "sqlite3VarintLen v = length (put_cont v)"
  by (simp add: sqlite3VarintLen_def varintLen_loop_eq)

text \<open>C40. \<^verbatim>\<open>sqlite3VarintLen\<close> is the number of bytes the encoder writes for every
  value below \<open>2^63\<close>; above, it says 10 although the encoder writes 9. The
  encoder never writes more than nine bytes.\<close>

theorem varint_len:
  "sqlite3VarintLen v = (if v < 0x8000000000000000 then length (sqlite3PutVarint v) else 10) \<and>
   length (sqlite3PutVarint v) \<le> 9"
proof -
  consider "unat v < 128" | "128 \<le> unat v" "unat v < 2 ^ 56" | "2 ^ 56 \<le> unat v" by linarith
  then show ?thesis
  proof cases
    case 1
    then have "v \<le> 0x7f" "v < 0x8000000000000000" "v < 128" 
      by (simp_all add: word_less_nat_alt word_le_nat_alt)
    then show ?thesis by (simp add: VarintLen_eq put_cont_rec sqlite3PutVarint_def)
  next
    case 2
    then have "length (put_cont v) \<le> 8" using length_put_cont_le [of v 8] by simp
    moreover have "\<not> v < 128" "v < 0x8000000000000000" using 2 by (simp_all add: word_less_nat_alt)
    ultimately show ?thesis using put_cont_rec [of v] by (simp add: VarintLen_eq sqlite3PutVarint_mid [OF 2])
  next
    case 3
    have l9: "length (sqlite3PutVarint v) = 9" using 3 by (simp add: sqlite3PutVarint_big length_put_fixed)
    have gt: "8 < length (put_cont v)" using 3 length_put_cont_gt [of 8 v] by simp
    show ?thesis
    proof (cases "v < 0x8000000000000000")
      case True
      then have "length (put_cont v) \<le> 9"
        using length_put_cont_le [of v 9] by (simp add: word_less_nat_alt)
      with gt l9 True show ?thesis by (simp add: VarintLen_eq)
    next
      case False
      then have "9 < length (put_cont v)"
        using length_put_cont_gt [of 9 v] by (simp add: word_less_nat_alt)
      moreover have "unat v < 2 ^ 64" using unsigned_less [of v] by simp
      then have "unat v < 2 ^ (7 * 10)" by (rule order_less_trans) simp
      then have "length (put_cont v) \<le> 10" using length_put_cont_le [of v 10] by simp
      ultimately show ?thesis using False l9 by (simp add: VarintLen_eq)
    qed
  qed
qed

lemma mask32_iff: "(v AND 0xffffffff = v) \<longleftrightarrow> v < (0x100000000 :: u64)"
  using mask_eq_iff_w2p [of 32 v] by (simp add: word_size mask_eq_exp_minus_1)

lemma GetVarint32_eq:
  assumes "bit (at p 0) 7"
  shows "sqlite3GetVarint32 p =
    (let (v, n) = sqlite3GetVarint p in (if v < 0x100000000 then ucast v else 0xffffffff, n))"
proof -
  consider "\<not> bit (at p 1) 7" | "bit (at p 1) 7" "\<not> bit (at p 2) 7"
    | "bit (at p 1) 7" "bit (at p 2) 7" by blast
  then show ?thesis
  proof cases
    case 1
    let ?v = "push_bit 7 (ucast (at p 0 AND 0x7f)) OR ucast (at p 1) :: u64"
    have "?v AND 0xffffffff = ?v" by (rule u64_bit_eqI) (simp add: bit_simps)
    moreover have "ucast ?v = (push_bit 7 (ucast (at p 0 AND 0x7f)) OR ucast (at p 1) :: u32)"
      by (rule u32_bit_eqI) (simp add: bit_simps)
    ultimately show ?thesis using assms 1
      by (simp add: sqlite3GetVarint32_def GetVarint_eq_ref varint_ref_rec and_0x80_u8 mask32_iff)
  next
    case 2
    let ?v = "push_bit 14 (ucast (at p 0 AND 0x7f)) OR push_bit 7 (ucast (at p 1 AND 0x7f))
      OR ucast (at p 2) :: u64"
    have "?v AND 0xffffffff = ?v" by (rule u64_bit_eqI) (simp add: bit_simps)
    moreover have "ucast ?v = (push_bit 14 (ucast (at p 0 AND 0x7f))
        OR push_bit 7 (ucast (at p 1 AND 0x7f)) OR ucast (at p 2) :: u32)"
      by (rule u32_bit_eqI) (simp add: bit_simps)
    ultimately show ?thesis using assms 2
      by (simp add: sqlite3GetVarint32_def GetVarint_eq_ref varint_ref_rec and_0x80_u8 mask32_iff or.assoc
          numeral_2_eq_2 [symmetric] numeral_3_eq_3 [symmetric])
  next
    case 3
    then show ?thesis
      by (auto simp: sqlite3GetVarint32_def and_0x80_u8 mask32_iff split: prod.splits)
  qed
qed

text \<open>The 32-bit decoder reads the same bytes as the 64-bit one and yields its
  value, saturated at \<open>0xffffffff\<close>.\<close>

theorem getVarint32_saturates:
  "getVarint32 p =
    (let (v, n) = sqlite3GetVarint p in (if v < 0x100000000 then ucast v else 0xffffffff, n))"
proof (cases "bit (at p 0) 7")
  case True
  then show ?thesis by (simp add: getVarint32_def GetVarint32_eq u8_less_0x80)
next
  case False
  have "ucast (at p 0) AND 0xffffffff = (ucast (at p 0) :: u64)"
    by (rule u64_bit_eqI) (simp add: bit_simps)
  moreover have "ucast (ucast (at p 0) :: u64) = (ucast (at p 0) :: u32)"
    by (rule u32_bit_eqI) (simp add: bit_simps)
  ultimately show ?thesis using False
    by (simp add: getVarint32_def GetVarint_eq_ref varint_ref_rec mask32_iff u8_less_0x80)
qed

section \<open>Big-endian words\<close>

lemma Get4byte_Put4byte [simp]: "sqlite3Get4byte (sqlite3Put4byte v @ rest) = v"
  by (rule u32_bit_eqI) (simp add: sqlite3Get4byte_def sqlite3Put4byte_def at_def bit_simps)

lemma length_Put4byte [simp]: "length (sqlite3Put4byte v) = 4"
  by (simp add: sqlite3Put4byte_def)

lemma Put4byte_Get4byte: "sqlite3Put4byte (sqlite3Get4byte p) = [at p 0, at p 1, at p 2, at p 3]"
  by (simp add: sqlite3Get4byte_def sqlite3Put4byte_def)
     (intro conjI; rule u8_bit_eqI; simp add: bit_simps)

text \<open>Reading back a stored 32-bit word gives the word, and storing a word that
  was read gives the four bytes it was read from.\<close>

theorem Put4byte_roundtrip:
  "sqlite3Get4byte (sqlite3Put4byte v @ rest) = v \<and>
   sqlite3Put4byte (sqlite3Get4byte p) = [at p 0, at p 1, at p 2, at p 3]"
  by (simp add: Put4byte_Get4byte)

end
