(* ===== verification/WalFormat.thy ===== *)
theory WalFormat
  imports Varint
begin

unbundle bit_operations_syntax

text \<open>
  The WAL file format of \<^verbatim>\<open>wal.c\<close>: the structures \<^verbatim>\<open>WalIndexHdr\<close> and \<^verbatim>\<open>Wal\<close>,
  the rolling checksum, and the encoding and decoding of frame headers. The host
  is little-endian (\<^verbatim>\<open>SQLITE_BIGENDIAN\<close> is 0). Frame numbers are \<open>nat\<close>: a log of
  \<open>2^32\<close> frames is not considered; page numbers, salts, checksums and counters
  stored in the file are words.
\<close>

section \<open>Structures and constants\<close>

type_synonym Pgno = u32
type_synonym cksum = "u32 \<times> u32"

text \<open>\<^verbatim>\<open>WalIndexHdr\<close>. The salts are kept as the eight bytes they occupy in memory
  and in the file (the code copies them with \<^verbatim>\<open>memcpy\<close>).\<close>

record WalIndexHdr =
  iVersion :: u32
  unused :: u32
  iChange :: u32
  isInit :: u8
  bigEndCksum :: u8
  hdr_szPage :: u16
  mxFrame :: nat
  nPage :: Pgno
  aFrameCksum :: cksum
  aSalt :: bytes
  aCksum :: cksum

text \<open>The connection \<^verbatim>\<open>Wal\<close>. The files and the wal-index it points to are shared
  between connections and kept apart; of \<^verbatim>\<open>apWiData\<close> the record has which
  pointers are set.\<close>

record Wal =
  hdr :: WalIndexHdr
  szPage :: nat
  readLock :: int
  exclusiveMode :: nat
  writeLock :: bool
  ckptLock :: bool
  readOnly :: nat
  truncateOnCommit :: bool
  syncHeader :: bool
  padToSectorBoundary :: bool
  bShmUnreliable :: bool
  minFrame :: nat
  iReCksum :: nat
  nCkpt :: u32
  iCallback :: nat
  mxWalSize :: int
  szFirstBlock :: nat
  apWiData :: "bool list"

text \<open>The zeroed structures, and \<^verbatim>\<open>sqlite3WalOpen\<close>. The allocation, the open of the log
  file (its result code and whether it came back read-only) and the device
  characteristics of the database file are arguments.\<close>

definition hdr_zero :: WalIndexHdr where
  "hdr_zero = \<lparr>iVersion = 0, unused = 0, iChange = 0, isInit = 0, bigEndCksum = 0, hdr_szPage = 0,
    mxFrame = 0, nPage = 0, aFrameCksum = (0, 0), aSalt = replicate 8 0, aCksum = (0, 0)\<rparr>"

definition wal_zero :: Wal where
  "wal_zero = \<lparr>hdr = hdr_zero, szPage = 0, readLock = 0, exclusiveMode = 0, writeLock = False,
    ckptLock = False, readOnly = 0, truncateOnCommit = False, syncHeader = False,
    padToSectorBoundary = False, bShmUnreliable = False, minFrame = 0, iReCksum = 0, nCkpt = 0,
    iCallback = 0, mxWalSize = 0, szFirstBlock = 0, apWiData = []\<rparr>"

abbreviation (input) WAL_NORMAL_MODE :: nat where "WAL_NORMAL_MODE \<equiv> 0"
abbreviation (input) WAL_EXCLUSIVE_MODE :: nat where "WAL_EXCLUSIVE_MODE \<equiv> 1"
abbreviation (input) WAL_HEAPMEMORY_MODE :: nat where "WAL_HEAPMEMORY_MODE \<equiv> 2"
abbreviation (input) WAL_RDWR :: nat where "WAL_RDWR \<equiv> 0"
abbreviation (input) WAL_RDONLY :: nat where "WAL_RDONLY \<equiv> 1"
abbreviation (input) WAL_SHM_RDONLY :: nat where "WAL_SHM_RDONLY \<equiv> 2"

definition sqlite3WalOpen ::
  "bool \<Rightarrow> rc \<times> bool \<Rightarrow> bool \<Rightarrow> bool \<Rightarrow> bool \<Rightarrow> int \<Rightarrow> rc \<times> Wal option" where
  "sqlite3WalOpen mallocOk osOpen iocapSequential iocapPsow bNoShm mxSize =
    (if \<not> mallocOk then (SQLITE_NOMEM, None)
     else
       let pRet = wal_zero\<lparr>readLock := - 1, mxWalSize := mxSize, syncHeader := True,
             padToSectorBoundary := True,
             exclusiveMode := (if bNoShm then WAL_HEAPMEMORY_MODE else WAL_NORMAL_MODE)\<rparr>;
           (rc, ro) = osOpen;
           pRet = (if rc = SQLITE_OK \<and> ro then pRet\<lparr>readOnly := WAL_RDONLY\<rparr> else pRet)
       in if rc \<noteq> SQLITE_OK then (rc, None)
          else
            let pRet = (if iocapSequential then pRet\<lparr>syncHeader := False\<rparr> else pRet);
                pRet = (if iocapPsow then pRet\<lparr>padToSectorBoundary := False\<rparr> else pRet)
            in (rc, Some pRet))"

abbreviation SQLITE_BIGENDIAN :: u8 where "SQLITE_BIGENDIAN \<equiv> 0"
abbreviation (input) WAL_FRAME_HDRSIZE :: nat where "WAL_FRAME_HDRSIZE \<equiv> 24"
abbreviation (input) WAL_HDRSIZE :: nat where "WAL_HDRSIZE \<equiv> 32"
abbreviation (input) WAL_MAGIC :: u32 where "WAL_MAGIC \<equiv> 0x377f0682"
abbreviation (input) WAL_MAX_VERSION :: u32 where "WAL_MAX_VERSION \<equiv> 3007000"
abbreviation (input) WALINDEX_MAX_VERSION :: u32 where "WALINDEX_MAX_VERSION \<equiv> 3007000"

definition walFrameOffset :: "nat \<Rightarrow> nat \<Rightarrow> nat" where
  "walFrameOffset iFrame sz = WAL_HDRSIZE + (iFrame - 1) * (sz + WAL_FRAME_HDRSIZE)"

section \<open>Checksum\<close>

text \<open>The buffer seen through a \<^verbatim>\<open>u32*\<close> on a little-endian host.\<close>

fun le_words :: "bytes \<Rightarrow> u32 list" where
  "le_words (a # b # c # d # r) =
     (ucast a OR push_bit 8 (ucast b) OR push_bit 16 (ucast c) OR push_bit 24 (ucast d))
       # le_words r"
| "le_words _ = []"

definition BYTESWAP32 :: "u32 \<Rightarrow> u32" where
  "BYTESWAP32 x = push_bit 24 (x AND 0x000000FF) + push_bit 8 (x AND 0x0000FF00)
     + drop_bit 8 (x AND 0x00FF0000) + drop_bit 24 (x AND 0xFF000000)"

text \<open>The three loops: byte-swapped, native, and native unrolled sixteen words at a
  time.\<close>

fun cksum_swap :: "u32 list \<Rightarrow> cksum \<Rightarrow> cksum" where
  "cksum_swap (d0 # d1 # ds) (s1, s2) =
     (let s1 = s1 + (BYTESWAP32 d0 + s2); s2 = s2 + (BYTESWAP32 d1 + s1)
      in cksum_swap ds (s1, s2))"
| "cksum_swap _ s = s"

fun cksum_native :: "u32 list \<Rightarrow> cksum \<Rightarrow> cksum" where
  "cksum_native (d0 # d1 # ds) (s1, s2) =
     (let s1 = s1 + (d0 + s2); s2 = s2 + (d1 + s1) in cksum_native ds (s1, s2))"
| "cksum_native _ s = s"

definition cksum_block :: "u32 list \<Rightarrow> cksum \<Rightarrow> cksum" where
  "cksum_block ds s = (case s of (s1, s2) \<Rightarrow>
        let s1 = s1 + (ds ! 0 + s2); s2 = s2 + (ds ! 1 + s1);
            s1 = s1 + (ds ! 2 + s2); s2 = s2 + (ds ! 3 + s1);
            s1 = s1 + (ds ! 4 + s2); s2 = s2 + (ds ! 5 + s1);
            s1 = s1 + (ds ! 6 + s2); s2 = s2 + (ds ! 7 + s1);
            s1 = s1 + (ds ! 8 + s2); s2 = s2 + (ds ! 9 + s1);
            s1 = s1 + (ds ! 10 + s2); s2 = s2 + (ds ! 11 + s1);
            s1 = s1 + (ds ! 12 + s2); s2 = s2 + (ds ! 13 + s1);
            s1 = s1 + (ds ! 14 + s2); s2 = s2 + (ds ! 15 + s1)
        in (s1, s2))"

fun cksum_native64 :: "u32 list \<Rightarrow> cksum \<Rightarrow> cksum" where
  "cksum_native64 ds s =
     (if length ds < 16 then s else cksum_native64 (drop 16 ds) (cksum_block ds s))"

declare cksum_native64.simps [simp del]

definition walChecksumBytes :: "bool \<Rightarrow> bytes \<Rightarrow> nat \<Rightarrow> cksum option \<Rightarrow> cksum" where
  "walChecksumBytes nativeCksum a nByte aIn =
    (let aData = le_words (take nByte a);
         s = (case aIn of Some s \<Rightarrow> s | None \<Rightarrow> (0, 0))
     in if \<not> nativeCksum then cksum_swap aData s
        else if nByte mod 64 = 0 then cksum_native64 aData s
        else cksum_native aData s)"

section \<open>Frame headers\<close>

definition walEncodeFrame :: "Wal \<Rightarrow> u32 \<Rightarrow> u32 \<Rightarrow> bytes \<Rightarrow> bytes \<times> Wal" where
  "walEncodeFrame pWal iPage nTruncate aData =
    (let aFrame = sqlite3Put4byte iPage @ sqlite3Put4byte nTruncate
     in if iReCksum pWal = 0 then
          let aFrame = aFrame @ aSalt (hdr pWal);
              nativeCksum = (bigEndCksum (hdr pWal) = SQLITE_BIGENDIAN);
              c = walChecksumBytes nativeCksum aFrame 8 (Some (aFrameCksum (hdr pWal)));
              c = walChecksumBytes nativeCksum aData (szPage pWal) (Some c);
              aFrame = aFrame @ sqlite3Put4byte (fst c) @ sqlite3Put4byte (snd c)
          in (aFrame, pWal\<lparr>hdr := (hdr pWal)\<lparr>aFrameCksum := c\<rparr>\<rparr>)
        else (aFrame @ replicate 16 0, pWal))"

definition walDecodeFrame ::
  "Wal \<Rightarrow> bytes \<Rightarrow> bytes \<Rightarrow> (u32 \<times> u32) option \<times> Wal" where
  "walDecodeFrame pWal aData aFrame =
    (if aSalt (hdr pWal) \<noteq> take 8 (drop 8 aFrame) then (None, pWal)
     else let pgno = sqlite3Get4byte aFrame
     in if pgno = 0 then (None, pWal)
     else
       let nativeCksum = (bigEndCksum (hdr pWal) = SQLITE_BIGENDIAN);
           c = walChecksumBytes nativeCksum aFrame 8 (Some (aFrameCksum (hdr pWal)));
           c = walChecksumBytes nativeCksum aData (szPage pWal) (Some c);
           pWal = pWal\<lparr>hdr := (hdr pWal)\<lparr>aFrameCksum := c\<rparr>\<rparr>
       in if fst c \<noteq> sqlite3Get4byte (drop 16 aFrame) \<or> snd c \<noteq> sqlite3Get4byte (drop 20 aFrame)
          then (None, pWal)
          else (Some (pgno, sqlite3Get4byte (drop 4 aFrame)), pWal))"

section \<open>The checksum loops agree\<close>

text \<open>Two words of input; every loop is an iteration of this step.\<close>

definition cksum_step :: "u32 \<Rightarrow> u32 \<Rightarrow> cksum \<Rightarrow> cksum" where
  "cksum_step d0 d1 s =
     (case s of (s1, s2) \<Rightarrow> let s1 = s1 + (d0 + s2); s2 = s2 + (d1 + s1) in (s1, s2))"

lemma cksum_native_step [simp]: "cksum_native (d0 # d1 # ds) s = cksum_native ds (cksum_step d0 d1 s)"
  by (cases s) (simp add: cksum_step_def Let_def)

declare cksum_native.simps(1) [simp del]

lemma cksum_native_drop:
  assumes "k + 2 \<le> length ds"
  shows "cksum_native (drop k ds) s = cksum_native (drop (k + 2) ds) (cksum_step (ds ! k) (ds ! (k + 1)) s)"
proof -
  have "drop k ds = ds ! k # ds ! (k + 1) # drop (k + 2) ds"
    using assms by (simp add: Cons_nth_drop_Suc)
  then show ?thesis by simp
qed

lemma cksum_block_steps:
  "cksum_block ds s =
    (cksum_step (ds ! 14) (ds ! 15) (cksum_step (ds ! 12) (ds ! 13)
    (cksum_step (ds ! 10) (ds ! 11) (cksum_step (ds ! 8) (ds ! 9)
    (cksum_step (ds ! 6) (ds ! 7) (cksum_step (ds ! 4) (ds ! 5)
    (cksum_step (ds ! 2) (ds ! 3) (cksum_step (ds ! 0) (ds ! 1) s))))))))"
  by (cases s) (simp only: cksum_block_def cksum_step_def Let_def prod.case)

lemma cksum_native64_eq: "length ds mod 16 = 0 \<Longrightarrow> cksum_native64 ds s = cksum_native ds s"
proof (induction "length ds" arbitrary: ds s rule: less_induct)
  case less
  show ?case
  proof (cases "length ds < 16")
    case True
    then have "ds = []" using less.prems by simp
    then show ?thesis by (simp add: cksum_native64.simps)
  next
    case False
    then have "length (drop 16 ds) mod 16 = 0" "length (drop 16 ds) < length ds"
      using less.prems by (simp_all add: le_mod_geq)
    then show ?thesis
      using False less.hyps [of "drop 16 ds"]
        cksum_native_drop [of 0 ds] cksum_native_drop [of 2 ds] cksum_native_drop [of 4 ds]
        cksum_native_drop [of 6 ds] cksum_native_drop [of 8 ds] cksum_native_drop [of 10 ds]
        cksum_native_drop [of 12 ds] cksum_native_drop [of 14 ds]
      by (simp add: cksum_native64.simps [of ds] cksum_block_steps numeral_2_eq_2 [symmetric])
  qed
qed

text \<open>Words read big-endian, as the format defines the other checksum variant.\<close>

fun be_words :: "bytes \<Rightarrow> u32 list" where
  "be_words (a # b # c # d # r) = sqlite3Get4byte [a, b, c, d] # be_words r"
| "be_words _ = []"

lemma BYTESWAP32_or: "BYTESWAP32 x = push_bit 24 (x AND 0x000000FF) OR push_bit 8 (x AND 0x0000FF00)
     OR drop_bit 8 (x AND 0x00FF0000) OR drop_bit 24 (x AND 0xFF000000)"
proof -
  have *: "p + q = p OR q" if "p AND q = 0" for p q :: u32
    using that by (rule disjunctive_add_eq_or)
  have 1: "push_bit 24 (x AND 0x000000FF) AND push_bit 8 (x AND 0x0000FF00) = 0"
    by (rule u32_bit_eqI) (simp add: bit_simps)
  have 2: "(push_bit 24 (x AND 0x000000FF) OR push_bit 8 (x AND 0x0000FF00))
     AND drop_bit 8 (x AND 0x00FF0000) = 0"
    by (rule u32_bit_eqI) (simp add: bit_simps)
  have 3: "(push_bit 24 (x AND 0x000000FF) OR push_bit 8 (x AND 0x0000FF00)
     OR drop_bit 8 (x AND 0x00FF0000)) AND drop_bit 24 (x AND 0xFF000000) = 0"
    by (rule u32_bit_eqI) (simp add: bit_simps)
  show ?thesis unfolding BYTESWAP32_def using 1 2 3 by (simp add: * or.assoc)
qed

lemma BYTESWAP32_le: "BYTESWAP32 (ucast a OR push_bit 8 (ucast b) OR push_bit 16 (ucast c)
    OR push_bit 24 (ucast d)) = sqlite3Get4byte [a, b, c, d]" for a b c d :: u8
  unfolding BYTESWAP32_or sqlite3Get4byte_def
  by (rule u32_bit_eqI) (simp add: bit_simps at_def)

lemma be_words_eq: "map BYTESWAP32 (le_words a) = be_words a"
  by (induction a rule: le_words.induct) (simp_all add: BYTESWAP32_le)

lemma cksum_swap_step:
  "cksum_swap (d0 # d1 # ds) s = cksum_swap ds (cksum_step (BYTESWAP32 d0) (BYTESWAP32 d1) s)"
  by (cases s) (simp add: cksum_step_def Let_def)

lemma cksum_swap_map: "cksum_swap ds s = cksum_native (map BYTESWAP32 ds) s"
  by (induction ds arbitrary: s rule: induct_list012)
     (simp_all add: cksum_swap_step del: cksum_swap.simps(1))

lemma length_le_words [simp]: "length (le_words a) = length a div 4"
  by (induction a rule: le_words.induct) auto

text \<open>The rolling sum of the format definition: big- or little-endian words, two at a
  time.\<close>

definition wal_words :: "bool \<Rightarrow> bytes \<Rightarrow> u32 list" where
  "wal_words nativeCksum a = (if nativeCksum then le_words a else be_words a)"

lemma walChecksumBytes_eq:
  assumes "nByte = length a" "length a mod 8 = 0"
  shows "walChecksumBytes nativeCksum a nByte (Some s) = cksum_native (wal_words nativeCksum a) s"
proof -
  have "length (le_words a) mod 16 = 0" if "length a mod 64 = 0"
  proof -
    have "64 dvd length a" using that by (simp add: dvd_eq_mod_eq_0)
    then obtain k where "length a = 64 * k" by (rule dvdE)
    then show ?thesis by simp
  qed
  then show ?thesis
    using assms
    by (auto simp: walChecksumBytes_def Let_def cksum_swap_map be_words_eq cksum_native64_eq
        wal_words_def)
qed

section \<open>Streaming and error detection\<close>

lemma le_words_append: "length a mod 4 = 0 \<Longrightarrow> le_words (a @ b) = le_words a @ le_words b"
  by (induction a rule: le_words.induct) simp_all

lemma be_words_append: "length a mod 4 = 0 \<Longrightarrow> be_words (a @ b) = be_words a @ be_words b"
  by (induction a rule: le_words.induct) simp_all

lemma wal_words_append:
  "length a mod 4 = 0 \<Longrightarrow> wal_words n (a @ b) = wal_words n a @ wal_words n b"
  by (simp add: wal_words_def le_words_append be_words_append)

lemma length_wal_words [simp]: "length (wal_words n a) = length a div 4"
  using arg_cong [OF be_words_eq [of a], of length] by (simp add: wal_words_def)

lemma cksum_native_append:
  "even (length a) \<Longrightarrow> cksum_native (a @ b) s = cksum_native b (cksum_native a s)"
  by (induction a arbitrary: s rule: induct_list012) simp_all

text \<open>One step is a bijection of the running sums and injective in the words, so a
  difference is never lost.\<close>

lemma cksum_step_inj:
  assumes "cksum_step d0 d1 s = cksum_step e0 e1 t"
  shows "(d0, d1) = (e0, e1) \<longleftrightarrow> s = t"
proof -
  obtain s1 s2 t1 t2 where st: "s = (s1, s2)" "t = (t1, t2)" by (cases s, cases t)
  have 1: "s1 + (d0 + s2) = t1 + (e0 + t2)"
    and 2: "s2 + (d1 + (s1 + (d0 + s2))) = t2 + (e1 + (t1 + (e0 + t2)))"
    using assms unfolding cksum_step_def st Let_def prod.case prod.inject by blast+
  have 3: "s2 + d1 = t2 + e1"
    using 2 unfolding 1 add.assoc [symmetric, of s2] add.assoc [symmetric, of t2] add_right_cancel .
  show ?thesis
  proof
    assume "(d0, d1) = (e0, e1)"
    then have "s2 = t2" using 3 by (simp only: prod.inject add_right_cancel)
    moreover have "s1 = t1"
      using 1 \<open>(d0, d1) = (e0, e1)\<close> calculation by (simp only: prod.inject add_right_cancel)
    ultimately show "s = t" by (simp add: st)
  next
    assume eq: "s = t"
    then have "d1 = e1" using 3 by (simp only: st prod.inject add_left_cancel)
    moreover have "d0 = e0"
      using 1 eq by (simp only: st prod.inject add_left_cancel add_right_cancel)
    ultimately show "(d0, d1) = (e0, e1)" by simp
  qed
qed

lemma cksum_native_inj: "cksum_native ds s = cksum_native ds t \<Longrightarrow> s = t"
proof (induction ds arbitrary: s t rule: induct_list012)
  case (3 x y zs)
  have "cksum_native zs (cksum_step x y s) = cksum_native zs (cksum_step x y t)"
    using "3.prems" by (simp only: cksum_native_step)
  then have "cksum_step x y s = cksum_step x y t" by (rule "3.IH"(1))
  then show ?case using cksum_step_inj by blast
qed simp_all

lemma le_words_inj:
  assumes "le_words [a, b, c, d] = le_words [a', b', c', d']"
  shows "a = a' \<and> b = b' \<and> c = c' \<and> d = d'"
proof -
  let ?w = "\<lambda>a b c d. ucast a OR push_bit 8 (ucast b) OR push_bit 16 (ucast c)
    OR push_bit 24 (ucast d) :: u32"
  have byte: "(ucast (?w a b c d) :: u8) = a" "(ucast (drop_bit 8 (?w a b c d)) :: u8) = b"
    "(ucast (drop_bit 16 (?w a b c d)) :: u8) = c" "(ucast (drop_bit 24 (?w a b c d)) :: u8) = d"
    for a b c d :: u8
    by (rule u8_bit_eqI, simp add: bit_simps)+
  have "?w a b c d = ?w a' b' c' d'" using assms by simp
  then show ?thesis by (metis byte)
qed

lemma list4_obtain:
  assumes "length x = 4" obtains a b c d where "x = [a, b, c, d]"
  using assms by (auto simp: numeral_eq_Suc length_Suc_conv)

lemma wal_words_4:
  assumes "length x = 4" "length y = 4" "wal_words n x = wal_words n y" shows "x = y"
proof -
  obtain a b c d where x: "x = [a, b, c, d]" using assms(1) by (rule list4_obtain)
  obtain a' b' c' d' where y: "y = [a', b', c', d']" using assms(2) by (rule list4_obtain)
  show ?thesis
  proof (cases n)
    case True
    then show ?thesis
      using assms(3) le_words_inj [of a b c d a' b' c' d'] unfolding x y wal_words_def by simp
  next
    case False
    then have "sqlite3Get4byte x = sqlite3Get4byte y" using assms(3) unfolding x y wal_words_def by simp
    then have "sqlite3Put4byte (sqlite3Get4byte x) = sqlite3Put4byte (sqlite3Get4byte y)" by simp
    then show ?thesis unfolding Put4byte_Get4byte x y by (simp add: at_def)
  qed
qed

lemma wal_words_8:
  assumes "length x = 8"
  obtains d0 d1 where "wal_words n x = [d0, d1]"
    "wal_words n (take 4 x) = [d0]" "wal_words n (drop 4 x) = [d1]"
proof -
  have "wal_words n x = wal_words n (take 4 x) @ wal_words n (drop 4 x)"
    using wal_words_append [of "take 4 x" n "drop 4 x"] assms by simp
  moreover obtain d0 where "wal_words n (take 4 x) = [d0]"
    using length_wal_words [of n "take 4 x"] assms
    by (auto simp: length_Suc_conv simp del: length_wal_words)
  moreover obtain d1 where "wal_words n (drop 4 x) = [d1]"
    using length_wal_words [of n "drop 4 x"] assms
    by (auto simp: length_Suc_conv simp del: length_wal_words)
  ultimately show ?thesis using that by simp
qed

text \<open>A difference confined to one aligned eight-byte block changes the sum.\<close>

lemma cksum_block_differs:
  assumes "length p mod 8 = 0" "length x = 8" "length y = 8" "x \<noteq> y"
  shows "cksum_native (wal_words n (p @ x @ q)) s \<noteq> cksum_native (wal_words n (p @ y @ q)) s"
proof
  assume eq: "cksum_native (wal_words n (p @ x @ q)) s = cksum_native (wal_words n (p @ y @ q)) s"
  obtain d0 d1 where d: "wal_words n x = [d0, d1]" "wal_words n (take 4 x) = [d0]"
    "wal_words n (drop 4 x) = [d1]" using assms(2) by (rule wal_words_8)
  obtain e0 e1 where e: "wal_words n y = [e0, e1]" "wal_words n (take 4 y) = [e0]"
    "wal_words n (drop 4 y) = [e1]" using assms(3) by (rule wal_words_8)
  obtain k where k: "length p = 8 * k" using assms(1) by (metis dvdE dvd_eq_mod_eq_0)
  let ?t = "cksum_native (wal_words n p) s"
  have split: "cksum_native (wal_words n (p @ z @ q)) s =
    cksum_native (wal_words n q) (cksum_native (wal_words n z) ?t)" if "length z = 8" for z
    using that k by (simp add: wal_words_append cksum_native_append)
  have "cksum_native (wal_words n q) (cksum_step d0 d1 ?t)
      = cksum_native (wal_words n q) (cksum_step e0 e1 ?t)"
    using eq assms(2,3) by (simp add: split d e)
  then have "cksum_step d0 d1 ?t = cksum_step e0 e1 ?t" by (rule cksum_native_inj)
  then have "(d0, d1) = (e0, e1)" using cksum_step_inj by blast
  then have "take 4 x = take 4 y" "drop 4 x = drop 4 y"
    using d e assms(2,3) by (auto intro: wal_words_4 [of _ _ n])
  then show False using assms(4) by (metis append_take_drop_id)
qed

section \<open>Properties\<close>

text \<open>C33. The byte-swapping loop, the plain native loop and the loop unrolled sixteen
  words at a time all compute the same rolling sum over the words of the buffer
  in the byte order the WAL header selects.\<close>

theorem walChecksumBytes_reference:
  assumes "length a mod 8 = 0"
  shows "walChecksumBytes nativeCksum a (length a) (Some s) =
    fold (\<lambda>(d0, d1). cksum_step d0 d1)
      (map (\<lambda>i. (wal_words nativeCksum a ! (2 * i), wal_words nativeCksum a ! (2 * i + 1)))
        [0..<length a div 8]) s"
proof -
  have fold: "cksum_native ds s = fold (\<lambda>(d0, d1). cksum_step d0 d1)
      (map (\<lambda>i. (ds ! (2 * i), ds ! (2 * i + 1))) [0..<k]) s" if "length ds = 2 * k" for ds k
    using that
  proof (induction k arbitrary: ds s)
    case (Suc k)
    then obtain d0 d1 ds' where ds: "ds = d0 # d1 # ds'" "length ds' = 2 * k"
      by (auto simp: length_Suc_conv)
    have "[0..<Suc k] = 0 # map Suc [0..<k]"
      by (simp add: map_Suc_upt upt_conv_Cons del: upt_Suc)
    then show ?case using Suc.IH [OF ds(2)] by (simp add: ds(1) comp_def del: upt_Suc)
  qed simp
  obtain k where k: "length a = 8 * k" using assms by (metis dvdE dvd_eq_mod_eq_0)
  then show ?thesis
    using fold [of "wal_words nativeCksum a" k] assms by (simp add: walChecksumBytes_eq)
qed

theorem walChecksumBytes_reference_witness:
  "walChecksumBytes False (replicate 16 1) 16 (Some (0, 0)) =
    fold (\<lambda>(d0, d1). cksum_step d0 d1)
      (map (\<lambda>i. (wal_words False (replicate 16 1) ! (2 * i),
                 wal_words False (replicate 16 1) ! (2 * i + 1))) [0..<2]) (0, 0)"
  using walChecksumBytes_reference [of "replicate 16 1" False "(0, 0)"]
  by (simp only: length_replicate) simp

text \<open>C23. A frame header written by the encoder is accepted by the decoder of a
  connection in the same state, which recovers the page number and the database
  size and ends with the same running checksum.\<close>

theorem walDecode_walEncode:
  assumes "iReCksum pWal = 0" "length (aSalt (hdr pWal)) = 8" "iPage \<noteq> 0"
    and "walEncodeFrame pWal iPage nTruncate aData = (aFrame, pWal')"
  shows "walDecodeFrame pWal aData aFrame = (Some (iPage, nTruncate), pWal') \<and> length aFrame = 24"
proof -
  define n where "n = (bigEndCksum (hdr pWal) = SQLITE_BIGENDIAN)"
  define h where "h = sqlite3Put4byte iPage @ sqlite3Put4byte nTruncate"
  define salt where "salt = aSalt (hdr pWal)"
  define c where "c = walChecksumBytes n aData (szPage pWal)
    (Some (walChecksumBytes n h 8 (Some (aFrameCksum (hdr pWal)))))"
  have lens: "length h = 8" "length salt = 8" using assms(2) by (simp_all add: h_def salt_def)
  have take8: "walChecksumBytes n (h @ r) 8 s = walChecksumBytes n h 8 s" for r s
    using lens by (simp add: walChecksumBytes_def)
  have aFrame: "aFrame = h @ salt @ sqlite3Put4byte (fst c) @ sqlite3Put4byte (snd c)"
    and w': "pWal' = pWal\<lparr>hdr := (hdr pWal)\<lparr>aFrameCksum := c\<rparr>\<rparr>"
    using assms(1,4) take8 unfolding walEncodeFrame_def Let_def
    by (simp_all add: h_def [symmetric] n_def [symmetric] salt_def [symmetric] c_def append_assoc [symmetric] del: append_assoc)
  have "drop 4 aFrame = sqlite3Put4byte nTruncate @ salt @ sqlite3Put4byte (fst c) @ sqlite3Put4byte (snd c)"
    "sqlite3Get4byte aFrame = iPage" "take 8 (drop 8 aFrame) = salt"
    "drop 16 aFrame = sqlite3Put4byte (fst c) @ sqlite3Put4byte (snd c)"
    "drop 20 aFrame = sqlite3Put4byte (snd c) @ []"
    using lens by (simp_all add: aFrame h_def)
  moreover have "walChecksumBytes n aFrame 8 s = walChecksumBytes n h 8 s" for s
    unfolding aFrame by (rule take8)
  ultimately show ?thesis
    using assms(3) lens unfolding walDecodeFrame_def Let_def w' n_def [symmetric] salt_def [symmetric]
    by (simp add: c_def [symmetric] del: append_Nil2) (simp add: aFrame)
qed

theorem walDecode_walEncode_witness:
  "let w = wal_zero\<lparr>szPage := 8\<rparr>; d = [1, 2, 3, 4, 5, 6, 7, 8]
   in walDecodeFrame w d (fst (walEncodeFrame w 7 9 d)) = (Some (7, 9), snd (walEncodeFrame w 7 9 d))"
  using walDecode_walEncode [of "wal_zero\<lparr>szPage := 8\<rparr>" 7 9 "[1, 2, 3, 4, 5, 6, 7, 8]"
      "fst (walEncodeFrame (wal_zero\<lparr>szPage := 8\<rparr>) 7 9 [1, 2, 3, 4, 5, 6, 7, 8])"
      "snd (walEncodeFrame (wal_zero\<lparr>szPage := 8\<rparr>) 7 9 [1, 2, 3, 4, 5, 6, 7, 8])"]
  by (simp add: wal_zero_def hdr_zero_def)

lemma walDecodeFrame_accepts:
  assumes "fst (walDecodeFrame pWal aData aFrame) = Some r"
  defines "n \<equiv> bigEndCksum (hdr pWal) = SQLITE_BIGENDIAN"
  shows "walChecksumBytes n aData (szPage pWal)
      (Some (walChecksumBytes n aFrame 8 (Some (aFrameCksum (hdr pWal))))) =
    (sqlite3Get4byte (drop 16 aFrame), sqlite3Get4byte (drop 20 aFrame))"
  using assms(1) unfolding n_def walDecodeFrame_def Let_def
  by (auto split: if_splits intro!: prod_eqI)

lemma walDecodeFrame_Some:
  assumes "fst (walDecodeFrame pWal aData aFrame) = Some r"
    and "length aData = szPage pWal" "szPage pWal mod 8 = 0" "8 \<le> length aFrame"
  defines "n \<equiv> bigEndCksum (hdr pWal) = SQLITE_BIGENDIAN"
  shows "cksum_native (wal_words n aData)
      (cksum_native (wal_words n (take 8 aFrame)) (aFrameCksum (hdr pWal))) =
    (sqlite3Get4byte (drop 16 aFrame), sqlite3Get4byte (drop 20 aFrame))"
proof -
  have "walChecksumBytes n aFrame 8 (Some s) = cksum_native (wal_words n (take 8 aFrame)) s" for s
    using walChecksumBytes_eq [of 8 "take 8 aFrame" n s] assms(4)
    by (simp add: walChecksumBytes_def)
  moreover have "walChecksumBytes n aData (szPage pWal) (Some s) = cksum_native (wal_words n aData) s"
    for s using walChecksumBytes_eq [of "szPage pWal" aData n s] assms(2,3) by simp
  ultimately show ?thesis
    using walDecodeFrame_accepts [OF assms(1)] unfolding n_def by (simp only:)
qed

lemma walDecode_data_detected:
  assumes "fst (walDecodeFrame pWal (p @ x @ q) aFrame) = Some r"
    and "length (p @ x @ q) = szPage pWal" "szPage pWal mod 8 = 0" "length p mod 8 = 0"
    and "length x = 8" "length y = 8" "8 \<le> length aFrame" "x \<noteq> y"
  shows "fst (walDecodeFrame pWal (p @ y @ q) aFrame) = None"
proof (rule ccontr)
  assume "fst (walDecodeFrame pWal (p @ y @ q) aFrame) \<noteq> None"
  then obtain r' where r': "fst (walDecodeFrame pWal (p @ y @ q) aFrame) = Some r'" by auto
  have len: "length (p @ y @ q) = szPage pWal" using assms by simp
  show False
    using walDecodeFrame_Some [OF assms(1-3,7)] walDecodeFrame_Some [OF r' len assms(3,7)]
      cksum_block_differs [OF assms(4,5,6,8)] by metis
qed

lemma walDecode_header_detected:
  assumes "fst (walDecodeFrame pWal aData (h @ t)) = Some r"
    and "length aData = szPage pWal" "szPage pWal mod 8 = 0"
    and "length h = 8" "length g = 8" "h \<noteq> g"
  shows "fst (walDecodeFrame pWal aData (g @ t)) = None"
proof (rule ccontr)
  define n where "n = (bigEndCksum (hdr pWal) = SQLITE_BIGENDIAN)"
  assume "fst (walDecodeFrame pWal aData (g @ t)) \<noteq> None"
  then obtain r' where r': "fst (walDecodeFrame pWal aData (g @ t)) = Some r'" by auto
  have "cksum_native (wal_words n aData) (cksum_native (wal_words n h) (aFrameCksum (hdr pWal))) =
    cksum_native (wal_words n aData) (cksum_native (wal_words n g) (aFrameCksum (hdr pWal)))"
    using walDecodeFrame_Some [OF assms(1-3)] walDecodeFrame_Some [OF r' assms(2,3)] assms(4,5)
    by (simp add: n_def)
  then have "cksum_native (wal_words n h) (aFrameCksum (hdr pWal)) =
    cksum_native (wal_words n g) (aFrameCksum (hdr pWal))" by (rule cksum_native_inj)
  then show False using cksum_block_differs [of "[]" h g n "[]"] assms(4-6) by simp
qed

lemma walDecode_salt_detected:
  assumes "fst (walDecodeFrame pWal aData (h @ s @ k)) = Some r" "length h = 8" "length s = 8" "length s' = 8" "s \<noteq> s'"
  shows "fst (walDecodeFrame pWal aData (h @ s' @ k)) = None"
proof -
  have "aSalt (hdr pWal) = s" using assms(1-3) by (auto simp: walDecodeFrame_def split: if_splits)
  then show ?thesis using assms(2-5) by (simp add: walDecodeFrame_def)
qed

lemma Get4byte_inj:
  assumes "length k = 8" "length k' = 8" "sqlite3Get4byte k = sqlite3Get4byte k'"
    and "sqlite3Get4byte (drop 4 k) = sqlite3Get4byte (drop 4 k')"
  shows "k = k'"
proof -
  have "p = sqlite3Put4byte (sqlite3Get4byte p) @ sqlite3Put4byte (sqlite3Get4byte (drop 4 p))" if "length p = 8" for p
    using that unfolding Put4byte_Get4byte by (auto simp: at_def numeral_eq_Suc length_Suc_conv)
  then show ?thesis using assms by metis
qed

lemma walDecode_cksum_detected:
  assumes "fst (walDecodeFrame pWal aData (h @ s @ k)) = Some r" "length h = 8" "length s = 8"
    and "length k = 8" "length k' = 8" "k \<noteq> k'"
  shows "fst (walDecodeFrame pWal aData (h @ s @ k')) = None"
proof (rule ccontr)
  assume "fst (walDecodeFrame pWal aData (h @ s @ k')) \<noteq> None"
  then obtain r' where r': "fst (walDecodeFrame pWal aData (h @ s @ k')) = Some r'" by auto
  have "walChecksumBytes n (h @ t) 8 c = walChecksumBytes n h 8 c" for n t c
    using assms(2) by (simp add: walChecksumBytes_def)
  then have "(sqlite3Get4byte k, sqlite3Get4byte (drop 4 k)) = (sqlite3Get4byte k', sqlite3Get4byte (drop 4 k'))"
    using walDecodeFrame_accepts [OF assms(1)] walDecodeFrame_accepts [OF r'] assms(2,3) by simp
  then show False using Get4byte_inj [OF assms(4,5)] assms(6) by simp
qed



end
