(* ===== verification/WalIndex.thy ===== *)
theory WalIndex
  imports WalFormat
begin

unbundle bit_operations_syntax

text \<open>
  The wal-index of \<^verbatim>\<open>wal.c\<close>: the mapping of its 32 KB pages, the page-number
  arrays and hash tables on them, and the search for the latest frame of a
  database page. The arrays in shared memory are functions from subscripts to
  values. The index is shown to represent the list of page numbers of the log:
  \<open>walIndexAppend\<close> appends to it, \<open>walCleanupHash\<close> truncates it and \<open>walFindFrame\<close>
  is a search for the last occurrence.
\<close>

section \<open>Pages of the wal-index\<close>

abbreviation (input) HASHTABLE_NPAGE :: nat where "HASHTABLE_NPAGE \<equiv> 4096"
abbreviation (input) HASHTABLE_NSLOT :: nat where "HASHTABLE_NSLOT \<equiv> 8192"
abbreviation (input) HASHTABLE_NPAGE_ONE :: nat where "HASHTABLE_NPAGE_ONE \<equiv> 4062"
abbreviation (input) HASHTABLE_HASH_1 :: u32 where "HASHTABLE_HASH_1 \<equiv> 383"

text \<open>One page: \<open>aPgno\<close> (on page 0 counted from behind the header) and \<open>aHash\<close>, whose
  slots are one more than a subscript of \<open>aPgno\<close>, or 0.\<close>

record wi_page =
  aPgno :: "nat \<Rightarrow> u32"
  aHash :: "nat \<Rightarrow> nat"

type_synonym wi = "nat \<Rightarrow> wi_page"

definition zero_page :: wi_page where
  "zero_page = \<lparr>aPgno = (\<lambda>_. 0), aHash = (\<lambda>_. 0)\<rparr>"

text \<open>What the connection asks of its environment to map a page: whether
  \<^verbatim>\<open>sqlite3Realloc\<close> and \<^verbatim>\<open>sqlite3MallocZero\<close> succeed, and the VFS method \<^verbatim>\<open>xShmMap\<close>
  (page number and whether to extend; result code and whether the pointer is set).\<close>

record shm_env =
  mallocOk :: bool
  xShmMap :: "nat \<Rightarrow> bool \<Rightarrow> rc \<times> bool"

definition apGrow :: "bool list \<Rightarrow> nat \<Rightarrow> bool list" where
  "apGrow ap iPage =
     (if length ap \<le> iPage then ap @ replicate (iPage + 1 - length ap) False else ap)"

definition walIndexPageRealloc ::
  "'e shm_env_scheme \<Rightarrow> Wal \<Rightarrow> nat \<Rightarrow> rc \<times> bool \<times> Wal" where
  "walIndexPageRealloc E pWal iPage =
    (if length (apWiData pWal) \<le> iPage \<and> \<not> mallocOk E then (SQLITE_NOMEM, False, pWal)
     else
       let ap = apGrow (apWiData pWal) iPage
       in if exclusiveMode pWal = WAL_HEAPMEMORY_MODE then
            (if mallocOk E then (SQLITE_OK, True, pWal\<lparr>apWiData := ap[iPage := True]\<rparr>)
             else (SQLITE_NOMEM, False, pWal\<lparr>apWiData := ap\<rparr>))
          else
            let (rc, p) = xShmMap E iPage (writeLock pWal);
                pWal = pWal\<lparr>apWiData := ap[iPage := p]\<rparr>
            in if rc = SQLITE_OK then (rc, p, pWal)
               else if rc mod 256 = SQLITE_READONLY then
                 (if rc = SQLITE_READONLY then SQLITE_OK else rc, p,
                  pWal\<lparr>readOnly := readOnly pWal OR WAL_SHM_RDONLY\<rparr>)
               else (rc, p, pWal))"

definition walIndexPage ::
  "'e shm_env_scheme \<Rightarrow> Wal \<Rightarrow> nat \<Rightarrow> rc \<times> bool \<times> Wal" where
  "walIndexPage E pWal iPage =
    (if length (apWiData pWal) \<le> iPage \<or> \<not> apWiData pWal ! iPage
     then walIndexPageRealloc E pWal iPage
     else (SQLITE_OK, True, pWal))"

section \<open>Hash tables\<close>

definition walHash :: "u32 \<Rightarrow> nat" where
  "walHash iPage = unat ((iPage * HASHTABLE_HASH_1) AND 8191)"

definition walNextHash :: "nat \<Rightarrow> nat" where
  "walNextHash iPriorHash = (iPriorHash + 1) AND (HASHTABLE_NSLOT - 1)"

text \<open>\<^verbatim>\<open>WalHashLoc\<close>: the pointers \<^verbatim>\<open>aHash\<close> and \<^verbatim>\<open>aPgno\<close> are given by the number of the
  page they point into.\<close>

record WalHashLoc =
  loc_page :: nat
  iZero :: nat

definition walHashGet ::
  "'e shm_env_scheme \<Rightarrow> Wal \<Rightarrow> nat \<Rightarrow> rc \<times> WalHashLoc \<times> Wal" where
  "walHashGet E pWal iHash =
    (let (rc, p, pWal) = walIndexPage E pWal iHash;
         z = (if iHash = 0 then 0 else HASHTABLE_NPAGE_ONE + (iHash - 1) * HASHTABLE_NPAGE);
         loc = \<lparr>loc_page = iHash, iZero = z\<rparr>
     in if p then (rc, loc, pWal)
        else if rc = SQLITE_OK then (SQLITE_ERROR, loc, pWal)
        else (rc, loc, pWal))"

definition walFramePage :: "nat \<Rightarrow> nat" where
  "walFramePage iFrame =
     (iFrame + HASHTABLE_NPAGE - HASHTABLE_NPAGE_ONE - 1) div HASHTABLE_NPAGE"

definition walFramePgno ::
  "'e shm_env_scheme \<Rightarrow> wi \<Rightarrow> Wal \<Rightarrow> nat \<Rightarrow> u32 \<times> Wal" where
  "walFramePgno E W pWal iFrame =
    (let iHash = walFramePage iFrame
     in if iHash = 0 then (aPgno (W 0) (iFrame - 1), pWal)
        else
          let (rc, p, pWal) = walIndexPage E pWal iHash
          in if rc \<noteq> SQLITE_OK then (0, pWal)
             else (aPgno (W iHash) ((iFrame - 1 - HASHTABLE_NPAGE_ONE) mod HASHTABLE_NPAGE), pWal))"

text \<open>\<^verbatim>\<open>walCleanupHash\<close>: on the page found, the loop over the slots and the \<^verbatim>\<open>memset\<close> of
  the rest of \<^verbatim>\<open>aPgno\<close>.\<close>

definition cleanup_page :: "wi_page \<Rightarrow> nat \<Rightarrow> wi_page" where
  "cleanup_page p iLimit = p
     \<lparr>aHash := (\<lambda>i. if i < HASHTABLE_NSLOT \<and> aHash p i > iLimit then 0 else aHash p i),
      aPgno := (\<lambda>j. if iLimit \<le> j then 0 else aPgno p j)\<rparr>"

definition walCleanupHash ::
  "'e shm_env_scheme \<Rightarrow> wi \<Rightarrow> Wal \<Rightarrow> wi \<times> Wal" where
  "walCleanupHash E W pWal =
    (let mx = mxFrame (hdr pWal)
     in if mx = 0 then (W, pWal)
     else
       let (rc, sLoc, pWal) = walHashGet E pWal (walFramePage mx)
       in if rc \<noteq> SQLITE_OK then (W, pWal)
          else (W(loc_page sLoc := cleanup_page (W (loc_page sLoc)) (mx - iZero sLoc)), pWal))"

text \<open>The \<^verbatim>\<open>for\<close> loop of \<^verbatim>\<open>walIndexAppend\<close> that looks for a free slot; \<open>None\<close> is the
  return of \<^verbatim>\<open>SQLITE_CORRUPT\<close>.\<close>

fun append_probe :: "(nat \<Rightarrow> nat) \<Rightarrow> nat \<Rightarrow> nat \<Rightarrow> nat option" where
  "append_probe aH iKey nCollide =
    (if aH iKey = 0 then Some iKey
     else if nCollide = 0 then None
     else append_probe aH (walNextHash iKey) (nCollide - 1))"

declare append_probe.simps [simp del]

definition append_page :: "wi_page \<Rightarrow> nat \<Rightarrow> nat \<Rightarrow> u32 \<Rightarrow> wi_page" where
  "append_page p idx iKey iPage = p
     \<lparr>aPgno := (aPgno p)(idx - 1 := iPage), aHash := (aHash p)(iKey := idx mod 65536)\<rparr>"

definition walIndexAppend ::
  "'e shm_env_scheme \<Rightarrow> wi \<Rightarrow> Wal \<Rightarrow> nat \<Rightarrow> u32 \<Rightarrow> rc \<times> wi \<times> Wal" where
  "walIndexAppend E W pWal iFrame iPage =
    (let (rc, sLoc, pWal) = walHashGet E pWal (walFramePage iFrame)
     in if rc \<noteq> SQLITE_OK then (rc, W, pWal)
     else
       let h = loc_page sLoc;
           idx = iFrame - iZero sLoc;
           W = (if idx = 1 then W(h := zero_page) else W);
           (W, pWal) = (if aPgno (W h) (idx - 1) \<noteq> 0 then walCleanupHash E W pWal else (W, pWal))
       in case append_probe (aHash (W h)) (walHash iPage) idx of
            None \<Rightarrow> (SQLITE_CORRUPT, W, pWal)
          | Some iKey \<Rightarrow> (rc, W(h := append_page (W h) idx iKey iPage), pWal))"

text \<open>\<^verbatim>\<open>walFindFrame\<close>: the loop over one chain (\<open>None\<close> is \<^verbatim>\<open>SQLITE_CORRUPT\<close>), the loop
  over the hash tables from the newest down to \<open>iMinHash\<close> (\<open>k\<close> tables to go), and
  the routine.\<close>

fun find_probe :: "wi_page \<Rightarrow> nat \<Rightarrow> nat \<Rightarrow> u32 \<Rightarrow> nat \<Rightarrow> nat \<Rightarrow> nat \<Rightarrow> nat \<Rightarrow> nat option" where
  "find_probe p z minF pgno iLast iKey nCollide iRead =
    (let iH = aHash p iKey
     in if iH = 0 then Some iRead
     else
       let iFrame = iH + z;
           iRead = (if iFrame \<le> iLast \<and> iFrame \<ge> minF \<and> aPgno p (iH - 1) = pgno
                    then iFrame else iRead)
       in if nCollide = 0 then None
          else find_probe p z minF pgno iLast (walNextHash iKey) (nCollide - 1) iRead)"

declare find_probe.simps [simp del]

primrec find_tables ::
  "nat \<Rightarrow> 'e shm_env_scheme \<Rightarrow> wi \<Rightarrow> Wal \<Rightarrow> u32 \<Rightarrow> nat \<Rightarrow> nat \<Rightarrow> rc \<times> nat \<times> Wal" where
  "find_tables 0 E W pWal pgno iLast iMinHash = (SQLITE_OK, 0, pWal)"
| "find_tables (Suc k) E W pWal pgno iLast iMinHash =
    (let (rc, sLoc, pWal) = walHashGet E pWal (iMinHash + k)
     in if rc \<noteq> SQLITE_OK then (rc, 0, pWal)
     else
       case find_probe (W (loc_page sLoc)) (iZero sLoc) (minFrame pWal) pgno iLast
              (walHash pgno) HASHTABLE_NSLOT 0 of
         None \<Rightarrow> (SQLITE_CORRUPT, 0, pWal)
       | Some iRead \<Rightarrow>
           if iRead \<noteq> 0 then (SQLITE_OK, iRead, pWal)
           else find_tables k E W pWal pgno iLast iMinHash)"

definition walFindFrame ::
  "'e shm_env_scheme \<Rightarrow> wi \<Rightarrow> Wal \<Rightarrow> u32 \<Rightarrow> nat \<Rightarrow> rc \<times> nat \<times> Wal" where
  "walFindFrame E W pWal pgno iLast =
    (if iLast = 0 \<or> (readLock pWal = 0 \<and> \<not> bShmUnreliable pWal) then (SQLITE_OK, 0, pWal)
     else
       let iMinHash = walFramePage (minFrame pWal)
       in find_tables (walFramePage iLast + 1 - iMinHash) E W pWal pgno iLast iMinHash)"

definition sqlite3WalFindFrame ::
  "'e shm_env_scheme \<Rightarrow> wi \<Rightarrow> Wal \<Rightarrow> u32 \<Rightarrow> rc \<times> nat \<times> Wal" where
  "sqlite3WalFindFrame E W pWal pgno = walFindFrame E W pWal pgno (mxFrame (hdr pWal))"

text \<open>The linear search of the \<^verbatim>\<open>SQLITE_ENABLE_EXPENSIVE_ASSERT\<close> block, over the list of
  page numbers of the log: the specification of \<^verbatim>\<open>walFindFrame\<close>.\<close>

fun find_linear :: "u32 list \<Rightarrow> u32 \<Rightarrow> nat \<Rightarrow> nat \<Rightarrow> nat" where
  "find_linear log pgno minF iTest =
    (if iTest < minF \<or> iTest = 0 then 0
     else if log ! (iTest - 1) = pgno then iTest
     else find_linear log pgno minF (iTest - 1))"

declare find_linear.simps [simp del]

section \<open>Arithmetic of frames, tables and slots\<close>

text \<open>The number of frames before table \<open>i\<close> and the capacity of table \<open>i\<close>.\<close>

definition ht_zero :: "nat \<Rightarrow> nat" where
  "ht_zero i = (if i = 0 then 0 else HASHTABLE_NPAGE_ONE + (i - 1) * HASHTABLE_NPAGE)"

definition ht_cap :: "nat \<Rightarrow> nat" where
  "ht_cap i = (if i = 0 then HASHTABLE_NPAGE_ONE else HASHTABLE_NPAGE)"

lemma ht_zero_Suc: "ht_zero (Suc i) = ht_zero i + ht_cap i"
  by (cases i) (simp_all add: ht_zero_def ht_cap_def)

lemma ht_cap_le [simp]: "ht_cap i \<le> 4096" and ht_cap_pos [simp]: "0 < ht_cap i"
  by (simp_all add: ht_cap_def)

lemma ht_zero_mono: "i \<le> j \<Longrightarrow> ht_zero i \<le> ht_zero j"
  by (induction j) (auto simp: ht_zero_Suc le_Suc_eq)

lemma walFramePage_bounds:
  assumes "0 < f"
  shows "ht_zero (walFramePage f) < f \<and> f \<le> ht_zero (walFramePage f) + ht_cap (walFramePage f)"
proof -
  let ?i = "walFramePage f"
  have d: "4096 * ?i \<le> f + 33" "f + 33 < 4096 * ?i + 4096"
    by (simp_all add: walFramePage_def)
  show ?thesis
  proof (cases ?i)
    case 0
    then show ?thesis using d assms by (simp add: ht_zero_def ht_cap_def)
  next
    case (Suc k)
    then show ?thesis using d unfolding ht_zero_def ht_cap_def by simp
  qed
qed

lemma walFramePage_unique:
  assumes "ht_zero i < f" "f \<le> ht_zero i + ht_cap i"
  shows "walFramePage f = i"
proof -
  have b: "ht_zero (walFramePage f) < f" "f \<le> ht_zero (walFramePage f) + ht_cap (walFramePage f)"
    using walFramePage_bounds [of f] assms by simp_all
  show ?thesis
  proof (rule ccontr)
    assume "walFramePage f \<noteq> i"
    then consider "Suc (walFramePage f) \<le> i" | "Suc i \<le> walFramePage f" by linarith
    then show False
      using ht_zero_mono [of "Suc (walFramePage f)" i] ht_zero_mono [of "Suc i" "walFramePage f"] b assms
      by cases (simp_all add: ht_zero_Suc)
  qed
qed

lemma nat_and_8191: "(n :: nat) AND 8191 = n mod 8192"
proof -
  have "mask 13 = (8191 :: nat)" by (simp add: mask_eq_exp_minus_1)
  then show ?thesis using take_bit_eq_mask [of 13 n] by (simp add: take_bit_eq_mod)
qed

lemma walHash_less [simp]: "walHash pg < 8192"
proof -
  have "mask 13 = (8191 :: u32)" by (simp add: mask_eq_exp_minus_1)
  then have "(pg * 383) AND 8191 < 2 ^ 13"
    using and_mask_less_size [of 13 "pg * 383"] by (simp add: word_size)
  then show ?thesis by (simp add: walHash_def word_less_nat_alt)
qed

text \<open>The \<open>d\<close>-th slot probed from \<open>h\<close>.\<close>

definition slot :: "nat \<Rightarrow> nat \<Rightarrow> nat" where
  "slot h d = (h + d) mod 8192"

lemma slot_0 [simp]: "h < 8192 \<Longrightarrow> slot h 0 = h"
  by (simp add: slot_def)

lemma slot_less [simp]: "slot h d < 8192"
  by (simp add: slot_def)

lemma walNextHash_slot [simp]: "walNextHash (slot h d) = slot h (Suc d)"
  by (simp add: walNextHash_def nat_and_8191 slot_def mod_Suc_eq)

lemma slot_inj_le:
  assumes "slot h d = slot h e" "d \<le> e" "e < 8192"
  shows "d = e"
proof -
  have "8192 dvd (h + e) - (h + d)"
    using assms(1,2) mod_eq_dvd_iff_nat [of "h + d" "h + e" 8192] by (simp add: slot_def)
  then have "8192 dvd e - d" by simp
  then show ?thesis using assms(2,3) by (auto dest: dvd_imp_le)
qed

lemma slot_inj: "slot h d = slot h e \<Longrightarrow> d < 8192 \<Longrightarrow> e < 8192 \<Longrightarrow> d = e"
  using slot_inj_le [of h d e] slot_inj_le [of h e d] by (cases "d \<le> e") simp_all

section \<open>Invariant of one hash table\<close>

text \<open>Entry \<open>v\<close> is found \<open>d\<close> slots after its home slot \<open>h\<close>, and all slots in between
  hold older entries.\<close>

definition reaches :: "(nat \<Rightarrow> nat) \<Rightarrow> nat \<Rightarrow> nat \<Rightarrow> nat \<Rightarrow> bool" where
  "reaches aH h v d \<longleftrightarrow>
     d < 8192 \<and> aH (slot h d) = v \<and> (\<forall>e<d. aH (slot h e) \<noteq> 0 \<and> aH (slot h e) < v)"

text \<open>The table holds exactly the entries \<open>1..m\<close>, each in one slot and reachable.\<close>

definition ht_inv :: "wi_page \<Rightarrow> nat \<Rightarrow> bool" where
  "ht_inv p m \<longleftrightarrow> m \<le> 4096 \<and>
     (\<forall>k<8192. aHash p k \<le> m) \<and>
     (\<forall>k<8192. \<forall>l<8192. aHash p k = aHash p l \<and> aHash p k \<noteq> 0 \<longrightarrow> k = l) \<and>
     (\<forall>j<m. aPgno p j \<noteq> 0 \<and> (\<exists>d. reaches (aHash p) (walHash (aPgno p j)) (Suc j) d)) \<and>
     (\<forall>j\<ge>m. aPgno p j = 0)"

lemma ht_inv_D:
  assumes "ht_inv p m"
  shows "m \<le> 4096" "k < 8192 \<Longrightarrow> aHash p k \<le> m"
    "aHash p k = aHash p l \<Longrightarrow> aHash p k \<noteq> 0 \<Longrightarrow> k < 8192 \<Longrightarrow> l < 8192 \<Longrightarrow> k = l"
    "j < m \<Longrightarrow> aPgno p j \<noteq> 0"
    "j < m \<Longrightarrow> \<exists>d. reaches (aHash p) (walHash (aPgno p j)) (Suc j) d"
    "m \<le> j \<Longrightarrow> aPgno p j = 0"
  using assms unfolding ht_inv_def by blast+

lemma ht_inv_reach:
  assumes "ht_inv p m" "0 < v" "v \<le> m" "aPgno p (v - 1) = pg"
  shows "\<exists>d. reaches (aHash p) (walHash pg) v d"
  using ht_inv_D(5) [OF assms(1), of "v - 1"] assms(2-4) by (cases v) auto

lemma ht_inv_I:
  assumes "m \<le> 4096" "\<And>k. k < 8192 \<Longrightarrow> aHash p k \<le> m"
    "\<And>k l. aHash p k = aHash p l \<Longrightarrow> aHash p k \<noteq> 0 \<Longrightarrow> k < 8192 \<Longrightarrow> l < 8192 \<Longrightarrow> k = l"
    "\<And>j. j < m \<Longrightarrow> aPgno p j \<noteq> 0"
    "\<And>j. j < m \<Longrightarrow> \<exists>d. reaches (aHash p) (walHash (aPgno p j)) (Suc j) d"
    "\<And>j. m \<le> j \<Longrightarrow> aPgno p j = 0"
  shows "ht_inv p m"
  using assms unfolding ht_inv_def by blast

lemma ht_inv_zero_page: "ht_inv zero_page 0"
  by (simp add: ht_inv_def zero_page_def)

text \<open>At most \<open>m\<close> slots are taken, so a probe sequence meets a free slot within
  \<open>m\<close> steps.\<close>

lemma ht_inv_not_full:
  assumes "ht_inv p m" and nz: "\<And>d. d \<le> m \<Longrightarrow> aHash p (slot h d) \<noteq> 0"
  shows False
proof -
  have inj: "inj_on (\<lambda>d. aHash p (slot h d)) {..m}"
  proof (rule inj_onI)
    fix d e assume de: "d \<in> {..m}" "e \<in> {..m}" "aHash p (slot h d) = aHash p (slot h e)"
    have "slot h d = slot h e"
      using de nz [of d] by (intro ht_inv_D(3) [OF assms(1) de(3)]) auto
    moreover have "d < 8192" "e < 8192" using de ht_inv_D(1) [OF assms(1)] by simp_all
    ultimately show "d = e" by (rule slot_inj)
  qed
  have "(\<lambda>d. aHash p (slot h d)) ` {..m} \<subseteq> {1..m}"
  proof (rule image_subsetI)
    fix d assume "d \<in> {..m}"
    then show "aHash p (slot h d) \<in> {1..m}"
      using nz [of d] ht_inv_D(2) [OF assms(1), of "slot h d"] by simp
  qed
  then have "card {..m} \<le> card {1..m}" by (rule card_inj_on_le [OF inj]) simp
  then show False by simp
qed

lemma ht_inv_free_slot:
  assumes "ht_inv p m"
  shows "\<exists>d\<le>m. aHash p (slot h d) = 0 \<and> (\<forall>e<d. aHash p (slot h e) \<noteq> 0)"
proof (rule first_below, rule ccontr)
  assume no: "\<not> (\<exists>d\<le>m. aHash p (slot h d) = 0)"
  have "aHash p (slot h d) \<noteq> 0" if "d \<le> m" for d using no that by simp
  then show False by (rule ht_inv_not_full [OF assms])
qed

lemma append_probe_eq:
  "aH (slot h (b + d)) = 0 \<Longrightarrow> (\<And>e. e < d \<Longrightarrow> aH (slot h (b + e)) \<noteq> 0) \<Longrightarrow> d \<le> n \<Longrightarrow>
   append_probe aH (slot h b) n = Some (slot h (b + d))"
proof (induction d arbitrary: b n)
  case 0
  then show ?case by (simp add: append_probe.simps)
next
  case (Suc d)
  have "aH (slot h b) \<noteq> 0" using Suc.prems(2) [of 0] by simp
  moreover have "append_probe aH (slot h (Suc b)) (n - 1) = Some (slot h (Suc b + d))"
    using Suc.prems(1,3) Suc.prems(2) [of "Suc _"] by (intro Suc.IH) auto
  ultimately show ?case using Suc.prems(3) by (subst append_probe.simps) auto
qed

text \<open>Storing entry \<open>m + 1\<close> in the first free slot of its chain.\<close>

lemma ht_inv_insert:
  assumes inv: "ht_inv p m" and "m < 4096" "pg \<noteq> 0"
    and d: "d \<le> m" "aHash p (slot (walHash pg) d) = 0"
      "\<And>e. e < d \<Longrightarrow> aHash p (slot (walHash pg) e) \<noteq> 0"
  shows "ht_inv (p\<lparr>aPgno := (aPgno p)(m := pg), aHash := (aHash p)(slot (walHash pg) d := Suc m)\<rparr>) (Suc m)"
    (is "ht_inv ?p (Suc m)")
proof -
  let ?k = "slot (walHash pg) d"
  note le = ht_inv_D(2) [OF inv]
  have old: "\<exists>d. reaches (aHash ?p) (walHash (aPgno p j)) (Suc j) d" if "j < m" for j
  proof -
    obtain d' where r: "reaches (aHash p) (walHash (aPgno p j)) (Suc j) d'"
      using ht_inv_D(5) [OF inv \<open>j < m\<close>] by blast
    have "slot (walHash (aPgno p j)) e \<noteq> ?k" if "e \<le> d'" for e
      using r d(2) that unfolding reaches_def le_less by auto
    then have "reaches (aHash ?p) (walHash (aPgno p j)) (Suc j) d'"
      using r unfolding reaches_def by auto
    then show ?thesis by blast
  qed
  have new: "reaches (aHash ?p) (walHash pg) (Suc m) d"
  proof -
    have "d < 8192" using d(1) \<open>m < 4096\<close> by simp
    moreover have "slot (walHash pg) e \<noteq> ?k" if "e < d" for e
      using that calculation slot_inj [of "walHash pg" e d] by auto
    ultimately show ?thesis using d(3) le by (auto simp: reaches_def less_Suc_eq_le)
  qed
  show ?thesis
  proof (rule ht_inv_I)
    fix k l assume kl: "aHash ?p k = aHash ?p l" "aHash ?p k \<noteq> 0" "k < 8192" "l < 8192"
    show "k = l"
      using kl le [of k] le [of l] ht_inv_D(3) [OF inv, of k l] by (auto split: if_splits)
  next
    fix j assume j: "j < Suc m"
    show "aPgno ?p j \<noteq> 0" using j \<open>pg \<noteq> 0\<close> ht_inv_D(4) [OF inv, of j] by auto
    show "\<exists>d. reaches (aHash ?p) (walHash (aPgno ?p j)) (Suc j) d"
    proof (cases "j = m")
      case True
      then show ?thesis using new by auto
    next
      case False
      then show ?thesis using old [of j] j by simp
    qed
  next
    fix j assume "Suc m \<le> j"
    then show "aPgno ?p j = 0" using ht_inv_D(6) [OF inv, of j] by auto
  next
    fix k :: nat assume "k < 8192"
    then show "aHash ?p k \<le> Suc m" using le [of k] by auto
  qed (use \<open>m < 4096\<close> in simp)
qed

text \<open>Dropping all entries above \<open>n\<close>.\<close>

lemma ht_inv_truncate:
  assumes inv: "ht_inv p m" and "n \<le> m"
  shows "ht_inv (cleanup_page p n) n" (is "ht_inv ?p n")
proof (rule ht_inv_I)
  fix j assume j: "j < n"
  show "aPgno ?p j \<noteq> 0" using ht_inv_D(4) [OF inv, of j] j \<open>n \<le> m\<close> by (simp add: cleanup_page_def)
  obtain d where r: "reaches (aHash p) (walHash (aPgno p j)) (Suc j) d"
    using ht_inv_D(5) [OF inv, of j] j \<open>n \<le> m\<close> by auto
  have "reaches (aHash ?p) (walHash (aPgno p j)) (Suc j) d"
    using r j unfolding reaches_def cleanup_page_def by fastforce
  then show "\<exists>d. reaches (aHash ?p) (walHash (aPgno ?p j)) (Suc j) d"
    using j by (auto simp: cleanup_page_def)
next
  fix k l assume "aHash ?p k = aHash ?p l" "aHash ?p k \<noteq> 0" "k < 8192" "l < 8192"
  then show "k = l"
    using ht_inv_D(3) [OF inv, of k l] by (auto simp: cleanup_page_def split: if_splits)
qed (use ht_inv_D [OF inv] \<open>n \<le> m\<close> in \<open>auto simp: cleanup_page_def\<close>)

section \<open>Search in one hash table\<close>

text \<open>\<open>r\<close> is the greatest element of \<open>S\<close>, or 0 if there is none.\<close>

definition newest :: "nat set \<Rightarrow> nat \<Rightarrow> bool" where
  "newest S r \<longleftrightarrow> (S = {} \<and> r = 0) \<or> (r \<in> S \<and> (\<forall>s\<in>S. s \<le> r))"

lemma newest_unique: "newest S r \<Longrightarrow> newest S q \<Longrightarrow> r = q"
  unfolding newest_def by (auto intro: order_antisym)

lemma newest_empty: "newest {} 0"
  by (simp add: newest_def)

lemma newest_insert: "\<forall>s\<in>S. s \<le> r \<Longrightarrow> newest (insert r S) r"
  by (auto simp: newest_def)

text \<open>The frames of one table that answer a query.\<close>

definition hits :: "wi_page \<Rightarrow> nat \<Rightarrow> nat \<Rightarrow> u32 \<Rightarrow> nat \<Rightarrow> nat \<Rightarrow> nat set" where
  "hits p z minF pgno iLast m =
     {v + z | v. 0 < v \<and> v \<le> m \<and> v + z \<le> iLast \<and> minF \<le> v + z \<and> aPgno p (v - 1) = pgno}"

lemma find_probe_skip:
  assumes "aHash p iKey \<noteq> 0" "0 < n"
  shows "find_probe p z minF pgno iLast iKey n r =
    find_probe p z minF pgno iLast (walNextHash iKey) (n - 1)
      (if aHash p iKey + z \<le> iLast \<and> minF \<le> aHash p iKey + z \<and> aPgno p (aHash p iKey - 1) = pgno
       then aHash p iKey + z else r)"
  using assms by (subst find_probe.simps) (simp add: Let_def)

lemma find_probe_chain:
  assumes inv: "ht_inv p m"
    and D: "D \<le> m" "aHash p (slot (walHash pgno) D) = 0"
      "\<And>e. e < D \<Longrightarrow> aHash p (slot (walHash pgno) e) \<noteq> 0"
    and "b \<le> D" "D - b \<le> n"
    and r: "newest {f \<in> hits p z minF pgno iLast m.
        \<exists>e<b. f = aHash p (slot (walHash pgno) e) + z} r"
  shows "\<exists>q. find_probe p z minF pgno iLast (slot (walHash pgno) b) n r = Some q \<and>
    newest {f \<in> hits p z minF pgno iLast m.
        \<exists>e<D. f = aHash p (slot (walHash pgno) e) + z} q"
  using assms(5-)
proof (induction "D - b" arbitrary: b n r)
  case 0
  then show ?case using D(2) by (subst find_probe.simps) simp
next
  case (Suc k)
  let ?h = "walHash pgno" and ?H = "hits p z minF pgno iLast m"
  let ?v = "aHash p (slot ?h b)"
  let ?r = "if ?v + z \<le> iLast \<and> minF \<le> ?v + z \<and> aPgno p (?v - 1) = pgno then ?v + z else r"
  have b: "b < D" "0 < n" using Suc.hyps(2) Suc.prems by simp_all
  have v: "?v \<noteq> 0" "?v \<le> m" using D(3) [OF b(1)] ht_inv_D(2) [OF inv] by simp_all
  have split: "{f \<in> ?H. \<exists>e<Suc b. f = aHash p (slot ?h e) + z} =
      {f \<in> ?H. \<exists>e<b. f = aHash p (slot ?h e) + z} \<union> ({?v + z} \<inter> ?H)"
    by (auto simp: less_Suc_eq)
  have hit: "?v + z \<in> ?H \<longleftrightarrow> ?v + z \<le> iLast \<and> minF \<le> ?v + z \<and> aPgno p (?v - 1) = pgno"
    using v by (auto simp: hits_def)
  have "newest {f \<in> ?H. \<exists>e<Suc b. f = aHash p (slot ?h e) + z} ?r"
  proof (cases "?v + z \<in> ?H")
    case True
    then have pg: "aPgno p (?v - 1) = pgno" using hit by simp
    have "0 < ?v" using v(1) by simp
    from ht_inv_reach [OF inv this v(2) pg] obtain d where d: "reaches (aHash p) ?h ?v d" by (rule exE)
    have "slot ?h d = slot ?h b"
      by (rule ht_inv_D(3) [OF inv, rotated]) (use d v(1) in \<open>simp_all add: reaches_def\<close>)
    moreover have "b < 8192" "d < 8192"
      using b(1) D(1) ht_inv_D(1) [OF inv] d by (simp_all add: reaches_def)
    ultimately have "d = b" using slot_inj by simp
    then have "\<forall>e<b. aHash p (slot ?h e) < ?v" using d by (simp add: reaches_def)
    then have "\<forall>f\<in>{f \<in> ?H. \<exists>e<b. f = aHash p (slot ?h e) + z}. f \<le> ?v + z" by auto
    then have "newest (insert (?v + z) {f \<in> ?H. \<exists>e<b. f = aHash p (slot ?h e) + z}) (?v + z)"
      by (rule newest_insert)
    then show ?thesis using True hit unfolding split by simp
  next
    case False
    then show ?thesis using Suc.prems(3) hit unfolding split by auto
  qed
  then have "\<exists>q. find_probe p z minF pgno iLast (slot ?h (Suc b)) (n - 1) ?r = Some q \<and>
      newest {f \<in> ?H. \<exists>e<D. f = aHash p (slot ?h e) + z} q"
    using Suc.hyps(2) Suc.prems b by (intro Suc.hyps(1)) simp_all
  then show ?case using find_probe_skip [OF v(1) b(2)] by simp
qed

lemma find_probe_newest:
  assumes inv: "ht_inv p m"
  shows "\<exists>q. find_probe p z minF pgno iLast (walHash pgno) HASHTABLE_NSLOT 0 = Some q \<and>
    newest (hits p z minF pgno iLast m) q"
proof -
  let ?h = "walHash pgno" and ?H = "hits p z minF pgno iLast m"
  obtain D where D: "D \<le> m" "aHash p (slot ?h D) = 0" "\<And>e. e < D \<Longrightarrow> aHash p (slot ?h e) \<noteq> 0"
    using ht_inv_free_slot [OF inv, of ?h] by auto
  have "\<exists>e<D. f = aHash p (slot ?h e) + z" if fH: "f \<in> ?H" for f
  proof -
    obtain v where v: "f = v + z" "0 < v" "v \<le> m" "aPgno p (v - 1) = pgno"
      using fH by (auto simp: hits_def)
    from ht_inv_reach [OF inv v(2-4)] obtain d where d: "reaches (aHash p) ?h v d" by (rule exE)
    have "d < D"
    proof (rule ccontr)
      assume "\<not> d < D"
      then have "D < d \<or> D = d" by linarith
      then show False using d D(2) v(2) by (auto simp: reaches_def)
    qed
    then show ?thesis using d v(1) by (auto simp: reaches_def)
  qed
  then have "{f \<in> ?H. \<exists>e<D. f = aHash p (slot ?h e) + z} = ?H" by auto
  moreover have "D \<le> 8192" using D(1) ht_inv_D(1) [OF inv] by simp
  ultimately show ?thesis
    using find_probe_chain [OF inv D, of 0 8192 z minF iLast 0] by (simp add: newest_empty)
qed

section \<open>Mapping\<close>

text \<open>Mapping a page changes nothing of the connection but the array of pointers and
  the read-only flags.\<close>

definition same_conn :: "Wal \<Rightarrow> Wal \<Rightarrow> bool" where
  "same_conn w w' \<longleftrightarrow> w' = w\<lparr>apWiData := apWiData w', readOnly := readOnly w'\<rparr>"

lemma same_conn_refl [simp]: "same_conn w w"
  by (simp add: same_conn_def)

lemma same_conn_trans: "same_conn a b \<Longrightarrow> same_conn b c \<Longrightarrow> same_conn a c"
  by (cases a; cases b; cases c) (simp add: same_conn_def)

lemma same_conn_fields:
  assumes "same_conn w w'"
  shows "hdr w' = hdr w" "minFrame w' = minFrame w" "readLock w' = readLock w"
    "bShmUnreliable w' = bShmUnreliable w" "writeLock w' = writeLock w"
    "exclusiveMode w' = exclusiveMode w" "szPage w' = szPage w" "iReCksum w' = iReCksum w"
  by (subst assms [unfolded same_conn_def], simp)+

lemma walIndexPage_same_conn: "walIndexPage E w i = (rc, p, w') \<Longrightarrow> same_conn w w'"
  by (auto simp: walIndexPage_def walIndexPageRealloc_def same_conn_def Let_def
      split: if_splits prod.splits)

lemma walHashGet_loc:
  assumes "walHashGet E w i = (rc, loc, w')"
  shows "loc = \<lparr>loc_page = i, iZero = ht_zero i\<rparr>" "same_conn w w'"
  using assms walIndexPage_same_conn
  by (auto simp: walHashGet_def ht_zero_def Let_def split: if_splits prod.splits)

text \<open>Once mapped, a page stays mapped.\<close>

lemma apGrow_length [simp]: "i < length (apGrow ap i)"
  by (simp add: apGrow_def)

lemma walIndexPage_mapped:
  assumes "walIndexPage E w i = (rc, True, w')"
  shows "i < length (apWiData w') \<and> apWiData w' ! i"
proof (cases "length (apWiData w) \<le> i \<or> \<not> apWiData w ! i")
  case True
  then have "walIndexPageRealloc E w i = (rc, True, w')" using assms by (simp add: walIndexPage_def)
  then show ?thesis
    unfolding walIndexPageRealloc_def Let_def by (auto split: if_splits prod.splits)
next
  case False
  then show ?thesis using assms by (auto simp: walIndexPage_def)
qed

lemma walIndexPage_again:
  "walIndexPage E w i = (rc, True, w') \<Longrightarrow> walIndexPage E w' i = (SQLITE_OK, True, w')"
  using walIndexPage_mapped [of E w i rc w'] by (subst walIndexPage_def) simp

lemma walHashGet_again:
  assumes "walHashGet E w i = (SQLITE_OK, loc, w')"
  shows "walHashGet E w' i = (SQLITE_OK, loc, w')"
  using assms walIndexPage_again [of E w i _ w']
  by (auto simp: walHashGet_def Let_def split: if_splits prod.splits)

text \<open>An environment in which every allocation and every mapping succeeds.\<close>

definition shm_reliable :: "'e shm_env_scheme \<Rightarrow> bool" where
  "shm_reliable E \<longleftrightarrow> mallocOk E \<and> (\<forall>i b. xShmMap E i b = (SQLITE_OK, True))"

lemma walHashGet_reliable:
  assumes "shm_reliable E" shows "fst (walHashGet E w i) = SQLITE_OK"
  using assms
  by (auto simp: shm_reliable_def walHashGet_def walIndexPage_def walIndexPageRealloc_def Let_def
      split: prod.splits)

section \<open>The index represents the log\<close>

text \<open>How many of the first \<open>n\<close> frames table \<open>i\<close> indexes.\<close>

definition entries :: "nat \<Rightarrow> nat \<Rightarrow> nat" where
  "entries i n = min (ht_cap i) (n - ht_zero i)"

definition wi_repr :: "wi \<Rightarrow> u32 list \<Rightarrow> bool" where
  "wi_repr W log \<longleftrightarrow> (\<forall>i. ht_zero i < length log \<longrightarrow>
     ht_inv (W i) (entries i (length log)) \<and>
     (\<forall>j<entries i (length log). aPgno (W i) j = log ! (ht_zero i + j)))"

lemma wi_repr_Nil [simp]: "wi_repr W []"
  by (simp add: wi_repr_def)

lemma wi_repr_D:
  assumes "wi_repr W log" "ht_zero i < length log"
  shows "ht_inv (W i) (entries i (length log))"
    "j < entries i (length log) \<Longrightarrow> aPgno (W i) j = log ! (ht_zero i + j)"
  using assms by (simp_all add: wi_repr_def)

lemma entries_full: "i < k \<Longrightarrow> ht_zero k \<le> n \<Longrightarrow> entries i n = ht_cap i"
  using ht_zero_mono [of "Suc i" k] by (simp add: entries_def ht_zero_Suc)

text \<open>Replacing table \<open>i\<close> by one that holds the first frames of the log up to and
  including \<open>f\<close> gives an index of the log cut after \<open>f\<close>.\<close>

lemma wi_repr_update:
  assumes W: "wi_repr W log" and n: "n \<le> length log" "log' ! n = pg" "length log' = Suc n"
      "take n log' = take n log"
    and i: "ht_zero i \<le> n" "n < ht_zero i + ht_cap i"
    and p: "ht_inv p (Suc n - ht_zero i)"
      "\<And>j. j < Suc n - ht_zero i \<Longrightarrow> aPgno p j = log' ! (ht_zero i + j)"
  shows "wi_repr (W(i := p)) log'"
  unfolding wi_repr_def
proof (intro allI impI)
  fix k assume k: "ht_zero k < length log'"
  have same: "log' ! m = log ! m" if "m < n" for m
    using that n by (metis nth_take)
  show "ht_inv ((W(i := p)) k) (entries k (length log')) \<and>
     (\<forall>j<entries k (length log'). aPgno ((W(i := p)) k) j = log' ! (ht_zero k + j))"
  proof (cases "k = i")
    case True
    have "entries i (length log') = Suc n - ht_zero i" using i n by (simp add: entries_def)
    then show ?thesis using p True by simp
  next
    case False
    have "k < i"
    proof (rule ccontr)
      assume "\<not> k < i"
      then have "ht_zero (Suc i) \<le> ht_zero k" using False by (intro ht_zero_mono) simp
      then show False using k i n by (simp add: ht_zero_Suc)
    qed
    then have e: "entries k (length log') = ht_cap k" "entries k (length log) = ht_cap k"
      using i n by (auto intro: entries_full [of k i])
    have z: "ht_zero k + ht_cap k \<le> n"
      using \<open>k < i\<close> ht_zero_mono [of "Suc k" i] i by (simp add: ht_zero_Suc)
    then have "ht_zero k < length log" using n ht_cap_pos [of k] by linarith
    then show ?thesis
      using wi_repr_D [OF W, of k] e same z False by auto
  qed
qed

section \<open>Truncation\<close>

lemma entries_ge: "0 < f \<Longrightarrow> f \<le> n \<Longrightarrow> f - ht_zero (walFramePage f) \<le> entries (walFramePage f) n"
  using walFramePage_bounds [of f] by (auto simp: entries_def)

lemma wi_repr_frame:
  assumes "wi_repr W log" "0 < f" "f \<le> length log"
  shows "aPgno (W (walFramePage f)) (f - ht_zero (walFramePage f) - 1) = log ! (f - 1)"
proof -
  let ?i = "walFramePage f"
  have b: "ht_zero ?i < f" using walFramePage_bounds [OF assms(2)] by simp
  then have "f - ht_zero ?i - 1 < entries ?i (length log)" using entries_ge [OF assms(2,3)] by linarith
  then show ?thesis using wi_repr_D(2) [OF assms(1), of ?i "f - ht_zero ?i - 1"] b assms(3) by simp
qed

lemma cleanup_repr:
  assumes "wi_repr W log" "walCleanupHash E W w = (W', w')"
    and "0 < mxFrame (hdr w)" "mxFrame (hdr w) \<le> length log"
    and "fst (walHashGet E w (walFramePage (mxFrame (hdr w)))) = SQLITE_OK"
  shows "wi_repr W' (take (mxFrame (hdr w)) log) \<and> same_conn w w'"
proof -
  define mx i where "mx = mxFrame (hdr w)" and "i = walFramePage (mxFrame (hdr w))"
  obtain w1 where g: "walHashGet E w i = (SQLITE_OK, \<lparr>loc_page = i, iZero = ht_zero i\<rparr>, w1)"
    and same: "same_conn w w1"
    using walHashGet_loc [of E w i] assms(5) by (cases "walHashGet E w i") (auto simp: i_def)
  let ?n = "mx - ht_zero i"
  let ?p = "cleanup_page (W i) ?n"
  have W': "W' = W(i := ?p)" "w' = w1"
    using assms(2,3) g by (simp_all add: walCleanupHash_def Let_def mx_def i_def)
  have b: "ht_zero i < mx" "mx \<le> ht_zero i + ht_cap i"
    using walFramePage_bounds assms(3) by (auto simp: i_def mx_def)
  have e: "?n \<le> entries i (length log)" using entries_ge assms(3,4) by (simp add: mx_def i_def)
  have z: "ht_zero i < length log" using b assms(4) by (simp add: mx_def)
  have "wi_repr (W(i := ?p)) (take mx log)"
  proof (rule wi_repr_update [OF assms(1), of "mx - 1"])
    have "Suc (mx - 1) - ht_zero i = ?n" using b by simp
    then show "ht_inv ?p (Suc (mx - 1) - ht_zero i)"
      using ht_inv_truncate [OF wi_repr_D(1) [OF assms(1) z] e] by simp
    show "aPgno ?p j = take mx log ! (ht_zero i + j)" if "j < Suc (mx - 1) - ht_zero i" for j
      using that b e wi_repr_D(2) [OF assms(1) z, of j] by (simp add: cleanup_page_def)
  qed (use b assms(3,4) in \<open>simp_all add: mx_def min_def\<close>)
  then show ?thesis using W' same by (simp add: mx_def)
qed

section \<open>Append\<close>

text \<open>The last part of \<^verbatim>\<open>walIndexAppend\<close>, once the table holds exactly the frames before
  \<open>iFrame\<close>.\<close>

lemma append_slot:
  assumes "ht_inv p (idx - 1)" "0 < idx" "idx \<le> 4096" "pg \<noteq> 0"
  shows "\<exists>iKey. append_probe (aHash p) (walHash pg) idx = Some iKey \<and>
    ht_inv (append_page p idx iKey pg) idx"
proof -
  obtain d where d: "d \<le> idx - 1" "aHash p (slot (walHash pg) d) = 0"
    "\<And>e. e < d \<Longrightarrow> aHash p (slot (walHash pg) e) \<noteq> 0"
    using ht_inv_free_slot [OF assms(1), of "walHash pg"] by auto
  have "append_probe (aHash p) (walHash pg) idx = Some (slot (walHash pg) d)"
    using append_probe_eq [of "aHash p" "walHash pg" 0 d idx] d by simp
  moreover have "Suc (idx - 1) = idx" "idx - 1 < 4096" "idx mod 65536 = idx"
    using assms(2,3) by simp_all
  ultimately show ?thesis
    using ht_inv_insert [OF assms(1) _ assms(4) d] by (simp add: append_page_def)
qed

text \<open>The clearing of a fresh table and the removal of remnants of an unfinished
  transaction leave exactly the frames before \<open>iFrame\<close>.\<close>

lemma append_prepare:
  assumes W: "wi_repr W log"
    and f: "iFrame = Suc (length log) \<or> (iFrame = Suc (mxFrame (hdr w)) \<and> iFrame \<le> length log)"
    and i: "i = walFramePage iFrame" "idx = iFrame - ht_zero i"
    and g: "walHashGet E w i = (SQLITE_OK, \<lparr>loc_page = i, iZero = ht_zero i\<rparr>, w)"
    and W1: "W1 = (if idx = 1 then W(i := zero_page) else W)"
  shows "\<exists>p. (if aPgno (W1 i) (idx - 1) \<noteq> 0 then walCleanupHash E W1 w else (W1, w)) = (W(i := p), w) \<and>
    ht_inv p (idx - 1) \<and> (\<forall>j<idx - 1. aPgno p j = log ! (ht_zero i + j))"
proof -
  have pos: "0 < iFrame" "iFrame - 1 \<le> length log" using f by auto
  have b: "ht_zero i < iFrame" "iFrame \<le> ht_zero i + ht_cap i"
    using walFramePage_bounds [OF pos(1)] i by auto
  consider (fresh) "idx = 1" | (exact) "1 < idx" "iFrame = Suc (length log)"
    | (old) "1 < idx" "iFrame = Suc (mxFrame (hdr w))" "iFrame \<le> length log"
    using b f i by linarith
  then show ?thesis
  proof cases
    case fresh
    then show ?thesis
      using W1 ht_inv_zero_page by (intro exI [of _ zero_page]) (auto simp: zero_page_def)
  next
    case exact
    then have z: "ht_zero i < length log" and e: "entries i (length log) = idx - 1"
      using b i by (auto simp: entries_def)
    note D = wi_repr_D [OF W z, unfolded e]
    have "aPgno (W i) (idx - 1) = 0" using ht_inv_D(6) [OF D(1), of "idx - 1"] by simp
    then show ?thesis using exact W1 D by (intro exI [of _ "W i"]) auto
  next
    case old
    let ?mx = "mxFrame (hdr w)"
    have z: "ht_zero i < length log" and e: "idx \<le> entries i (length log)"
      using b i old by (auto simp: entries_def)
    note D = wi_repr_D [OF W z]
    have "aPgno (W i) (idx - 1) \<noteq> 0" using ht_inv_D(4) [OF D(1), of "idx - 1"] e old(1) by simp
    moreover have mx: "walFramePage ?mx = i" "?mx \<noteq> 0" "?mx - ht_zero i = idx - 1"
      using b i(2) old by (auto intro: walFramePage_unique)
    then have "walCleanupHash E W w = (W(i := cleanup_page (W i) (idx - 1)), w)"
      unfolding walCleanupHash_def mx(1) g Let_def by simp
    moreover have "ht_inv (cleanup_page (W i) (idx - 1)) (idx - 1)"
      using ht_inv_truncate [OF D(1), of "idx - 1"] e by simp
    moreover have "\<forall>j<idx - 1. aPgno (cleanup_page (W i) (idx - 1)) j = log ! (ht_zero i + j)"
      using D(2) e by (auto simp: cleanup_page_def)
    ultimately show ?thesis using old W1 by (intro exI [of _ "cleanup_page (W i) (idx - 1)"]) simp
  qed
qed

lemma append_repr:
  assumes W: "wi_repr W log" and r: "walIndexAppend E W w iFrame pg = (rc, W', w')"
    and f: "iFrame = Suc (length log) \<or> (iFrame = Suc (mxFrame (hdr w)) \<and> iFrame \<le> length log)"
    and pg: "pg \<noteq> 0"
  shows "same_conn w w' \<and> (rc = SQLITE_OK \<longrightarrow> wi_repr W' (take (iFrame - 1) log @ [pg])) \<and>
    (fst (walHashGet E w (walFramePage iFrame)) = SQLITE_OK \<longrightarrow> rc = SQLITE_OK)"
proof -
  define i where "i = walFramePage iFrame"
  define idx where "idx = iFrame - ht_zero i"
  obtain rc1 w1 where g: "walHashGet E w i = (rc1, \<lparr>loc_page = i, iZero = ht_zero i\<rparr>, w1)"
    and same: "same_conn w w1"
    using walHashGet_loc [of E w i] by (cases "walHashGet E w i") auto
  show ?thesis
  proof (cases "rc1 = SQLITE_OK")
    case False
    then show ?thesis using r g same by (simp add: walIndexAppend_def i_def)
  next
    case True
    have g1: "walHashGet E w1 i = (SQLITE_OK, \<lparr>loc_page = i, iZero = ht_zero i\<rparr>, w1)"
      using walHashGet_again g True by simp
    have pos: "0 < iFrame" "iFrame - 1 \<le> length log" using f by auto
    have b: "ht_zero i < iFrame" "iFrame \<le> ht_zero i + ht_cap i"
      using walFramePage_bounds [OF pos(1)] by (auto simp: i_def)
    then have idx: "0 < idx" "idx \<le> 4096" "idx = Suc (iFrame - 1) - ht_zero i"
      using ht_cap_le [of i] unfolding idx_def by linarith+
    define W1 where "W1 = (if idx = 1 then W(i := zero_page) else W)"
    have "hdr w1 = hdr w" using same_conn_fields [OF same] by simp
    then obtain p where
      p: "(if aPgno (W1 i) (idx - 1) \<noteq> 0 then walCleanupHash E W1 w1 else (W1, w1)) = (W(i := p), w1)"
        "ht_inv p (idx - 1)" "\<forall>j<idx - 1. aPgno p j = log ! (ht_zero i + j)"
      using append_prepare [OF W _ i_def idx_def g1 W1_def] f by auto
    obtain iKey where k: "append_probe (aHash p) (walHash pg) idx = Some iKey"
      "ht_inv (append_page p idx iKey pg) idx"
      using append_slot [OF p(2) idx(1,2) pg] by auto
    have res: "rc = SQLITE_OK" "W' = W(i := append_page p idx iKey pg)" "w' = w1"
      using r p(1) k(1)
      unfolding walIndexAppend_def Let_def i_def [symmetric] g True prod.case WalHashLoc.simps
        idx_def [symmetric] W1_def [symmetric]
      by simp_all
    have "wi_repr W' (take (iFrame - 1) log @ [pg])"
      unfolding res
    proof (rule wi_repr_update [OF W pos(2), of _ pg])
      show "aPgno (append_page p idx iKey pg) j = (take (iFrame - 1) log @ [pg]) ! (ht_zero i + j)"
        if "j < Suc (iFrame - 1) - ht_zero i" for j
        using that p(3) b pos idx by (auto simp: append_page_def nth_append)
    qed (use k(2) b pos idx in \<open>auto simp: nth_append\<close>)
    then show ?thesis using res same by simp
  qed
qed

section \<open>Search\<close>

text \<open>The frames of the log that answer a query, and the linear search for the newest.\<close>

definition answers :: "u32 list \<Rightarrow> u32 \<Rightarrow> nat \<Rightarrow> nat \<Rightarrow> nat set" where
  "answers log pgno minF iLast = {f. 0 < f \<and> f \<le> iLast \<and> minF \<le> f \<and> log ! (f - 1) = pgno}"

lemma find_linear_newest: "newest (answers log pgno minF n) (find_linear log pgno minF n)"
proof (induction n)
  case 0
  then show ?case by (auto simp: newest_def answers_def find_linear.simps)
next
  case (Suc n)
  have split: "answers log pgno minF (Suc n) =
    (if minF \<le> Suc n \<and> log ! n = pgno then insert (Suc n) (answers log pgno minF n)
     else answers log pgno minF n)"
    by (auto simp: answers_def le_Suc_eq)
  have none: "answers log pgno minF n = {}" if "Suc n < minF" using that by (auto simp: answers_def)
  show ?case
  proof (cases "minF \<le> Suc n")
    case True
    have "\<forall>f\<in>answers log pgno minF n. f \<le> Suc n" by (auto simp: answers_def)
    then show ?thesis
      using Suc.IH True newest_insert unfolding split by (subst find_linear.simps) auto
  next
    case False
    then show ?thesis using none by (subst find_linear.simps) (simp add: split newest_def)
  qed
qed

lemma hits_answers:
  assumes "wi_repr W log" "ht_zero i < length log" "iLast \<le> length log"
  shows "hits (W i) (ht_zero i) minF pgno iLast (entries i (length log)) =
    {f \<in> answers log pgno minF iLast. ht_zero i < f \<and> f \<le> ht_zero (Suc i)}" (is "?H = ?A")
proof (intro set_eqI iffI)
  fix f assume "f \<in> ?H"
  then obtain v where v: "f = v + ht_zero i" "0 < v" "v \<le> entries i (length log)"
    "f \<le> iLast" "minF \<le> f" "aPgno (W i) (v - 1) = pgno" by (auto simp: hits_def)
  then have "aPgno (W i) (v - 1) = log ! (ht_zero i + (v - 1))"
    by (intro wi_repr_D(2) [OF assms(1,2)]) simp
  moreover have "ht_zero i + (v - 1) = f - 1" using v by simp
  ultimately show "f \<in> ?A"
    using v by (simp add: answers_def ht_zero_Suc entries_def)
next
  fix f assume "f \<in> ?A"
  then have f: "f \<le> iLast" "minF \<le> f" "log ! (f - 1) = pgno" "ht_zero i < f"
    "f \<le> ht_zero i + ht_cap i" by (auto simp: answers_def ht_zero_Suc)
  then have e: "f - ht_zero i \<le> entries i (length log)" using assms(3) by (auto simp: entries_def)
  then have "aPgno (W i) (f - ht_zero i - 1) = log ! (f - 1)"
    using wi_repr_D(2) [OF assms(1,2), of "f - ht_zero i - 1"] f(4) by simp
  then show "f \<in> ?H" using f e unfolding hits_def by (intro CollectI exI [of _ "f - ht_zero i"]) simp
qed

lemma newest_above:
  assumes "newest {f \<in> S. a < f \<and> f \<le> b} q" "q \<noteq> 0" "c \<le> a"
  shows "newest {f \<in> S. c < f \<and> f \<le> b} q"
proof -
  have q: "q \<in> S" "a < q" "q \<le> b" and le: "\<And>f. f \<in> S \<Longrightarrow> a < f \<Longrightarrow> f \<le> b \<Longrightarrow> f \<le> q"
    using assms(1,2) by (auto simp: newest_def)
  have "f \<le> q" if "f \<in> S" "f \<le> b" for f using q le [OF that(1) _ that(2)] by (cases "a < f") auto
  then show ?thesis using q assms(3) by (auto simp: newest_def)
qed

lemma find_tables_newest:
  assumes W: "wi_repr W log" and "iLast \<le> length log" "find_tables k E W w pgno iLast m = (rc, q, w')"
    and "\<And>i. i < k \<Longrightarrow> ht_zero (m + i) < iLast"
  shows "same_conn w w' \<and> (shm_reliable E \<longrightarrow> rc = SQLITE_OK) \<and>
    (rc = SQLITE_OK \<longrightarrow>
      newest {f \<in> answers log pgno (minFrame w) iLast. ht_zero m < f \<and> f \<le> ht_zero (m + k)} q)"
  using assms(3,4)
proof (induction k arbitrary: w)
  case 0
  then show ?case by (auto simp: newest_def)
next
  case (Suc k)
  let ?A = "answers log pgno (minFrame w) iLast" and ?i = "m + k"
  obtain rc1 w1 where g: "walHashGet E w ?i = (rc1, \<lparr>loc_page = ?i, iZero = ht_zero ?i\<rparr>, w1)"
    and same: "same_conn w w1"
    using walHashGet_loc [of E w ?i] by (cases "walHashGet E w ?i") auto
  have mf: "minFrame w1 = minFrame w" using same_conn_fields [OF same] by simp
  have rel: "shm_reliable E \<longrightarrow> rc1 = SQLITE_OK" using walHashGet_reliable [of E w ?i] g by simp
  have z: "ht_zero ?i < iLast" "ht_zero ?i < length log" using Suc.prems(2) [of k] assms(2) by simp_all
  obtain q1 where q1: "find_probe (W ?i) (ht_zero ?i) (minFrame w) pgno iLast (walHash pgno) 8192 0 = Some q1"
    "newest {f \<in> ?A. ht_zero ?i < f \<and> f \<le> ht_zero (Suc ?i)} q1"
    using find_probe_newest [OF wi_repr_D(1) [OF W z(2)], of "ht_zero ?i" "minFrame w" pgno iLast]
      hits_answers [OF W z(2) assms(2)] by auto
  have step: "find_tables (Suc k) E W w pgno iLast m =
    (if rc1 \<noteq> SQLITE_OK then (rc1, 0, w1) else if q1 \<noteq> 0 then (SQLITE_OK, q1, w1)
     else find_tables k E W w1 pgno iLast m)"
    using q1(1) by (simp add: g mf)
  consider "rc1 \<noteq> SQLITE_OK" | "rc1 = SQLITE_OK" "q1 \<noteq> 0" | "rc1 = SQLITE_OK" "q1 = 0" by blast
  then show ?case
  proof cases
    case 1
    then show ?thesis using Suc.prems(1) step same rel by auto
  next
    case 2
    then have "newest {f \<in> ?A. ht_zero m < f \<and> f \<le> ht_zero (m + Suc k)} q1"
      using q1(2) newest_above [of ?A "ht_zero ?i" "ht_zero (Suc ?i)" q1 "ht_zero m"]
        ht_zero_mono [of m ?i] by simp
    then show ?thesis using 2 Suc.prems(1) step same by auto
  next
    case 3
    then have "find_tables k E W w1 pgno iLast m = (rc, q, w')" using Suc.prems(1) step by simp
    from Suc.IH [OF this Suc.prems(2)] have ih: "same_conn w1 w'" "shm_reliable E \<longrightarrow> rc = SQLITE_OK"
      "rc = SQLITE_OK \<longrightarrow> newest {f \<in> ?A. ht_zero m < f \<and> f \<le> ht_zero ?i} q" by (simp_all add: mf)
    have "{f \<in> ?A. ht_zero ?i < f \<and> f \<le> ht_zero (Suc ?i)} = {}"
      using q1(2) 3(2) by (auto simp: newest_def answers_def)
    then have "{f \<in> ?A. ht_zero m < f \<and> f \<le> ht_zero (m + Suc k)} =
        {f \<in> ?A. ht_zero m < f \<and> f \<le> ht_zero ?i}"
      using ht_zero_mono [of ?i "Suc ?i"] by (auto simp: not_less)
    then show ?thesis using ih same_conn_trans [OF same] by auto
  qed
qed

lemma find_repr:
  assumes W: "wi_repr W log" and "iLast \<le> length log" "readLock w \<noteq> 0 \<or> bShmUnreliable w"
    and r: "walFindFrame E W w pgno iLast = (rc, q, w')"
  shows "same_conn w w' \<and> (shm_reliable E \<longrightarrow> rc = SQLITE_OK) \<and>
    (rc = SQLITE_OK \<longrightarrow> q = find_linear log pgno (minFrame w) iLast)"
proof (cases "iLast = 0")
  case True
  then show ?thesis using r by (auto simp: walFindFrame_def find_linear.simps)
next
  case False
  let ?m = "walFramePage (minFrame w)" and ?t = "walFramePage iLast"
  let ?A = "answers log pgno (minFrame w) iLast" and ?k = "?t + 1 - ?m"
  have ft: "find_tables ?k E W w pgno iLast ?m = (rc, q, w')"
    using r False assms(3) by (auto simp: walFindFrame_def Let_def)
  have t: "ht_zero ?t < iLast" "iLast \<le> ht_zero (Suc ?t)"
    using walFramePage_bounds [of iLast] False by (simp_all add: ht_zero_Suc)
  have mono: "walFramePage a \<le> walFramePage b" if "a \<le> b" for a b
    using that by (simp add: walFramePage_def div_le_mono)
  have "ht_zero (?m + i) < iLast" if "i < ?k" for i
  proof -
    have "?m + i \<le> ?t" using that by linarith
    then show ?thesis using ht_zero_mono [of "?m + i" ?t] t by simp
  qed
  note find = find_tables_newest [OF W assms(2) ft this]
  have "{f \<in> ?A. ht_zero ?m < f \<and> f \<le> ht_zero (?m + ?k)} = ?A"
  proof (intro set_eqI iffI)
    fix f assume "f \<in> ?A"
    then have f: "0 < f" "f \<le> iLast" "minFrame w \<le> f" by (auto simp: answers_def)
    have "?m \<le> walFramePage f" "walFramePage f \<le> ?t" using f mono by simp_all
    then have "ht_zero ?m < f" "?m + ?k = Suc ?t"
      using walFramePage_bounds [OF f(1)] ht_zero_mono [of ?m "walFramePage f"] by simp_all
    then show "f \<in> {f \<in> ?A. ht_zero ?m < f \<and> f \<le> ht_zero (?m + ?k)}" using \<open>f \<in> ?A\<close> f t by simp
  qed simp
  then show ?thesis using find newest_unique [OF _ find_linear_newest] by auto
qed

section \<open>The interface of the index\<close>

text \<open>What readers and writers rely on, each with a handle of its own on the shared index: a
  writer's step that has to keep the first \<open>n\<close> entries of the log does keep them, and a search
  finds the newest frame of a page in a window of the represented log.\<close>

locale log_index =
  fixes repr :: "'m \<Rightarrow> u32 list \<Rightarrow> bool"
    and step :: "nat \<Rightarrow> 'm \<times> u32 list \<Rightarrow> 'm \<times> u32 list \<Rightarrow> bool"
    and reads :: "'h \<Rightarrow> bool" and low :: "'h \<Rightarrow> nat"
    and find :: "'e \<Rightarrow> 'm \<Rightarrow> 'h \<Rightarrow> u32 \<Rightarrow> nat \<Rightarrow> rc \<times> nat \<times> 'h"
  assumes step_law: "step n (m, log) (m', log') \<Longrightarrow> repr m log \<Longrightarrow> n \<le> length log \<Longrightarrow>
      repr m' log' \<and> n \<le> length log' \<and> take n log' = take n log"
    and find_law: "repr m log \<Longrightarrow> n \<le> length log \<Longrightarrow> reads h \<Longrightarrow> find E m h pg n = (SQLITE_OK, q, h') \<Longrightarrow>
      q = find_linear log pg (low h) n"
begin

lemma find_linear_append:
  "n \<le> length log \<Longrightarrow> find_linear (log @ ps) pg m n = find_linear log pg m n"
proof (induction n)
  case 0
  then show ?case by (simp add: find_linear.simps)
next
  case (Suc n)
  then show ?case
    by (subst (1 2) find_linear.simps) (simp add: nth_append)
qed

lemma find_linear_take:
  assumes "take n log' = take n log" "n \<le> length log" "n \<le> length log'"
  shows "find_linear log' pg m n = find_linear log pg m n"
proof -
  have "find_linear l pg m n = find_linear (take n l) pg m n" if "n \<le> length l" for l
    using find_linear_append [of n "take n l" "drop n l" pg m] that by simp
  from this [of log] this [of log'] show ?thesis using assms by simp
qed

lemma steps_keep:
  assumes "(step n)\<^sup>*\<^sup>* (m, log) (m', log')" "repr m log" "n \<le> length log"
  shows "repr m' log' \<and> n \<le> length log' \<and> take n log' = take n log"
  using assms(1)
proof (induction rule: rtranclp_induct2)
  case refl
  then show ?case using assms(2,3) by simp
next
  case (step m1 log1 m2 log2)
  then show ?case using step_law [OF step(2)] by metis
qed

text \<open>Whatever writers do, a reader finds in its window what it found before.\<close>

lemma find_stable:
  assumes "repr m log" "n \<le> length log" "(step n)\<^sup>*\<^sup>* (m, log) (m', log')"
    and "reads h" "reads h'" "low h' = low h"
    and "find E m h pg n = (SQLITE_OK, q, h1)" "find E' m' h' pg n = (SQLITE_OK, q', h2)"
  shows "q' = q"
proof -
  note k = steps_keep [OF assms(3,1,2)]
  have "q' = find_linear log' pg (low h') n" using find_law [OF _ _ assms(5,8)] k by blast
  also have "\<dots> = find_linear log pg (low h) n" unfolding assms(6) by (rule find_linear_take) (use k assms(2) in auto)
  also have "\<dots> = q" using find_law [OF assms(1,2,4,7)] by simp
  finally show ?thesis .
qed

end

text \<open>The writers' steps on a shared index that represents \<open>log\<close>: an append of a frame, at the end
  or over what an unfinished transaction left, and a rollback. Every writer \<open>w\<close> started
  from a committed log of at least \<open>n\<close> frames, and each call has its own environment out of
  the family \<open>Env\<close>, in which allocating and mapping may fail.\<close>

inductive index_step ::
  "('i \<Rightarrow> 'e shm_env_scheme) \<Rightarrow> nat \<Rightarrow> wi \<times> u32 list \<Rightarrow> wi \<times> u32 list \<Rightarrow> bool" for Env n where
  append: "n \<le> mxFrame (hdr w) \<Longrightarrow> pg \<noteq> 0 \<Longrightarrow>
    iFrame = Suc (length log) \<or> iFrame = Suc (mxFrame (hdr w)) \<and> iFrame \<le> length log \<Longrightarrow>
    walIndexAppend (Env i) W w iFrame pg = (rc, W', w') \<Longrightarrow>
    index_step Env n (W, log) (W', if rc = SQLITE_OK then take (iFrame - 1) log @ [pg] else log)"
| cleanup: "n \<le> mxFrame (hdr w) \<Longrightarrow> 0 < mxFrame (hdr w) \<Longrightarrow> mxFrame (hdr w) \<le> length log \<Longrightarrow>
    walCleanupHash (Env i) W w = (W', w') \<Longrightarrow>
    index_step Env n (W, log)
      (W', if fst (walHashGet (Env i) w (walFramePage (mxFrame (hdr w)))) = SQLITE_OK
           then take (mxFrame (hdr w)) log else log)"

inductive_cases index_stepE: "index_step Env n (W, log) (W', log')"

lemma append_failed:
  assumes "walIndexAppend E W w f pg = (rc, W', w')"
    and "fst (walHashGet E w (walFramePage f)) \<noteq> SQLITE_OK"
  shows "W' = W"
  using assms by (simp add: walIndexAppend_def split: prod.splits)

lemma cleanup_failed:
  assumes "walCleanupHash E W w = (W', w')" "fst (walHashGet E w (walFramePage (mxFrame (hdr w)))) \<noteq> SQLITE_OK"
  shows "W' = W"
  using assms by (auto simp: walCleanupHash_def Let_def split: prod.splits if_splits)

lemma index_step_keeps:
  assumes "index_step Env n (W, log) (W', log')" "wi_repr W log" "n \<le> length log"
  shows "wi_repr W' log' \<and> n \<le> length log' \<and> take n log' = take n log"
  using assms(1)
proof (rule index_stepE)
  fix w pg iFrame i rc w'
  assume a: "log' = (if rc = SQLITE_OK then take (iFrame - 1) log @ [pg] else log)" "n \<le> mxFrame (hdr w)" "pg \<noteq> 0"
    "iFrame = Suc (length log) \<or> iFrame = Suc (mxFrame (hdr w)) \<and> iFrame \<le> length log"
    "walIndexAppend (Env i) W w iFrame pg = (rc, W', w')"
  have "wi_repr W' log'"
    using append_repr [OF assms(2) a(5,4,3)] append_failed [OF a(5)] assms(2) a(1) by auto
  moreover have "n \<le> iFrame - 1" "iFrame - 1 \<le> length log" using a(2,4) assms(3) by auto
  ultimately show ?thesis using a(1) assms(3) by (simp add: min_def)
next
  fix w i w'
  assume a: "log' = (if fst (walHashGet (Env i) w (walFramePage (mxFrame (hdr w)))) = SQLITE_OK
      then take (mxFrame (hdr w)) log else log)" "n \<le> mxFrame (hdr w)" "0 < mxFrame (hdr w)" "mxFrame (hdr w) \<le> length log"
    "walCleanupHash (Env i) W w = (W', w')"
  then show ?thesis
    using cleanup_repr [OF assms(2) a(5,3,4)] cleanup_failed [OF a(5)] assms(2,3) by (auto simp: min_def)
qed

interpretation wix: log_index wi_repr "index_step Env" "\<lambda>w. readLock w \<noteq> 0 \<or> bShmUnreliable w" minFrame
    "walFindFrame :: 'f shm_env_scheme \<Rightarrow> _"
  for Env :: "'i \<Rightarrow> 'e shm_env_scheme"
proof unfold_locales
  fix n W log W' log'
  assume "index_step Env n (W, log) (W', log')" "wi_repr W log" "n \<le> length log"
  then show "wi_repr W' log' \<and> n \<le> length log' \<and> take n log' = take n log" by (rule index_step_keeps)
next
  fix W log n h pg q h' and E :: "'f shm_env_scheme"
  assume "wi_repr W log" "n \<le> length log" "readLock h \<noteq> 0 \<or> bShmUnreliable h" "walFindFrame E W h pg n = (SQLITE_OK, q, h')"
  from find_repr [OF this] show "q = find_linear log pg (minFrame h) n" by simp
qed

section \<open>Properties\<close>

text \<open>A frame number lies on the wal-index page \<^verbatim>\<open>walFramePage\<close> computes: frames
  1..4062 on page 0 and 4096 frames on each later page.\<close>

theorem walFramePage_range:
  "walFramePage (Suc f) = i \<longleftrightarrow>
     (if i = 0 then Suc f \<le> 4062 else 4062 + (i - 1) * 4096 < Suc f \<and> Suc f \<le> 4062 + i * 4096)"
proof -
  have "walFramePage (Suc f) = i \<longleftrightarrow> ht_zero i < Suc f \<and> Suc f \<le> ht_zero i + ht_cap i"
    using walFramePage_bounds [of "Suc f"] walFramePage_unique [of i "Suc f"] by auto
  then show ?thesis by (cases i) (simp_all add: ht_zero_def ht_cap_def add.commute)
qed

text \<open>C7. \<^verbatim>\<open>walFindFrame\<close> returns the newest frame of the page between \<open>minFrame\<close> and
  \<open>iLast\<close>, or 0, exactly as the linear search of the debugging assertion: hash
  collisions, several hash tables and frames appended after \<open>iLast\<close> make no
  difference, and it never reports corruption on a well-formed index.\<close>

theorem walFindFrame_linear:
  assumes "wi_repr W log" "iLast \<le> length log" "readLock w \<noteq> 0 \<or> bShmUnreliable w"
    and "walFindFrame E W w pgno iLast = (rc, q, w')"
  shows "(rc = SQLITE_OK \<longrightarrow> q = find_linear log pgno (minFrame w) iLast) \<and>
    (shm_reliable E \<longrightarrow> rc = SQLITE_OK) \<and> same_conn w w'"
  using find_repr [OF assms] by simp

text \<open>C8. \<^verbatim>\<open>walIndexAppend\<close> keeps the index an exact image of the log: the new frame is
  added at the end, or, after a writer that never committed, in place of what
  that writer left behind. It fails only if the page cannot be mapped.\<close>

theorem walIndexAppend_repr:
  assumes "wi_repr W log" "walIndexAppend E W w iFrame pg = (rc, W', w')"
    and "iFrame = Suc (length log) \<or> (iFrame = Suc (mxFrame (hdr w)) \<and> iFrame \<le> length log)"
    and "pg \<noteq> 0"
  shows "(rc = SQLITE_OK \<longrightarrow> wi_repr W' (take (iFrame - 1) log @ [pg])) \<and>
    (shm_reliable E \<longrightarrow> rc = SQLITE_OK) \<and> same_conn w w'"
  using append_repr [OF assms] walHashGet_reliable [of E w "walFramePage iFrame"] by simp

text \<open>C16. \<^verbatim>\<open>walCleanupHash\<close> cuts the indexed log back to \<open>mxFrame\<close>, as a rollback needs.\<close>

theorem walCleanupHash_repr:
  assumes "wi_repr W log" "walCleanupHash E W w = (W', w')" "shm_reliable E"
    and "0 < mxFrame (hdr w)" "mxFrame (hdr w) \<le> length log"
  shows "wi_repr W' (take (mxFrame (hdr w)) log) \<and> same_conn w w'"
  using cleanup_repr [OF assms(1,2,4,5)] walHashGet_reliable [OF assms(3)] by simp

text \<open>C10. Snapshot stability: what a reader finds in its window of the log is not changed by what
  writers on other connections do to the shared index, any number of appended frames
  and rollbacks, as long as each of them started from a committed log that covers the
  window; and no such change makes the search fail.\<close>

theorem walFindFrame_stable:
  fixes E E' :: "'f shm_env_scheme"
  assumes "wi_repr W log" "n \<le> length log" "(index_step Env n)\<^sup>*\<^sup>* (W, log) (W', log')"
    and "readLock r \<noteq> 0 \<or> bShmUnreliable r" "same_conn r r'"
    and "walFindFrame E W r pg n = (SQLITE_OK, q, r1)" "walFindFrame E' W' r' pg n = (rc, q', r2)"
  shows "(rc = SQLITE_OK \<longrightarrow> q' = q) \<and> (shm_reliable E' \<longrightarrow> rc = SQLITE_OK)"
proof -
  note f = same_conn_fields [OF assms(5)]
  have r': "readLock r' \<noteq> 0 \<or> bShmUnreliable r'" using assms(4) f by simp
  have k: "wi_repr W' log'" "n \<le> length log'" using wix.steps_keep [OF assms(3,1,2)] by simp_all
  have "q' = q" if "rc = SQLITE_OK" by (rule wix.find_stable [OF assms(1-4) r' f(2) assms(6)]) (use assms(7) that in simp)
  then show ?thesis using find_repr [OF k r' assms(7)] by simp
qed

section \<open>Witnesses\<close>

definition shm_ok :: shm_env where
  "shm_ok = \<lparr>mallocOk = True, xShmMap = (\<lambda>_ _. (SQLITE_OK, True))\<rparr>"

definition reader0 :: Wal where
  "reader0 = wal_zero\<lparr>readLock := 1\<rparr>"

text \<open>The index after one frame, holding page 7, was appended to an empty one.\<close>

definition index1 :: wi where
  "index1 = fst (snd (walIndexAppend shm_ok (\<lambda>_. zero_page) reader0 1 7))"

lemma shm_ok_reliable: "shm_reliable shm_ok"
  by (simp add: shm_reliable_def shm_ok_def)

lemma append_ok_reliable:
  assumes "wi_repr W log" "pg \<noteq> 0"
  shows "\<exists>W' w'. walIndexAppend shm_ok W w (Suc (length log)) pg = (SQLITE_OK, W', w') \<and>
    wi_repr W' (log @ [pg]) \<and> same_conn w w'"
proof -
  obtain rc W' w' where r: "walIndexAppend shm_ok W w (Suc (length log)) pg = (rc, W', w')"
    by (cases "walIndexAppend shm_ok W w (Suc (length log)) pg")
  then show ?thesis
    using append_repr [OF assms(1) r _ assms(2)]
      walHashGet_reliable [OF shm_ok_reliable, of w "walFramePage (Suc (length log))"] by simp
qed

lemma find_ok_reliable:
  assumes "wi_repr W log" "n \<le> length log" "readLock w \<noteq> 0"
  shows "\<exists>w'. walFindFrame shm_ok W w pg n = (SQLITE_OK, find_linear log pg (minFrame w) n, w')"
proof -
  obtain rc q w' where r: "walFindFrame shm_ok W w pg n = (rc, q, w')"
    by (cases "walFindFrame shm_ok W w pg n")
  then show ?thesis using find_repr [OF assms(1,2) _ r] assms(3) shm_ok_reliable by simp
qed

lemma index1_repr: "wi_repr index1 [7]"
  using append_ok_reliable [of "\<lambda>_. zero_page" "[]" 7 reader0] by (auto simp: index1_def)

theorem walFindFrame_linear_witness:
  "\<exists>w'. walFindFrame shm_ok index1 reader0 7 1 = (SQLITE_OK, 1, w')"
proof -
  obtain rc q w' where r: "walFindFrame shm_ok index1 reader0 7 1 = (rc, q, w')"
    by (cases "walFindFrame shm_ok index1 reader0 7 1")
  then have "(rc = SQLITE_OK \<longrightarrow> q = find_linear [7] 7 (minFrame reader0) 1) \<and>
    (shm_reliable shm_ok \<longrightarrow> rc = SQLITE_OK) \<and> same_conn reader0 w'"
    by (intro walFindFrame_linear [OF index1_repr]) (simp_all add: reader0_def)
  then show ?thesis
    using r shm_ok_reliable by (simp add: find_linear.simps reader0_def wal_zero_def)
qed

theorem walIndexAppend_repr_witness:
  "fst (walIndexAppend shm_ok index1 reader0 2 9) = SQLITE_OK \<and>
   wi_repr (fst (snd (walIndexAppend shm_ok index1 reader0 2 9))) [7, 9]"
proof -
  obtain rc W' w' where r: "walIndexAppend shm_ok index1 reader0 2 9 = (rc, W', w')"
    by (cases "walIndexAppend shm_ok index1 reader0 2 9")
  show ?thesis
    using walIndexAppend_repr [OF index1_repr r] r shm_ok_reliable by simp
qed

theorem walCleanupHash_repr_witness:
  "wi_repr (fst (walCleanupHash shm_ok index1 (reader0\<lparr>hdr := hdr_zero\<lparr>mxFrame := 1\<rparr>\<rparr>))) [7]"
  using walCleanupHash_repr [OF index1_repr surjective_pairing shm_ok_reliable,
      of "reader0\<lparr>hdr := hdr_zero\<lparr>mxFrame := 1\<rparr>\<rparr>"] by simp

text \<open>A reader of the one-frame snapshot, while another connection appends two frames with new
  versions of page 7 and a third rolls the last of them back.\<close>

theorem walFindFrame_stable_witness:
  "\<exists>W' r2. (index_step (\<lambda>_ :: nat. shm_ok) 1)\<^sup>*\<^sup>* (index1, [7]) (W', [7, 7]) \<and>
     walFindFrame shm_ok W' reader0 7 1 = (SQLITE_OK, 1, r2)"
proof -
  define w where "w k = wal_zero\<lparr>hdr := hdr_zero\<lparr>mxFrame := k\<rparr>\<rparr>" for k
  have mx: "mxFrame (hdr (w k)) = k" for k by (simp add: w_def)
  let ?step = "index_step (\<lambda>_ :: nat. shm_ok) 1"
  have app: "\<exists>W'. ?step (W, l) (W', l @ [7]) \<and> wi_repr W' (l @ [7])" if W: "wi_repr W l" for W l
  proof -
    obtain W' w' where a: "walIndexAppend shm_ok W (w 1) (Suc (length l)) 7 = (SQLITE_OK, W', w')" "wi_repr W' (l @ [7])"
      using append_ok_reliable [OF W, of 7 "w 1"] by auto
    have "?step (W, l) (W', if SQLITE_OK = SQLITE_OK then take (Suc (length l) - 1) l @ [7] else l)"
      by (rule index_step.append [where w = "w 1" and w' = w' and Env = "\<lambda>_ :: nat. shm_ok" and i = 0]) (use mx a(1) in auto)
    then show ?thesis using a(2) by auto
  qed
  obtain W1 where W1: "?step (index1, [7]) (W1, [7, 7])" "wi_repr W1 [7, 7]" using app [OF index1_repr] by auto
  obtain W2 where W2: "?step (W1, [7, 7]) (W2, [7, 7, 7])" using app [OF W1(2)] by auto
  obtain W3 w3 where c: "walCleanupHash shm_ok W2 (w 2) = (W3, w3)" by (cases "walCleanupHash shm_ok W2 (w 2)")
  have "?step (W2, [7, 7, 7]) (W3, [7, 7])"
    using index_step.cleanup [of 1 "w 2" "[7, 7, 7]" "\<lambda>_ :: nat. shm_ok" 0 W2 W3 w3] c mx
      walHashGet_reliable [OF shm_ok_reliable] by simp
  then have run: "?step\<^sup>*\<^sup>* (index1, [7]) (W3, [7, 7])" using W1(1) W2 by (meson converse_rtranclp_into_rtranclp rtranclp.rtrancl_refl)
  have rl: "readLock reader0 \<noteq> 0 \<or> bShmUnreliable reader0" by (simp add: reader0_def)
  have m: "minFrame reader0 = 0" by (simp add: reader0_def wal_zero_def)
  obtain r1 where f1: "walFindFrame shm_ok index1 reader0 7 1 = (SQLITE_OK, 1, r1)"
    using find_ok_reliable [OF index1_repr, of 1 reader0 7] m by (auto simp: find_linear.simps reader0_def)
  obtain rc q r2 where f2: "walFindFrame shm_ok W3 reader0 7 1 = (rc, q, r2)" by (cases "walFindFrame shm_ok W3 reader0 7 1")
  have "(rc = SQLITE_OK \<longrightarrow> q = 1) \<and> (shm_reliable shm_ok \<longrightarrow> rc = SQLITE_OK)"
    by (rule walFindFrame_stable [OF index1_repr _ run rl same_conn_refl f1 f2]) simp
  then show ?thesis using run f2 shm_ok_reliable by blast
qed

end
