(* ===== verification/WalSort.thy ===== *)
theory WalSort
  imports WalIndex
begin

unbundle bit_operations_syntax

text \<open>
  The merge sort of \<^verbatim>\<open>wal.c\<close> that orders the frames of one wal-index page by database
  page for the checkpoint, keeping only the newest frame of each page. A sub-list
  of \<^verbatim>\<open>aList\<close> is the list of its entries; the keys \<^verbatim>\<open>aContent\<close> are a function of the
  entry. The routine is shown to compute the sorted list of newest entries.
\<close>

section \<open>Operations\<close>

text \<open>\<^verbatim>\<open>walMerge\<close>: the \<^verbatim>\<open>while\<close> loop with the unread parts of \<^verbatim>\<open>aLeft\<close> and \<^verbatim>\<open>aRight\<close>.\<close>

definition merge_skip :: "(nat \<Rightarrow> u32) \<Rightarrow> u32 \<Rightarrow> nat list \<Rightarrow> nat list" where
  "merge_skip aContent dbpage aLeft =
     (if aLeft \<noteq> [] \<and> aContent (hd aLeft) = dbpage then tl aLeft else aLeft)"

function walMerge :: "(nat \<Rightarrow> u32) \<Rightarrow> nat list \<Rightarrow> nat list \<Rightarrow> nat list" where
  "walMerge aContent aLeft aRight =
    (if aRight = [] \<and> aLeft = [] then []
     else if aLeft \<noteq> [] \<and> (aRight = [] \<or> aContent (hd aLeft) < aContent (hd aRight)) then
       (let logpage = hd aLeft; dbpage = aContent logpage
        in logpage # walMerge aContent (merge_skip aContent dbpage (tl aLeft)) aRight)
     else
       (let logpage = hd aRight; dbpage = aContent logpage
        in logpage # walMerge aContent (merge_skip aContent dbpage aLeft) (tl aRight)))"
  by pat_completeness auto
termination
  by (relation "measure (\<lambda>(c, l, r). length l + length r)")
     (auto simp: merge_skip_def neq_Nil_conv)

declare walMerge.simps [simp del]

lemma bit_nat_le: "bit (n :: nat) k \<Longrightarrow> k < n"
proof -
  assume b: "bit n k"
  then have "odd (n div 2 ^ k)" by (simp add: bit_iff_odd)
  then have "n div 2 ^ k \<noteq> 0" by (metis even_zero)
  then have "2 ^ k \<le> n" by (simp add: div_eq_0_iff)
  moreover have "k < 2 ^ k" by simp
  ultimately show ?thesis by linarith
qed

text \<open>\<^verbatim>\<open>walMergesort\<close>: the inner loop that merges the new element into the full
  sub-lists (returning the sub-list and the place it goes), the loop over the
  input, and the final loop over the remaining sub-lists.\<close>

function sort_carry ::
  "(nat \<Rightarrow> u32) \<Rightarrow> (nat \<Rightarrow> nat list) \<Rightarrow> nat \<Rightarrow> nat \<Rightarrow> nat list \<Rightarrow> nat \<times> nat list" where
  "sort_carry aContent aSub iList iSub aMerge =
    (if bit iList iSub
     then sort_carry aContent aSub iList (Suc iSub) (walMerge aContent (aSub iSub) aMerge)
     else (iSub, aMerge))"
  by pat_completeness auto
termination
  by (relation "measure (\<lambda>(c, s, n, i, m). n - i)") (auto dest: bit_nat_le)

declare sort_carry.simps [simp del]

fun sort_insert ::
  "(nat \<Rightarrow> u32) \<Rightarrow> nat list \<Rightarrow> nat \<Rightarrow> (nat \<Rightarrow> nat list) \<times> nat \<times> nat list" where
  "sort_insert aContent aList 0 = ((\<lambda>_. []), 0, [])"
| "sort_insert aContent aList (Suc iList) =
    (let (aSub, _, _) = sort_insert aContent aList iList;
         (iSub, aMerge) = sort_carry aContent aSub iList 0 [aList ! iList]
     in (aSub(iSub := aMerge), iSub, aMerge))"

function sort_finish ::
  "(nat \<Rightarrow> u32) \<Rightarrow> (nat \<Rightarrow> nat list) \<Rightarrow> nat \<Rightarrow> nat \<Rightarrow> nat list \<Rightarrow> nat list" where
  "sort_finish aContent aSub nList iSub aMerge =
    (if iSub < 13 then
       sort_finish aContent aSub nList (Suc iSub)
         (if bit nList iSub then walMerge aContent (aSub iSub) aMerge else aMerge)
     else aMerge)"
  by pat_completeness auto
termination
  by (relation "measure (\<lambda>(c, s, n, i, m). 13 - i)") auto

declare sort_finish.simps [simp del]

definition walMergesort :: "(nat \<Rightarrow> u32) \<Rightarrow> nat list \<Rightarrow> nat list" where
  "walMergesort aContent aList =
    (let nList = length aList;
         (aSub, iSub, aMerge) = sort_insert aContent aList nList
     in sort_finish aContent aSub nList (Suc iSub) aMerge)"

section \<open>Merging\<close>

text \<open>A run: strictly increasing keys.\<close>

definition run :: "(nat \<Rightarrow> u32) \<Rightarrow> nat list \<Rightarrow> bool" where
  "run c xs \<longleftrightarrow> sorted_wrt (\<lambda>x y. c x < c y) xs"

lemma run_Nil [simp]: "run c []" and run_Cons: "run c (x # xs) \<longleftrightarrow> (\<forall>y\<in>set xs. c x < c y) \<and> run c xs"
  by (simp_all add: run_def)

lemma run_tl: "run c xs \<Longrightarrow> run c (tl xs)"
  by (cases xs) (simp_all add: run_Cons)

lemma run_skip: "run c xs \<Longrightarrow> run c (merge_skip c k xs)"
  by (simp add: merge_skip_def run_tl)

lemma set_skip:
  "run c xs \<Longrightarrow> \<forall>x\<in>set xs. k \<le> c x \<Longrightarrow> set (merge_skip c k xs) = {x \<in> set xs. c x \<noteq> k}"
  by (cases xs) (auto simp: merge_skip_def run_Cons)

text \<open>The merge keeps all of the right list, and of the left list what has no equal key
  on the right.\<close>

lemma walMerge_correct:
  "run c l \<Longrightarrow> run c r \<Longrightarrow>
   run c (walMerge c l r) \<and> set (walMerge c l r) = set r \<union> {x \<in> set l. c x \<notin> c ` set r}"
proof (induction c l r rule: walMerge.induct)
  case (1 c l r)
  show ?case
  proof (cases "r = [] \<and> l = []")
    case True
    then show ?thesis by (simp add: walMerge.simps)
  next
    case ne: False
    show ?thesis
    proof (cases "l \<noteq> [] \<and> (r = [] \<or> c (hd l) < c (hd r))")
      case True
      then obtain x l' where l: "l = x # l'" by (cases l) auto
      have lt: "\<forall>y\<in>set l'. c x < c y" "run c l'" using "1.prems"(1) by (simp_all add: l run_Cons)
      have ltr: "\<forall>y\<in>set r. c x < c y"
        using True "1.prems"(2) by (cases r) (auto simp: l run_Cons intro: order.strict_trans)
      have skip: "merge_skip c (c x) l' = l'"
        using lt(1) by (cases l') (auto simp: merge_skip_def)
      have ih: "run c (walMerge c l' r)" "set (walMerge c l' r) = set r \<union> {x \<in> set l'. c x \<notin> c ` set r}"
        using "1.IH"(1) [OF ne True refl refl] lt(2) "1.prems"(2) by (simp_all add: l skip)
      have "walMerge c l r = x # walMerge c l' r"
        using True by (subst walMerge.simps) (simp add: l skip)
      then show ?thesis using ih lt(1) ltr by (auto simp: l run_Cons)
    next
      case False
      then obtain x r' where r: "r = x # r'" using ne by (cases r) auto
      have lt: "\<forall>y\<in>set r'. c x < c y" "run c r'" using "1.prems"(2) by (simp_all add: r run_Cons)
      have lel: "\<forall>y\<in>set l. c x \<le> c y"
        using False "1.prems"(1) by (cases l) (auto simp: r run_Cons intro: order.strict_implies_order order.strict_trans1)
      let ?l = "merge_skip c (c x) l"
      have sl: "set ?l = {y \<in> set l. c y \<noteq> c x}" using set_skip "1.prems"(1) lel by blast
      have ih: "run c (walMerge c ?l r')" "set (walMerge c ?l r') = set r' \<union> {y \<in> set ?l. c y \<notin> c ` set r'}"
        using "1.IH"(2) [OF ne False refl refl] lt(2) "1.prems"(1) by (simp_all add: r run_skip)
      have "walMerge c l r = x # walMerge c ?l r'"
        using False ne by (subst walMerge.simps) (auto simp: r)
      then show ?thesis using ih lt(1) lel sl by (auto simp: r run_Cons order.order_iff_strict)
    qed
  qed
qed

section \<open>Newest entries\<close>

text \<open>\<open>xs\<close> is a run of the greatest entries of each key in \<open>S\<close>.\<close>

definition newest_run :: "(nat \<Rightarrow> u32) \<Rightarrow> nat set \<Rightarrow> nat list \<Rightarrow> bool" where
  "newest_run c S xs \<longleftrightarrow> run c xs \<and> set xs = {x \<in> S. \<forall>y\<in>S. c y = c x \<longrightarrow> y \<le> x}"

lemma newest_run_single: "newest_run c {x} [x]"
  by (auto simp: newest_run_def run_Cons)

lemma newest_exists:
  fixes S :: "nat set"
  assumes "finite S" "y \<in> S"
  shows "\<exists>x\<in>S. c x = c y \<and> (\<forall>z\<in>S. c z = c x \<longrightarrow> z \<le> x)"
proof -
  let ?T = "{z \<in> S. c z = c y}"
  have "finite ?T" "?T \<noteq> {}" using assms by auto
  then have "Max ?T \<in> ?T" "\<forall>z\<in>?T. z \<le> Max ?T" using Max_in [of ?T] by simp_all
  then show ?thesis by (intro bexI [of _ "Max ?T"]) auto
qed

lemma newest_run_merge:
  assumes l: "newest_run c S l" and r: "newest_run c T r" and "finite S" "finite T"
    and less: "\<And>s t. s \<in> S \<Longrightarrow> t \<in> T \<Longrightarrow> s < t"
  shows "newest_run c (S \<union> T) (walMerge c l r)"
proof -
  have m: "run c (walMerge c l r)" "set (walMerge c l r) = set r \<union> {x \<in> set l. c x \<notin> c ` set r}"
    using walMerge_correct l r by (auto simp: newest_run_def)
  have keys: "c ` set r = c ` T"
  proof
    show "c ` set r \<subseteq> c ` T" using r by (auto simp: newest_run_def)
    show "c ` T \<subseteq> c ` set r"
    proof
      fix k assume "k \<in> c ` T"
      then obtain y where "y \<in> T" "k = c y" by blast
      then obtain x where "x \<in> T" "c x = k" "\<forall>z\<in>T. c z = c x \<longrightarrow> z \<le> x"
        using newest_exists [OF \<open>finite T\<close>, of y c] by auto
      then show "k \<in> c ` set r" using r unfolding newest_run_def by (intro image_eqI [of _ _ x]) auto
    qed
  qed
  then have m2: "set (walMerge c l r) = set r \<union> {x \<in> set l. c x \<notin> c ` T}" using m(2) by simp
  have sets: "set l = {x \<in> S. \<forall>y\<in>S. c y = c x \<longrightarrow> y \<le> x}" "set r = {x \<in> T. \<forall>y\<in>T. c y = c x \<longrightarrow> y \<le> x}"
    using l r by (simp_all add: newest_run_def)
  have "x \<in> set (walMerge c l r) \<longleftrightarrow> x \<in> S \<union> T \<and> (\<forall>y\<in>S \<union> T. c y = c x \<longrightarrow> y \<le> x)" for x
  proof -
    have "x \<in> T \<Longrightarrow> y \<in> S \<Longrightarrow> y \<le> x" for y using less [of y x] by simp
    moreover have "x \<in> S \<Longrightarrow> c x \<in> c ` T \<Longrightarrow> \<exists>y\<in>T. c y = c x \<and> \<not> y \<le> x"
      using less by (fastforce simp: not_le)
    moreover have "x \<in> S \<Longrightarrow> x \<notin> T" using less by blast
    moreover have "y \<in> T \<Longrightarrow> c y = c x \<Longrightarrow> c x \<in> c ` T" for y by (metis imageI)
    ultimately show ?thesis unfolding m2 sets by auto
  qed
  then show ?thesis using m(1) by (auto simp: newest_run_def)
qed

section \<open>The sort\<close>

text \<open>The entries of \<open>aList\<close> at positions \<open>a..<b\<close>, and the start of the block of \<open>2^k\<close>
  positions that \<open>m\<close> lies in.\<close>

definition seg :: "nat list \<Rightarrow> nat \<Rightarrow> nat \<Rightarrow> nat set" where
  "seg xs a b = (\<lambda>i. xs ! i) ` {a..<b}"

definition low :: "nat \<Rightarrow> nat \<Rightarrow> nat" where
  "low m k = m div 2 ^ k * 2 ^ k"

lemma low_0 [simp]: "low m 0 = m"
  by (simp add: low_def)

lemma low_Suc: "low m k = low m (Suc k) + (if bit m k then 2 ^ k else 0)"
proof -
  have "m div 2 ^ k = 2 * (m div 2 ^ k div 2) + (m div 2 ^ k) mod 2" by presburger
  then have "m div 2 ^ k = 2 * (m div 2 ^ Suc k) + (if bit m k then 1 else 0)"
    by (simp add: div_mult2_eq [symmetric] mult.commute bit_iff_odd odd_iff_mod_2_eq_one)
  then show ?thesis unfolding low_def by (simp add: algebra_simps)
qed

lemma low_le: "low m k \<le> m"
  by (simp add: low_def)

lemma low_mono: "low m (Suc k) \<le> low m k"
  by (subst low_Suc [of m k]) simp

lemma low_beyond: "m < 2 ^ k \<Longrightarrow> low m k = 0"
  by (simp add: low_def)

lemma seg_union: "a \<le> b \<Longrightarrow> b \<le> d \<Longrightarrow> seg xs a b \<union> seg xs b d = seg xs a d"
  unfolding seg_def by (simp add: image_Un [symmetric] ivl_disj_un_two(3))

lemma seg_empty [simp]: "seg xs a a = {}"
  by (simp add: seg_def)

lemma finite_seg [simp]: "finite (seg xs a b)"
  by (simp add: seg_def)

lemma seg_less:
  assumes "sorted_wrt (<) xs" "s \<in> seg xs a b" "t \<in> seg xs b d" "d \<le> length xs"
  shows "s < t"
  using assms by (auto simp: seg_def sorted_wrt_iff_nth_less)

text \<open>Sub-list \<open>k\<close> holds the block of positions that bit \<open>k\<close> of \<open>m\<close> stands for.\<close>

definition subs_inv :: "(nat \<Rightarrow> u32) \<Rightarrow> nat list \<Rightarrow> nat \<Rightarrow> (nat \<Rightarrow> nat list) \<Rightarrow> bool" where
  "subs_inv c xs m aSub \<longleftrightarrow>
     (\<forall>k. bit m k \<longrightarrow> newest_run c (seg xs (low m (Suc k)) (low m k)) (aSub k))"

lemma merge_sub:
  assumes "sorted_wrt (<) xs" "subs_inv c xs m aSub" "bit m k" "low m k \<le> n" "n \<le> length xs"
    and "newest_run c (seg xs (low m k) n) aMerge"
  shows "newest_run c (seg xs (low m (Suc k)) n) (walMerge c (aSub k) aMerge)"
proof -
  have "newest_run c (seg xs (low m (Suc k)) (low m k) \<union> seg xs (low m k) n) (walMerge c (aSub k) aMerge)"
    using assms by (intro newest_run_merge) (auto simp: subs_inv_def intro: seg_less)
  then show ?thesis using seg_union [OF low_mono assms(4), of xs] by simp
qed

text \<open>The low \<open>i\<close> bits of \<open>m\<close> are set: the carry passes them.\<close>

definition ones :: "nat \<Rightarrow> nat \<Rightarrow> bool" where
  "ones m i \<longleftrightarrow> (\<forall>k<i. bit m k)"

lemma ones_low: "ones m i \<Longrightarrow> m + 1 = low m i + 2 ^ i"
proof (induction i)
  case (Suc i)
  then have "m + 1 = low m i + 2 ^ i" "bit m i" by (simp_all add: ones_def)
  then show ?case using low_Suc [of m i] by simp
qed simp

lemma carry_div:
  assumes "ones m i" "\<not> bit m i" "i < k"
  shows "(m + 1) div 2 ^ k = m div 2 ^ k"
proof -
  have "m + 1 = low m i + 2 ^ i" using ones_low assms(1) by simp
  moreover have "low m i = low m (Suc i)" using low_Suc [of m i] assms(2) by simp
  moreover have "low m (Suc i) = m div 2 ^ Suc i * 2 ^ Suc i" by (simp add: low_def)
  ultimately have "(m + 1) div 2 ^ Suc i = m div 2 ^ Suc i" by (simp add: div_mult_self3)
  moreover have "x div 2 ^ k = x div 2 ^ Suc i div 2 ^ (k - Suc i)" for x :: nat
    using assms(3) by (simp add: div_mult2_eq [symmetric] power_add [symmetric] del: power_Suc)
  ultimately show ?thesis by metis
qed

lemma carry_low:
  assumes "ones m i" "\<not> bit m i"
  shows "i < k \<Longrightarrow> low (m + 1) k = low m k" "low (m + 1) i = m + 1"
    "i < k \<Longrightarrow> bit (m + 1) k = bit m k" "k < i \<Longrightarrow> \<not> bit (m + 1) k"
proof -
  show "i < k \<Longrightarrow> low (m + 1) k = low m k" using carry_div [OF assms] by (simp add: low_def)
  show "i < k \<Longrightarrow> bit (m + 1) k = bit m k" using carry_div [OF assms] by (simp add: bit_iff_odd)
  have e: "m + 1 = (m div 2 ^ i + 1) * 2 ^ i" using ones_low [OF assms(1)] by (simp add: low_def)
  then have "(m + 1) div 2 ^ i = m div 2 ^ i + 1" by (metis nonzero_mult_div_cancel_right power_not_zero zero_neq_numeral)
  then show "low (m + 1) i = m + 1" using e unfolding low_def by simp
  show "\<not> bit (m + 1) k" if "k < i"
  proof -
    have "2 ^ Suc k dvd (2 :: nat) ^ i" using that by (intro le_imp_power_dvd) simp
    then have "2 ^ Suc k dvd m + 1" unfolding e by (rule dvd_mult)
    then have "low (m + 1) (Suc k) = m + 1" by (simp add: low_def)
    then show ?thesis using low_Suc [of "m + 1" k] low_le [of "m + 1" k] by (cases "bit (m + 1) k") simp_all
  qed
qed

lemma sort_carry_correct:
  assumes "sorted_wrt (<) xs" "subs_inv c xs m aSub" "m < length xs"
    and "ones m i" "newest_run c (seg xs (low m i) (m + 1)) aMerge"
  shows "\<exists>j r. sort_carry c aSub m i aMerge = (j, r) \<and> ones m j \<and> \<not> bit m j \<and>
    newest_run c (seg xs (low m j) (m + 1)) r"
  using assms
proof (induction c aSub m i aMerge rule: sort_carry.induct)
  case (1 c aSub m i aMerge)
  show ?case
  proof (cases "bit m i")
    case True
    have "newest_run c (seg xs (low m (Suc i)) (m + 1)) (walMerge c (aSub i) aMerge)"
      using True "1.prems" low_le [of m i] by (intro merge_sub) simp_all
    then show ?thesis
      using "1.IH" [OF True "1.prems"(1-3)] True "1.prems"(4) by (subst sort_carry.simps) (auto simp: ones_def less_Suc_eq)
  next
    case False
    then show ?thesis using "1.prems" by (subst sort_carry.simps) auto
  qed
qed

lemma sort_step_correct:
  assumes "sorted_wrt (<) xs" "subs_inv c xs m aSub" "m < length xs"
    and "sort_carry c aSub m 0 [xs ! m] = (i, r)"
  shows "subs_inv c xs (Suc m) (aSub(i := r)) \<and>
    newest_run c (seg xs (low (Suc m) (Suc i)) (Suc m)) r"
proof -
  have "seg xs (low m 0) (m + 1) = {xs ! m}" by (auto simp: seg_def)
  then have "newest_run c (seg xs (low m 0) (m + 1)) [xs ! m]" by (simp add: newest_run_single)
  then have i: "ones m i" "\<not> bit m i" "newest_run c (seg xs (low m i) (m + 1)) r"
    using sort_carry_correct [OF assms(1-3), of 0 "[xs ! m]"] assms(4) by (auto simp: ones_def)
  note low = carry_low [OF i(1,2)]
  have "low m i = low (Suc m) (Suc i)" using low_Suc [of m i] i(2) low(1) [of "Suc i"] by simp
  then have r: "newest_run c (seg xs (low (Suc m) (Suc i)) (Suc m)) r" using i(3) by simp
  have "newest_run c (seg xs (low (Suc m) (Suc k)) (low (Suc m) k)) ((aSub(i := r)) k)"
    if bk: "bit (Suc m) k" for k
  proof -
    consider "k = i" | "i < k" using bk low(4) [of k] by (cases k i rule: linorder_cases) auto
    then show ?thesis
    proof cases
      case 1
      then show ?thesis using r low(2) by simp
    next
      case 2
      then show ?thesis
        using bk assms(2) low(1) [of k] low(1) [of "Suc k"] low(3) [of k] by (simp add: subs_inv_def)
    qed
  qed
  then show ?thesis using r by (simp add: subs_inv_def)
qed

lemma sort_insert_correct:
  assumes "sorted_wrt (<) xs" "m \<le> length xs"
  shows "\<exists>aSub i r. sort_insert c xs m = (aSub, i, r) \<and> subs_inv c xs m aSub \<and>
    (0 < m \<longrightarrow> newest_run c (seg xs (low m (Suc i)) m) r)"
  using assms(2)
proof (induction m)
  case 0
  then show ?case by (simp add: subs_inv_def)
next
  case (Suc m)
  then obtain aSub i r where s: "sort_insert c xs m = (aSub, i, r)" "subs_inv c xs m aSub" by auto
  obtain j q where "sort_carry c aSub m 0 [xs ! m] = (j, q)" by fastforce
  then show ?case using sort_step_correct [OF assms(1) s(2), of j q] Suc.prems s(1) by auto
qed

lemma sort_finish_correct:
  assumes "sorted_wrt (<) xs" "subs_inv c xs (length xs) aSub" "length xs < 2 ^ 13"
    and "newest_run c (seg xs (low (length xs) i) (length xs)) aMerge"
  shows "newest_run c (set xs) (sort_finish c aSub (length xs) i aMerge)"
  using assms(4)
proof (induction "13 - i" arbitrary: i aMerge)
  case 0
  have "low (length xs) i = 0"
  proof (rule low_beyond)
    have "(2 :: nat) ^ 13 \<le> 2 ^ i" using 0 by (intro power_increasing) simp_all
    then show "length xs < 2 ^ i" using assms(3) by linarith
  qed
  moreover have "seg xs 0 (length xs) = set xs" by (auto simp: seg_def set_conv_nth)
  ultimately show ?case using 0 by (subst sort_finish.simps) simp
next
  case (Suc d)
  let ?n = "length xs" and ?m = "if bit (length xs) i then walMerge c (aSub i) aMerge else aMerge"
  have "newest_run c (seg xs (low ?n (Suc i)) ?n) ?m"
    using merge_sub [OF assms(1,2) _ _ _ Suc.prems] low_Suc [of ?n i] Suc.prems low_le [of ?n i]
    by (cases "bit ?n i") simp_all
  then have "newest_run c (set xs) (sort_finish c aSub ?n (Suc i) ?m)"
    using Suc.hyps(2) by (intro Suc.hyps(1)) simp_all
  moreover have "i < 13" using Suc.hyps(2) by simp
  ultimately show ?case by (subst sort_finish.simps) simp
qed

lemma walMergesort_newest:
  assumes "sorted_wrt (<) xs" "xs \<noteq> []" "length xs \<le> 4096"
  shows "newest_run c (set xs) (walMergesort c xs)"
proof -
  obtain aSub i r where s: "sort_insert c xs (length xs) = (aSub, i, r)" "subs_inv c xs (length xs) aSub"
    "newest_run c (seg xs (low (length xs) (Suc i)) (length xs)) r"
    using sort_insert_correct [OF assms(1), of "length xs" c] assms(2) by auto
  then show ?thesis
    using sort_finish_correct [OF assms(1) s(2) _ s(3)] assms(3) by (simp add: walMergesort_def)
qed

section \<open>Properties\<close>

text \<open>C15. The merge sort of the frames of one wal-index page returns each database page
  once, in strictly increasing order, represented by its newest frame, for up to
  4096 frames.\<close>

theorem walMergesort_sorted_newest:
  assumes "0 < n" "n \<le> 4096"
  shows "sorted_wrt (\<lambda>i j. aContent i < aContent j) (walMergesort aContent [0..<n]) \<and>
    set (walMergesort aContent [0..<n]) = {i. i < n \<and> (\<forall>j<n. aContent j = aContent i \<longrightarrow> j \<le> i)}"
proof -
  have "newest_run aContent (set [0..<n]) (walMergesort aContent [0..<n])"
    using assms by (intro walMergesort_newest) (simp_all add: sorted_wrt_upt)
  then show ?thesis by (auto simp: newest_run_def run_def)
qed

theorem walMergesort_sorted_newest_witness:
  "let c = (\<lambda>i. [5, 3, 5, 9, 3] ! i)
   in sorted_wrt (\<lambda>i j. c i < c j) (walMergesort c [0..<5]) \<and>
      set (walMergesort c [0..<5]) = {i. i < 5 \<and> (\<forall>j<5. c j = c i \<longrightarrow> j \<le> i)}"
  using walMergesort_sorted_newest [of 5 "\<lambda>i. [5, 3, 5, 9, 3] ! i"] by (simp add: Let_def)

end
