(* ===== verification/WalIter.thy ===== *)
theory WalIter
  imports WalSort
begin

text \<open>
  The iterators of \<^verbatim>\<open>wal.c\<close> that the checkpoint walks the log with: the forward
  iterator, which merges the sorted pages of the wal-index and yields each
  database page with its newest frame in page order, and libSQL's reverse
  iterator, which collects those frames and yields them from the newest frame
  down.
\<close>

section \<open>Operations\<close>

text \<open>\<^verbatim>\<open>struct WalSegment\<close>; \<^verbatim>\<open>nEntry\<close> is the length of \<^verbatim>\<open>aIndex\<close>.\<close>

record WalSegment =
  iNext :: nat
  aIndex :: "nat list"
  seg_aPgno :: "nat \<Rightarrow> u32"
  seg_iZero :: nat

record WalIterator =
  iPrior :: u32
  aSegment :: "WalSegment list"

definition segment_zero :: WalSegment where
  "segment_zero = \<lparr>iNext = 0, aIndex = [], seg_aPgno = (\<lambda>_. 0), seg_iZero = 0\<rparr>"

text \<open>\<^verbatim>\<open>walIteratorNext\<close>: the \<^verbatim>\<open>while\<close> loop that passes entries not above \<open>iMin\<close>, the
  loop over the segments from the last to the first, and the routine, which
  returns 1 at the end.\<close>

definition seg_key :: "WalSegment \<Rightarrow> nat \<Rightarrow> u32" where
  "seg_key s j = seg_aPgno s (aIndex s ! j)"

function seg_advance :: "u32 \<Rightarrow> WalSegment \<Rightarrow> WalSegment" where
  "seg_advance iMin s =
    (if iNext s < length (aIndex s) \<and> \<not> seg_key s (iNext s) > iMin
     then seg_advance iMin (s\<lparr>iNext := iNext s + 1\<rparr>) else s)"
  by pat_completeness auto
termination
  by (relation "measure (\<lambda>(m, s). length (aIndex s) - iNext s)") auto

declare seg_advance.simps [simp del]

primrec iter_scan ::
  "nat \<Rightarrow> WalSegment list \<Rightarrow> u32 \<Rightarrow> u32 \<Rightarrow> nat \<Rightarrow> WalSegment list \<times> u32 \<times> nat" where
  "iter_scan 0 segs iMin iRet piFrame = (segs, iRet, piFrame)"
| "iter_scan (Suc i) segs iMin iRet piFrame =
    (let s = seg_advance iMin (segs ! i);
         segs = segs[i := s]
     in if iNext s < length (aIndex s) \<and> seg_key s (iNext s) < iRet
        then iter_scan i segs iMin (seg_key s (iNext s)) (seg_iZero s + aIndex s ! iNext s)
        else iter_scan i segs iMin iRet piFrame)"

definition walIteratorNext :: "WalIterator \<Rightarrow> nat \<Rightarrow> bool \<times> u32 \<times> nat \<times> WalIterator" where
  "walIteratorNext p piFrame =
    (let (segs, iRet, f) =
       iter_scan (length (aSegment p)) (aSegment p) (iPrior p) 0xFFFFFFFF piFrame
     in (iRet = 0xFFFFFFFF, iRet, f, \<lparr>iPrior = iRet, aSegment = segs\<rparr>))"

text \<open>\<^verbatim>\<open>walIteratorInit\<close>: the loop over the wal-index pages \<open>i, i + 1, \<dots>\<close> (\<open>k\<close> of them),
  and the routine.\<close>

primrec iter_init ::
  "nat \<Rightarrow> 'e shm_env_scheme \<Rightarrow> wi \<Rightarrow> Wal \<Rightarrow> nat \<Rightarrow> nat \<Rightarrow> nat \<Rightarrow> WalSegment list
    \<Rightarrow> rc \<times> WalSegment list \<times> Wal" where
  "iter_init 0 E W pWal i nSegment iLast segs = (SQLITE_OK, segs, pWal)"
| "iter_init (Suc k) E W pWal i nSegment iLast segs =
    (let (rc, sLoc, pWal) = walHashGet E pWal i
     in if rc \<noteq> SQLITE_OK then (rc, segs, pWal)
     else
       let pg = aPgno (W (loc_page sLoc));
           nEntry = (if i + 1 = nSegment then iLast - iZero sLoc
                     else if i = 0 then HASHTABLE_NPAGE_ONE else HASHTABLE_NPAGE);
           s = \<lparr>iNext = 0, aIndex = walMergesort pg [0..<nEntry], seg_aPgno = pg,
                seg_iZero = iZero sLoc + 1\<rparr>
       in iter_init k E W pWal (i + 1) nSegment iLast (segs[i := s]))"

definition walIteratorInit ::
  "'e shm_env_scheme \<Rightarrow> wi \<Rightarrow> Wal \<Rightarrow> nat \<Rightarrow> rc \<times> WalIterator option \<times> Wal" where
  "walIteratorInit E W pWal nBackfill =
    (let iLast = mxFrame (hdr pWal);
         nSegment = walFramePage iLast + 1
     in if \<not> mallocOk E then (SQLITE_NOMEM, None, pWal)
     else
       let i = walFramePage (nBackfill + 1);
           (rc, segs, pWal) = iter_init (nSegment - i) E W pWal i nSegment iLast
                                (replicate nSegment segment_zero)
       in if rc \<noteq> SQLITE_OK then (rc, None, pWal)
          else (rc, Some \<lparr>iPrior = 0, aSegment = segs\<rparr>, pWal))"

text \<open>libSQL's reverse iterator: \<^verbatim>\<open>frames\<close> has the page number of every frame to visit and
  0 elsewhere. \<open>rev_fill\<close> is the loop of \<^verbatim>\<open>walIteratorRevInit\<close>; it ends because the
  page number the forward iterator returns grows.\<close>

record WalIteratorRev =
  current :: nat
  frames :: "nat \<Rightarrow> u32"

lemma seg_advance_stop:
  "iNext (seg_advance iMin s) < length (aIndex (seg_advance iMin s)) \<Longrightarrow>
   iMin < seg_key (seg_advance iMin s) (iNext (seg_advance iMin s))"
proof (induction iMin s rule: seg_advance.induct)
  case (1 iMin s)
  show ?case
  proof (cases "iNext s < length (aIndex s) \<and> \<not> seg_key s (iNext s) > iMin")
    case True
    moreover have "seg_advance iMin s = seg_advance iMin (s\<lparr>iNext := iNext s + 1\<rparr>)"
      using True by (subst seg_advance.simps) simp
    ultimately show ?thesis using "1.IH" "1.prems" by simp
  next
    case False
    then have "seg_advance iMin s = s" by (subst seg_advance.simps) auto
    then show ?thesis using "1.prems" False by auto
  qed
qed

lemma iter_scan_grows: "iter_scan k segs iMin iRet f = (segs', r, f') \<Longrightarrow> r = iRet \<or> iMin < r"
proof (induction k arbitrary: segs iRet f)
  case (Suc k)
  let ?t = "seg_advance iMin (segs ! k)"
  show ?case
  proof (cases "iNext ?t < length (aIndex ?t) \<and> seg_key ?t (iNext ?t) < iRet")
    case True
    then show ?thesis
      using Suc.IH [of _ "seg_key ?t (iNext ?t)"] Suc.prems seg_advance_stop [of iMin "segs ! k"]
      by (auto simp: Let_def)
  next
    case False
    then show ?thesis using Suc.IH Suc.prems by (auto simp: Let_def)
  qed
qed simp

lemma walIteratorNext_grows:
  "walIteratorNext p f0 = (False, pg, f, p') \<Longrightarrow> iPrior p < iPrior p'"
  by (auto simp: walIteratorNext_def split: prod.splits dest: iter_scan_grows)

lemma walIteratorNext_measure:
  assumes "(False, pg, f, p') = walIteratorNext p f0"
  shows "4294967296 - unat (iPrior p') < 4294967296 - unat (iPrior p)"
proof -
  have "unat (iPrior p) < unat (iPrior p')"
    using walIteratorNext_grows [OF assms [symmetric]] by (simp add: word_less_nat_alt)
  moreover have "unat (iPrior p') < 4294967296" using unsigned_less [of "iPrior p'", where 'a = nat] by simp
  ultimately show ?thesis by linarith
qed

function rev_fill ::
  "'e shm_env_scheme \<Rightarrow> wi \<Rightarrow> Wal \<Rightarrow> nat \<Rightarrow> bool \<Rightarrow> WalIterator \<Rightarrow> (nat \<Rightarrow> u32) \<Rightarrow> nat
    \<Rightarrow> rc \<times> (nat \<Rightarrow> u32) \<times> Wal" where
  "rev_fill E W pWal mxSafeFrame ignore pIter fs iFrame =
    (case walIteratorNext pIter iFrame of (fin, iPageno, iFrame, pIter) \<Rightarrow>
       if fin then (SQLITE_OK, fs, pWal)
       else if iFrame > mxSafeFrame \<and> \<not> ignore then
         (case walFindFrame E W pWal iPageno mxSafeFrame of (rc, iFrame, pWal) \<Rightarrow>
            if rc \<noteq> SQLITE_OK then (rc, fs, pWal)
            else if iFrame = 0 then rev_fill E W pWal mxSafeFrame ignore pIter fs iFrame
            else rev_fill E W pWal mxSafeFrame ignore pIter (fs(iFrame := iPageno)) iFrame)
       else rev_fill E W pWal mxSafeFrame ignore pIter (fs(iFrame := iPageno)) iFrame)"
  by pat_completeness auto
termination
  by (relation "measure (\<lambda>(E, W, w, m, g, p, fs, f). 2 ^ 32 - unat (iPrior p))")
     (auto dest: walIteratorNext_measure)

declare rev_fill.simps [simp del]

definition walIteratorRevInit ::
  "'e shm_env_scheme \<Rightarrow> wi \<Rightarrow> Wal \<Rightarrow> nat \<Rightarrow> nat \<Rightarrow> bool \<Rightarrow> rc \<times> WalIteratorRev option \<times> Wal" where
  "walIteratorRevInit E W pWal nBackfill mxSafeFrame ignore =
    (if \<not> mallocOk E then (SQLITE_NOMEM, None, pWal)
     else
       case walIteratorInit E W pWal nBackfill of (rc, None, pWal) \<Rightarrow> (rc, None, pWal)
       | (rc, Some pIter, pWal) \<Rightarrow>
           if rc \<noteq> SQLITE_OK then (rc, None, pWal)
           else
             let (rc, fs, pWal) = rev_fill E W pWal mxSafeFrame ignore pIter (\<lambda>_. 0) 0
             in if rc \<noteq> SQLITE_OK then (rc, None, pWal)
                else (SQLITE_OK, Some \<lparr>current = mxFrame (hdr pWal), frames = fs\<rparr>, pWal))"

fun rev_skip :: "(nat \<Rightarrow> u32) \<Rightarrow> nat \<Rightarrow> nat" where
  "rev_skip fs 0 = 0"
| "rev_skip fs (Suc c) = (if fs (Suc c) = 0 then rev_skip fs c else Suc c)"

definition walIteratorRevNext :: "WalIteratorRev \<Rightarrow> bool \<times> u32 \<times> nat \<times> WalIteratorRev" where
  "walIteratorRevNext p =
    (let c = rev_skip (frames p) (current p)
     in if c = 0 then (True, 0, 0, p\<lparr>current := 0\<rparr>)
        else (False, frames p c, c, p\<lparr>current := c - 1\<rparr>))"

section \<open>One step\<close>

text \<open>The pages a segment holds, each with its frame.\<close>

definition seg_maps :: "WalSegment \<Rightarrow> u32 \<Rightarrow> nat \<Rightarrow> bool" where
  "seg_maps s k f \<longleftrightarrow> (\<exists>j<length (aIndex s). seg_key s j = k \<and> f = seg_iZero s + aIndex s ! j)"

definition seg_has :: "WalSegment \<Rightarrow> u32 \<Rightarrow> bool" where
  "seg_has s k \<longleftrightarrow> (\<exists>j<length (aIndex s). seg_key s j = k)"

definition seg_ok :: "u32 \<Rightarrow> WalSegment \<Rightarrow> bool" where
  "seg_ok iMin s \<longleftrightarrow> run (seg_aPgno s) (aIndex s) \<and> (\<forall>j<iNext s. j < length (aIndex s) \<longrightarrow> seg_key s j \<le> iMin)"

lemma seg_ok_mono: "seg_ok a s \<Longrightarrow> a \<le> b \<Longrightarrow> seg_ok b s"
  unfolding seg_ok_def by (meson order_trans)

lemma seg_advance_spec:
  assumes "seg_ok iMin s"
  shows "seg_ok iMin (seg_advance iMin s) \<and> aIndex (seg_advance iMin s) = aIndex s \<and>
    seg_aPgno (seg_advance iMin s) = seg_aPgno s \<and> seg_iZero (seg_advance iMin s) = seg_iZero s \<and>
    (iNext (seg_advance iMin s) < length (aIndex s) \<longrightarrow>
      iMin < seg_key (seg_advance iMin s) (iNext (seg_advance iMin s)))"
  using assms
proof (induction iMin s rule: seg_advance.induct)
  case (1 iMin s)
  show ?case
  proof (cases "iNext s < length (aIndex s) \<and> \<not> seg_key s (iNext s) > iMin")
    case True
    have "seg_ok iMin (s\<lparr>iNext := iNext s + 1\<rparr>)"
      using "1.prems" True by (auto simp: seg_ok_def seg_key_def less_Suc_eq)
    moreover have "seg_advance iMin s = seg_advance iMin (s\<lparr>iNext := iNext s + 1\<rparr>)"
      using True by (subst seg_advance.simps) simp
    ultimately show ?thesis using "1.IH" [OF True] by simp
  next
    case False
    then have "seg_advance iMin s = s" by (subst seg_advance.simps) auto
    then show ?thesis using "1.prems" False by auto
  qed
qed

text \<open>Segments that differ in nothing but \<open>iNext\<close>.\<close>

definition seg_sim :: "WalSegment \<Rightarrow> WalSegment \<Rightarrow> bool" where
  "seg_sim s t \<longleftrightarrow> aIndex t = aIndex s \<and> seg_aPgno t = seg_aPgno s \<and> seg_iZero t = seg_iZero s"

lemma seg_sim_maps: "seg_sim s t \<Longrightarrow> seg_maps t = seg_maps s \<and> seg_has t = seg_has s"
  by (simp add: seg_sim_def seg_maps_def seg_has_def seg_key_def fun_eq_iff)

text \<open>After \<open>seg_advance\<close> the entry at \<open>iNext\<close> is the least one above \<open>iMin\<close>.\<close>

lemma seg_advance_least:
  assumes "seg_ok iMin s"
  defines "t \<equiv> seg_advance iMin s"
  shows "if iNext t < length (aIndex t)
    then iMin < seg_key t (iNext t) \<and> seg_maps s (seg_key t (iNext t)) (seg_iZero t + aIndex t ! iNext t) \<and>
      (\<forall>k. seg_has s k \<longrightarrow> iMin < k \<longrightarrow> seg_key t (iNext t) \<le> k)
    else (\<forall>k. seg_has s k \<longrightarrow> k \<le> iMin)"
proof -
  have t: "seg_ok iMin t" "seg_sim s t" "iNext t < length (aIndex t) \<longrightarrow> iMin < seg_key t (iNext t)"
    using seg_advance_spec [OF assms(1)] by (simp_all add: t_def seg_sim_def)
  have mono: "seg_key t i \<le> seg_key t j" if "i \<le> j" "j < length (aIndex t)" for i j
    using t(1) that unfolding seg_ok_def run_def seg_key_def sorted_wrt_iff_nth_less
    by (cases "i = j") (auto simp: less_imp_le)
  show ?thesis
  proof (cases "iNext t < length (aIndex t)")
    case True
    have "seg_key t (iNext t) \<le> k" if "seg_has t k" "iMin < k" for k
    proof -
      obtain j where j: "j < length (aIndex t)" "seg_key t j = k" using \<open>seg_has t k\<close> by (auto simp: seg_has_def)
      have "\<not> j < iNext t" using t(1) j \<open>iMin < k\<close> by (auto simp: seg_ok_def)
      then show ?thesis using mono [of "iNext t" j] j by simp
    qed
    moreover have "seg_maps t (seg_key t (iNext t)) (seg_iZero t + aIndex t ! iNext t)"
      using True by (auto simp: seg_maps_def)
    ultimately show ?thesis using True t(3) seg_sim_maps [OF t(2)] by simp
  next
    case False
    have "k \<le> iMin" if "seg_has t k" for k
      using that t(1) False by (auto simp: seg_has_def seg_ok_def)
    then show ?thesis using False seg_sim_maps [OF t(2)] by simp
  qed
qed

text \<open>The scan finds the least page above \<open>iMin\<close> and, of the segments that hold it, the
  last one.\<close>

definition best :: "nat \<Rightarrow> WalSegment list \<Rightarrow> u32 \<Rightarrow> nat \<Rightarrow> bool" where
  "best k segs pg f \<longleftrightarrow> (\<exists>i<k. seg_maps (segs ! i) pg f \<and> (\<forall>j. i < j \<and> j < k \<longrightarrow> \<not> seg_has (segs ! j) pg))"

lemma iter_scan_spec:
  assumes "k \<le> length segs" "\<And>i. i < length segs \<Longrightarrow> seg_ok iMin (segs ! i)"
    and "iter_scan k segs iMin iRet piFrame = (segs', r, f)"
  shows "length segs' = length segs \<and> (\<forall>i<length segs. seg_ok iMin (segs' ! i) \<and> seg_sim (segs ! i) (segs' ! i)) \<and>
    (\<forall>i<k. \<forall>pg. seg_has (segs ! i) pg \<longrightarrow> iMin < pg \<longrightarrow> r \<le> pg) \<and> r \<le> iRet \<and>
    (if r = iRet then f = piFrame else iMin < r \<and> best k segs r f)"
  using assms
proof (induction k arbitrary: segs iRet piFrame)
  case 0
  then show ?case by (auto simp: seg_sim_def)
next
  case (Suc i)
  let ?t = "seg_advance iMin (segs ! i)"
  let ?segs = "segs[i := ?t]"
  have ti: "seg_ok iMin ?t" "seg_sim (segs ! i) ?t"
    using seg_advance_spec [OF Suc.prems(2) [of i]] Suc.prems(1) by (simp_all add: seg_sim_def)
  have ok: "\<And>j. j < length ?segs \<Longrightarrow> seg_ok iMin (?segs ! j)" "i \<le> length ?segs"
    using Suc.prems(1,2) ti by (auto simp: nth_list_update)
  have sim: "\<And>j. j < length segs \<Longrightarrow> seg_sim (segs ! j) (?segs ! j)"
    using ti Suc.prems(1) by (auto simp: nth_list_update seg_sim_def)
  have same: "j < i \<Longrightarrow> ?segs ! j = segs ! j" for j by simp
  define c where "c \<longleftrightarrow> iNext ?t < length (aIndex ?t) \<and> seg_key ?t (iNext ?t) < iRet"
  define kp where "kp = (if c then seg_key ?t (iNext ?t) else iRet)"
  define fr where "fr = (if c then seg_iZero ?t + aIndex ?t ! iNext ?t else piFrame)"
  have rec: "iter_scan i ?segs iMin kp fr = (segs', r, f)"
    using Suc.prems(3) by (cases c) (auto simp: c_def kp_def fr_def Let_def)
  note ih = Suc.IH [OF ok(2,1) rec]
  have least: "if c then iMin < kp \<and> seg_maps (segs ! i) kp fr \<and> kp < iRet else kp = iRet \<and> fr = piFrame"
    "\<And>k. seg_has (segs ! i) k \<Longrightarrow> iMin < k \<Longrightarrow> kp \<le> k"
    using seg_advance_least [OF Suc.prems(2) [of i]] Suc.prems(1)
    by (auto simp: c_def kp_def fr_def not_less split: if_splits intro: order_trans)
  have all: "\<forall>j<Suc i. \<forall>pg. seg_has (segs ! j) pg \<longrightarrow> iMin < pg \<longrightarrow> r \<le> pg"
    using ih least(2) same by (auto simp: less_Suc_eq intro: order_trans)
  have "best (Suc i) segs r f" if lt: "r \<noteq> kp"
  proof -
    have "r < kp" "iMin < r" "best i ?segs r f" using ih lt by auto
    moreover have "\<not> seg_has (segs ! i) r" using least(2) [of r] calculation by auto
    ultimately show ?thesis unfolding best_def using same by (auto simp: less_Suc_eq)
  qed
  moreover have "best (Suc i) segs kp fr" if c using least(1) that by (auto simp: best_def)
  moreover have "length segs' = length segs \<and>
      (\<forall>j<length segs. seg_ok iMin (segs' ! j) \<and> seg_sim (segs ! j) (segs' ! j))"
    using ih sim by (auto simp: seg_sim_def)
  ultimately show ?case using all ih least(1) by (cases c; cases "r = kp") auto
qed

lemma walIteratorNext_spec:
  assumes "\<forall>s\<in>set (aSegment p). seg_ok (iPrior p) s" "walIteratorNext p f0 = (fin, pg, f, p')"
  shows "iPrior p' = pg \<and> iPrior p \<le> pg \<and> (fin \<longleftrightarrow> pg = 0xFFFFFFFF) \<and>
    length (aSegment p') = length (aSegment p) \<and> (\<forall>s\<in>set (aSegment p'). seg_ok pg s) \<and>
    (\<forall>i<length (aSegment p). seg_sim (aSegment p ! i) (aSegment p' ! i)) \<and>
    (\<forall>s\<in>set (aSegment p). \<forall>k. seg_has s k \<longrightarrow> iPrior p < k \<longrightarrow> pg \<le> k) \<and>
    (\<not> fin \<longrightarrow> iPrior p < pg \<and> best (length (aSegment p)) (aSegment p) pg f)"
proof -
  obtain segs' where sc: "iter_scan (length (aSegment p)) (aSegment p) (iPrior p) 0xFFFFFFFF f0 = (segs', pg, f)"
    and r: "fin \<longleftrightarrow> pg = 0xFFFFFFFF" "p' = \<lparr>iPrior = pg, aSegment = segs'\<rparr>"
    using assms(2) by (auto simp: walIteratorNext_def split: prod.splits)
  have ok: "\<And>i. i < length (aSegment p) \<Longrightarrow> seg_ok (iPrior p) (aSegment p ! i)" using assms(1) by simp
  note s = iter_scan_spec [OF order_refl ok sc]
  have le: "iPrior p \<le> pg"
  proof (cases "pg = 0xFFFFFFFF")
    case True
    then show ?thesis by simp
  next
    case False
    then show ?thesis using s by auto
  qed
  have "\<forall>t\<in>set segs'. seg_ok pg t"
    using s le seg_ok_mono by (metis in_set_conv_nth)
  moreover have "\<forall>t\<in>set (aSegment p). \<forall>k. seg_has t k \<longrightarrow> iPrior p < k \<longrightarrow> pg \<le> k"
    using s by (metis in_set_conv_nth)
  ultimately show ?thesis using s le r by auto
qed

section \<open>The segments of the log\<close>

text \<open>Frame \<open>f\<close> is the newest frame of page \<open>k\<close> among the frames after \<open>a\<close> up to \<open>b\<close>.\<close>

definition page_frame :: "u32 list \<Rightarrow> nat \<Rightarrow> nat \<Rightarrow> u32 \<Rightarrow> nat \<Rightarrow> bool" where
  "page_frame log a b k f \<longleftrightarrow> a < f \<and> f \<le> b \<and> log ! (f - 1) = k \<and>
     (\<forall>g. a < g \<and> g \<le> b \<and> log ! (g - 1) = k \<longrightarrow> g \<le> f)"

definition mk_seg :: "wi \<Rightarrow> nat \<Rightarrow> nat \<Rightarrow> WalSegment" where
  "mk_seg W iLast i = \<lparr>iNext = 0,
     aIndex = walMergesort (aPgno (W i)) [0..<min (ht_cap i) (iLast - ht_zero i)],
     seg_aPgno = aPgno (W i), seg_iZero = ht_zero i + 1\<rparr>"

lemma mk_seg_spec:
  assumes W: "wi_repr W log" and "iLast \<le> length log" "ht_zero i < iLast"
  shows "run (aPgno (W i)) (aIndex (mk_seg W iLast i)) \<and>
    (seg_maps (mk_seg W iLast i) k f \<longleftrightarrow> page_frame log (ht_zero i) (min (ht_zero (Suc i)) iLast) k f)"
proof -
  let ?n = "min (ht_cap i) (iLast - ht_zero i)" and ?c = "aPgno (W i)" and ?z = "ht_zero i"
  have n: "0 < ?n" "?n \<le> 4096" using assms(3) ht_cap_le [of i] ht_cap_pos [of i] by linarith+
  have "newest_run ?c (set [0..<?n]) (walMergesort ?c [0..<?n])"
    using n by (intro walMergesort_newest) (simp_all add: sorted_wrt_upt)
  then have r: "run ?c (walMergesort ?c [0..<?n])"
    "set (walMergesort ?c [0..<?n]) = {x. x < ?n \<and> (\<forall>y<?n. ?c y = ?c x \<longrightarrow> y \<le> x)}"
    by (auto simp: newest_run_def)
  have c: "x < ?n \<Longrightarrow> ?c x = log ! (?z + x)" for x
    using wi_repr_D(2) [OF W, of i x] assms(2,3) by (auto simp: entries_def)
  have top: "min (ht_zero (Suc i)) iLast = ?z + ?n" using assms(3) by (auto simp: ht_zero_Suc min_def)
  have "seg_maps (mk_seg W iLast i) k f \<longleftrightarrow>
      (\<exists>x\<in>set (walMergesort ?c [0..<?n]). ?c x = k \<and> f = ?z + 1 + x)"
    unfolding seg_maps_def seg_key_def mk_seg_def by (auto simp: in_set_conv_nth)
  also have "\<dots> \<longleftrightarrow> (\<exists>x<?n. ?c x = k \<and> f = ?z + 1 + x \<and> (\<forall>y<?n. ?c y = k \<longrightarrow> y \<le> x))"
    unfolding r(2) by auto
  also have "\<dots> \<longleftrightarrow> page_frame log ?z (?z + ?n) k f"
  proof
    assume "\<exists>x<?n. ?c x = k \<and> f = ?z + 1 + x \<and> (\<forall>y<?n. ?c y = k \<longrightarrow> y \<le> x)"
    then obtain x where x: "x < ?n" "?c x = k" "f = ?z + 1 + x" "\<And>y. y < ?n \<Longrightarrow> ?c y = k \<Longrightarrow> y \<le> x" by auto
    have "g \<le> f" if g: "?z < g" "g \<le> ?z + ?n" "log ! (g - 1) = k" for g
    proof -
      have "g - ?z - 1 < ?n" using g by linarith
      moreover have "?c (g - ?z - 1) = k" using c [OF calculation] g by simp
      ultimately have "g - ?z - 1 \<le> x" by (rule x(4))
      then show ?thesis using x(3) by linarith
    qed
    then show "page_frame log ?z (?z + ?n) k f" using x(1-3) c [OF x(1)] by (auto simp: page_frame_def)
  next
    assume pf: "page_frame log ?z (?z + ?n) k f"
    then have lt: "f - ?z - 1 < ?n" unfolding page_frame_def by linarith
    have x: "f - ?z - 1 < ?n" "?c (f - ?z - 1) = k" "f = ?z + 1 + (f - ?z - 1)"
      using lt c [OF lt] pf by (auto simp: page_frame_def)
    moreover have "y \<le> f - ?z - 1" if "y < ?n" "?c y = k" for y
    proof -
      have "?z + 1 + y \<le> f" using pf that c [OF that(1)] by (auto simp: page_frame_def)
      then show ?thesis by linarith
    qed
    ultimately show "\<exists>x<?n. ?c x = k \<and> f = ?z + 1 + x \<and> (\<forall>y<?n. ?c y = k \<longrightarrow> y \<le> x)" by blast
  qed
  finally show ?thesis using r(1) top by (simp add: mk_seg_def)
qed

lemma iter_init_spec:
  assumes "i + k = nSegment" "nSegment = walFramePage iLast + 1" "0 < iLast"
    and "iter_init k E W w i nSegment iLast segs = (rc, segs', w')" "length segs = nSegment"
  shows "same_conn w w' \<and> (shm_reliable E \<longrightarrow> rc = SQLITE_OK) \<and>
    (rc = SQLITE_OK \<longrightarrow> length segs' = nSegment \<and>
      (\<forall>j<nSegment. segs' ! j = (if i \<le> j then mk_seg W iLast j else segs ! j)))"
  using assms(1,4,5)
proof (induction k arbitrary: i w segs)
  case 0
  then show ?case by auto
next
  case (Suc k)
  obtain rc1 w1 where g: "walHashGet E w i = (rc1, \<lparr>loc_page = i, iZero = ht_zero i\<rparr>, w1)"
    and same: "same_conn w w1"
    using walHashGet_loc [of E w i] by (cases "walHashGet E w i") auto
  have rel: "shm_reliable E \<longrightarrow> rc1 = SQLITE_OK" using walHashGet_reliable [of E w i] g by simp
  show ?case
  proof (cases "rc1 = SQLITE_OK")
    case False
    then show ?thesis using Suc.prems(2) g same rel by auto
  next
    case True
    have b: "ht_zero (walFramePage iLast) < iLast" "iLast \<le> ht_zero (walFramePage iLast) + ht_cap (walFramePage iLast)"
      using walFramePage_bounds [OF assms(3)] by auto
    have n: "(if i + 1 = nSegment then iLast - ht_zero i
        else if i = 0 then HASHTABLE_NPAGE_ONE else HASHTABLE_NPAGE) =
      min (ht_cap i) (iLast - ht_zero i)"
    proof (cases "i + 1 = nSegment")
      case True
      then show ?thesis using b assms(2) by simp
    next
      case False
      then have "ht_zero (Suc i) \<le> ht_zero (walFramePage iLast)"
        using Suc.prems(1) assms(2) by (intro ht_zero_mono) simp
      then have "ht_cap i \<le> iLast - ht_zero i" using b by (simp add: ht_zero_Suc)
      then show ?thesis using False by (simp add: ht_cap_def min_def)
    qed
    have "iter_init k E W w1 (i + 1) nSegment iLast (segs[i := mk_seg W iLast i]) = (rc, segs', w')"
      using Suc.prems(2) unfolding iter_init.simps g Let_def prod.case WalHashLoc.simps n
      by (simp add: True mk_seg_def)
    from Suc.IH [OF _ this] Suc.prems(1,3) show ?thesis
      using same_conn_trans [OF same]
      by (auto simp: nth_list_update not_less_eq_eq dest: le_antisym)
  qed
qed

text \<open>What the iterator stands for: of the frames after \<open>a\<close> up to \<open>b\<close>, every page with
  its newest frame.\<close>

definition iter_repr :: "u32 list \<Rightarrow> nat \<Rightarrow> nat \<Rightarrow> WalIterator \<Rightarrow> bool" where
  "iter_repr log a b p \<longleftrightarrow> (\<forall>s\<in>set (aSegment p). seg_ok (iPrior p) s) \<and>
     (\<forall>k f. best (length (aSegment p)) (aSegment p) k f \<longleftrightarrow> page_frame log a b k f) \<and>
     (\<forall>s\<in>set (aSegment p). \<forall>k. seg_has s k \<longrightarrow> (\<exists>f. page_frame log a b k f)) \<and>
     (\<forall>f k. page_frame log a b k f \<longrightarrow> (\<exists>s\<in>set (aSegment p). seg_has s k))"

lemma seg_has_maps: "seg_has s k \<longleftrightarrow> (\<exists>f. seg_maps s k f)"
  by (auto simp: seg_has_def seg_maps_def)

lemma page_frame_exists:
  assumes "a < g" "g \<le> b" "log ! (g - 1) = k"
  shows "\<exists>f. page_frame log a b k f"
proof -
  let ?S = "{h. a < h \<and> h \<le> b \<and> log ! (h - 1) = k}"
  have "finite ?S" by (rule finite_subset [of _ "{..b}"]) auto
  moreover have "?S \<noteq> {}" using assms by auto
  ultimately have "Max ?S \<in> ?S" "\<forall>h\<in>?S. h \<le> Max ?S" using Max_in [of ?S] by simp_all
  then show ?thesis unfolding page_frame_def by blast
qed

lemma page_frame_unique: "page_frame log a b k f \<Longrightarrow> page_frame log a b k g \<Longrightarrow> f = g"
proof (rule le_antisym)
qed (simp_all add: page_frame_def)

lemma segments_best:
  assumes W: "wi_repr W log" and "iLast \<le> length log" "0 < iLast"
    and segs: "length segs = walFramePage iLast + 1"
      "\<And>j. j < walFramePage iLast + 1 \<Longrightarrow> segs ! j = (if i \<le> j then mk_seg W iLast j else segment_zero)"
  shows "best (length segs) segs k f \<longleftrightarrow> page_frame log (ht_zero i) iLast k f"
    and "j < length segs \<Longrightarrow> seg_has (segs ! j) k \<Longrightarrow> \<exists>f. page_frame log (ht_zero i) iLast k f"
proof -
  let ?t = "walFramePage iLast"
  have b: "ht_zero ?t < iLast" "iLast \<le> ht_zero (Suc ?t)"
    using walFramePage_bounds [OF assms(3)] by (simp_all add: ht_zero_Suc)
  have maps: "seg_maps (segs ! j) k f \<longleftrightarrow> i \<le> j \<and> page_frame log (ht_zero j) (min (ht_zero (Suc j)) iLast) k f"
    if "j \<le> ?t" for j f
  proof (cases "i \<le> j")
    case True
    have "ht_zero j < iLast" using ht_zero_mono [OF that] b by simp
    then show ?thesis using mk_seg_spec [OF W assms(2)] segs(2) [of j] that True by simp
  next
    case False
    then show ?thesis using segs(2) [of j] that by (simp add: seg_maps_def segment_zero_def)
  qed
  have table: "\<exists>j\<le>?t. i \<le> j \<and> ht_zero j < g \<and> g \<le> min (ht_zero (Suc j)) iLast"
    if g: "ht_zero i < g" "g \<le> iLast" for g
  proof -
    have w: "ht_zero (walFramePage g) < g" "g \<le> ht_zero (Suc (walFramePage g))"
      using walFramePage_bounds [of g] g by (simp_all add: ht_zero_Suc)
    have "i \<le> walFramePage g"
      using ht_zero_mono [of "Suc (walFramePage g)" i] w g by (metis linorder_not_le not_less_eq_eq order.strict_trans2)
    moreover have "walFramePage g \<le> ?t" using g(2) by (simp add: walFramePage_def div_le_mono)
    ultimately show ?thesis using w g by (intro exI [of _ "walFramePage g"]) simp
  qed
  show "\<exists>f. page_frame log (ht_zero i) iLast k f" if j: "j < length segs" "seg_has (segs ! j) k"
  proof -
    obtain f where "i \<le> j" "page_frame log (ht_zero j) (min (ht_zero (Suc j)) iLast) k f"
      using maps [of j] j segs(1) by (auto simp: seg_has_maps)
    then show ?thesis
      using ht_zero_mono [of i j] by (intro page_frame_exists [of _ f]) (auto simp: page_frame_def)
  qed
  have has: "seg_has (segs ! j) k" if "j \<le> ?t" "i \<le> j" "ht_zero j < g" "g \<le> min (ht_zero (Suc j)) iLast"
      "log ! (g - 1) = k" for j g
    using page_frame_exists [OF that(3-5)] maps [OF that(1)] that(2) by (auto simp: seg_has_maps)
  show "best (length segs) segs k f \<longleftrightarrow> page_frame log (ht_zero i) iLast k f"
  proof
    assume "best (length segs) segs k f"
    then obtain j0 where j0: "j0 \<le> ?t" "seg_maps (segs ! j0) k f"
      "\<And>j. j0 < j \<Longrightarrow> j \<le> ?t \<Longrightarrow> \<not> seg_has (segs ! j) k"
      using segs(1) by (auto simp: best_def less_Suc_eq_le)
    then have i: "i \<le> j0" and pf: "page_frame log (ht_zero j0) (min (ht_zero (Suc j0)) iLast) k f"
      using maps by auto
    have "g \<le> f" if g: "ht_zero i < g" "g \<le> iLast" "log ! (g - 1) = k" for g
    proof -
      obtain j where j: "j \<le> ?t" "i \<le> j" "ht_zero j < g" "g \<le> min (ht_zero (Suc j)) iLast"
        using table [OF g(1,2)] by auto
      then have "j \<le> j0" using has [OF j g(3)] j0(3) [of j] j(1) by linarith
      then show ?thesis
      proof (cases "j = j0")
        case True
        then show ?thesis using pf j g(3) by (simp add: page_frame_def)
      next
        case False
        then have "ht_zero (Suc j) \<le> ht_zero j0" using \<open>j \<le> j0\<close> by (intro ht_zero_mono) simp
        then show ?thesis using pf j by (simp add: page_frame_def)
      qed
    qed
    then show "page_frame log (ht_zero i) iLast k f"
      using pf ht_zero_mono [OF i] by (simp add: page_frame_def)
  next
    assume pf: "page_frame log (ht_zero i) iLast k f"
    then obtain j0 where j0: "j0 \<le> ?t" "i \<le> j0" "ht_zero j0 < f" "f \<le> min (ht_zero (Suc j0)) iLast"
      using table [of f] by (auto simp: page_frame_def)
    then have "seg_maps (segs ! j0) k f"
      using maps [OF j0(1)] pf ht_zero_mono [OF j0(2)] by (auto simp: page_frame_def)
    moreover have "\<not> seg_has (segs ! j) k" if j: "j0 < j" "j \<le> ?t" for j
    proof
      assume "seg_has (segs ! j) k"
      then obtain f' where f': "page_frame log (ht_zero j) (min (ht_zero (Suc j)) iLast) k f'"
        using maps [OF j(2)] by (auto simp: seg_has_maps)
      have "ht_zero (Suc j0) \<le> ht_zero j" "ht_zero i \<le> ht_zero j"
        using j j0(2) by (auto intro: ht_zero_mono)
      moreover have "ht_zero j < f'" "f' \<le> iLast" "log ! (f' - 1) = k" using f' by (simp_all add: page_frame_def)
      ultimately have "f' \<le> f" using pf by (simp add: page_frame_def)
      then show False
        using \<open>ht_zero j < f'\<close> \<open>ht_zero (Suc j0) \<le> ht_zero j\<close> j0(4) by simp
    qed
    ultimately show "best (length segs) segs k f"
      using j0(1) segs(1) by (auto simp: best_def less_Suc_eq_le)
  qed
qed

lemma walIteratorInit_repr:
  assumes W: "wi_repr W log" and mx: "0 < mxFrame (hdr w)" "mxFrame (hdr w) \<le> length log"
    and r: "walIteratorInit E W w nBackfill = (rc, p, w')"
  shows "same_conn w w' \<and> (shm_reliable E \<longrightarrow> rc = SQLITE_OK) \<and>
    (rc = SQLITE_OK \<longrightarrow> (\<exists>it. p = Some it \<and> iPrior it = 0 \<and>
      iter_repr log (ht_zero (walFramePage (nBackfill + 1))) (mxFrame (hdr w)) it))"
proof (cases "mallocOk E")
  case False
  then show ?thesis using r by (auto simp: walIteratorInit_def shm_reliable_def)
next
  case True
  let ?iLast = "mxFrame (hdr w)" and ?i = "walFramePage (nBackfill + 1)"
  define n where "n = walFramePage ?iLast + 1"
  obtain rc1 segs w1 where ini: "iter_init (n - ?i) E W w ?i n ?iLast (replicate n segment_zero) = (rc1, segs, w1)"
    by (cases "iter_init (n - ?i) E W w ?i n ?iLast (replicate n segment_zero)")
  have res: "rc = rc1" "w' = w1" "rc1 = SQLITE_OK \<Longrightarrow> p = Some \<lparr>iPrior = 0, aSegment = segs\<rparr>"
    using r True ini by (auto simp: walIteratorInit_def Let_def n_def split: if_splits)
  have spec: "same_conn w w1 \<and> (shm_reliable E \<longrightarrow> rc1 = SQLITE_OK) \<and> (rc1 = SQLITE_OK \<longrightarrow>
      length segs = n \<and> (\<forall>j<n. segs ! j = (if ?i \<le> j then mk_seg W ?iLast j else segment_zero)))"
  proof (cases "?i \<le> n")
    case True
    then have "?i + (n - ?i) = n" by simp
    from iter_init_spec [OF this n_def mx(1) ini] show ?thesis by simp
  next
    case False
    then have "n - ?i = 0" by simp
    then show ?thesis using ini False by auto
  qed
  have "iter_repr log (ht_zero ?i) ?iLast \<lparr>iPrior = 0, aSegment = segs\<rparr>" if ok: "rc1 = SQLITE_OK"
  proof -
    have len: "length segs = n"
      and sg: "\<And>j. j < n \<Longrightarrow> segs ! j = (if ?i \<le> j then mk_seg W ?iLast j else segment_zero)"
      using spec ok by auto
    note best = segments_best [OF W mx(2,1) len [unfolded n_def] sg [unfolded n_def]]
    have "seg_ok 0 (segs ! j)" if "j < n" for j
    proof -
      have "ht_zero j < ?iLast"
        using ht_zero_mono [of j "walFramePage ?iLast"] walFramePage_bounds [OF mx(1)] that
        by (simp add: n_def)
      then show ?thesis
        using sg [OF that] mk_seg_spec [OF W mx(2), of j]
        by (simp add: seg_ok_def segment_zero_def mk_seg_def)
    qed
    then have "\<forall>s\<in>set segs. seg_ok 0 s" using len by (auto simp: in_set_conv_nth)
    moreover have "\<exists>s\<in>set segs. seg_has s k" if "page_frame log (ht_zero ?i) ?iLast k f" for k f
    proof -
      have "best (length segs) segs k f" using best(1) that by simp
      then obtain j where "j < length segs" "seg_maps (segs ! j) k f" by (auto simp: best_def)
      then show ?thesis using seg_has_maps nth_mem by blast
    qed
    ultimately show ?thesis using best by (auto simp: iter_repr_def in_set_conv_nth)
  qed
  then show ?thesis using spec res by auto
qed

lemma walIteratorNext_repr:
  assumes it: "iter_repr log a b p" and r: "walIteratorNext p f0 = (fin, pg, f, p')"
    and valid: "\<forall>k g. page_frame log a b k g \<longrightarrow> k \<noteq> 0xFFFFFFFF"
  shows "iter_repr log a b p' \<and> iPrior p' = pg \<and>
    (if fin then \<forall>k g. page_frame log a b k g \<longrightarrow> k \<le> iPrior p
     else iPrior p < pg \<and> page_frame log a b pg f \<and>
       (\<forall>k g. page_frame log a b k g \<longrightarrow> iPrior p < k \<longrightarrow> pg \<le> k))"
proof -
  have ok: "\<forall>s\<in>set (aSegment p). seg_ok (iPrior p) s" using it by (simp add: iter_repr_def)
  note s = walIteratorNext_spec [OF ok r]
  let ?n = "length (aSegment p)"
  have sim: "\<And>i. i < ?n \<Longrightarrow> seg_maps (aSegment p' ! i) = seg_maps (aSegment p ! i) \<and>
      seg_has (aSegment p' ! i) = seg_has (aSegment p ! i)"
    using s seg_sim_maps by blast
  have len: "length (aSegment p') = ?n" using s by simp
  have best: "best ?n (aSegment p') = best ?n (aSegment p)"
    using sim by (simp add: best_def fun_eq_iff cong: conj_cong)
  have has: "(\<exists>s\<in>set (aSegment p'). seg_has s k) \<longleftrightarrow> (\<exists>s\<in>set (aSegment p). seg_has s k)" for k
    using sim len by (metis in_set_conv_nth)
  have repr: "iter_repr log a b p'"
    unfolding iter_repr_def
  proof (intro conjI)
    show "\<forall>s\<in>set (aSegment p'). seg_ok (iPrior p') s" using s by simp
    show "\<forall>k f. best (length (aSegment p')) (aSegment p') k f \<longleftrightarrow> page_frame log a b k f"
      using it len best by (simp add: iter_repr_def)
    show "\<forall>s\<in>set (aSegment p'). \<forall>k. seg_has s k \<longrightarrow> (\<exists>f. page_frame log a b k f)"
    proof (intro ballI allI impI)
      fix t k assume "t \<in> set (aSegment p')" "seg_has t k"
      then have "\<exists>s\<in>set (aSegment p). seg_has s k" using has by blast
      then show "\<exists>f. page_frame log a b k f" using it by (auto simp: iter_repr_def)
    qed
    show "\<forall>f k. page_frame log a b k f \<longrightarrow> (\<exists>s\<in>set (aSegment p'). seg_has s k)"
      using it has by (simp add: iter_repr_def)
  qed
  have le: "pg \<le> k" if k: "page_frame log a b k g" "iPrior p < k" for k g
  proof -
    have "\<exists>t\<in>set (aSegment p). seg_has t k" using it k(1) unfolding iter_repr_def by blast
    then show ?thesis using s k(2) by auto
  qed
  show ?thesis
  proof (cases fin)
    case True
    have "k \<le> iPrior p" if "page_frame log a b k g" for k g
      using le [OF that] valid that s True by (cases "k \<le> iPrior p") (auto simp: not_le order_antisym)
    then show ?thesis using True repr s by simp
  next
    case False
    then show ?thesis using s it le repr by (auto simp: iter_repr_def)
  qed
qed

section \<open>The reverse iterator\<close>

text \<open>What \<^verbatim>\<open>walFindFrame\<close> answers a connection.\<close>

definition found :: "u32 list \<Rightarrow> Wal \<Rightarrow> nat \<Rightarrow> u32 \<Rightarrow> nat" where
  "found log w n pg =
     (if readLock w = 0 \<and> \<not> bShmUnreliable w then 0 else find_linear log pg (minFrame w) n)"

lemma found_same_conn: "same_conn w w' \<Longrightarrow> found log w' = found log w"
  unfolding found_def by (simp only: same_conn_fields)

lemma walFindFrame_found:
  assumes "wi_repr W log" "n \<le> length log" "walFindFrame E W w pg n = (rc, q, w')"
  shows "same_conn w w' \<and> (shm_reliable E \<longrightarrow> rc = SQLITE_OK) \<and> (rc = SQLITE_OK \<longrightarrow> q = found log w n pg)"
proof (cases "readLock w = 0 \<and> \<not> bShmUnreliable w")
  case True
  then show ?thesis using assms(3) by (auto simp: walFindFrame_def found_def)
next
  case False
  then show ?thesis using find_repr [OF assms(1,2) _ assms(3)] by (auto simp: found_def)
qed

lemma find_linear_page: "find_linear log pg m n \<noteq> 0 \<Longrightarrow> log ! (find_linear log pg m n - 1) = pg"
  using find_linear_newest [of log pg m n] by (auto simp: newest_def answers_def)

text \<open>The frame recorded for page \<open>pg\<close>: its newest one, or, for a callback that must see
  every page, the newest one not after \<open>mxSafeFrame\<close>.\<close>

definition rev_target ::
  "u32 list \<Rightarrow> nat \<Rightarrow> nat \<Rightarrow> Wal \<Rightarrow> nat \<Rightarrow> bool \<Rightarrow> u32 \<Rightarrow> nat \<Rightarrow> bool" where
  "rev_target log a b w mxSafe ignore pg g \<longleftrightarrow> (\<exists>f. page_frame log a b pg f \<and>
     (if f \<le> mxSafe \<or> ignore then g = f else g \<noteq> 0 \<and> g = found log w mxSafe pg))"

lemma found_page: "found log w n pg \<noteq> 0 \<Longrightarrow> log ! (found log w n pg - 1) = pg"
  using find_linear_page [of log pg "minFrame w" n] by (auto simp: found_def split: if_splits)

lemma rev_target_page:
  assumes "rev_target log a b w m ig pg g" shows "log ! (g - 1) = pg"
proof -
  obtain f where f: "page_frame log a b pg f"
    "if f \<le> m \<or> ig then g = f else g \<noteq> 0 \<and> g = found log w m pg"
    using assms by (auto simp: rev_target_def)
  then show ?thesis using found_page [of log w m pg] by (auto simp: page_frame_def split: if_splits)
qed

lemma rev_target_next:
  assumes "page_frame log a b pg f"
  shows "rev_target log a b w m ig pg g \<longleftrightarrow>
    (if f \<le> m \<or> ig then g = f else g \<noteq> 0 \<and> g = found log w m pg)"
proof -
  have "page_frame log a b pg h \<longleftrightarrow> h = f" for h
    using assms page_frame_unique [of log a b pg] by blast
  then show ?thesis by (simp add: rev_target_def)
qed

text \<open>Recording the frame of the next page \<open>pg\<close> (if it has one) and then those of all
  later pages records those of all pages after the current one.\<close>

lemma rev_target_step:
  assumes "\<forall>k g. page_frame log a b k g \<longrightarrow> m < k \<longrightarrow> pg \<le> k" "m < pg"
    and "\<And>g. rev_target log a b w mx ig pg g \<longleftrightarrow> g \<in> H" "\<And>g. fs' g = (if g \<in> H then pg else fs g)"
  shows "(if \<exists>k. pg < k \<and> rev_target log a b w mx ig k g then log ! (g - 1) else fs' g) =
    (if \<exists>k. m < k \<and> rev_target log a b w mx ig k g then log ! (g - 1) else fs g)"
proof -
  let ?T = "rev_target log a b w mx ig"
  have "(\<exists>k. m < k \<and> ?T k g) \<longleftrightarrow> ?T pg g \<or> (\<exists>k. pg < k \<and> ?T k g)"
  proof
    assume "\<exists>k. m < k \<and> ?T k g"
    then obtain k where k: "m < k" "?T k g" by blast
    then have "pg \<le> k" using assms(1) unfolding rev_target_def by blast
    then show "?T pg g \<or> (\<exists>k. pg < k \<and> ?T k g)" using k by (cases "k = pg") auto
  next
    assume "?T pg g \<or> (\<exists>k. pg < k \<and> ?T k g)"
    then show "\<exists>k. m < k \<and> ?T k g" using assms(2) by (metis order.strict_trans)
  qed
  then show ?thesis using assms(3,4) rev_target_page [of log a b w mx ig pg g] by auto
qed

lemma rev_fill_spec:
  assumes W: "wi_repr W log" "mxSafe \<le> length log"
    and valid: "\<forall>k g. page_frame log a b k g \<longrightarrow> k \<noteq> 0xFFFFFFFF"
    and "iter_repr log a b it" "rev_fill E W w mxSafe ig it fs f0 = (rc, fs', w')"
  shows "same_conn w w' \<and> (shm_reliable E \<longrightarrow> rc = SQLITE_OK) \<and> (rc = SQLITE_OK \<longrightarrow>
    (\<forall>g. fs' g = (if \<exists>pg. iPrior it < pg \<and> rev_target log a b w mxSafe ig pg g then log ! (g - 1) else fs g)))"
  using assms(4,5)
proof (induction "4294967296 - unat (iPrior it)" arbitrary: it w fs f0 rule: less_induct)
  case less
  let ?T = "rev_target log a b w mxSafe ig"
  obtain fin pg f it' where nx: "walIteratorNext it f0 = (fin, pg, f, it')"
    by (cases "walIteratorNext it f0")
  note n = walIteratorNext_repr [OF less.prems(1) nx valid]
  show ?case
  proof (cases fin)
    case True
    then have le: "\<forall>k g. page_frame log a b k g \<longrightarrow> k \<le> iPrior it" using n by simp
    have "\<not> ?T k g" if "iPrior it < k" for k g
      using le that unfolding rev_target_def by (metis linorder_not_le)
    moreover have "rc = SQLITE_OK \<and> fs' = fs \<and> w' = w"
      using less.prems(2) True by (subst (asm) rev_fill.simps) (simp add: nx)
    ultimately show ?thesis by auto
  next
    case False
    then have it': "iter_repr log a b it'" "iPrior it' = pg" "iPrior it < pg" "page_frame log a b pg f"
      and low: "\<forall>k g. page_frame log a b k g \<longrightarrow> iPrior it < k \<longrightarrow> pg \<le> k" using n by auto
    note T = rev_target_next [OF it'(4), of w mxSafe ig]
    have less': "4294967296 - unat (iPrior it') < 4294967296 - unat (iPrior it)"
      using walIteratorNext_measure [of pg f it' it f0] nx False by simp
    note IH = less.hyps [OF less' it'(1), unfolded it'(2)]
    show ?thesis
    proof (cases "f \<le> mxSafe \<or> ig")
      case True
      then have "rev_fill E W w mxSafe ig it' (fs(f := pg)) f = (rc, fs', w')"
        using less.prems(2) False by (subst (asm) rev_fill.simps) (auto simp: nx)
      note rec = IH [OF this]
      have "(if \<exists>k. pg < k \<and> ?T k g then log ! (g - 1) else (fs(f := pg)) g) =
          (if \<exists>k. iPrior it < k \<and> ?T k g then log ! (g - 1) else fs g)" for g
        by (rule rev_target_step [OF low it'(3), where H = "{f}"]) (use T True in simp_all)
      then show ?thesis using rec by simp
    next
      case unsafe: False
      obtain rc1 h w1 where ff: "walFindFrame E W w pg mxSafe = (rc1, h, w1)"
        by (cases "walFindFrame E W w pg mxSafe")
      note fd = walFindFrame_found [OF W ff]
      then have "found log w1 = found log w" using found_same_conn by blast
      then have tgt: "rev_target log a b w1 = rev_target log a b w"
        by (intro ext) (simp add: rev_target_def)
      have step: "rc1 \<noteq> SQLITE_OK \<Longrightarrow> rc = rc1 \<and> w' = w1"
        "rc1 = SQLITE_OK \<Longrightarrow> h = 0 \<Longrightarrow> rev_fill E W w1 mxSafe ig it' fs h = (rc, fs', w')"
        "rc1 = SQLITE_OK \<Longrightarrow> h \<noteq> 0 \<Longrightarrow> rev_fill E W w1 mxSafe ig it' (fs(h := pg)) h = (rc, fs', w')"
        using less.prems(2) [unfolded rev_fill.simps [of E W w mxSafe ig it]] False unsafe
        unfolding nx ff prod.case by simp_all
      consider "rc1 \<noteq> SQLITE_OK" | "rc1 = SQLITE_OK" "h = 0" | "rc1 = SQLITE_OK" "h \<noteq> 0" by blast
      then show ?thesis
      proof cases
        case 1
        then show ?thesis using step(1) fd by auto
      next
        case 2
        have "(if \<exists>k. pg < k \<and> ?T k g then log ! (g - 1) else fs g) =
            (if \<exists>k. iPrior it < k \<and> ?T k g then log ! (g - 1) else fs g)" for g
          by (rule rev_target_step [OF low it'(3), where H = "{}"]) (use T unsafe fd 2 in auto)
        then show ?thesis
          using IH [OF step(2) [OF 2]] fd same_conn_trans [of w w1 w'] by (simp add: tgt)
      next
        case 3
        have "(if \<exists>k. pg < k \<and> ?T k g then log ! (g - 1) else (fs(h := pg)) g) =
            (if \<exists>k. iPrior it < k \<and> ?T k g then log ! (g - 1) else fs g)" for g
          by (rule rev_target_step [OF low it'(3), where H = "{h}"]) (use T unsafe fd 3 in auto)
        then show ?thesis
          using IH [OF step(3) [OF 3]] fd same_conn_trans [of w w1 w'] by (simp add: tgt)
      qed
    qed
  qed
qed


text \<open>The frames \<open>walIteratorRevInit\<close> collects from a log whose page numbers are proper
  (neither 0 nor the iterator's end mark).\<close>

definition proper :: "u32 list \<Rightarrow> bool" where
  "proper log \<longleftrightarrow> 0 \<notin> set log \<and> 0xFFFFFFFF \<notin> set log"

definition iter_base :: "nat \<Rightarrow> nat" where
  "iter_base nBackfill = ht_zero (walFramePage (nBackfill + 1))"

definition rev_visits :: "u32 list \<Rightarrow> nat \<Rightarrow> Wal \<Rightarrow> nat \<Rightarrow> bool \<Rightarrow> nat \<Rightarrow> bool" where
  "rev_visits log nBackfill w mxSafe ignore f \<longleftrightarrow>
     (\<exists>pg. rev_target log (iter_base nBackfill) (mxFrame (hdr w)) w mxSafe ignore pg f)"

lemma proper_nth: "proper log \<Longrightarrow> 0 < f \<Longrightarrow> f \<le> length log \<Longrightarrow> log ! (f - 1) \<noteq> 0 \<and> log ! (f - 1) \<noteq> 0xFFFFFFFF"
  unfolding proper_def by (metis Suc_diff_1 Suc_le_eq nth_mem)

lemma page_frame_proper:
  "proper log \<Longrightarrow> b \<le> length log \<Longrightarrow> page_frame log a b k f \<Longrightarrow> 0 < k \<and> k \<noteq> 0xFFFFFFFF"
  using proper_nth [of log f] by (auto simp: page_frame_def word_neq_0_conv)

lemma walIteratorRevInit_spec:
  assumes W: "wi_repr W log" "proper log" and mx: "0 < mxFrame (hdr w)" "mxFrame (hdr w) \<le> length log"
    and safe: "mxSafe \<le> length log"
    and r: "walIteratorRevInit E W w nBackfill mxSafe ignore = (rc, p, w')"
  shows "same_conn w w' \<and> (shm_reliable E \<longrightarrow> rc = SQLITE_OK) \<and> (rc = SQLITE_OK \<longrightarrow>
    (\<exists>it. p = Some it \<and> current it = mxFrame (hdr w) \<and>
      (\<forall>f. frames it f = (if rev_visits log nBackfill w mxSafe ignore f then log ! (f - 1) else 0))))"
proof (cases "mallocOk E")
  case False
  then show ?thesis using r by (auto simp: walIteratorRevInit_def shm_reliable_def)
next
  case True
  obtain rc1 q w1 where ini: "walIteratorInit E W w nBackfill = (rc1, q, w1)"
    by (cases "walIteratorInit E W w nBackfill")
  note i = walIteratorInit_repr [OF W(1) mx ini]
  show ?thesis
  proof (cases "rc1 = SQLITE_OK")
    case False
    then have "rc = rc1 \<and> w' = w1" using r True ini
      by (auto simp: walIteratorRevInit_def split: option.splits)
    then show ?thesis using i False by auto
  next
    case ok: True
    then obtain it where it: "q = Some it" "iPrior it = 0"
      "iter_repr log (iter_base nBackfill) (mxFrame (hdr w)) it"
      using i by (auto simp: iter_base_def)
    obtain rc2 fs w2 where fill: "rev_fill E W w1 mxSafe ignore it (\<lambda>_. 0) 0 = (rc2, fs, w2)"
      by (cases "rev_fill E W w1 mxSafe ignore it (\<lambda>_. 0) 0")
    have res: "rc = rc2" "w' = w2"
      "rc2 = SQLITE_OK \<Longrightarrow> p = Some \<lparr>current = mxFrame (hdr w2), frames = fs\<rparr>"
      using r True ini it fill ok by (auto simp: walIteratorRevInit_def split: if_splits)
    have "\<forall>k g. page_frame log (iter_base nBackfill) (mxFrame (hdr w)) k g \<longrightarrow> k \<noteq> 0xFFFFFFFF"
      using page_frame_proper [OF W(2) mx(2)] by blast
    note f = rev_fill_spec [OF W(1) safe this it(3) fill]
    have conn: "same_conn w w2" using same_conn_trans [of w w1 w2] i f by blast
    have tgt: "rev_target log a b w1 = rev_target log a b w" for a b
      using found_same_conn [of w w1] i by (intro ext) (simp add: rev_target_def)
    have pos: "0 < k" if "rev_target log (iter_base nBackfill) (mxFrame (hdr w)) w mxSafe ignore k g" for k g
      using that page_frame_proper [OF W(2) mx(2)] unfolding rev_target_def by blast
    have "rc2 = SQLITE_OK \<Longrightarrow> fs g = (if rev_visits log nBackfill w mxSafe ignore g then log ! (g - 1) else 0)" for g
      using f pos unfolding rev_visits_def tgt it(2) by (metis (full_types))
    then show ?thesis using res i f conn same_conn_fields [OF conn] by simp
  qed
qed

text \<open>The caller's loop: all the pairs \<open>walIteratorRevNext\<close> returns.\<close>

lemma rev_skip_le: "rev_skip fs c \<le> c"
  by (induction fs c rule: rev_skip.induct) auto

lemma walIteratorRevNext_less:
  "(False, pg, f, p') = walIteratorRevNext p \<Longrightarrow> current p' < current p"
  using rev_skip_le [of "frames p" "current p"]
  by (auto simp: walIteratorRevNext_def Let_def split: if_splits)

function rev_yield :: "WalIteratorRev \<Rightarrow> (u32 \<times> nat) list" where
  "rev_yield p = (case walIteratorRevNext p of (fin, iDbpage, iFrame, p') \<Rightarrow>
     if fin then [] else (iDbpage, iFrame) # rev_yield p')"
  by pat_completeness auto
termination
  by (relation "measure current") (auto dest: walIteratorRevNext_less)

declare rev_yield.simps [simp del]

lemma rev_yield_skip: "rev_yield \<lparr>current = rev_skip fs c, frames = fs\<rparr> = rev_yield \<lparr>current = c, frames = fs\<rparr>"
proof -
  have "rev_skip fs (rev_skip fs c) = rev_skip fs c" by (induction fs c rule: rev_skip.induct) auto
  then show ?thesis by (subst (1 2) rev_yield.simps) (simp add: walIteratorRevNext_def Let_def)
qed

lemma rev_yield_eq:
  "rev_yield \<lparr>current = c, frames = fs\<rparr> = map (\<lambda>f. (fs f, f)) (filter (\<lambda>f. fs f \<noteq> 0) (rev [1..<c + 1]))"
proof (induction c)
  case 0
  then show ?case by (subst rev_yield.simps) (simp add: walIteratorRevNext_def)
next
  case (Suc c)
  show ?case
  proof (cases "fs (Suc c) = 0")
    case True
    then have "rev_yield \<lparr>current = Suc c, frames = fs\<rparr> = rev_yield \<lparr>current = c, frames = fs\<rparr>"
      using rev_yield_skip [of fs "Suc c"] rev_yield_skip [of fs c] by simp
    then show ?thesis using Suc True by simp
  next
    case False
    then show ?thesis using Suc by (subst rev_yield.simps) (simp add: walIteratorRevNext_def)
  qed
qed

lemma rev_visits_pos: "rev_visits log nB w mxSafe ig f \<Longrightarrow> f \<noteq> 0"
  by (auto simp: rev_visits_def rev_target_def page_frame_def split: if_splits)

lemma rev_visits_ignore:
  "rev_visits log nB w mxSafe True f \<longleftrightarrow>
     page_frame log (iter_base nB) (mxFrame (hdr w)) (log ! (f - 1)) f"
  by (auto simp: rev_visits_def rev_target_def) (auto simp: page_frame_def)

lemma iter_base_le: "iter_base nBackfill \<le> nBackfill"
  using walFramePage_bounds [of "nBackfill + 1"] by (simp add: iter_base_def)

text \<open>All the pairs returned, for either kind of caller.\<close>

lemma rev_yield_visits:
  assumes "wi_repr W log" "proper log" "0 < mxFrame (hdr w)" "mxFrame (hdr w) \<le> length log"
    and "mxSafe \<le> length log" "walIteratorRevInit E W w nBackfill mxSafe ignore = (rc, p, w')"
    and ok: "rc = SQLITE_OK"
  shows "\<exists>it. p = Some it \<and> rev_yield it = map (\<lambda>f. (log ! (f - 1), f))
    (filter (rev_visits log nBackfill w mxSafe ignore) (rev [1..<mxFrame (hdr w) + 1]))"
proof -
  let ?P = "rev_visits log nBackfill w mxSafe ignore"
  let ?fs = "\<lambda>f. if ?P f then log ! (f - 1) else 0"
  obtain it where it: "p = Some it" "current it = mxFrame (hdr w)" "frames it = ?fs"
    using walIteratorRevInit_spec [OF assms(1-6)] ok by (auto simp: fun_eq_iff)
  have "log ! (f - 1) \<noteq> 0" if v: "?P f" for f
  proof -
    obtain pg where t: "rev_target log (iter_base nBackfill) (mxFrame (hdr w)) w mxSafe ignore pg f"
      using v unfolding rev_visits_def by blast
    then obtain g where "page_frame log (iter_base nBackfill) (mxFrame (hdr w)) pg g"
      unfolding rev_target_def by blast
    from page_frame_proper [OF assms(2,4) this] show ?thesis using rev_target_page [OF t] by auto
  qed
  then have nz: "?fs f \<noteq> 0 \<longleftrightarrow> ?P f" for f by simp
  have eq: "map (\<lambda>f. (?fs f, f)) (filter (\<lambda>f. ?fs f \<noteq> 0) xs) = map (\<lambda>f. (log ! (f - 1), f)) (filter ?P xs)" for xs
    unfolding nz by (induction xs) auto
  have "it = \<lparr>current = mxFrame (hdr w), frames = ?fs\<rparr>" using it by simp
  then show ?thesis using it(1) rev_yield_eq [of "mxFrame (hdr w)" ?fs] eq by simp
qed

lemma rev_visits_all:
  assumes "0 < f"
  shows "rev_visits log nB w mxSafe False f \<longleftrightarrow>
    (\<exists>g. page_frame log (iter_base nB) (mxFrame (hdr w)) (log ! (f - 1)) g \<and>
      f = (if g \<le> mxSafe then g else found log w mxSafe (log ! (f - 1))))" (is "?v \<longleftrightarrow> (\<exists>g. ?r g)")
proof
  assume ?v
  then obtain pg where t: "rev_target log (iter_base nB) (mxFrame (hdr w)) w mxSafe False pg f"
    unfolding rev_visits_def by blast
  then have "log ! (f - 1) = pg" by (rule rev_target_page)
  then show "\<exists>g. ?r g" using t unfolding rev_target_def by (auto split: if_splits)
next
  assume "\<exists>g. ?r g"
  then show ?v using assms unfolding rev_visits_def rev_target_def by (auto split: if_splits)
qed

lemma found_newest:
  assumes "readLock w \<noteq> 0 \<or> bShmUnreliable w"
  shows "newest (answers log pg (minFrame w) n) (found log w n pg)"
  using assms find_linear_newest by (auto simp: found_def)

text \<open>Behind \<open>nBackfill\<close>, a callback sees the newest version not after \<open>mxSafe\<close> of every page.\<close>

lemma rev_visits_safe:
  assumes "readLock w \<noteq> 0 \<or> bShmUnreliable w" "minFrame w = nB + 1" "nB < f" "mxSafe \<le> mxFrame (hdr w)"
  shows "rev_visits log nB w mxSafe False f \<longleftrightarrow> page_frame log (iter_base nB) mxSafe (log ! (f - 1)) f"
proof -
  let ?pg = "log ! (f - 1)" and ?a = "iter_base nB" and ?b = "mxFrame (hdr w)"
  have f: "0 < f" "?a \<le> nB" using assms(3) iter_base_le by auto
  note fn = found_newest [OF assms(1), of log ?pg mxSafe, unfolded assms(2)]
  show ?thesis unfolding rev_visits_all [OF f(1)]
  proof
    assume "\<exists>g. page_frame log ?a ?b ?pg g \<and> f = (if g \<le> mxSafe then g else found log w mxSafe ?pg)"
    then obtain g where g: "page_frame log ?a ?b ?pg g" "f = (if g \<le> mxSafe then g else found log w mxSafe ?pg)" by blast
    show "page_frame log ?a mxSafe ?pg f"
    proof (cases "g \<le> mxSafe")
      case True
      then show ?thesis using g assms(4) by (auto simp: page_frame_def)
    next
      case False
      then have "f = found log w mxSafe ?pg" using g(2) by simp
      then have nw: "f \<in> answers log ?pg (nB + 1) mxSafe" "\<forall>k\<in>answers log ?pg (nB + 1) mxSafe. k \<le> f"
        using fn f(1) unfolding newest_def by auto
      have "k \<le> f" if "?a < k" "k \<le> mxSafe" "log ! (k - 1) = ?pg" for k
        using nw(2) that assms(3) by (cases "nB < k") (auto simp: answers_def)
      then show ?thesis using nw(1) assms(3) f(2) by (auto simp: page_frame_def answers_def)
    qed
  next
    assume p: "page_frame log ?a mxSafe ?pg f"
    let ?S = "{g. f \<le> g \<and> g \<le> ?b \<and> log ! (g - 1) = ?pg}"
    have fin: "finite ?S" "f \<in> ?S" using p assms(4) by (auto simp: page_frame_def)
    define g where "g = Max ?S"
    have g: "g \<in> ?S" "\<forall>k\<in>?S. k \<le> g" unfolding g_def using Max_in [OF fin(1)] Max_ge [OF fin(1)] fin(2) by blast+
    have gt: "page_frame log ?a ?b ?pg g"
      unfolding page_frame_def
    proof (intro conjI allI impI)
      show "?a < g" "g \<le> ?b" "log ! (g - 1) = ?pg" using g(1) f assms(3) by auto
      fix k assume "?a < k \<and> k \<le> ?b \<and> log ! (k - 1) = ?pg"
      then show "k \<le> g" using g by (cases "f \<le> k") auto
    qed
    have "f = (if g \<le> mxSafe then g else found log w mxSafe ?pg)"
    proof (cases "g \<le> mxSafe")
      case True
      then show ?thesis using p g f(2) assms(3) by (auto simp: page_frame_def intro: order_antisym)
    next
      case False
      have "newest (answers log ?pg (nB + 1) mxSafe) f"
        using p assms(3) f unfolding newest_def by (auto simp: page_frame_def answers_def)
      then show ?thesis using newest_unique [OF _ fn] False by simp
    qed
    then show "\<exists>g. page_frame log ?a ?b ?pg g \<and> f = (if g \<le> mxSafe then g else found log w mxSafe ?pg)"
      using gt by blast
  qed
qed

lemma filter_upt_tail:
  "m \<le> n \<Longrightarrow> (\<And>f. b < f \<Longrightarrow> P f \<longleftrightarrow> Q f) \<Longrightarrow> (\<And>f. m < f \<Longrightarrow> b < f \<Longrightarrow> \<not> Q f) \<Longrightarrow>
   filter (\<lambda>f. P f \<and> b < f) (rev [1..<n + 1]) = filter Q (rev [b + 1..<m + 1])"
proof (induction n)
  case (Suc n)
  show ?case
  proof (cases "m \<le> n")
    case True
    then have "\<not> (P (Suc n) \<and> b < Suc n)" using Suc.prems(2,3) [of "Suc n"] by auto
    then show ?thesis using Suc True by simp
  next
    case False
    then have m: "m = Suc n" using Suc.prems(1) by simp
    have "filter (\<lambda>f. P f \<and> b < f) (rev [1..<k + 1]) = filter Q (rev [b + 1..<k + 1])" for k
      using Suc.prems(2) by (induction k) auto
    then show ?thesis unfolding m .
  qed
qed simp

text \<open>C17. The reverse iterator of a checkpoint returns frames from the newest down, each with its
  own page number. Without a callback these are exactly the frames that hold
  the newest version of their page among the frames of the snapshot behind
  \<open>iter_base nBackfill\<close>, which is at most \<open>nBackfill\<close>. For a callback, a page whose newest frame is
  beyond \<open>mxSafe\<close> is represented by the frame a page lookup up to \<open>mxSafe\<close> finds, if
  any; if the connection's lookups start right behind \<open>nBackfill\<close>, the frames behind
  \<open>nBackfill\<close> are exactly the newest versions not after \<open>mxSafe\<close>. The iterator cannot be set up
  only if the allocator or the mapping of the wal-index fails.\<close>

theorem walIteratorRev_newest_first:
  assumes "wi_repr W log" "proper log" "0 < mxFrame (hdr w)" "mxFrame (hdr w) \<le> length log"
    and "mxSafe \<le> length log" "walIteratorRevInit E W w nBackfill mxSafe ignore = (rc, p, w')"
  shows "(shm_reliable E \<longrightarrow> rc = SQLITE_OK) \<and> iter_base nBackfill \<le> nBackfill \<and>
    (rc = SQLITE_OK \<longrightarrow> (\<exists>it. p = Some it \<and>
      rev_yield it = map (\<lambda>f. (log ! (f - 1), f)) (filter
        (\<lambda>f. \<exists>g. page_frame log (iter_base nBackfill) (mxFrame (hdr w)) (log ! (f - 1)) g \<and>
          f = (if ignore \<or> g \<le> mxSafe then g else found log w mxSafe (log ! (f - 1))))
        (rev [1..<mxFrame (hdr w) + 1])) \<and>
      (\<not> ignore \<and> (readLock w \<noteq> 0 \<or> bShmUnreliable w) \<and> minFrame w = nBackfill + 1 \<and> mxSafe \<le> mxFrame (hdr w) \<longrightarrow>
        filter (\<lambda>(pg, f). nBackfill < f) (rev_yield it) = map (\<lambda>f. (log ! (f - 1), f))
          (filter (\<lambda>f. page_frame log (iter_base nBackfill) mxSafe (log ! (f - 1)) f)
            (rev [nBackfill + 1..<mxSafe + 1])))))"
proof -
  let ?V = "rev_visits log nBackfill w mxSafe ignore" and ?L = "rev [1..<mxFrame (hdr w) + 1]"
  let ?m = "\<lambda>f. (log ! (f - 1), f)"
  have v: "?V f \<longleftrightarrow> (\<exists>g. page_frame log (iter_base nBackfill) (mxFrame (hdr w)) (log ! (f - 1)) g \<and>
      f = (if ignore \<or> g \<le> mxSafe then g else found log w mxSafe (log ! (f - 1))))" if "f \<in> set ?L" for f
  proof -
    have "0 < f" using that by (simp only: set_rev atLeastLessThan_upt [symmetric] atLeastLessThan_iff) simp
    from rev_visits_all [OF this, of log nBackfill w mxSafe] show ?thesis
      by (cases ignore) (simp_all only: rev_visits_ignore simp_thms if_True ex_simps not_True_eq_False, blast?)
  qed
  have tail: "filter (\<lambda>(pg, f). nBackfill < f) (map ?m (filter ?V ?L)) = map ?m
      (filter (\<lambda>f. page_frame log (iter_base nBackfill) mxSafe (log ! (f - 1)) f) (rev [nBackfill + 1..<mxSafe + 1]))"
    if "\<not> ignore \<and> (readLock w \<noteq> 0 \<or> bShmUnreliable w) \<and> minFrame w = nBackfill + 1 \<and> mxSafe \<le> mxFrame (hdr w)"
  proof -
    have "filter (\<lambda>f. ?V f \<and> nBackfill < f) ?L =
      filter (\<lambda>f. page_frame log (iter_base nBackfill) mxSafe (log ! (f - 1)) f) (rev [nBackfill + 1..<mxSafe + 1])"
      using rev_visits_safe [of w nBackfill _ mxSafe log] that
      by (intro filter_upt_tail) (auto simp: page_frame_def)
    then show ?thesis by (simp add: filter_map o_def conj_commute)
  qed
  have ok: "\<exists>it. p = Some it \<and> rev_yield it = map ?m (filter ?V ?L)" if "rc = SQLITE_OK"
    using rev_yield_visits [OF assms that] .
  have rel: "shm_reliable E \<longrightarrow> rc = SQLITE_OK" using walIteratorRevInit_spec [OF assms] by blast
  have fc: "filter (\<lambda>f. \<exists>g. page_frame log (iter_base nBackfill) (mxFrame (hdr w)) (log ! (f - 1)) g \<and>
      f = (if ignore \<or> g \<le> mxSafe then g else found log w mxSafe (log ! (f - 1)))) ?L = filter ?V ?L"
    by (rule filter_cong [OF refl v [symmetric]])
  show ?thesis unfolding fc
  proof (intro conjI impI)
    show "shm_reliable E \<Longrightarrow> rc = SQLITE_OK" "iter_base nBackfill \<le> nBackfill" using rel iter_base_le by blast+
    assume "rc = SQLITE_OK"
    from ok [OF this] obtain it where it: "p = Some it" "rev_yield it = map ?m (filter ?V ?L)" by blast
    show "\<exists>it. p = Some it \<and> rev_yield it = map ?m (filter ?V ?L) \<and> (\<not> ignore \<and>
      (readLock w \<noteq> 0 \<or> bShmUnreliable w) \<and> minFrame w = nBackfill + 1 \<and> mxSafe \<le> mxFrame (hdr w) \<longrightarrow>
        filter (\<lambda>(pg, f). nBackfill < f) (rev_yield it) = map ?m
          (filter (\<lambda>f. page_frame log (iter_base nBackfill) mxSafe (log ! (f - 1)) f) (rev [nBackfill + 1..<mxSafe + 1])))"
      by (rule exI [of _ it]) (use it tail in simp)
  qed
qed

theorem walIteratorRev_newest_first_witness:
  "\<exists>W w it w' it' w''. walIteratorRevInit shm_ok W w 0 2 True = (SQLITE_OK, Some it, w') \<and>
     rev_yield it = [(7, 3), (9, 2)] \<and>
     walIteratorRevInit shm_ok W w 0 2 False = (SQLITE_OK, Some it', w'') \<and>
     filter (\<lambda>(pg, f). 0 < f) (rev_yield it') = [(9, 2), (7, 1)]"
proof -
  obtain W where W: "wi_repr W [7, 9, 7]"
    using append_ok_reliable [OF index1_repr, of 9 reader0] append_ok_reliable [of _ "[7, 9]" 7 reader0]
    by auto
  define w where "w = reader0\<lparr>minFrame := 1, hdr := hdr_zero\<lparr>mxFrame := 3\<rparr>\<rparr>"
  have w: "readLock w \<noteq> 0" "minFrame w = 0 + 1" "mxFrame (hdr w) = 3" by (simp_all add: w_def reader0_def)
  obtain rc p w' where r: "walIteratorRevInit shm_ok W w 0 2 True = (rc, p, w')"
    by (cases "walIteratorRevInit shm_ok W w 0 2 True")
  obtain rc2 p2 w2 where r2: "walIteratorRevInit shm_ok W w 0 2 False = (rc2, p2, w2)"
    by (cases "walIteratorRevInit shm_ok W w 0 2 False")
  have pre: "proper [7, 9, 7]" "0 < mxFrame (hdr w)" "mxFrame (hdr w) \<le> length [7, 9, 7 :: u32]"
    "2 \<le> length [7, 9, 7 :: u32]" by (simp_all add: proper_def w)
  note t = walIteratorRev_newest_first [OF W pre r] and t2 = walIteratorRev_newest_first [OF W pre r2]
  have 0: "iter_base 0 = 0" using iter_base_le [of 0] by simp
  have pf: "page_frame [7, 9, 7] 0 3 7 3" "page_frame [7, 9, 7] 0 3 9 2" "\<not> page_frame [7, 9, 7] 0 3 7 1"
    "page_frame [7, 9, 7] 0 2 9 2" "page_frame [7, 9, 7] 0 2 7 1"
    by (auto simp: page_frame_def nth_Cons split: nat.splits)
  have l: "filter (\<lambda>f. page_frame [7, 9, 7] 0 3 ([7, 9, 7] ! (f - 1)) f) (rev [1..<3 + 1]) = [3, 2]"
    "filter (\<lambda>f. page_frame [7, 9, 7] 0 2 ([7, 9, 7] ! (f - 1)) f) (rev [0 + 1..<2 + 1]) = [2, 1]"
    using pf by (simp_all add: upt_rec numeral_3_eq_3 numeral_2_eq_2)
  have m: "map (\<lambda>f. ([7, 9, 7] ! (f - 1), f)) [3, 2] = [(7 :: u32, 3 :: nat), (9, 2)]"
    "map (\<lambda>f. ([7, 9, 7] ! (f - 1), f)) [2, 1] = [(9 :: u32, 2 :: nat), (7, 1)]" by simp_all
  have ok: "rc = SQLITE_OK" "rc2 = SQLITE_OK" using t t2 shm_ok_reliable by blast+
  have e: "(\<exists>g. P g \<and> f = g) \<longleftrightarrow> P f" for P and f :: nat by blast
  obtain it where it: "p = Some it" "rev_yield it = [(7, 3), (9, 2)]"
    using t ok(1) unfolding w(3) 0 simp_thms if_True e l m by blast
  have "2 \<le> mxFrame (hdr w)" using w by simp
  then obtain it' where "p2 = Some it'" "filter (\<lambda>(pg, f). 0 < f) (rev_yield it') = [(9, 2), (7, 1)]"
    using t2 ok(2) w(1,2) unfolding 0 l m by blast
  then show ?thesis using r r2 it ok by blast
qed

end
