(* ===== verification/Bitvec.thy ===== *)
theory Bitvec
  imports Prelude
begin

text \<open>
  The sparse bit vectors of \<^verbatim>\<open>bitvec.c\<close>: creation, test, set and clear over the three
  representations (bitmap, hash table, array of sub-vectors), and the built-in self
  test. The representation refines a set of page numbers.
\<close>

section \<open>Operations\<close>

abbreviation (input) BITVEC_NELEM :: nat where "BITVEC_NELEM \<equiv> 496"
abbreviation (input) BITVEC_NBIT :: nat where "BITVEC_NBIT \<equiv> 3968"
abbreviation (input) BITVEC_NINT :: nat where "BITVEC_NINT \<equiv> 124"
abbreviation (input) BITVEC_MXHASH :: nat where "BITVEC_MXHASH \<equiv> 62"
abbreviation (input) BITVEC_NPTR :: nat where "BITVEC_NPTR \<equiv> 62"

text \<open>\<^verbatim>\<open>struct Bitvec\<close>. The member of the union in use is the constructor: \<open>BvBitmap\<close> when
  \<^verbatim>\<open>iSize\<close> is at most \<^verbatim>\<open>BITVEC_NBIT\<close>, else \<open>BvHash\<close> when \<^verbatim>\<open>iDivisor\<close> is 0, else \<open>BvSub\<close>;
  \<^verbatim>\<open>nSet\<close> is only meaningful in the second and \<^verbatim>\<open>iDivisor\<close> only in the third.\<close>

datatype Bitvec =
    BvBitmap (bv_iSize: nat) "u8 list"
  | BvHash (bv_iSize: nat) nat "nat list"
  | BvSub (bv_iSize: nat) nat "Bitvec option list"

text \<open>\<open>al k\<close> says whether the \<open>k\<close>-th allocation succeeds; the operations return the
  number of allocations made so far. \<open>bv_new\<close> is the zeroed structure.\<close>

definition bv_new :: "nat \<Rightarrow> Bitvec" where
  "bv_new iSize = (if iSize \<le> BITVEC_NBIT then BvBitmap iSize (replicate BITVEC_NELEM 0)
     else BvHash iSize 0 (replicate BITVEC_NINT 0))"

definition sqlite3BitvecCreate :: "(nat \<Rightarrow> bool) \<Rightarrow> nat \<Rightarrow> nat \<Rightarrow> Bitvec option \<times> nat" where
  "sqlite3BitvecCreate al k iSize = (if al k then Some (bv_new iSize) else None, k + 1)"

definition BITVEC_HASH :: "nat \<Rightarrow> nat" where
  "BITVEC_HASH X = X * 1 mod BITVEC_NINT"

text \<open>The probing loop of test and set: whether value \<open>i\<close> was met, and the slot where the
  loop stopped. A loop that comes back to its first slot would never end; that is
  \<open>None\<close>.\<close>

primrec bv_probe :: "nat \<Rightarrow> nat list \<Rightarrow> nat \<Rightarrow> nat \<Rightarrow> (bool \<times> nat) option" where
  "bv_probe 0 aHash i h = None"
| "bv_probe (Suc n) aHash i h =
    (if aHash ! h = 0 then Some (False, h)
     else if aHash ! h = i then Some (True, h)
     else bv_probe n aHash i (if h + 1 \<ge> BITVEC_NINT then 0 else h + 1))"

lemma bv_sub_size [termination_simp]:
  "j < length ps \<Longrightarrow> ps ! j = Some q \<Longrightarrow> size q < Suc (size_list (size_option size) ps)"
  using size_list_estimation' [of "ps ! j" ps "size q" "size_option size"] nth_mem [of j ps] by simp

text \<open>\<^verbatim>\<open>sqlite3BitvecTestNotNull\<close>: the \<^verbatim>\<open>while\<close> loop that descends into the sub-vectors with
  the zero-based index, and the routine; subtracting 1 from the unsigned \<open>i\<close> wraps.\<close>

fun bv_test :: "Bitvec \<Rightarrow> nat \<Rightarrow> bool" where
  "bv_test (BvSub iSize iDivisor apSub) i =
    (let bin = i div iDivisor
     in if bin < length apSub then
          (case apSub ! bin of None \<Rightarrow> False | Some p \<Rightarrow> bv_test p (i mod iDivisor))
        else False)"
| "bv_test (BvBitmap iSize aBitmap) i =
    (aBitmap ! (i div 8) AND push_bit (i AND 7) 1 \<noteq> 0)"
| "bv_test (BvHash iSize nSet aHash) i =
    (case bv_probe BITVEC_NINT aHash (i + 1) (BITVEC_HASH i) of
       Some (found, _) \<Rightarrow> found | None \<Rightarrow> False)"

definition sqlite3BitvecTestNotNull :: "Bitvec \<Rightarrow> nat \<Rightarrow> bool" where
  "sqlite3BitvecTestNotNull p i =
    (let i = (i + 4294967295) mod 4294967296
     in if i \<ge> bv_iSize p then False else bv_test p i)"

definition sqlite3BitvecTest :: "Bitvec option \<Rightarrow> nat \<Rightarrow> bool" where
  "sqlite3BitvecTest p i = (case p of None \<Rightarrow> False | Some p \<Rightarrow> sqlite3BitvecTestNotNull p i)"

text \<open>\<^verbatim>\<open>sqlite3BitvecSet\<close> with the zero-based index. The first argument bounds the depth of
  descents and re-hashes; \<open>None\<close> is an exhausted bound or a probing loop that never
  ends. \<open>bv_rehash\<close> is the loop that re-inserts the saved values.\<close>

fun bv_rehash ::
  "(nat \<Rightarrow> Bitvec \<Rightarrow> nat \<Rightarrow> (rc \<times> Bitvec \<times> nat) option) \<Rightarrow> nat list \<Rightarrow> nat \<Rightarrow> rc \<Rightarrow> Bitvec
    \<Rightarrow> (rc \<times> Bitvec \<times> nat) option" where
  "bv_rehash bvset [] k rc p = Some (rc, p, k)"
| "bv_rehash bvset (v # aiValues) k rc p =
    (if v \<noteq> 0 then
       (case bvset k p (v - 1) of
          None \<Rightarrow> None
        | Some (rc', p, k) \<Rightarrow> bv_rehash bvset aiValues k (rc OR rc') p)
     else bv_rehash bvset aiValues k rc p)"

primrec bv_set ::
  "nat \<Rightarrow> (nat \<Rightarrow> bool) \<Rightarrow> nat \<Rightarrow> Bitvec \<Rightarrow> nat \<Rightarrow> (rc \<times> Bitvec \<times> nat) option" where
  "bv_set 0 al k p i = None"
| "bv_set (Suc n) al k p i =
    (case p of
       BvSub iSize iDivisor apSub \<Rightarrow>
         (let bin = i div iDivisor;
              (q, k) = (case apSub ! bin of
                          None \<Rightarrow> sqlite3BitvecCreate al k iDivisor | Some q \<Rightarrow> (Some q, k))
          in case q of
               None \<Rightarrow> Some (SQLITE_NOMEM, p, k)
             | Some q \<Rightarrow>
                 (case bv_set n al k q (i mod iDivisor) of
                    None \<Rightarrow> None
                  | Some (rc, q, k) \<Rightarrow> Some (rc, BvSub iSize iDivisor (apSub[bin := Some q]), k)))
     | BvBitmap iSize aBitmap \<Rightarrow>
         Some (SQLITE_OK, BvBitmap iSize
           (aBitmap[i div 8 := aBitmap ! (i div 8) OR push_bit (i AND 7) 1]), k)
     | BvHash iSize nSet aHash \<Rightarrow>
         (case bv_probe BITVEC_NINT aHash (i + 1) (BITVEC_HASH i) of
            None \<Rightarrow> None
          | Some (True, h) \<Rightarrow> Some (SQLITE_OK, p, k)
          | Some (False, h) \<Rightarrow>
              if (if aHash ! BITVEC_HASH i = 0 then nSet < BITVEC_NINT - 1 else nSet < BITVEC_MXHASH)
              then Some (SQLITE_OK, BvHash iSize (nSet + 1) (aHash[h := i + 1]), k)
              else if \<not> al k then Some (SQLITE_NOMEM, p, k + 1)
              else
                let iDivisor = (iSize + BITVEC_NPTR - 1) div BITVEC_NPTR;
                    p = BvSub iSize iDivisor (replicate BITVEC_NPTR None)
                in (case bv_set n al (k + 1) p i of
                      None \<Rightarrow> None
                    | Some (rc, p, k) \<Rightarrow> bv_rehash (\<lambda>k p v. bv_set n al k p v) aHash k rc p)))"

definition sqlite3BitvecSet ::
  "(nat \<Rightarrow> bool) \<Rightarrow> nat \<Rightarrow> Bitvec option \<Rightarrow> nat \<Rightarrow> (rc \<times> Bitvec option \<times> nat) option" where
  "sqlite3BitvecSet al k p i =
    (case p of None \<Rightarrow> Some (SQLITE_OK, None, k)
     | Some p \<Rightarrow> map_option (\<lambda>(rc, p, k). (rc, Some p, k)) (bv_set 9 al k p (i - 1)))"

text \<open>\<^verbatim>\<open>sqlite3BitvecClear\<close>: the search for a free slot, the loop that rebuilds the hash
  table without value \<open>i + 1\<close>, the descent, and the routine.\<close>

primrec bv_free :: "nat \<Rightarrow> nat list \<Rightarrow> nat \<Rightarrow> nat option" where
  "bv_free 0 aHash h = None"
| "bv_free (Suc n) aHash h =
    (if aHash ! h = 0 then Some h
     else bv_free n aHash (if h + 1 \<ge> BITVEC_NINT then 0 else h + 1))"

fun bv_rebuild :: "nat list \<Rightarrow> nat \<Rightarrow> nat \<Rightarrow> nat list \<Rightarrow> (nat \<times> nat list) option" where
  "bv_rebuild [] i nSet aHash = Some (nSet, aHash)"
| "bv_rebuild (v # aiValues) i nSet aHash =
    (if v \<noteq> 0 \<and> v \<noteq> i + 1 then
       (case bv_free BITVEC_NINT aHash (BITVEC_HASH (v - 1)) of
          None \<Rightarrow> None
        | Some h \<Rightarrow> bv_rebuild aiValues i (nSet + 1) (aHash[h := v]))
     else bv_rebuild aiValues i nSet aHash)"

fun bv_clear :: "Bitvec \<Rightarrow> nat \<Rightarrow> Bitvec option" where
  "bv_clear (BvSub iSize iDivisor apSub) i =
    (let bin = i div iDivisor
     in if bin < length apSub then
          (case apSub ! bin of None \<Rightarrow> Some (BvSub iSize iDivisor apSub)
           | Some p \<Rightarrow> map_option (\<lambda>p. BvSub iSize iDivisor (apSub[bin := Some p]))
                         (bv_clear p (i mod iDivisor)))
        else None)"
| "bv_clear (BvBitmap iSize aBitmap) i =
    Some (BvBitmap iSize
      (aBitmap[i div 8 := aBitmap ! (i div 8) AND NOT (push_bit (i AND 7) 1)]))"
| "bv_clear (BvHash iSize nSet aHash) i =
    map_option (\<lambda>(nSet, aHash). BvHash iSize nSet aHash)
      (bv_rebuild aHash i 0 (replicate BITVEC_NINT 0))"

definition sqlite3BitvecClear :: "Bitvec option \<Rightarrow> nat \<Rightarrow> Bitvec option option" where
  "sqlite3BitvecClear p i =
    (case p of None \<Rightarrow> Some None | Some p \<Rightarrow> map_option Some (bv_clear p (i - 1)))"

definition sqlite3BitvecSize :: "Bitvec \<Rightarrow> nat" where
  "sqlite3BitvecSize p = bv_iSize p"

text \<open>\<^verbatim>\<open>sqlite3BitvecBuiltinTest\<close>. The linear reference array \<open>V\<close> with the macros that access
  it; \<open>rnd\<close> gives the results of \<^verbatim>\<open>sqlite3_randomness\<close>. \<open>bv_fetch\<close> is the part of the loop
  before the set or clear: it decodes the instruction at \<open>pc\<close>, updates its operands and
  moves \<open>pc\<close>; \<open>None\<close> is a program that ends without the halt opcode.\<close>

definition SETBIT :: "u8 list \<Rightarrow> nat \<Rightarrow> u8 list" where
  "SETBIT V I = V[drop_bit 3 I := V ! drop_bit 3 I OR push_bit (I AND 7) 1]"

definition CLEARBIT :: "u8 list \<Rightarrow> nat \<Rightarrow> u8 list" where
  "CLEARBIT V I = V[drop_bit 3 I := V ! drop_bit 3 I AND NOT (push_bit (I AND 7) 1)]"

definition TESTBIT :: "u8 list \<Rightarrow> nat \<Rightarrow> bool" where
  "TESTBIT V I = (V ! drop_bit 3 I AND push_bit (I AND 7) 1 \<noteq> 0)"

definition bv_fetch ::
  "(nat \<Rightarrow> int) \<Rightarrow> nat \<Rightarrow> int list \<Rightarrow> nat \<Rightarrow> nat \<Rightarrow> (nat \<times> int list \<times> nat \<times> nat) option" where
  "bv_fetch rnd sz aOp pc r =
    (let op = aOp ! pc
     in if length aOp \<le> pc + (if op = 1 \<or> op = 2 \<or> op = 5 then 3 else 1) then None
     else
       let (nx, i, aOp, r) =
             (if op = 1 \<or> op = 2 \<or> op = 5
              then (4, aOp ! (pc + 2) - 1, aOp[pc + 2 := aOp ! (pc + 2) + aOp ! (pc + 3)], r)
              else (2, rnd r, aOp, r + 1));
           aOp = aOp[pc + 1 := aOp ! (pc + 1) - 1];
           nx = (if aOp ! (pc + 1) > 0 then 0 else nx)
       in Some (nat ((i AND 0x7fffffff) mod int sz), aOp, pc + nx, r))"

lemma bv_fetch_decreases:
  assumes "bv_fetch rnd sz aOp pc r = Some (i, aOp', pc', r')"
  shows "((length aOp' - pc', nat (aOp' ! (pc' + 1))), (length aOp - pc, nat (aOp ! (pc + 1)))) \<in> less_than <*lex*> less_than"
proof (cases "aOp ! (pc + 1) - 1 > 0")
  case True
  then show ?thesis using assms by (auto simp: bv_fetch_def Let_def split: if_splits)
next
  case False
  then show ?thesis using assms by (auto simp: bv_fetch_def Let_def split: if_splits)
qed

function bv_run ::
  "(nat \<Rightarrow> bool) \<Rightarrow> (nat \<Rightarrow> int) \<Rightarrow> nat \<Rightarrow> int list \<Rightarrow> nat \<Rightarrow> nat \<Rightarrow> nat \<Rightarrow> Bitvec option \<Rightarrow> u8 list
    \<Rightarrow> (bool \<times> Bitvec option \<times> u8 list) option" where
  "bv_run al rnd sz aOp pc k r p V =
    (if length aOp \<le> pc then None
     else if aOp ! pc = 0 then Some (True, p, V)
     else
       case bv_fetch rnd sz aOp pc r of
         None \<Rightarrow> None
       | Some (i, aOp', pc', r') \<Rightarrow>
           if (aOp ! pc) AND 1 \<noteq> 0 then
             (if aOp ! pc \<noteq> 5 then
                (case sqlite3BitvecSet al k p (i + 1) of
                   None \<Rightarrow> None
                 | Some (rc, p, k) \<Rightarrow>
                     if rc \<noteq> 0 then Some (False, p, SETBIT V (i + 1))
                     else bv_run al rnd sz aOp' pc' k r' p (SETBIT V (i + 1)))
              else bv_run al rnd sz aOp' pc' k r' p (SETBIT V (i + 1)))
           else
             (case sqlite3BitvecClear p (i + 1) of
                None \<Rightarrow> None
              | Some p \<Rightarrow> bv_run al rnd sz aOp' pc' k r' p (CLEARBIT V (i + 1))))"
  by pat_completeness auto
termination
  by (relation "inv_image (less_than <*lex*> less_than)
      (\<lambda>(al, rnd, sz, aOp, pc, k, r, p, V). (length aOp - pc, nat (aOp ! (pc + 1))))")
     (auto dest!: bv_fetch_decreases)

declare bv_run.simps [simp del]

definition sqlite3BitvecBuiltinTest :: "(nat \<Rightarrow> bool) \<Rightarrow> (nat \<Rightarrow> int) \<Rightarrow> nat \<Rightarrow> int list \<Rightarrow> int option" where
  "sqlite3BitvecBuiltinTest al rnd sz aOp =
    (let (pBitvec, k) = sqlite3BitvecCreate al 0 sz
     in if pBitvec = None \<or> \<not> al k \<or> \<not> al (k + 1) then Some (- 1)
     else
       case bv_run al rnd sz aOp 0 (k + 2) 0 pBitvec (replicate ((sz + 7) div 8 + 1) 0) of
         None \<Rightarrow> None
       | Some (False, _) \<Rightarrow> Some (- 1)
       | Some (True, p, V) \<Rightarrow>
           (case find (\<lambda>i. TESTBIT V i \<noteq> sqlite3BitvecTest p i) [1..<sz + 1] of
              Some i \<Rightarrow> Some (int i)
            | None \<Rightarrow>
                Some (of_bool (sqlite3BitvecTest None 0) + of_bool (sqlite3BitvecTest p (sz + 1))
                  + of_bool (sqlite3BitvecTest p 0) + (int (sqlite3BitvecSize (the p)) - int sz))))"

section \<open>Open addressing\<close>

text \<open>A table in which every value other than 0 is met from its hash slot before a free
  slot, and no value is stored twice.\<close>

abbreviation wrap :: "nat \<Rightarrow> nat \<Rightarrow> nat" where
  "wrap h k \<equiv> (h + k) mod BITVEC_NINT"

definition met :: "nat list \<Rightarrow> nat \<Rightarrow> nat \<Rightarrow> nat \<Rightarrow> bool" where
  "met T h k v \<longleftrightarrow> k < BITVEC_NINT \<and> T ! wrap h k = v \<and> (\<forall>j<k. T ! wrap h j \<noteq> 0)"

definition tab_ok :: "nat list \<Rightarrow> bool" where
  "tab_ok T \<longleftrightarrow> length T = BITVEC_NINT \<and>
     (\<forall>v\<in>set T. v \<noteq> 0 \<longrightarrow> (\<exists>k. met T (BITVEC_HASH (v - 1)) k v)) \<and>
     (\<forall>i<BITVEC_NINT. \<forall>j<BITVEC_NINT. T ! i = T ! j \<longrightarrow> T ! i \<noteq> 0 \<longrightarrow> i = j)"

definition used :: "nat list \<Rightarrow> nat" where
  "used T = card (set T - {0})"


lemma wrap_Suc: "h < BITVEC_NINT \<Longrightarrow> wrap (if h + 1 \<ge> BITVEC_NINT then 0 else h + 1) k = wrap h (Suc k)"
proof -
  assume "h < BITVEC_NINT"
  then have "(if h + 1 \<ge> BITVEC_NINT then 0 else h + 1) = wrap h 1"
    by (cases "h = 123") auto
  then show ?thesis by (simp only: mod_simps) simp
qed

lemma bv_probe_stop:
  assumes "h < BITVEC_NINT" "k < n" "T ! wrap h k = 0 \<or> T ! wrap h k = v" "v \<noteq> 0"
    and "\<forall>j<k. T ! wrap h j \<noteq> 0 \<and> T ! wrap h j \<noteq> v"
  shows "bv_probe n T v h = Some (T ! wrap h k = v, wrap h k)"
  using assms
proof (induction n arbitrary: h k)
  case (Suc n)
  let ?h = "if h + 1 \<ge> BITVEC_NINT then 0 else h + 1"
  show ?case
  proof (cases k)
    case 0
    then show ?thesis using Suc.prems by auto
  next
    case (Suc m)
    have "T ! h \<noteq> 0 \<and> T ! h \<noteq> v" using Suc.prems(1,5) Suc by (metis add.right_neutral mod_less zero_less_Suc)
    moreover have "bv_probe n T v ?h = Some (T ! wrap ?h m = v, wrap ?h m)"
      using Suc.prems Suc wrap_Suc [OF Suc.prems(1)] by (intro Suc.IH) auto
    ultimately show ?thesis using Suc wrap_Suc [OF Suc.prems(1), of m] by simp
  qed
qed simp

lemma wrap_onto: "h < BITVEC_NINT \<Longrightarrow> i < BITVEC_NINT \<Longrightarrow> \<exists>k<BITVEC_NINT. wrap h k = i"
  by (rule exI [of _ "(i + (BITVEC_NINT - h)) mod BITVEC_NINT"]) (simp add: mod_simps)

lemma tab_ok_length: "tab_ok T \<Longrightarrow> length T = BITVEC_NINT"
  by (simp add: tab_ok_def)

lemma tab_ok_met: "tab_ok T \<Longrightarrow> v \<in> set T \<Longrightarrow> v \<noteq> 0 \<Longrightarrow> \<exists>k. met T (BITVEC_HASH (v - 1)) k v"
  by (simp add: tab_ok_def)

lemma met_update:
  assumes "met T h k w" "T ! x = 0" "w \<noteq> 0"
  shows "met (T[x := v]) h k w"
  using assms unfolding met_def
  by (metis nth_list_update_neq nth_list_update_eq list_update_beyond not_less)

lemma used_free:
  assumes "tab_ok T" "used T < BITVEC_NINT"
  shows "\<exists>i<BITVEC_NINT. T ! i = 0"
proof (rule ccontr)
  assume no: "\<not> ?thesis"
  then have "0 \<notin> set T" using assms(1) by (auto simp: tab_ok_def in_set_conv_nth)
  moreover have "distinct T" using assms(1) no by (auto simp: tab_ok_def distinct_conv_nth)
  ultimately have "used T = length T" by (simp add: used_def distinct_card)
  then show False using assms by (simp add: tab_ok_def)
qed

lemma hash_less [simp]: "BITVEC_HASH x < BITVEC_NINT"
  by (simp add: BITVEC_HASH_def)

lemma probe_tab:
  assumes T: "tab_ok T" "used T < BITVEC_NINT" and v: "v \<noteq> 0"
  shows "\<exists>k. met T (BITVEC_HASH (v - 1)) k (if v \<in> set T then v else 0) \<and>
    bv_probe BITVEC_NINT T v (BITVEC_HASH (v - 1)) = Some (v \<in> set T, wrap (BITVEC_HASH (v - 1)) k)"
proof -
  let ?h = "BITVEC_HASH (v - 1)"
  obtain i where i: "i < BITVEC_NINT" "T ! i = 0" using used_free [OF T] by blast
  then obtain m where "m < BITVEC_NINT" "wrap ?h m = i" using wrap_onto [of ?h i] by auto
  then have "m \<le> 123 \<and> (T ! wrap ?h m = 0 \<or> T ! wrap ?h m = v)" using i by simp
  then have "\<exists>k\<le>123. T ! wrap ?h k = 0 \<or> T ! wrap ?h k = v" by blast
  then obtain k where k: "k \<le> 123" "T ! wrap ?h k = 0 \<or> T ! wrap ?h k = v"
    and min: "\<forall>j<k. \<not> (T ! wrap ?h j = 0 \<or> T ! wrap ?h j = v)"
    using first_below [of 123 "\<lambda>k. T ! wrap ?h k = 0 \<or> T ! wrap ?h k = v"] by blast
  have pr: "bv_probe BITVEC_NINT T v ?h = Some (T ! wrap ?h k = v, wrap ?h k)"
    by (rule bv_probe_stop) (use k min v in simp_all)
  have iff: "T ! wrap ?h k = v \<longleftrightarrow> v \<in> set T"
  proof
    assume "T ! wrap ?h k = v"
    moreover have "wrap ?h k < length T" using tab_ok_length [OF T(1)] by simp
    ultimately show "v \<in> set T" using nth_mem [of "wrap ?h k" T] by simp
  next
    assume "v \<in> set T"
    then obtain m where m: "met T ?h m v" using tab_ok_met [OF T(1) _ v] by blast
    have "\<not> m < k" using min m by (auto simp: met_def)
    then consider "k < m" | "k = m" by linarith
    then show "T ! wrap ?h k = v" using k(2) m by cases (auto simp: met_def)
  qed
  have "met T ?h k (if v \<in> set T then v else 0)"
    unfolding met_def using k min iff by auto
  then show ?thesis using pr unfolding iff by blast
qed

lemma insert_tab:
  assumes T: "tab_ok T" and k: "met T (BITVEC_HASH (v - 1)) k 0" and v: "v \<noteq> 0" "v \<notin> set T"
  defines "T' \<equiv> T[wrap (BITVEC_HASH (v - 1)) k := v]"
  shows "tab_ok T'" "set T' - {0} = insert v (set T - {0})" "used T' = used T + 1"
proof -
  let ?x = "wrap (BITVEC_HASH (v - 1)) k"
  have len: "length T = BITVEC_NINT" using T by (rule tab_ok_length)
  have x: "?x < length T" "T ! ?x = 0" using len k by (simp_all add: met_def)
  have nth': "T' ! i = (if i = ?x then v else T ! i)" if "i < BITVEC_NINT" for i
    using that x len by (simp add: T'_def nth_list_update)
  show s: "set T' - {0} = insert v (set T - {0})"
  proof -
    have "w \<in> set T'" if "w \<in> set T" "w \<noteq> 0" for w
      using that x nth' len by (metis T'_def in_set_conv_nth length_list_update)
    then show ?thesis
      using set_update_subset_insert [of T ?x v] set_update_memI [OF x(1), of v] v(1)
      by (auto simp: T'_def)
  qed
  then show "used T' = used T + 1" using v by (simp add: used_def)
  have m: "met T' (BITVEC_HASH (v - 1)) k v"
    using k v x(1) x(2) by (auto simp: met_def T'_def nth_list_update)
  have "\<exists>j. met T' (BITVEC_HASH (w - 1)) j w" if w: "w \<in> set T'" "w \<noteq> 0" for w
  proof (cases "w = v")
    case True then show ?thesis using m by blast
  next
    case False
    then have "w \<in> set T" using s w by blast
    then obtain j where "met T (BITVEC_HASH (w - 1)) j w" using tab_ok_met [OF T _ w(2)] by blast
    then show ?thesis using met_update [OF _ x(2) w(2)] by (auto simp: T'_def)
  qed
  moreover have "i = j" if "i < BITVEC_NINT" "j < BITVEC_NINT" "T' ! i = T' ! j" "T' ! i \<noteq> 0" for i j
  proof -
    have "T ! i \<noteq> v" "T ! j \<noteq> v" using v(2) that(1,2) len nth_mem by metis+
    then show ?thesis using that T nth' by (auto simp: tab_ok_def split: if_splits)
  qed
  ultimately show "tab_ok T'" using len by (simp add: tab_ok_def T'_def)
qed

lemma tab_ok_empty [simp]: "tab_ok (replicate BITVEC_NINT 0)" "used (replicate BITVEC_NINT 0) = 0"
  by (simp_all add: tab_ok_def used_def)

section \<open>Well-formed bit vectors\<close>

lemma bv_sub_size_mem [termination_simp]:
  "Some q \<in> set ps \<Longrightarrow> size q < Suc (size_list (size_option size) ps)"
  using size_list_estimation' [of "Some q" ps "size q" "size_option size"] by simp

fun bv_ok :: "Bitvec \<Rightarrow> bool" where
  "bv_ok (BvBitmap s b) \<longleftrightarrow> s \<le> BITVEC_NBIT \<and> length b = BITVEC_NELEM"
| "bv_ok (BvHash s n T) \<longleftrightarrow> BITVEC_NBIT < s \<and> tab_ok T \<and> n = used T \<and> n < BITVEC_NINT \<and> (\<forall>v\<in>set T. v \<le> s)"
| "bv_ok (BvSub s d ps) \<longleftrightarrow> BITVEC_NBIT < s \<and> d = (s + BITVEC_NPTR - 1) div BITVEC_NPTR \<and>
     length ps = BITVEC_NPTR \<and>
     list_all (\<lambda>po. case po of None \<Rightarrow> True | Some q \<Rightarrow> bv_ok q \<and> bv_iSize q = d) ps"

declare bv_ok.simps(3) [simp del]

lemmas bv_ok_Sub = bv_ok.simps(3)

lemma bv_ok_nth:
  "bv_ok (BvSub s d ps) \<Longrightarrow> j < BITVEC_NPTR \<Longrightarrow> ps ! j = Some q \<Longrightarrow> bv_ok q \<and> bv_iSize q = d"
  by (auto simp: bv_ok_Sub list_all_length split: option.splits)

lemma bv_ok_update:
  "bv_ok (BvSub s d ps) \<Longrightarrow> bv_ok q \<Longrightarrow> bv_iSize q = d \<Longrightarrow> bv_ok (BvSub s d (ps[j := Some q]))"
  by (cases "j < length ps") (auto simp: bv_ok_Sub list_all_length nth_list_update split: option.splits)

lemma sub_bin:
  assumes "bv_ok (BvSub s d ps)" "i < s"
  shows "i div d < BITVEC_NPTR" "i mod d < d" "0 < d"
proof -
  have d: "d = (s + 61) div 62" "3968 < s" using assms by (simp_all add: bv_ok_Sub)
  then have "s \<le> 62 * d" by simp
  then show "i div d < BITVEC_NPTR" using assms(2) by (metis less_mult_imp_div_less mult.commute order_less_le_trans)
  show "0 < d" using d by simp
  then show "i mod d < d" by simp
qed

lemma bv_new_ok [simp]: "bv_ok (bv_new s)" "bv_iSize (bv_new s) = s"
  by (auto simp: bv_new_def)

lemma u8_bit_exp: "m < 8 \<Longrightarrow> bit (2 ^ n :: u8) m \<longleftrightarrow> m = n"
  by (auto simp: bit_exp_iff)

lemma nat_and_7: "(i :: nat) AND 7 = i mod 8"
  using take_bit_eq_mask [of 3 i] by (simp add: take_bit_eq_mod mask_eq_exp_minus_1)

lemma bitmap_test: "i < BITVEC_NBIT \<Longrightarrow> bv_test (BvBitmap s b) i \<longleftrightarrow> bit (b ! (i div 8)) (i mod 8)"
  using and_exp_eq_0_iff_not_bit [of "b ! (i div 8)" "i mod 8"] by (simp add: push_bit_eq_mult nat_and_7)

lemma hash_test:
  assumes "tab_ok T" "used T < BITVEC_NINT"
  shows "bv_test (BvHash s n T) i \<longleftrightarrow> i + 1 \<in> set T"
  using probe_tab [OF assms, of "i + 1"] by auto

lemma bv_test_new: "i < s \<Longrightarrow> \<not> bv_test (bv_new s) i"
proof (cases "s \<le> BITVEC_NBIT")
  case True
  assume "i < s"
  then show ?thesis using True bitmap_test [of i s] by (simp add: bv_new_def)
next
  case False
  then show ?thesis using hash_test [of "replicate BITVEC_NINT 0" s 0 i] by (simp add: bv_new_def)
qed

section \<open>Set\<close>

text \<open>What setting the bits \<open>I\<close> of \<open>p\<close> promises; \<open>A\<close> says that no allocation fails. Even
  when one does, no other bit appears and the vector stays well-formed.\<close>

definition set_post :: "bool \<Rightarrow> Bitvec \<Rightarrow> nat set \<Rightarrow> rc \<Rightarrow> Bitvec \<Rightarrow> bool" where
  "set_post A p I rc p' \<longleftrightarrow> bv_ok p' \<and> bv_iSize p' = bv_iSize p \<and> (rc = SQLITE_OK \<or> rc = SQLITE_NOMEM) \<and>
     (A \<longrightarrow> rc = SQLITE_OK) \<and> (is_BvSub p \<longrightarrow> is_BvSub p') \<and>
     (\<forall>j<bv_iSize p. (bv_test p' j \<longrightarrow> j \<in> I \<or> bv_test p j) \<and>
        (rc = SQLITE_OK \<longrightarrow> j \<in> I \<or> bv_test p j \<longrightarrow> bv_test p' j))"

lemma set_post_trans:
  assumes "set_post A p I rc p'" "set_post A p' J rc' p''"
  shows "set_post A p (I \<union> J) (rc OR rc') p''"
proof -
  have "rc OR rc' = SQLITE_OK \<longleftrightarrow> rc = SQLITE_OK \<and> rc' = SQLITE_OK" by (rule or_eq_0_iff)
  moreover have "rc OR rc' = SQLITE_OK \<or> rc OR rc' = SQLITE_NOMEM"
    using assms by (auto simp: set_post_def)
  ultimately show ?thesis using assms unfolding set_post_def by auto
qed

lemma set_post_id: "bv_ok p \<Longrightarrow> (\<And>j. j \<in> I \<Longrightarrow> j < bv_iSize p \<Longrightarrow> bv_test p j) \<Longrightarrow> set_post A p I SQLITE_OK p"
  by (auto simp: set_post_def)

text \<open>The sub-vector case: only the bin of the index changes.\<close>

lemma sub_test:
  "bv_ok (BvSub s d ps) \<Longrightarrow> j < s \<Longrightarrow> bv_test (BvSub s d ps) j =
     (case ps ! (j div d) of None \<Rightarrow> False | Some q \<Rightarrow> bv_test q (j mod d))"
proof -
  assume *: "bv_ok (BvSub s d ps)" "j < s"
  then have "length ps = BITVEC_NPTR" by (simp add: bv_ok_Sub)
  then show ?thesis using sub_bin(1) [OF *] by (simp add: Let_def)
qed

lemma sub_test_update:
  assumes "bv_ok (BvSub s d ps)" "bv_ok q" "bv_iSize q = d" "i < s" "j < s"
  shows "bv_test (BvSub s d (ps[i div d := Some q])) j =
    (if j div d = i div d then bv_test q (j mod d) else bv_test (BvSub s d ps) j)"
proof -
  have l: "length ps = BITVEC_NPTR" using assms(1) by (simp add: bv_ok_Sub)
  note b = sub_bin(1) [OF assms(1,4)] sub_bin(1) [OF assms(1,5)]
  show ?thesis using b l
    unfolding sub_test [OF bv_ok_update [OF assms(1-3)] assms(5)] sub_test [OF assms(1,5)]
    by (simp add: nth_list_update)
qed

lemma set_post_sub:
  assumes ok: "bv_ok (BvSub s d ps)" and i: "i < s"
    and q: "q0 = (case ps ! (i div d) of None \<Rightarrow> bv_new d | Some q \<Rightarrow> q)"
    and post: "set_post A q0 {i mod d} rc q"
  shows "set_post A (BvSub s d ps) {i} rc (BvSub s d (ps[i div d := Some q]))"
proof -
  have q0: "bv_ok q0" "bv_iSize q0 = d"
    using bv_ok_nth [OF ok sub_bin(1) [OF ok i]] q by (auto split: option.splits)
  have q': "bv_ok q" "bv_iSize q = d" using post q0 by (simp_all add: set_post_def)
  have old: "bv_test (BvSub s d ps) j = bv_test q0 (j mod d)" if "j < s" "j div d = i div d" for j
    using sub_test [OF ok that(1)] that(2) q bv_test_new [of "j mod d" d] sub_bin(2) [OF ok that(1)]
    by (auto split: option.splits)
  have same: "j = i" if "j div d = i div d" "j mod d = i mod d" for j
    using that by (metis div_mult_mod_eq)
  have "(bv_test q (j mod d) \<longrightarrow> j mod d = i mod d \<or> bv_test q0 (j mod d)) \<and>
    (rc = SQLITE_OK \<longrightarrow> j mod d = i mod d \<or> bv_test q0 (j mod d) \<longrightarrow> bv_test q (j mod d))" if "j < s" for j
    using post q0(2) sub_bin(2) [OF ok that] unfolding set_post_def by auto
  then show ?thesis
    using bv_ok_update [OF ok q', of "i div d"] post old same sub_test_update [OF ok q' i]
    unfolding set_post_def by (auto split: if_splits)
qed

lemma set_post_bitmap:
  assumes ok: "bv_ok (BvBitmap s b)" and i: "i < s"
  shows "set_post A (BvBitmap s b) {i} SQLITE_OK
    (BvBitmap s (b[i div 8 := b ! (i div 8) OR push_bit (i AND 7) 1]))"
proof -
  have b: "length b = 496" "s \<le> 3968" using ok by simp_all
  have "bv_test (BvBitmap s (b[i div 8 := b ! (i div 8) OR push_bit (i AND 7) 1])) j \<longleftrightarrow>
      j = i \<or> bv_test (BvBitmap s b) j" if "j < s" for j
  proof -
    have *: "j = i \<longleftrightarrow> j div 8 = i div 8 \<and> j mod 8 = i mod 8" by (metis div_mult_mod_eq)
    have "i div 8 < length b" "j < BITVEC_NBIT" using b that i by auto
    then show ?thesis unfolding bitmap_test [OF \<open>j < BITVEC_NBIT\<close>] nat_and_7 *
      by (auto simp: nth_list_update bit_or_iff push_bit_eq_mult u8_bit_exp)
  qed
  then show ?thesis using ok unfolding set_post_def by auto
qed

text \<open>Setting a bit of a hash table that has room, and replacing a table by sub-vectors.\<close>

lemma set_post_hash:
  assumes ok: "bv_ok (BvHash s n T)" and i: "i < s" and new: "i + 1 \<notin> set T"
    and k: "met T (BITVEC_HASH i) k 0" and room: "n < BITVEC_NINT - 1"
  shows "set_post A (BvHash s n T) {i} SQLITE_OK
    (BvHash s (n + 1) (T[wrap (BITVEC_HASH i) k := i + 1]))"
proof -
  have T: "tab_ok T" "n = used T" "used T < BITVEC_NINT" "\<forall>v\<in>set T. v \<le> s" using ok by auto
  let ?T = "T[wrap (BITVEC_HASH i) k := i + 1]"
  have t: "tab_ok ?T" "set ?T - {0} = insert (i + 1) (set T - {0})" "used ?T = used T + 1"
    using insert_tab [OF T(1), of "i + 1" k] k new by simp_all
  have mem: "Suc j \<in> set ?T \<longleftrightarrow> j = i \<or> Suc j \<in> set T" for j using t(2) by auto
  have "v \<le> s" if "v \<in> set ?T" for v
  proof (cases "v = 0")
    case False
    then have "v \<in> insert (i + 1) (set T)" using that t(2) by blast
    then show ?thesis using T(4) i by auto
  qed simp
  then have le: "\<forall>v\<in>set ?T. v \<le> s" by blast
  have u: "used ?T < BITVEC_NINT" using t(3) room T(2) by simp
  have ok': "bv_ok (BvHash s (n + 1) ?T)" using ok t le u T(2) by simp
  have "bv_test (BvHash s (n + 1) ?T) j \<longleftrightarrow> j = i \<or> bv_test (BvHash s n T) j" for j
    unfolding hash_test [OF t(1) u] hash_test [OF T(1,3)] using mem by simp
  then show ?thesis using ok' unfolding set_post_def by auto
qed

lemma bv_rehash_post:
  assumes spec: "\<forall>k p v. bv_ok p \<longrightarrow> is_BvSub p \<longrightarrow> bv_iSize p = s \<longrightarrow> v < s \<longrightarrow>
      (\<exists>rc p' k'. st k p v = Some (rc, p', k') \<and> set_post A p {v} rc p')"
    and "\<forall>v\<in>set T. v \<le> s" "is_BvSub p0" "bv_iSize p0 = s" "set_post A p0 I rc p"
  shows "\<exists>rc' p' k'. bv_rehash st T k rc p = Some (rc', p', k') \<and>
    set_post A p0 (I \<union> {j. j + 1 \<in> set T}) rc' p'"
  using assms(2-)
proof (induction T arbitrary: I k rc p)
  case (Cons v T)
  show ?case
  proof (cases "v = 0")
    case True
    then have "{j. j + 1 \<in> set (v # T)} = {j. j + 1 \<in> set T}" by auto
    then show ?thesis using Cons True by simp
  next
    case False
    have p: "bv_ok p" "is_BvSub p" "bv_iSize p = s" using Cons.prems by (auto simp: set_post_def)
    have "v - 1 < s" using Cons.prems(1) False by auto
    then obtain rc1 p1 k1 where st: "st k p (v - 1) = Some (rc1, p1, k1)" "set_post A p {v - 1} rc1 p1"
      using spec p by blast
    note set_post_trans [OF Cons.prems(4) st(2)]
    from Cons.IH [OF _ Cons.prems(2,3) this, of k1] Cons.prems(1)
    obtain rc' p' k' where r: "bv_rehash st T k1 (rc OR rc1) p1 = Some (rc', p', k')"
      "set_post A p0 (I \<union> {v - 1} \<union> {j. j + 1 \<in> set T}) rc' p'" by auto
    have "I \<union> {v - 1} \<union> {j. j + 1 \<in> set T} = I \<union> {j. j + 1 \<in> set (v # T)}" using False by auto
    then show ?thesis using r st(1) False by auto
  qed
qed simp

text \<open>The depth of descents and re-hashes for a vector of \<open>s\<close> bits.\<close>

function lv :: "nat \<Rightarrow> nat" where
  "lv s = (if s \<le> BITVEC_NBIT then 1 else 2 + lv ((s + BITVEC_NPTR - 1) div BITVEC_NPTR))"
  by pat_completeness auto
termination
  by (relation "measure (\<lambda>s. s)") auto

declare lv.simps [simp del]

lemma lv_step:
  assumes "\<And>s. s \<le> m \<Longrightarrow> lv s \<le> n" "s \<le> BITVEC_NPTR * m"
  shows "lv s \<le> 2 + n"
proof -
  have "(s + BITVEC_NPTR - 1) div BITVEC_NPTR \<le> m" using assms(2) by simp
  from assms(1) [OF this] show ?thesis by (subst lv.simps) auto
qed

lemma lv_u32: "s \<le> 4294967296 \<Longrightarrow> lv s \<le> 9"
proof -
  have 1: "lv s \<le> 1" if "s \<le> 3968" for s using that by (simp add: lv.simps)
  have 3: "lv s \<le> 3" if "s \<le> 246016" for s using lv_step [of 3968 1, OF 1] that by simp
  have 5: "lv s \<le> 5" if "s \<le> 15252992" for s using lv_step [of 246016 3, OF 3] that by simp
  have 7: "lv s \<le> 7" if "s \<le> 945685504" for s using lv_step [of 15252992 5, OF 5] that by simp
  assume "s \<le> 4294967296"
  then show ?thesis using lv_step [of 945685504 7, OF 7] by simp
qed

lemma lv_big: "bv_ok (BvSub s d ps) \<Longrightarrow> lv s = 2 + lv d"
  by (subst lv.simps) (auto simp: bv_ok_Sub)

lemma lv_pos: "0 < lv s"
  by (subst lv.simps) simp

text \<open>\<open>bv_set\<close> always returns, and does what \<open>set_post\<close> says: the two recursive cases,
  given what the recursive calls do, and the induction on the depth.\<close>

definition set_spec :: "nat \<Rightarrow> (nat \<Rightarrow> bool) \<Rightarrow> Bitvec \<Rightarrow> nat \<Rightarrow> bool" where
  "set_spec n al p i \<longleftrightarrow> (\<forall>k. \<exists>rc p' k'. bv_set n al k p i = Some (rc, p', k') \<and> set_post (\<forall>k. al k) p {i} rc p')"

definition depth :: "Bitvec \<Rightarrow> nat" where
  "depth p = (if is_BvSub p then lv (bv_iSize p) - 1 else lv (bv_iSize p))"

lemma set_spec_sub:
  assumes ok: "bv_ok (BvSub s d ps)" and i: "i < s"
    and IH: "\<forall>q. bv_ok q \<longrightarrow> bv_iSize q = d \<longrightarrow> set_spec n al q (i mod d)"
  shows "set_spec (Suc n) al (BvSub s d ps) i"
  unfolding set_spec_def
proof
  fix k
  let ?p = "BvSub s d ps" and ?A = "\<forall>k. al k"
  define q0 where "q0 = (case ps ! (i div d) of None \<Rightarrow> bv_new d | Some q \<Rightarrow> q)"
  have "bv_ok q0" "bv_iSize q0 = d"
    using bv_ok_nth [OF ok sub_bin(1) [OF ok i]] by (auto simp: q0_def split: option.splits)
  then have IH: "set_spec n al q0 (i mod d)" using IH by blast
  show "\<exists>rc p' k'. bv_set (Suc n) al k ?p i = Some (rc, p', k') \<and> set_post ?A ?p {i} rc p'"
  proof (cases "ps ! (i div d) = None \<and> \<not> al k")
    case True
    then have "bv_set (Suc n) al k ?p i = Some (SQLITE_NOMEM, ?p, k + 1)"
      by (simp add: sqlite3BitvecCreate_def)
    moreover have "set_post ?A ?p {i} SQLITE_NOMEM ?p" using ok True by (auto simp: set_post_def)
    ultimately show ?thesis by blast
  next
    case False
    define k1 where "k1 = (if ps ! (i div d) = None then k + 1 else k)"
    obtain rc q k' where q: "bv_set n al k1 q0 (i mod d) = Some (rc, q, k')" "set_post ?A q0 {i mod d} rc q"
      using IH unfolding set_spec_def by blast
    have "bv_set (Suc n) al k ?p i = Some (rc, BvSub s d (ps[i div d := Some q]), k')"
    proof (cases "ps ! (i div d)")
      case None
      then show ?thesis using q(1) False by (simp add: sqlite3BitvecCreate_def q0_def k1_def)
    next
      case (Some x)
      then show ?thesis using q(1) by (simp add: q0_def k1_def)
    qed
    then show ?thesis using set_post_sub [OF ok i q0_def q(2)] by blast
  qed
qed

lemma fresh_sub:
  assumes "BITVEC_NBIT < s"
  defines "p \<equiv> BvSub s ((s + BITVEC_NPTR - 1) div BITVEC_NPTR) (replicate BITVEC_NPTR None)"
  shows "bv_ok p" "\<And>j. j < s \<Longrightarrow> \<not> bv_test p j"
proof -
  show ok: "bv_ok p" using assms by (simp add: p_def bv_ok_Sub list_all_length)
  show "\<not> bv_test p j" if "j < s" for j
    using sub_test [OF ok [unfolded p_def] that] sub_bin(1) [OF ok [unfolded p_def] that]
    by (simp add: p_def)
qed

lemma set_spec_hash:
  assumes ok: "bv_ok (BvHash s m T)" and i: "i < s"
    and IH: "\<forall>q v. bv_ok q \<longrightarrow> is_BvSub q \<longrightarrow> bv_iSize q = s \<longrightarrow> v < s \<longrightarrow> set_spec n al q v"
  shows "set_spec (Suc n) al (BvHash s m T) i"
  unfolding set_spec_def
proof
  fix k
  let ?p = "BvHash s m T" and ?A = "\<forall>k. al k"
  have T: "tab_ok T" "used T < BITVEC_NINT" "m = used T" "\<forall>v\<in>set T. v \<le> s" "BITVEC_NBIT < s" using ok by auto
  obtain h where h: "met T (BITVEC_HASH i) h (if i + 1 \<in> set T then i + 1 else 0)"
    "bv_probe BITVEC_NINT T (i + 1) (BITVEC_HASH i) = Some (i + 1 \<in> set T, wrap (BITVEC_HASH i) h)"
    using probe_tab [OF T(1,2), of "i + 1"] by auto
  define room where "room \<longleftrightarrow> (if T ! BITVEC_HASH i = 0 then m < BITVEC_NINT - 1 else m < BITVEC_MXHASH)"
  define p1 where "p1 = BvSub s ((s + BITVEC_NPTR - 1) div BITVEC_NPTR) (replicate BITVEC_NPTR None)"
  have step: "bv_set (Suc n) al k ?p i = (if i + 1 \<in> set T then Some (SQLITE_OK, ?p, k)
      else if room then Some (SQLITE_OK, BvHash s (m + 1) (T[wrap (BITVEC_HASH i) h := i + 1]), k)
      else if \<not> al k then Some (SQLITE_NOMEM, ?p, k + 1)
      else (case bv_set n al (k + 1) p1 i of None \<Rightarrow> None
        | Some (rc, p, k) \<Rightarrow> bv_rehash (\<lambda>k p v. bv_set n al k p v) T k rc p))"
    unfolding bv_set.simps Bitvec.case h(2) option.case prod.case
    by (cases "i + 1 \<in> set T") (simp_all add: room_def p1_def Let_def)
  consider "i + 1 \<in> set T" | "i + 1 \<notin> set T" room | "i + 1 \<notin> set T" "\<not> room" "\<not> al k"
    | "i + 1 \<notin> set T" "\<not> room" "al k" by blast
  then show "\<exists>rc p' k'. bv_set (Suc n) al k ?p i = Some (rc, p', k') \<and> set_post ?A ?p {i} rc p'"
  proof cases
    case 1
    then have "set_post ?A ?p {i} SQLITE_OK ?p" using set_post_id [OF ok, of "{i}"] hash_test [OF T(1,2)] by simp
    then show ?thesis using 1 step by auto
  next
    case 2
    then have "m < BITVEC_NINT - 1" by (auto simp: room_def split: if_splits)
    then show ?thesis using set_post_hash [OF ok i 2(1), of h ?A] h(1) 2 step by auto
  next
    case 3
    then have "set_post ?A ?p {i} SQLITE_NOMEM ?p" using ok by (auto simp: set_post_def)
    then show ?thesis using 3 step by auto
  next
    case 4
    have p1: "bv_ok p1" "is_BvSub p1" "bv_iSize p1 = s" "\<And>j. j < s \<Longrightarrow> \<not> bv_test p1 j"
      using fresh_sub [OF T(5)] by (simp_all add: p1_def)
    have spec: "\<forall>k p v. bv_ok p \<longrightarrow> is_BvSub p \<longrightarrow> bv_iSize p = s \<longrightarrow> v < s \<longrightarrow>
        (\<exists>rc p' k'. bv_set n al k p v = Some (rc, p', k') \<and> set_post ?A p {v} rc p')"
      using IH unfolding set_spec_def by blast
    then obtain rc1 p2 k2 where s1: "bv_set n al (k + 1) p1 i = Some (rc1, p2, k2)" "set_post ?A p1 {i} rc1 p2"
      using p1(1-3) i by blast
    obtain rc p' k' where s2: "bv_rehash (\<lambda>k p v. bv_set n al k p v) T k2 rc1 p2 = Some (rc, p', k')"
      "set_post ?A p1 ({i} \<union> {j. j + 1 \<in> set T}) rc p'"
      using bv_rehash_post [OF spec T(4) p1(2,3) s1(2), of k2] by blast
    have "set_post ?A ?p {i} rc p'"
      using s2(2) p1(3,4) hash_test [OF T(1,2)] by (auto simp: set_post_def)
    then show ?thesis using step 4 s1 s2 by simp
  qed
qed

lemma bv_set_spec:
  assumes "bv_ok p" "i < bv_iSize p" "depth p \<le> n"
  shows "set_spec n al p i"
  using assms
proof (induction n arbitrary: p i)
  case 0
  then show ?case using lv_pos [of "bv_iSize p"] lv_big lv_pos
    by (cases p) (fastforce simp: depth_def)+
next
  case (Suc n)
  show ?case
  proof (cases p)
    case (BvBitmap s b)
    then show ?thesis using set_post_bitmap [of s b i] Suc.prems by (simp add: set_spec_def)
  next
    case p: (BvSub s d ps)
    then have ok: "bv_ok (BvSub s d ps)" "i < s" using Suc.prems by simp_all
    have "lv d \<le> n" using lv_big [OF ok(1)] Suc.prems(3) p by (simp add: depth_def)
    then have "\<forall>q. bv_ok q \<longrightarrow> bv_iSize q = d \<longrightarrow> set_spec n al q (i mod d)"
      using sub_bin(2) [OF ok] by (intro allI impI Suc.IH) (auto simp: depth_def)
    then show ?thesis using set_spec_sub [OF ok] p by simp
  next
    case p: (BvHash s m T)
    then have ok: "bv_ok (BvHash s m T)" "i < s" using Suc.prems by simp_all
    have "lv s - 1 \<le> n" using Suc.prems(3) p by (simp add: depth_def)
    then have "\<forall>q v. bv_ok q \<longrightarrow> is_BvSub q \<longrightarrow> bv_iSize q = s \<longrightarrow> v < s \<longrightarrow> set_spec n al q v"
      by (intro allI impI Suc.IH) (auto simp: depth_def)
    then show ?thesis using set_spec_hash [OF ok] p by simp
  qed
qed

section \<open>Clear\<close>

lemma bv_free_probe:
  "v \<notin> set T \<Longrightarrow> length T = BITVEC_NINT \<Longrightarrow> h < BITVEC_NINT \<Longrightarrow> bv_free n T h = map_option snd (bv_probe n T v h)"
proof (induction n arbitrary: h)
  case (Suc n)
  have "T ! h \<noteq> v" using Suc.prems nth_mem [of h T] by auto
  then show ?case using Suc.IH [of "if h + 1 \<ge> BITVEC_NINT then 0 else h + 1"] Suc.prems by simp
qed simp

lemma tab_ok_distinct: "tab_ok T \<Longrightarrow> distinct (filter (\<lambda>v. v \<noteq> 0) T)"
proof -
  assume T: "tab_ok T"
  let ?I = "filter (\<lambda>i. T ! i \<noteq> 0) [0..<length T]"
  have "inj_on ((!) T) (set ?I)"
  proof (rule inj_onI)
    fix i j assume "i \<in> set ?I" "j \<in> set ?I" "T ! i = T ! j"
    then show "i = j" using T unfolding tab_ok_def by auto
  qed
  then have "distinct (map ((!) T) ?I)" by (simp add: distinct_map)
  moreover have "map ((!) T) ?I = filter (\<lambda>v. v \<noteq> 0) (map ((!) T) [0..<length T])"
    by (simp only: filter_map o_def)
  ultimately show ?thesis by (simp only: map_nth)
qed

lemma bv_rebuild_post:
  assumes "tab_ok T" "distinct (filter (\<lambda>v. v \<noteq> 0) vs)" "set T \<inter> set vs \<subseteq> {0}"
    and "used T + card (set vs - {0}) < BITVEC_NINT" "n = used T"
  shows "\<exists>T'. bv_rebuild vs i n T = Some (used T', T') \<and> tab_ok T' \<and>
    set T' - {0} = (set T - {0}) \<union> (set vs - {0, i + 1}) \<and> used T' \<le> used T + card (set vs - {0})"
  using assms
proof (induction vs arbitrary: T n)
  case (Cons v vs)
  show ?case
  proof (cases "v = 0 \<or> v = i + 1")
    case True
    have sub: "set vs - {0} \<subseteq> set (v # vs) - {0}" by auto
    have le: "card (set vs - {0}) \<le> card (set (v # vs) - {0})" by (rule card_mono [OF _ sub]) simp
    have "\<exists>T'. bv_rebuild vs i n T = Some (used T', T') \<and> tab_ok T' \<and>
        set T' - {0} = (set T - {0}) \<union> (set vs - {0, i + 1}) \<and> used T' \<le> used T + card (set vs - {0})"
      using Cons.prems le by (intro Cons.IH) (auto split: if_splits)
    moreover have "set (v # vs) - {0, i + 1} = set vs - {0, i + 1}" using True by auto
    moreover have "bv_rebuild (v # vs) i n T = bv_rebuild vs i n T" using True by auto
    ultimately show ?thesis using le by (metis (no_types, lifting) add_left_mono order_trans)
  next
    case False
    have v: "v \<notin> set T" "v \<notin> set vs" "v \<noteq> 0" using Cons.prems False by auto
    have card: "card (set (v # vs) - {0}) = Suc (card (set vs - {0}))"
      using v by (simp add: insert_Diff_if)
    have u: "used T < BITVEC_NINT" using Cons.prems(4) by simp
    obtain k where k: "met T (BITVEC_HASH (v - 1)) k 0"
      "bv_probe BITVEC_NINT T v (BITVEC_HASH (v - 1)) = Some (False, wrap (BITVEC_HASH (v - 1)) k)"
      using probe_tab [OF Cons.prems(1) u v(3)] v(1) by auto
    let ?T = "T[wrap (BITVEC_HASH (v - 1)) k := v]"
    note t = insert_tab [OF Cons.prems(1) k(1) v(3,1)]
    have "bv_free BITVEC_NINT T (BITVEC_HASH (v - 1)) = Some (wrap (BITVEC_HASH (v - 1)) k)"
      using bv_free_probe [OF v(1) tab_ok_length [OF Cons.prems(1)] hash_less, of BITVEC_NINT "v - 1"] k(2) by simp
    then have step: "bv_rebuild (v # vs) i n T = bv_rebuild vs i (n + 1) ?T" using False by simp
    have "set ?T \<inter> set vs \<subseteq> {0}" using t(2) Cons.prems(3) v(2) by auto
    then have "\<exists>T'. bv_rebuild vs i (n + 1) ?T = Some (used T', T') \<and> tab_ok T' \<and>
        set T' - {0} = (set ?T - {0}) \<union> (set vs - {0, i + 1}) \<and> used T' \<le> used ?T + card (set vs - {0})"
      using Cons.prems t(1,3) card v by (intro Cons.IH) auto
    then show ?thesis unfolding step t(2,3) card using False by auto
  qed
qed simp

definition clear_post :: "Bitvec \<Rightarrow> nat \<Rightarrow> Bitvec \<Rightarrow> bool" where
  "clear_post p i p' \<longleftrightarrow> bv_ok p' \<and> bv_iSize p' = bv_iSize p \<and>
     (\<forall>j<bv_iSize p. bv_test p' j \<longleftrightarrow> j \<noteq> i \<and> bv_test p j)"

lemma clear_post_bitmap:
  assumes ok: "bv_ok (BvBitmap s b)" and i: "i < s"
  shows "clear_post (BvBitmap s b) i
    (BvBitmap s (b[i div 8 := b ! (i div 8) AND NOT (push_bit (i AND 7) 1)]))"
proof -
  have b: "length b = 496" "s \<le> 3968" using ok by simp_all
  have "bv_test (BvBitmap s (b[i div 8 := b ! (i div 8) AND NOT (push_bit (i AND 7) 1)])) j \<longleftrightarrow>
      j \<noteq> i \<and> bv_test (BvBitmap s b) j" if "j < s" for j
  proof -
    have *: "j = i \<longleftrightarrow> j div 8 = i div 8 \<and> j mod 8 = i mod 8" by (metis div_mult_mod_eq)
    have "i div 8 < length b" "j < BITVEC_NBIT" using b that i by auto
    then show ?thesis unfolding bitmap_test [OF \<open>j < BITVEC_NBIT\<close>] nat_and_7 *
      by (auto simp: nth_list_update bit_and_iff bit_not_iff push_bit_eq_mult u8_bit_exp)
  qed
  then show ?thesis using ok unfolding clear_post_def by auto
qed

lemma clear_post_hash:
  assumes ok: "bv_ok (BvHash s m T)"
  shows "\<exists>p'. bv_clear (BvHash s m T) i = Some p' \<and> clear_post (BvHash s m T) i p'"
proof -
  have T: "tab_ok T" "used T < BITVEC_NINT" "\<forall>v\<in>set T. v \<le> s" "BITVEC_NBIT < s" using ok by auto
  let ?Z = "replicate BITVEC_NINT (0 :: nat)"
  have "set ?Z \<inter> set T \<subseteq> {0}" "used ?Z + card (set T - {0}) < BITVEC_NINT" "0 = used ?Z"
    using T(2) unfolding tab_ok_empty by (auto simp: used_def)
  from bv_rebuild_post [OF tab_ok_empty(1) tab_ok_distinct [OF T(1)] this, of i]
  obtain T' where r: "bv_rebuild T i 0 ?Z = Some (used T', T')" "tab_ok T'"
    "set T' - {0} = set T - {0, i + 1}" "used T' \<le> card (set T - {0})" unfolding tab_ok_empty by auto
  have u: "used T' < BITVEC_NINT" using r(4) T(2) by (simp add: used_def)
  have mem: "Suc j \<in> set T' \<longleftrightarrow> j \<noteq> i \<and> Suc j \<in> set T" for j using r(3) by auto
  have le: "v \<le> s" if "v \<in> set T'" for v
  proof (cases "v = 0")
    case False
    then show ?thesis using that r(3) T(3) by auto
  qed simp
  have "bv_ok (BvHash s (used T') T')" using r(2) u le T(4) by simp
  moreover have "bv_test (BvHash s (used T') T') j \<longleftrightarrow> j \<noteq> i \<and> bv_test (BvHash s m T) j" for j
    unfolding hash_test [OF r(2) u] hash_test [OF T(1,2)] using mem by simp
  ultimately show ?thesis using r(1) by (auto simp: clear_post_def)
qed

lemma bv_clear_post:
  "bv_ok p \<Longrightarrow> i < bv_iSize p \<Longrightarrow> \<exists>p'. bv_clear p i = Some p' \<and> clear_post p i p'"
proof (induction p i rule: bv_clear.induct)
  case (1 s d ps i)
  have ok: "bv_ok (BvSub s d ps)" and i: "i < s" using "1.prems" by simp_all
  have len: "i div d < length ps" using sub_bin(1) [OF ok i] ok by (simp add: bv_ok_Sub)
  show ?case
  proof (cases "ps ! (i div d)")
    case None
    then have "\<not> bv_test (BvSub s d ps) i" using sub_test [OF ok i] by simp
    then show ?thesis using None ok len by (auto simp: clear_post_def Let_def)
  next
    case (Some q)
    have q: "bv_ok q" "bv_iSize q = d" using bv_ok_nth [OF ok sub_bin(1) [OF ok i] Some] by simp_all
    obtain q' where q': "bv_clear q (i mod d) = Some q'" "clear_post q (i mod d) q'"
      using "1.IH" [OF refl len Some q(1)] sub_bin(2) [OF ok i] q(2) by auto
    have ok': "bv_ok q'" "bv_iSize q' = d" using q' q(2) by (simp_all add: clear_post_def)
    have same: "j = i \<longleftrightarrow> j div d = i div d \<and> j mod d = i mod d" for j by (metis div_mult_mod_eq)
    have "bv_test (BvSub s d (ps[i div d := Some q'])) j \<longleftrightarrow> j \<noteq> i \<and> bv_test (BvSub s d ps) j" if "j < s" for j
      using sub_test_update [OF ok ok' i that] sub_test [OF ok that] Some q'(2) q(2) sub_bin(2) [OF ok that]
      unfolding same clear_post_def by auto
    then show ?thesis using q'(1) Some len bv_ok_update [OF ok ok', of "i div d"]
      by (auto simp: clear_post_def Let_def)
  qed
next
  case (2 s b i)
  then show ?case using clear_post_bitmap [of s b i] by simp
next
  case (3 s m T i)
  then show ?case using clear_post_hash by blast
qed

section \<open>Bit stores\<close>

text \<open>What a store of the bits \<open>1 .. cap s\<close> promises, and the lockstep of two stores on which
  the same operations run.\<close>

locale bit_store =
  fixes inv :: "'s \<Rightarrow> bool" and cap :: "'s \<Rightarrow> nat" and isin :: "'s \<Rightarrow> nat \<Rightarrow> bool"
    and ins :: "'s \<Rightarrow> nat \<Rightarrow> 's \<Rightarrow> bool" and del :: "'s \<Rightarrow> nat \<Rightarrow> 's \<Rightarrow> bool"
  assumes ins_inv: "inv s \<Longrightarrow> 0 < i \<Longrightarrow> i \<le> cap s \<Longrightarrow> ins s i s' \<Longrightarrow> inv s' \<and> cap s' = cap s"
    and ins_isin: "inv s \<Longrightarrow> 0 < i \<Longrightarrow> i \<le> cap s \<Longrightarrow> ins s i s' \<Longrightarrow> 0 < j \<Longrightarrow> j \<le> cap s \<Longrightarrow>
      isin s' j \<longleftrightarrow> j = i \<or> isin s j"
    and del_inv: "inv s \<Longrightarrow> 0 < i \<Longrightarrow> i \<le> cap s \<Longrightarrow> del s i s' \<Longrightarrow> inv s' \<and> cap s' = cap s"
    and del_isin: "inv s \<Longrightarrow> 0 < i \<Longrightarrow> i \<le> cap s \<Longrightarrow> del s i s' \<Longrightarrow> 0 < j \<Longrightarrow> j \<le> cap s \<Longrightarrow>
      isin s' j \<longleftrightarrow> j \<noteq> i \<and> isin s j"

locale bit_stores =
  l: bit_store inv cap isin ins del + r: bit_store inv' cap' isin' ins' del'
  for inv :: "'s \<Rightarrow> bool" and cap isin ins del and inv' :: "'t \<Rightarrow> bool" and cap' isin' ins' del'
begin

lemma ins_lockstep:
  assumes "inv s" "inv' t" "0 < i" "i \<le> cap s" "i \<le> cap' t" "ins s i s'" "ins' t i t'"
    and "0 < j" "j \<le> cap s" "j \<le> cap' t" "isin s j \<longleftrightarrow> isin' t j"
  shows "isin s' j \<longleftrightarrow> isin' t' j"
  using l.ins_isin [OF assms(1,3,4,6,8,9)] r.ins_isin [OF assms(2,3,5,7,8,10)] assms(11) by blast

lemma del_lockstep:
  assumes "inv s" "inv' t" "0 < i" "i \<le> cap s" "i \<le> cap' t" "del s i s'" "del' t i t'"
    and "0 < j" "j \<le> cap s" "j \<le> cap' t" "isin s j \<longleftrightarrow> isin' t j"
  shows "isin s' j \<longleftrightarrow> isin' t' j"
  using l.del_isin [OF assms(1,3,4,6,8,9)] r.del_isin [OF assms(2,3,5,7,8,10)] assms(11) by blast

end

text \<open>The bit vector and the linear array are bit stores.\<close>

definition bitvec_inv :: "Bitvec \<Rightarrow> bool" where
  "bitvec_inv p \<longleftrightarrow> bv_ok p \<and> bv_iSize p < 4294967296"

definition bitvec_ins :: "Bitvec \<Rightarrow> nat \<Rightarrow> Bitvec \<Rightarrow> bool" where
  "bitvec_ins p i p' \<longleftrightarrow> (\<exists>al k k'. sqlite3BitvecSet al k (Some p) i = Some (SQLITE_OK, Some p', k'))"

definition bitvec_del :: "Bitvec \<Rightarrow> nat \<Rightarrow> Bitvec \<Rightarrow> bool" where
  "bitvec_del p i p' \<longleftrightarrow> sqlite3BitvecClear (Some p) i = Some (Some p')"

lemma bv_test_range:
  "0 < j \<Longrightarrow> j \<le> bv_iSize p \<Longrightarrow> bv_iSize p < 4294967296 \<Longrightarrow> sqlite3BitvecTest (Some p) j \<longleftrightarrow> bv_test p (j - 1)"
proof -
  assume a: "0 < j" "j \<le> bv_iSize p" "bv_iSize p < 4294967296"
  then have "(j + 4294967295) mod 4294967296 = j - 1" "\<not> bv_iSize p \<le> j - 1" by (simp add: mod_if, linarith)
  then show ?thesis by (simp add: sqlite3BitvecTest_def sqlite3BitvecTestNotNull_def Let_def)
qed

lemma sqlite3BitvecSet_spec:
  assumes "bitvec_inv p" "0 < i" "i \<le> bv_iSize p"
  shows "\<exists>rc p' k'. sqlite3BitvecSet al k (Some p) i = Some (rc, Some p', k') \<and>
    set_post (\<forall>k. al k) p {i - 1} rc p'"
proof -
  have "lv (bv_iSize p) \<le> 9" using assms(1) by (intro lv_u32) (simp add: bitvec_inv_def)
  then have "set_spec 9 al p (i - 1)" using assms by (intro bv_set_spec) (auto simp: bitvec_inv_def depth_def)
  then show ?thesis unfolding set_spec_def sqlite3BitvecSet_def by force
qed

lemma sqlite3BitvecClear_spec:
  assumes "bitvec_inv p" "0 < i" "i \<le> bv_iSize p"
  shows "\<exists>p'. sqlite3BitvecClear (Some p) i = Some (Some p') \<and> clear_post p (i - 1) p'"
  using bv_clear_post [of p "i - 1"] assms by (auto simp: sqlite3BitvecClear_def bitvec_inv_def)

interpretation bvs: bit_store bitvec_inv bv_iSize "\<lambda>p. sqlite3BitvecTest (Some p)" bitvec_ins bitvec_del
proof
  fix p i p' assume p: "bitvec_inv p" "0 < i" "i \<le> bv_iSize p"
  { assume "bitvec_ins p i p'"
    then have post: "\<exists>A. set_post A p {i - 1} SQLITE_OK p'"
      using sqlite3BitvecSet_spec [OF p] unfolding bitvec_ins_def by (metis option.inject prod.inject)
    then show inv: "bitvec_inv p' \<and> bv_iSize p' = bv_iSize p"
      using p by (auto simp: bitvec_inv_def set_post_def)
    show "sqlite3BitvecTest (Some p') j \<longleftrightarrow> j = i \<or> sqlite3BitvecTest (Some p) j"
      if "0 < j" "j \<le> bv_iSize p" for j
    proof -
      have "bv_test p' (j - 1) \<longleftrightarrow> j - 1 = i - 1 \<or> bv_test p (j - 1)"
        using post that less_imp_diff_less unfolding set_post_def by (metis Suc_diff_1 Suc_le_lessD singleton_iff)
      then show ?thesis using that p inv bv_test_range [of j p] bv_test_range [of j p']
        by (auto simp: bitvec_inv_def)
    qed }
  { assume "bitvec_del p i p'"
    then have post: "clear_post p (i - 1) p'"
      using sqlite3BitvecClear_spec [OF p] by (auto simp: bitvec_del_def)
    then show inv: "bitvec_inv p' \<and> bv_iSize p' = bv_iSize p"
      using p by (auto simp: bitvec_inv_def clear_post_def)
    show "sqlite3BitvecTest (Some p') j \<longleftrightarrow> j \<noteq> i \<and> sqlite3BitvecTest (Some p) j"
      if "0 < j" "j \<le> bv_iSize p" for j
    proof -
      have "bv_test p' (j - 1) \<longleftrightarrow> j - 1 \<noteq> i - 1 \<and> bv_test p (j - 1)"
        using post that unfolding clear_post_def by (metis Suc_diff_1 Suc_le_lessD)
      then show ?thesis using that p inv bv_test_range [of j p] bv_test_range [of j p']
        by (auto simp: bitvec_inv_def)
    qed }
qed


definition array_inv :: "nat \<Rightarrow> u8 list \<Rightarrow> bool" where
  "array_inv sz V \<longleftrightarrow> length V = (sz + 7) div 8 + 1"

lemma TESTBIT_bit: "TESTBIT V I \<longleftrightarrow> bit (V ! (I div 8)) (I mod 8)"
  using and_exp_eq_0_iff_not_bit [of "V ! (I div 8)" "I mod 8"]
  by (simp add: TESTBIT_def nat_and_7 push_bit_eq_mult drop_bit_eq_div)

lemma array_index: "array_inv sz V \<Longrightarrow> i \<le> sz \<Longrightarrow> i div 8 < length V"
  by (auto simp: array_inv_def)

lemma same_bit: "(j :: nat) = i \<longleftrightarrow> j div 8 = i div 8 \<and> j mod 8 = i mod 8"
  by (metis div_mult_mod_eq)

interpretation arr: bit_store "array_inv sz" "\<lambda>_. sz" TESTBIT
  "\<lambda>V i V'. V' = SETBIT V i" "\<lambda>V i V'. V' = CLEARBIT V i" for sz
proof
  fix V i V' j assume V: "array_inv sz V" "i \<le> sz" and j: "j \<le> sz"
  note ix = array_index [OF V]
  show "array_inv sz V' \<and> sz = sz" if "V' = SETBIT V i" using V that by (simp add: array_inv_def SETBIT_def)
  show "array_inv sz V' \<and> sz = sz" if "V' = CLEARBIT V i" using V that by (simp add: array_inv_def CLEARBIT_def)
  show "TESTBIT V' j \<longleftrightarrow> j = i \<or> TESTBIT V j" if "V' = SETBIT V i"
    unfolding that TESTBIT_bit same_bit [of j] SETBIT_def nat_and_7 using ix
    by (auto simp: nth_list_update bit_or_iff push_bit_eq_mult u8_bit_exp drop_bit_eq_div)
  show "TESTBIT V' j \<longleftrightarrow> j \<noteq> i \<and> TESTBIT V j" if "V' = CLEARBIT V i"
    unfolding that TESTBIT_bit same_bit [of j] CLEARBIT_def nat_and_7 using ix
    by (auto simp: nth_list_update bit_and_iff bit_not_iff push_bit_eq_mult u8_bit_exp drop_bit_eq_div)
qed

interpretation both: bit_stores bitvec_inv bv_iSize "\<lambda>p. sqlite3BitvecTest (Some p)" bitvec_ins bitvec_del
  "array_inv sz" "\<lambda>_. sz" TESTBIT "\<lambda>V i V'. V' = SETBIT V i" "\<lambda>V i V'. V' = CLEARBIT V i" for sz
  by unfold_locales

section \<open>The self test\<close>

text \<open>A program of set and clear instructions that halts (opcode 5, which makes the two
  stores differ on purpose, left out).\<close>

function prog_ok :: "int list \<Rightarrow> bool" where
  "prog_ok [] = False"
| "prog_ok (op # ops) = (op = 0 \<or>
     (if op = 1 \<or> op = 2 then 3 \<le> length ops \<and> prog_ok (drop 3 ops)
      else op \<noteq> 5 \<and> 1 \<le> length ops \<and> prog_ok (drop 1 ops)))"
  by pat_completeness auto
termination
  by (relation "measure length") auto

definition agree :: "nat \<Rightarrow> Bitvec option \<Rightarrow> u8 list \<Rightarrow> bool" where
  "agree sz po V \<longleftrightarrow> (\<exists>p. po = Some p \<and> bitvec_inv p \<and> bv_iSize p = sz \<and> array_inv sz V \<and>
     (\<forall>j. 0 < j \<longrightarrow> j \<le> sz \<longrightarrow> sqlite3BitvecTest (Some p) j = TESTBIT V j))"

lemma agree_set:
  assumes "agree sz po V" "0 < i" "i \<le> sz" "\<forall>k. al k"
  shows "\<exists>po' k'. sqlite3BitvecSet al k po i = Some (SQLITE_OK, po', k') \<and> agree sz po' (SETBIT V i)"
proof -
  obtain p where p: "po = Some p" "bitvec_inv p" "bv_iSize p = sz" "array_inv sz V"
    "\<forall>j. 0 < j \<longrightarrow> j \<le> sz \<longrightarrow> sqlite3BitvecTest (Some p) j = TESTBIT V j" using assms(1) by (auto simp: agree_def)
  obtain p' k' where s: "sqlite3BitvecSet al k (Some p) i = Some (SQLITE_OK, Some p', k')"
    using sqlite3BitvecSet_spec [OF p(2) assms(2), of al k] assms(3,4) p(3) by (auto simp: set_post_def)
  then have ins: "bitvec_ins p i p'" unfolding bitvec_ins_def by blast
  have "agree sz (Some p') (SETBIT V i)"
    unfolding agree_def using bvs.ins_inv [OF p(2) assms(2) _ ins] arr.ins_inv [OF p(4) assms(2,3) refl]
      both.ins_lockstep [OF p(2,4) assms(2) _ assms(3) ins refl] p(3,5) assms(3) by auto
  then show ?thesis using s p(1) by auto
qed

lemma agree_clear:
  assumes "agree sz po V" "0 < i" "i \<le> sz"
  shows "\<exists>po'. sqlite3BitvecClear po i = Some po' \<and> agree sz po' (CLEARBIT V i)"
proof -
  obtain p where p: "po = Some p" "bitvec_inv p" "bv_iSize p = sz" "array_inv sz V"
    "\<forall>j. 0 < j \<longrightarrow> j \<le> sz \<longrightarrow> sqlite3BitvecTest (Some p) j = TESTBIT V j" using assms(1) by (auto simp: agree_def)
  obtain p' where s: "sqlite3BitvecClear (Some p) i = Some (Some p')"
    using sqlite3BitvecClear_spec [OF p(2) assms(2)] assms(3) p(3) by auto
  then have del: "bitvec_del p i p'" unfolding bitvec_del_def by blast
  have "agree sz (Some p') (CLEARBIT V i)"
    unfolding agree_def using bvs.del_inv [OF p(2) assms(2) _ del] arr.del_inv [OF p(4) assms(2,3) refl]
      both.del_lockstep [OF p(2,4) assms(2) _ assms(3) del refl] p(3,5) assms(3) by auto
  then show ?thesis using s p(1) by auto
qed

lemma prog_ok_at:
  "pc < length aOp \<Longrightarrow> prog_ok (drop pc aOp) \<longleftrightarrow> aOp ! pc = 0 \<or>
     (if aOp ! pc = 1 \<or> aOp ! pc = 2 then pc + 3 < length aOp \<and> prog_ok (drop (pc + 4) aOp)
      else aOp ! pc \<noteq> 5 \<and> pc + 1 < length aOp \<and> prog_ok (drop (pc + 2) aOp))"
  by (subst Cons_nth_drop_Suc [symmetric]) (auto simp: drop_drop numeral_eq_Suc)

lemma prog_ok_len: "prog_ok (drop pc aOp) \<Longrightarrow> pc < length aOp"
  by (cases "pc < length aOp") auto

lemma bv_fetch_ok:
  assumes "prog_ok (drop pc aOp)" "aOp ! pc \<noteq> 0" "0 < sz"
  shows "\<exists>i aOp' pc' r'. bv_fetch rnd sz aOp pc r = Some (i, aOp', pc', r') \<and> i < sz \<and>
    aOp ! pc \<noteq> 5 \<and> prog_ok (drop pc' aOp')"
proof -
  have len: "pc < length aOp" using assms(1) by (rule prog_ok_len)
  have i: "nat ((x AND 0x7fffffff) mod int sz) < sz" for x :: int
    using assms(3) by (simp add: nat_less_iff)
  define w where "w \<longleftrightarrow> aOp ! pc = 1 \<or> aOp ! pc = 2"
  note at = assms(1) [unfolded prog_ok_at [OF len]]
  define n where "n = (if w then 3 else 1 :: nat)"
  define A where "A = (if w then aOp[pc + 2 := aOp ! (pc + 2) + aOp ! (pc + 3)] else aOp)[pc + 1 := aOp ! (pc + 1) - 1]"
  have A: "length A = length aOp" "A ! pc = aOp ! pc" "drop (pc + 2) A = drop (pc + 2) aOp \<or> w"
    "drop (pc + 4) A = drop (pc + 4) aOp"
    by (auto simp: A_def)
  have next_ok: "aOp ! pc \<noteq> 5" "prog_ok (drop pc A)" "prog_ok (drop (pc + n + 1) A)"
    using at assms(2) A len prog_ok_at [of pc A] by (auto simp: w_def n_def numeral_eq_Suc)
  have fit: "pc + n < length aOp" using at assms(2) by (auto simp: w_def n_def split: if_splits)
  obtain x r' where "bv_fetch rnd sz aOp pc r =
      Some (nat ((x AND 0x7fffffff) mod int sz), A, pc + (if aOp ! (pc + 1) - 1 > 0 then 0 else n + 1), r')"
    using next_ok(1) fit unfolding bv_fetch_def Let_def A_def n_def w_def by (auto split: if_splits)
  then show ?thesis using next_ok i by auto
qed

lemma bv_run_agree:
  assumes "agree sz p V" "prog_ok (drop pc aOp)" "0 < sz" "\<forall>k. al k"
  shows "\<exists>p' V'. bv_run al rnd sz aOp pc k r p V = Some (True, p', V') \<and> agree sz p' V'"
  using assms
proof (induction al rnd sz aOp pc k r p V rule: bv_run.induct)
  case (1 al rnd sz aOp pc k r p V)
  have len: "pc < length aOp" using "1.prems"(2) by (rule prog_ok_len)
  show ?case
  proof (cases "aOp ! pc = 0")
    case True
    then show ?thesis using len "1.prems"(1) by (subst bv_run.simps) simp
  next
    case False
    obtain i A pc' r' where f: "bv_fetch rnd sz aOp pc r = Some (i, A, pc', r')" "i < sz"
      "aOp ! pc \<noteq> 5" "prog_ok (drop pc' A)" using bv_fetch_ok [OF "1.prems"(2) False "1.prems"(3)] by blast
    note st = len False f(1)
    show ?thesis
    proof (cases "aOp ! pc AND 1 = 0")
      case True
      obtain q where q: "sqlite3BitvecClear p (i + 1) = Some q" "agree sz q (CLEARBIT V (i + 1))"
        using agree_clear [OF "1.prems"(1), of "i + 1"] f(2) by auto
      have "\<exists>p' V'. bv_run al rnd sz A pc' k r' q (CLEARBIT V (i + 1)) = Some (True, p', V') \<and> agree sz p' V'"
        using "1.IH"(3) [OF _ False f(1) refl refl refl _ q(1) q(2) f(4) "1.prems"(3,4)] len True by simp
      then show ?thesis using st True q(1) by (subst bv_run.simps) simp
    next
      case odd: False
      obtain q k' where q: "sqlite3BitvecSet al k p (i + 1) = Some (SQLITE_OK, q, k')"
        "agree sz q (SETBIT V (i + 1))"
        using agree_set [OF "1.prems"(1) _ _ "1.prems"(4), of "i + 1" k] f(2) by auto
      have "\<exists>p' V'. bv_run al rnd sz A pc' k' r' q (SETBIT V (i + 1)) = Some (True, p', V') \<and> agree sz p' V'"
        using "1.IH"(1) [OF _ False f(1) refl refl refl odd f(3) q(1) refl refl _ q(2) f(4) "1.prems"(3,4)] len by simp
      then show ?thesis using st odd q(1) f(3) by (subst bv_run.simps) simp
    qed
  qed
qed

section \<open>Properties\<close>

text \<open>The set of bit numbers a vector represents, read off with its own test routine.\<close>

definition bv_elems :: "Bitvec \<Rightarrow> nat set" where
  "bv_elems p = {j. j < 4294967296 \<and> sqlite3BitvecTest (Some p) j}"

lemma bv_elems_iff:
  assumes "bitvec_inv p"
  shows "j \<in> bv_elems p \<longleftrightarrow> 0 < j \<and> j \<le> bv_iSize p \<and> bv_test p (j - 1)"
proof (cases "0 < j \<and> j \<le> bv_iSize p")
  case True
  then show ?thesis using bv_test_range [of j p] assms by (auto simp: bv_elems_def bitvec_inv_def)
next
  case False
  have "\<not> (j + 4294967295) mod 4294967296 < bv_iSize p" if "j < 4294967296"
    using False that assms by (cases "j = 0") (auto simp: bitvec_inv_def mod_if)
  then have "j \<notin> bv_elems p" by (auto simp: bv_elems_def sqlite3BitvecTest_def sqlite3BitvecTestNotNull_def)
  then show ?thesis using False by auto
qed

lemma bv_elems_new: "s < 4294967296 \<Longrightarrow> bitvec_inv (bv_new s) \<and> bv_elems (bv_new s) = {}"
  using bv_elems_iff [of "bv_new s"] bv_test_new [of _ s] by (auto simp: bitvec_inv_def)

text \<open>C19. \<^verbatim>\<open>sqlite3BitvecSet\<close> always returns. It keeps the vector well-formed, and the set of bits
  the test routine reports becomes the old one with \<open>i\<close> added, through all three
  representations and the re-hashing that turns one into another. The only error is a
  failed allocation, and then no bit other than \<open>i\<close> appears.\<close>

theorem sqlite3BitvecSet_elems:
  assumes "bitvec_inv p" "0 < i" "i \<le> sqlite3BitvecSize p"
  shows "\<exists>rc p' k'. sqlite3BitvecSet al k (Some p) i = Some (rc, Some p', k') \<and>
    bitvec_inv p' \<and> sqlite3BitvecSize p' = sqlite3BitvecSize p \<and>
    (rc = SQLITE_OK \<longrightarrow> bv_elems p' = insert i (bv_elems p)) \<and>
    (rc \<noteq> SQLITE_OK \<longrightarrow> rc = SQLITE_NOMEM \<and> bv_elems p' \<subseteq> insert i (bv_elems p) \<and> (\<exists>n. \<not> al n))"
proof -
  have i: "i \<le> bv_iSize p" using assms(3) by (simp add: sqlite3BitvecSize_def)
  obtain rc p' k' where s: "sqlite3BitvecSet al k (Some p) i = Some (rc, Some p', k')"
    and post: "set_post (\<forall>k. al k) p {i - 1} rc p'"
    using sqlite3BitvecSet_spec [OF assms(1,2) i] by blast
  have inv: "bitvec_inv p'" and sz: "bv_iSize p' = bv_iSize p"
    using post assms(1) by (simp_all add: bitvec_inv_def set_post_def)
  have pw: "(bv_test p' (j - 1) \<longrightarrow> j = i \<or> bv_test p (j - 1)) \<and>
      (rc = SQLITE_OK \<longrightarrow> j = i \<or> bv_test p (j - 1) \<longrightarrow> bv_test p' (j - 1))" if "0 < j" "j \<le> bv_iSize p" for j
  proof -
    have "j - 1 < bv_iSize p" "j - 1 \<in> {i - 1} \<longleftrightarrow> j = i" using that assms(2) by auto
    then show ?thesis using post unfolding set_post_def by blast
  qed
  have sub: "bv_elems p' \<subseteq> insert i (bv_elems p)"
  proof
    fix j assume "j \<in> bv_elems p'"
    then show "j \<in> insert i (bv_elems p)" using pw [of j] by (auto simp: bv_elems_iff inv assms(1) sz)
  qed
  have "insert i (bv_elems p) \<subseteq> bv_elems p'" if "rc = SQLITE_OK"
    using pw assms(2) i that by (auto simp: bv_elems_iff inv assms(1) sz)
  then show ?thesis using s inv sz sub post by (auto simp: set_post_def sqlite3BitvecSize_def)
qed

theorem sqlite3BitvecSet_elems_witness:
  "\<exists>p' k'. sqlite3BitvecSet (\<lambda>_. True) 0 (Some (bv_new 5000)) 7 = Some (SQLITE_OK, Some p', k') \<and> bv_elems p' = {7}"
proof -
  have "bitvec_inv (bv_new 5000)" "7 \<le> sqlite3BitvecSize (bv_new 5000)" "bv_elems (bv_new 5000) = {}"
    using bv_elems_new [of 5000] by (simp_all add: sqlite3BitvecSize_def)
  then show ?thesis using sqlite3BitvecSet_elems [of "bv_new 5000" 7 "\<lambda>_. True" 0] by auto
qed

text \<open>C35. \<^verbatim>\<open>sqlite3BitvecClear\<close> always returns, keeps the vector well-formed and removes exactly
  bit \<open>i\<close>; in the hash representation this rebuilds the table.\<close>

theorem sqlite3BitvecClear_elems:
  assumes "bitvec_inv p" "0 < i" "i \<le> sqlite3BitvecSize p"
  shows "\<exists>p'. sqlite3BitvecClear (Some p) i = Some (Some p') \<and> bitvec_inv p' \<and>
    sqlite3BitvecSize p' = sqlite3BitvecSize p \<and> bv_elems p' = bv_elems p - {i}"
proof -
  obtain p' where s: "sqlite3BitvecClear (Some p) i = Some (Some p')" "clear_post p (i - 1) p'"
    using sqlite3BitvecClear_spec [OF assms(1,2)] assms(3) by (auto simp: sqlite3BitvecSize_def)
  then have inv: "bitvec_inv p'" and sz: "bv_iSize p' = bv_iSize p"
    using assms(1) by (simp_all add: bitvec_inv_def clear_post_def)
  have "bv_test p' (j - 1) \<longleftrightarrow> j \<noteq> i \<and> bv_test p (j - 1)" if "0 < j" "j \<le> bv_iSize p" for j
  proof -
    have "j - 1 < bv_iSize p" "j - 1 = i - 1 \<longleftrightarrow> j = i" using that assms(2) by auto
    then show ?thesis using s(2) unfolding clear_post_def by blast
  qed
  then have "bv_elems p' = bv_elems p - {i}"
    by (auto simp: bv_elems_iff inv assms(1) sz)
  then show ?thesis using s(1) inv sz by (simp add: sqlite3BitvecSize_def)
qed

theorem sqlite3BitvecClear_elems_witness:
  "\<exists>p'. sqlite3BitvecClear (Some (bv_new 5000)) 7 = Some (Some p') \<and> bv_elems p' = {}"
proof -
  have "bitvec_inv (bv_new 5000)" "7 \<le> sqlite3BitvecSize (bv_new 5000)" "bv_elems (bv_new 5000) = {}"
    using bv_elems_new [of 5000] by (simp_all add: sqlite3BitvecSize_def)
  then show ?thesis using sqlite3BitvecClear_elems [of "bv_new 5000" 7] by auto
qed

text \<open>C24. The built-in self test passes on every program: for every size, every list of
  instructions that set and clear bits and then halts, and every source of random
  numbers, it ends and reports 0, as long as memory can be allocated.\<close>

theorem sqlite3BitvecBuiltinTest_passes:
  assumes "0 < sz" "sz < 4294967295" "prog_ok aOp" "\<forall>k. al k"
  shows "sqlite3BitvecBuiltinTest al rnd sz aOp = Some 0"
proof -
  let ?V = "replicate ((sz + 7) div 8 + 1) (0 :: u8)"
  have new: "bitvec_inv (bv_new sz)" "bv_elems (bv_new sz) = {}" using bv_elems_new [of sz] assms(2) by simp_all
  have "\<not> sqlite3BitvecTest (Some (bv_new sz)) j \<and> \<not> TESTBIT ?V j" if "j \<le> sz" for j
    using new(2) that assms(2) nth_replicate [of "j div 8" "(sz + 7) div 8 + 1" "0 :: u8"]
    by (auto simp: bv_elems_def TESTBIT_bit simp del: replicate_Suc nth_replicate)
  then have "agree sz (Some (bv_new sz)) ?V" using new by (auto simp: agree_def array_inv_def)
  from bv_run_agree [OF this, of 0 aOp al rnd "0 + 1 + 2" 0] obtain q V where run: "bv_run al rnd sz aOp 0 (0 + 1 + 2) 0 (Some (bv_new sz)) ?V = Some (True, q, V)"
    and ag: "agree sz q V" using assms by auto
  obtain p where p: "q = Some p" "bitvec_inv p" "bv_iSize p = sz"
    "\<forall>j. 0 < j \<longrightarrow> j \<le> sz \<longrightarrow> sqlite3BitvecTest (Some p) j = TESTBIT V j" using ag by (auto simp: agree_def)
  have "find (\<lambda>i. TESTBIT V i \<noteq> sqlite3BitvecTest q i) [1..<sz + 1] = None"
    using p by (auto simp: find_None_iff)
  moreover have "\<not> sqlite3BitvecTest q 0" "\<not> sqlite3BitvecTest q (sz + 1)"
    using bv_elems_iff [OF p(2), of 0] bv_elems_iff [OF p(2), of "sz + 1"] p assms(2)
    by (auto simp: bv_elems_def)
  moreover have "\<not> sqlite3BitvecTest None 0" by (simp add: sqlite3BitvecTest_def)
  ultimately show ?thesis using run p assms(4)
    by (simp add: sqlite3BitvecBuiltinTest_def sqlite3BitvecCreate_def sqlite3BitvecSize_def)
qed

theorem sqlite3BitvecBuiltinTest_passes_witness:
  "sqlite3BitvecBuiltinTest (\<lambda>_. True) (\<lambda>n. 17 * int n) 400000 [1, 4000, 1, 97, 4, 100, 2, 30, 5, 97, 0] = Some 0"
  by (rule sqlite3BitvecBuiltinTest_passes) simp_all

end
