(* ===== verification/Ctype.thy ===== *)
theory Ctype
  imports Prelude
begin

text \<open>
  The character tables of \<^verbatim>\<open>global.c\<close>, the classification macros of \<^verbatim>\<open>sqliteInt.h\<close> that
  read them, and the case-insensitive comparisons of \<^verbatim>\<open>util.c\<close>. A C string is a byte
  list read with \<open>at\<close>, so that the byte behind the last one is the terminator 0.
\<close>

section \<open>Tables\<close>

definition sqlite3UpperToLower :: "u8 list" where
  "sqlite3UpperToLower =
    [0, 1, 2, 3, 4, 5, 6, 7, 8, 9, 10, 11, 12, 13, 14, 15, 16, 17,
     18, 19, 20, 21, 22, 23, 24, 25, 26, 27, 28, 29, 30, 31, 32, 33, 34, 35,
     36, 37, 38, 39, 40, 41, 42, 43, 44, 45, 46, 47, 48, 49, 50, 51, 52, 53,
     54, 55, 56, 57, 58, 59, 60, 61, 62, 63, 64, 97, 98, 99, 100, 101, 102, 103,
     104, 105, 106, 107, 108, 109, 110, 111, 112, 113, 114, 115, 116, 117, 118, 119, 120, 121,
     122, 91, 92, 93, 94, 95, 96, 97, 98, 99, 100, 101, 102, 103, 104, 105, 106, 107,
     108, 109, 110, 111, 112, 113, 114, 115, 116, 117, 118, 119, 120, 121, 122, 123, 124, 125,
     126, 127, 128, 129, 130, 131, 132, 133, 134, 135, 136, 137, 138, 139, 140, 141, 142, 143,
     144, 145, 146, 147, 148, 149, 150, 151, 152, 153, 154, 155, 156, 157, 158, 159, 160, 161,
     162, 163, 164, 165, 166, 167, 168, 169, 170, 171, 172, 173, 174, 175, 176, 177, 178, 179,
     180, 181, 182, 183, 184, 185, 186, 187, 188, 189, 190, 191, 192, 193, 194, 195, 196, 197,
     198, 199, 200, 201, 202, 203, 204, 205, 206, 207, 208, 209, 210, 211, 212, 213, 214, 215,
     216, 217, 218, 219, 220, 221, 222, 223, 224, 225, 226, 227, 228, 229, 230, 231, 232, 233,
     234, 235, 236, 237, 238, 239, 240, 241, 242, 243, 244, 245, 246, 247, 248, 249, 250, 251,
     252, 253, 254, 255]"

definition sqlite3CtypeMap :: "u8 list" where
  "sqlite3CtypeMap =
    [0x00, 0x00, 0x00, 0x00, 0x00, 0x00, 0x00, 0x00, 0x00, 0x01, 0x01, 0x01, 0x01, 0x01, 0x00, 0x00,
     0x00, 0x00, 0x00, 0x00, 0x00, 0x00, 0x00, 0x00, 0x00, 0x00, 0x00, 0x00, 0x00, 0x00, 0x00, 0x00,
     0x01, 0x00, 0x80, 0x00, 0x40, 0x00, 0x00, 0x80, 0x00, 0x00, 0x00, 0x00, 0x00, 0x00, 0x00, 0x00,
     0x0c, 0x0c, 0x0c, 0x0c, 0x0c, 0x0c, 0x0c, 0x0c, 0x0c, 0x0c, 0x00, 0x00, 0x00, 0x00, 0x00, 0x00,
     0x00, 0x0a, 0x0a, 0x0a, 0x0a, 0x0a, 0x0a, 0x02, 0x02, 0x02, 0x02, 0x02, 0x02, 0x02, 0x02, 0x02,
     0x02, 0x02, 0x02, 0x02, 0x02, 0x02, 0x02, 0x02, 0x02, 0x02, 0x02, 0x80, 0x00, 0x00, 0x00, 0x40,
     0x80, 0x2a, 0x2a, 0x2a, 0x2a, 0x2a, 0x2a, 0x22, 0x22, 0x22, 0x22, 0x22, 0x22, 0x22, 0x22, 0x22,
     0x22, 0x22, 0x22, 0x22, 0x22, 0x22, 0x22, 0x22, 0x22, 0x22, 0x22, 0x00, 0x00, 0x00, 0x00, 0x00,
     0x40, 0x40, 0x40, 0x40, 0x40, 0x40, 0x40, 0x40, 0x40, 0x40, 0x40, 0x40, 0x40, 0x40, 0x40, 0x40,
     0x40, 0x40, 0x40, 0x40, 0x40, 0x40, 0x40, 0x40, 0x40, 0x40, 0x40, 0x40, 0x40, 0x40, 0x40, 0x40,
     0x40, 0x40, 0x40, 0x40, 0x40, 0x40, 0x40, 0x40, 0x40, 0x40, 0x40, 0x40, 0x40, 0x40, 0x40, 0x40,
     0x40, 0x40, 0x40, 0x40, 0x40, 0x40, 0x40, 0x40, 0x40, 0x40, 0x40, 0x40, 0x40, 0x40, 0x40, 0x40,
     0x40, 0x40, 0x40, 0x40, 0x40, 0x40, 0x40, 0x40, 0x40, 0x40, 0x40, 0x40, 0x40, 0x40, 0x40, 0x40,
     0x40, 0x40, 0x40, 0x40, 0x40, 0x40, 0x40, 0x40, 0x40, 0x40, 0x40, 0x40, 0x40, 0x40, 0x40, 0x40,
     0x40, 0x40, 0x40, 0x40, 0x40, 0x40, 0x40, 0x40, 0x40, 0x40, 0x40, 0x40, 0x40, 0x40, 0x40, 0x40,
     0x40, 0x40, 0x40, 0x40, 0x40, 0x40, 0x40, 0x40, 0x40, 0x40, 0x40, 0x40, 0x40, 0x40, 0x40, 0x40]"

definition sqlite3Isspace :: "u8 \<Rightarrow> bool" where
  "sqlite3Isspace x = (sqlite3CtypeMap ! unat x AND 0x01 \<noteq> 0)"

definition sqlite3Isalnum :: "u8 \<Rightarrow> bool" where
  "sqlite3Isalnum x = (sqlite3CtypeMap ! unat x AND 0x06 \<noteq> 0)"

definition sqlite3Isdigit :: "u8 \<Rightarrow> bool" where
  "sqlite3Isdigit x = (sqlite3CtypeMap ! unat x AND 0x04 \<noteq> 0)"

definition sqlite3Isxdigit :: "u8 \<Rightarrow> bool" where
  "sqlite3Isxdigit x = (sqlite3CtypeMap ! unat x AND 0x08 \<noteq> 0)"

definition sqlite3Toupper :: "u8 \<Rightarrow> u8" where
  "sqlite3Toupper x = x AND NOT (sqlite3CtypeMap ! unat x AND 0x20)"

definition sqlite3Tolower :: "u8 \<Rightarrow> u8" where
  "sqlite3Tolower x = sqlite3UpperToLower ! unat x"

lemma tables_ok:
  "map (\<lambda>w. w AND 0x01 \<noteq> 0) sqlite3CtypeMap = map (\<lambda>n. n = 32 \<or> 9 \<le> n \<and> n \<le> 13) [0..<256]"
  "map (\<lambda>w. w AND 0x04 \<noteq> 0) sqlite3CtypeMap = map (\<lambda>n. 48 \<le> n \<and> n \<le> 57) [0..<256]"
  "map (\<lambda>w. w AND 0x08 \<noteq> 0) sqlite3CtypeMap =
     map (\<lambda>n. 48 \<le> n \<and> n \<le> 57 \<or> 65 \<le> n \<and> n \<le> 70 \<or> 97 \<le> n \<and> n \<le> 102) [0..<256]"
  "map unat sqlite3UpperToLower = map (\<lambda>n. if 65 \<le> n \<and> n \<le> 90 then n + 32 else n) [0..<256]"
  by code_simp+

text \<open>What the tables say, for every byte.\<close>

lemma map_table:
  assumes "map f T = map g [0..<256]"
  shows "f (T ! unat (x :: u8)) = g (unat x)"
proof -
  have "unat x < 256" using unsigned_less [of x, where 'a = nat] by simp
  moreover have "length T = 256" using arg_cong [OF assms, of length] by simp
  ultimately show ?thesis using arg_cong [OF assms, of "\<lambda>l. l ! unat x"] by simp
qed

lemma Isspace_iff: "sqlite3Isspace x \<longleftrightarrow> unat x = 32 \<or> 9 \<le> unat x \<and> unat x \<le> 13"
  unfolding sqlite3Isspace_def by (rule map_table [OF tables_ok(1)])

lemma Isdigit_iff: "sqlite3Isdigit x \<longleftrightarrow> 48 \<le> unat x \<and> unat x \<le> 57"
  unfolding sqlite3Isdigit_def by (rule map_table [OF tables_ok(2)])

lemma Isxdigit_iff: "sqlite3Isxdigit x \<longleftrightarrow>
    48 \<le> unat x \<and> unat x \<le> 57 \<or> 65 \<le> unat x \<and> unat x \<le> 70 \<or> 97 \<le> unat x \<and> unat x \<le> 102"
  unfolding sqlite3Isxdigit_def by (rule map_table [OF tables_ok(3)])

lemma Tolower_unat: "unat (sqlite3Tolower x) = (if 65 \<le> unat x \<and> unat x \<le> 90 then unat x + 32 else unat x)"
  unfolding sqlite3Tolower_def by (rule map_table [OF tables_ok(4)])

lemma Tolower_0 [simp]: "sqlite3Tolower x = 0 \<longleftrightarrow> x = 0"
  using Tolower_unat [of x] by (auto simp: unat_eq_0 [symmetric] split: if_splits)

lemma Tolower_zero [simp]: "sqlite3Tolower 0 = 0"
  by (simp add: Tolower_0)

section \<open>Comparison\<close>

text \<open>\<^verbatim>\<open>sqlite3StrICmp\<close>: the loop at offset \<open>k\<close> of both strings, and the public entry points.\<close>

lemma at_nonzero: "at z k \<noteq> 0 \<Longrightarrow> k < length z"
  by (auto simp: at_def split: if_splits)

function stricmp_loop :: "bytes \<Rightarrow> bytes \<Rightarrow> nat \<Rightarrow> int" where
  "stricmp_loop a b k =
    (let c = at a k; x = at b k
     in if c = x then (if c = 0 then 0 else stricmp_loop a b (k + 1))
     else
       let d = int (unat (sqlite3Tolower c)) - int (unat (sqlite3Tolower x))
       in if d \<noteq> 0 then d else stricmp_loop a b (k + 1))"
  by pat_completeness auto
termination
proof (relation "measure (\<lambda>(a, b, k). max (length a) (length b) - k)", goal_cases)
  case (2 a b k c x)
  then show ?case using at_nonzero [of a k] by auto
next
  case (3 a b k c x d)
  then have "at a k \<noteq> 0 \<or> at b k \<noteq> 0" by auto
  then show ?case using at_nonzero [of a k] at_nonzero [of b k] by auto
qed simp

declare stricmp_loop.simps [simp del]

definition sqlite3StrICmp :: "bytes \<Rightarrow> bytes \<Rightarrow> int" where
  "sqlite3StrICmp zLeft zRight = stricmp_loop zLeft zRight 0"

definition sqlite3_stricmp :: "bytes option \<Rightarrow> bytes option \<Rightarrow> int" where
  "sqlite3_stricmp zLeft zRight =
    (case zLeft of
       None \<Rightarrow> (case zRight of None \<Rightarrow> 0 | Some _ \<Rightarrow> - 1)
     | Some a \<Rightarrow> (case zRight of None \<Rightarrow> 1 | Some b \<Rightarrow> sqlite3StrICmp a b))"

text \<open>\<^verbatim>\<open>sqlite3_strnicmp\<close>: the \<^verbatim>\<open>while\<close> loop (its result is the offset reached and the value of
  \<^verbatim>\<open>N\<close> after the loop, which is negative iff the count ran out).\<close>

fun strnicmp_loop :: "bytes \<Rightarrow> bytes \<Rightarrow> nat \<Rightarrow> nat \<Rightarrow> nat \<times> int" where
  "strnicmp_loop a b 0 k = (k, - 1)"
| "strnicmp_loop a b (Suc N) k =
    (if at a k \<noteq> 0 \<and> sqlite3Tolower (at a k) = sqlite3Tolower (at b k)
     then strnicmp_loop a b N (k + 1) else (k, int N))"

definition sqlite3_strnicmp :: "bytes option \<Rightarrow> bytes option \<Rightarrow> int \<Rightarrow> int" where
  "sqlite3_strnicmp zLeft zRight N =
    (case zLeft of
       None \<Rightarrow> (case zRight of None \<Rightarrow> 0 | Some _ \<Rightarrow> - 1)
     | Some a \<Rightarrow>
         (case zRight of
            None \<Rightarrow> 1
          | Some b \<Rightarrow>
              let (k, n) = strnicmp_loop a b (nat N) 0
              in if n < 0 then 0
                 else int (unat (sqlite3Tolower (at a k))) - int (unat (sqlite3Tolower (at b k)))))"

definition sqlite3StrIHash :: "bytes option \<Rightarrow> u8" where
  "sqlite3StrIHash z = (case z of None \<Rightarrow> 0 | Some z \<Rightarrow> foldl (\<lambda>h c. h + sqlite3Tolower c) 0 (takeWhile (\<lambda>c. c \<noteq> 0) z))"

section \<open>Comparison ignores case\<close>

text \<open>The specification: the order of the first difference after folding to lower case,
  the terminator below every byte.\<close>

fun fold_cmp :: "bytes \<Rightarrow> bytes \<Rightarrow> int" where
  "fold_cmp [] [] = 0"
| "fold_cmp [] (y # b) = - int (unat (sqlite3Tolower y))"
| "fold_cmp (x # a) [] = int (unat (sqlite3Tolower x))"
| "fold_cmp (x # a) (y # b) =
    (if sqlite3Tolower x = sqlite3Tolower y then fold_cmp a b
     else int (unat (sqlite3Tolower x)) - int (unat (sqlite3Tolower y)))"

lemma stricmp_loop_fold:
  "0 \<notin> set a \<Longrightarrow> 0 \<notin> set b \<Longrightarrow> k \<le> length a \<Longrightarrow> k \<le> length b \<Longrightarrow>
   stricmp_loop a b k = fold_cmp (drop k a) (drop k b)"
proof (induction a b k rule: stricmp_loop.induct)
  case (1 a b k)
  have d: "drop k z = (if at z k = 0 then [] else at z k # drop (k + 1) z)" if "0 \<notin> set z" "k \<le> length z" for z
  proof (cases "k < length z")
    case True
    then have "z ! k \<noteq> 0" using that(1) nth_mem [OF True] by metis
    then show ?thesis using True Cons_nth_drop_Suc [OF True] by (simp add: at_def)
  next
    case False
    then show ?thesis by (simp add: at_def)
  qed
  have lt: "at z k \<noteq> 0 \<Longrightarrow> k + 1 \<le> length z" for z using at_nonzero [of z k] by simp
  let ?d = "int (unat (sqlite3Tolower (at a k))) - int (unat (sqlite3Tolower (at b k)))"
  have eq: "?d = 0 \<longleftrightarrow> sqlite3Tolower (at a k) = sqlite3Tolower (at b k)"
    by (simp add: word_uint_eq_iff)
  show ?case
  proof (cases "sqlite3Tolower (at a k) = sqlite3Tolower (at b k)")
    case True
    show ?thesis
    proof (cases "at a k = 0")
      case True
      then have "at b k = 0" using \<open>sqlite3Tolower (at a k) = _\<close> Tolower_0 by metis
      then show ?thesis using True d [OF "1.prems"(1,3)] d [OF "1.prems"(2,4)]
        by (subst stricmp_loop.simps) (simp add: Let_def)
    next
      case False
      then have b: "at b k \<noteq> 0" using \<open>sqlite3Tolower (at a k) = _\<close> Tolower_0 by metis
      have "stricmp_loop a b k = stricmp_loop a b (k + 1)"
        using False \<open>sqlite3Tolower (at a k) = _\<close> by (subst stricmp_loop.simps) (simp add: Let_def)
      also have "\<dots> = fold_cmp (drop (k + 1) a) (drop (k + 1) b)"
        using "1.IH" [OF refl refl] False b lt "1.prems" eq \<open>sqlite3Tolower (at a k) = _\<close> by (cases "at a k = at b k") auto
      finally show ?thesis using False b \<open>sqlite3Tolower (at a k) = _\<close> d [OF "1.prems"(1,3)] d [OF "1.prems"(2,4)] by simp
    qed
  next
    case False
    then have "?d \<noteq> 0" using eq by blast
    then have "stricmp_loop a b k = ?d" by (subst stricmp_loop.simps) (auto simp: Let_def)
    then show ?thesis using False d [OF "1.prems"(1,3)] d [OF "1.prems"(2,4)] by (auto split: if_splits)
  qed
qed

lemma fold_cmp_eq: "0 \<notin> set a \<Longrightarrow> 0 \<notin> set b \<Longrightarrow> fold_cmp a b = 0 \<longleftrightarrow> map sqlite3Tolower a = map sqlite3Tolower b"
  by (induction a b rule: fold_cmp.induct) (auto simp: unsigned_eq_0_iff word_uint_eq_iff [symmetric])

lemma fold_cmp_swap: "fold_cmp b a = - fold_cmp a b"
  by (induction a b rule: fold_cmp.induct) auto

text \<open>C36. \<^verbatim>\<open>sqlite3StrICmp\<close> compares two strings by their first difference after folding ASCII
  letters to lower case: the result is 0 exactly if the folded strings are equal, and
  swapping the arguments negates it.\<close>

theorem sqlite3StrICmp_folds:
  assumes "0 \<notin> set a" "0 \<notin> set b"
  shows "sqlite3StrICmp a b = fold_cmp a b \<and>
    (sqlite3StrICmp a b = 0 \<longleftrightarrow> map sqlite3Tolower a = map sqlite3Tolower b) \<and>
    sqlite3StrICmp b a = - sqlite3StrICmp a b"
  using stricmp_loop_fold [of a b 0] stricmp_loop_fold [of b a 0] fold_cmp_eq [of a b] fold_cmp_swap [of b a] assms
  by (simp add: sqlite3StrICmp_def)

theorem sqlite3StrICmp_folds_witness:
  "sqlite3StrICmp [0x41, 0x62] [0x61, 0x42] = 0"
proof -
  have "map sqlite3Tolower [0x41, 0x62] = map sqlite3Tolower [0x61, 0x42]" by code_simp
  then show ?thesis using sqlite3StrICmp_folds [of "[0x41, 0x62]" "[0x61, 0x42]"] by simp
qed

end
