(* ===== verification/NumText.thy ===== *)
theory NumText
  imports Ctype
begin

text \<open>
  Conversions between 64-bit integers and text in \<^verbatim>\<open>util.c\<close>: rendering, decimal and
  hexadecimal parsing with saturation, 32-bit parsing and blob literals. Signed values
  are \<open>int\<close>, the unsigned accumulators of the C code are words.
\<close>

section \<open>Operations\<close>

abbreviation (input) SQLITE_UTF8 :: nat where "SQLITE_UTF8 \<equiv> 1"
abbreviation (input) SQLITE_UTF16LE :: nat where "SQLITE_UTF16LE \<equiv> 2"
abbreviation (input) SQLITE_UTF16BE :: nat where "SQLITE_UTF16BE \<equiv> 3"

text \<open>\<^verbatim>\<open>sqlite3Int64ToText\<close>: the digit loop fills \<^verbatim>\<open>zTemp\<close> from the right; the result is the
  text without its terminator, whose length the C function returns.\<close>

function text_digits :: "nat \<Rightarrow> bytes \<Rightarrow> bytes" where
  "text_digits x acc =
    (let acc = (of_nat (x mod 10) + 0x30) # acc; x = x div 10
     in if x = 0 then acc else text_digits x acc)"
  by pat_completeness auto
termination
  by (relation "measure fst") auto

declare text_digits.simps [simp del]

definition sqlite3Int64ToText :: "int \<Rightarrow> bytes" where
  "sqlite3Int64ToText v =
    (let x = (if v < 0 then (if v = SMALLEST_INT64 then 2 ^ 63 else nat (- v)) else nat v);
         zTemp = text_digits x []
     in if v < 0 then 0x2d # zTemp else zTemp)"

text \<open>\<^verbatim>\<open>compare2pow63\<close>: the loop over the first 18 characters, and the routine; \<open>p\<close> is the
  offset of the number in the buffer.\<close>

definition pow63 :: "nat list" where
  "pow63 = [57, 50, 50, 51, 51, 55, 50, 48, 51, 54, 56, 53, 52, 55, 55, 53, 56, 48]"

fun pow63_loop :: "nat list \<Rightarrow> bytes \<Rightarrow> nat \<Rightarrow> nat \<Rightarrow> int" where
  "pow63_loop [] zNum p incr = 0"
| "pow63_loop (d # ds) zNum p incr =
    (let c = (int (unat (at zNum p)) - int d) * 10
     in if c = 0 then pow63_loop ds zNum (p + incr) incr else c)"

definition compare2pow63 :: "bytes \<Rightarrow> nat \<Rightarrow> nat \<Rightarrow> int" where
  "compare2pow63 zNum p incr =
    (let c = pow63_loop pow63 zNum p incr
     in if c = 0 then int (unat (at zNum (p + 18 * incr))) - 56 else c)"

text \<open>\<^verbatim>\<open>sqlite3Atoi64\<close>. Pointers into \<^verbatim>\<open>zNum\<close> are offsets; \<open>wide\<close> is true for the UTF-16
  encodings, where \<^verbatim>\<open>incr\<close> is 2. The loops in order: the scan for a nonzero high byte, the
  loops that pass white space and leading zeros, the digit loop, and the loop over the
  text behind the number.\<close>

definition incr_of :: "bool \<Rightarrow> nat" where
  "incr_of wide = (if wide then 2 else 1)"

lemma incr_pos [simp]: "0 < incr_of wide"
  by (simp add: incr_of_def)

function utf16_scan :: "bytes \<Rightarrow> nat \<Rightarrow> nat \<Rightarrow> nat" where
  "utf16_scan zNum i n = (if i < n \<and> at zNum i = 0 then utf16_scan zNum (i + 2) n else i)"
  by pat_completeness auto
termination
  by (relation "measure (\<lambda>(z, i, n). n - i)") auto

function skip_while :: "(u8 \<Rightarrow> bool) \<Rightarrow> bytes \<Rightarrow> bool \<Rightarrow> nat \<Rightarrow> nat \<Rightarrow> nat" where
  "skip_while P zNum wide p zEnd =
    (if p < zEnd \<and> P (at zNum p) then skip_while P zNum wide (p + incr_of wide) zEnd else p)"
  by pat_completeness auto
termination
  by (relation "measure (\<lambda>(P, z, w, p, e). e - p)") (auto simp: incr_of_def)

function atoi_digits :: "bytes \<Rightarrow> bool \<Rightarrow> nat \<Rightarrow> nat \<Rightarrow> nat \<Rightarrow> u64 \<Rightarrow> nat \<times> u64" where
  "atoi_digits zNum wide p zEnd i u =
    (if p + i < zEnd \<and> at zNum (p + i) \<ge> 0x30 \<and> at zNum (p + i) \<le> 0x39
     then atoi_digits zNum wide p zEnd (i + incr_of wide) (u * 10 + ucast (at zNum (p + i)) - 0x30)
     else (i, u))"
  by pat_completeness auto
termination
  by (relation "measure (\<lambda>(z, w, p, e, i, u). e - (p + i))") (auto simp: incr_of_def)

function atoi_tail :: "bytes \<Rightarrow> bool \<Rightarrow> nat \<Rightarrow> nat \<Rightarrow> int" where
  "atoi_tail zNum wide jj zEnd =
    (if \<not> sqlite3Isspace (at zNum jj) then 1
     else if jj + incr_of wide < zEnd then atoi_tail zNum wide (jj + incr_of wide) zEnd
     else 0)"
  by pat_completeness auto
termination
  by (relation "measure (\<lambda>(z, w, j, e). e - j)") (auto simp: incr_of_def)

declare utf16_scan.simps [simp del] skip_while.simps [simp del] atoi_digits.simps [simp del]
  atoi_tail.simps [simp del]

definition sqlite3Atoi64 :: "bytes \<Rightarrow> nat \<Rightarrow> nat \<Rightarrow> int \<times> int" where
  "sqlite3Atoi64 zNum len enc =
    (let wide = (enc \<noteq> SQLITE_UTF8);
         incr = incr_of wide;
         (p, zEnd, nonNum) =
           (if wide then
              (let n = len - len mod 2; i = utf16_scan zNum (3 - enc) n
               in (enc AND 1, i XOR 1, i < n))
            else (0, len, False));
         p = skip_while sqlite3Isspace zNum wide p zEnd;
         (neg, p) =
           (if p < zEnd then
              (if at zNum p = 0x2d then (True, p + incr)
               else if at zNum p = 0x2b then (False, p + incr) else (False, p))
            else (False, p));
         zStart = p;
         p = skip_while (\<lambda>c. c = 0x30) zNum wide p zEnd;
         (i, u) = atoi_digits zNum wide p zEnd 0 0;
         pNum = (if u > 0x7fffffffffffffff then (if neg then SMALLEST_INT64 else LARGEST_INT64)
                 else if neg then - uint u else uint u);
         rc = (if i = 0 \<and> zStart = p then - 1
               else if nonNum then 1
               else if p + i < zEnd then atoi_tail zNum wide (p + i) zEnd
               else 0)
     in if i < 19 * incr then (rc, pNum)
        else
          let c = (if i > 19 * incr then 1 else compare2pow63 zNum p incr)
          in if c < 0 then (rc, pNum)
             else
               let pNum = (if neg then SMALLEST_INT64 else LARGEST_INT64)
               in if c > 0 then (2, pNum) else (if neg then rc else 3, pNum))"

text \<open>\<^verbatim>\<open>sqlite3HexToInt\<close> (ASCII), \<^verbatim>\<open>sqlite3HexToBlob\<close> with the bytes it stores before the
  terminator, and the hexadecimal loops.\<close>

definition sqlite3HexToInt :: "u8 \<Rightarrow> u8" where
  "sqlite3HexToInt h = (h + 9 * (1 AND drop_bit 6 h)) AND 0xf"

fun hex_pairs :: "bytes \<Rightarrow> nat \<Rightarrow> nat \<Rightarrow> bytes" where
  "hex_pairs z 0 i = []"
| "hex_pairs z (Suc k) i =
    (push_bit 4 (sqlite3HexToInt (at z i)) OR sqlite3HexToInt (at z (i + 1))) # hex_pairs z k (i + 2)"

definition sqlite3HexToBlob :: "bytes \<Rightarrow> nat \<Rightarrow> bytes" where
  "sqlite3HexToBlob z n = hex_pairs z (n div 2) 0"

text \<open>The rendering loop of the SQL function \<^verbatim>\<open>hex()\<close> in \<^verbatim>\<open>func.c\<close>.\<close>

definition hexdigits :: "u8 list" where
  "hexdigits = [0x30, 0x31, 0x32, 0x33, 0x34, 0x35, 0x36, 0x37, 0x38, 0x39, 0x41, 0x42, 0x43, 0x44, 0x45, 0x46]"

fun hexFunc :: "bytes \<Rightarrow> bytes" where
  "hexFunc [] = []"
| "hexFunc (c # pBlob) =
    hexdigits ! unat (drop_bit 4 c AND 0xf) # hexdigits ! unat (c AND 0xf) # hexFunc pBlob"

function hex_value :: "bytes \<Rightarrow> nat \<Rightarrow> u64 \<Rightarrow> nat \<times> u64" where
  "hex_value z k u =
    (if sqlite3Isxdigit (at z k) then hex_value z (k + 1) (u * 16 + ucast (sqlite3HexToInt (at z k)))
     else (k, u))"
  by pat_completeness auto
termination
proof (relation "measure (\<lambda>(z, k, u). length z - k)", goal_cases)
  case (2 z k u)
  then have "at z k \<noteq> 0" by (auto simp: Isxdigit_iff)
  then show ?case using at_nonzero [of z k] by simp
qed simp

fun hex_value8 :: "bytes \<Rightarrow> nat \<Rightarrow> nat \<Rightarrow> u32 \<Rightarrow> nat \<times> u32" where
  "hex_value8 z 0 k u = (k, u)"
| "hex_value8 z (Suc n) k u =
    (if sqlite3Isxdigit (at z k) then hex_value8 z n (k + 1) (u * 16 + ucast (sqlite3HexToInt (at z k)))
     else (k, u))"

declare hex_value.simps [simp del]

definition strspn_num :: "bytes \<Rightarrow> nat" where
  "strspn_num z = length (takeWhile (\<lambda>c. c \<in> {0x2b, 0x2d, 0x20, 0x0a, 0x09} \<or> 0x30 \<le> c \<and> c \<le> 0x39) z)"

text \<open>\<^verbatim>\<open>sqlite3DecOrHexToI64\<close>. The string is zero-terminated; \<open>length z\<close> bounds the scans.\<close>

definition sqlite3DecOrHexToI64 :: "bytes \<Rightarrow> int \<times> int" where
  "sqlite3DecOrHexToI64 z =
    (if at z 0 = 0x30 \<and> (at z 1 = 0x78 \<or> at z 1 = 0x58) then
       (let i = skip_while (\<lambda>c. c = 0x30) z False 2 (length z);
            (k, u) = hex_value z i 0
        in if k - i > 16 then (2, sint u)
           else if at z k \<noteq> 0 then (1, sint u)
           else (0, sint u))
     else
       let n = strspn_num z AND 0x3fffffff;
           n = (if at z n \<noteq> 0 then n + 1 else n)
       in sqlite3Atoi64 z n SQLITE_UTF8)"

text \<open>\<^verbatim>\<open>sqlite3GetInt32\<close>: \<open>Some v\<close> is a return of 1 with \<^verbatim>\<open>*pValue\<close> set. The digit loop stops
  after 11 digits.\<close>

fun int32_digits :: "bytes \<Rightarrow> nat \<Rightarrow> nat \<Rightarrow> nat \<Rightarrow> int \<Rightarrow> nat \<times> int" where
  "int32_digits zNum p 0 i v = (i, v)"
| "int32_digits zNum p (Suc n) i v =
    (if at zNum (p + i) \<ge> 0x30 \<and> at zNum (p + i) \<le> 0x39
     then int32_digits zNum p n (i + 1) (v * 10 + int (unat (at zNum (p + i)) - 0x30))
     else (i, v))"

definition sqlite3GetInt32 :: "bytes \<Rightarrow> int option" where
  "sqlite3GetInt32 zNum =
    (if at zNum 0 \<noteq> 0x2d \<and> at zNum 0 \<noteq> 0x2b \<and> at zNum 0 = 0x30 \<and>
        (at zNum 1 = 0x78 \<or> at zNum 1 = 0x58) \<and> sqlite3Isxdigit (at zNum 2) then
       (let p = skip_while (\<lambda>c. c = 0x30) zNum False 2 (length zNum);
            (k, u) = hex_value8 zNum 8 p 0
        in if u AND 0x80000000 = 0 \<and> \<not> sqlite3Isxdigit (at zNum k) then Some (uint u) else None)
     else
       let neg = (at zNum 0 = 0x2d);
           p = (if at zNum 0 = 0x2d \<or> at zNum 0 = 0x2b then 1 else 0)
       in if \<not> sqlite3Isdigit (at zNum p) then None
          else
            let p = skip_while (\<lambda>c. c = 0x30) zNum False p (length zNum);
                (i, v) = int32_digits zNum p 11 0 0
            in if i > 10 then None
               else if v - (if neg then 1 else 0) > 2147483647 then None
               else Some (if neg then - v else v))"

definition sqlite3Atoi :: "bytes \<Rightarrow> int" where
  "sqlite3Atoi z = (case sqlite3GetInt32 z of None \<Rightarrow> 0 | Some x \<Rightarrow> x)"

section \<open>Decimal numbers\<close>

text \<open>The value of a list of digits, and the reference parser over the bytes of the text.\<close>

definition dec_value :: "bytes \<Rightarrow> nat" where
  "dec_value ds = foldl (\<lambda>n c. 10 * n + (unat c - 48)) 0 ds"

definition atoi_ref :: "bytes \<Rightarrow> int \<times> int" where
  "atoi_ref s =
    (let s1 = dropWhile sqlite3Isspace s;
         neg = (s1 \<noteq> [] \<and> hd s1 = 0x2d);
         s2 = (if s1 \<noteq> [] \<and> (hd s1 = 0x2d \<or> hd s1 = 0x2b) then tl s1 else s1);
         ds = takeWhile sqlite3Isdigit s2;
         N = int (dec_value ds);
         rc = (if ds = [] then - 1
               else if \<exists>c\<in>set (dropWhile sqlite3Isdigit s2). \<not> sqlite3Isspace c then 1 else 0)
     in if N > 2 ^ 63 then (2, if neg then SMALLEST_INT64 else LARGEST_INT64)
        else if N = 2 ^ 63 then (if neg then (rc, SMALLEST_INT64) else (3, LARGEST_INT64))
        else (rc, if neg then - N else N))"

text \<open>The reference for the UTF-16 encodings: the characters before the first one with a nonzero
  high byte, and whether there is such a one. It then counts as text behind the number.\<close>

fun utf16_text :: "bool \<Rightarrow> bytes \<Rightarrow> bytes \<times> bool" where
  "utf16_text be (a # b # zs) =
    (let (hi, lo) = (if be then (a, b) else (b, a))
     in if hi \<noteq> 0 then ([], True) else (case utf16_text be zs of (cs, nonNum) \<Rightarrow> (lo # cs, nonNum)))"
| "utf16_text be zs = ([], False)"

definition atoi16_ref :: "bool \<Rightarrow> bytes \<Rightarrow> int \<times> int" where
  "atoi16_ref be s =
    (let (cs, nonNum) = utf16_text be s; (rc, v) = atoi_ref cs
     in (if nonNum \<and> rc = 0 then 1 else rc, v))"

lemma dec_value_Nil [simp]: "dec_value [] = 0"
  by (simp add: dec_value_def)

lemma dec_value_snoc: "dec_value (ds @ [c]) = 10 * dec_value ds + (unat c - 48)"
  by (simp add: dec_value_def)

lemma dec_value_append: "dec_value (ds @ es) = dec_value ds * 10 ^ length es + dec_value es"
proof (induction es rule: rev_induct)
  case (snoc c es)
  have "dec_value (ds @ es @ [c]) = 10 * dec_value (ds @ es) + (unat c - 48)"
    using dec_value_snoc [of "ds @ es" c] by simp
  then show ?case by (simp add: snoc dec_value_snoc algebra_simps)
qed simp

lemma dec_value_Cons: "dec_value (c # ds) = (unat c - 48) * 10 ^ length ds + dec_value ds"
  using dec_value_append [of "[c]" ds] by (simp add: dec_value_def)

lemma dec_value_less: "\<forall>c\<in>set ds. sqlite3Isdigit c \<Longrightarrow> dec_value ds < 10 ^ length ds"
proof (induction ds rule: rev_induct)
  case (snoc c ds)
  then have "dec_value ds + 1 \<le> 10 ^ length ds" "unat c - 48 \<le> 9" by (auto simp: Isdigit_iff Suc_le_eq)
  then show ?case by (simp add: dec_value_snoc)
qed simp

lemma dec_value_ge:
  assumes "\<forall>c\<in>set (d # ds). sqlite3Isdigit c" "d \<noteq> 0x30"
  shows "10 ^ length ds \<le> dec_value (d # ds)"
proof -
  have "unat d \<noteq> 48" using assms(2) by (auto simp: word_unat_eq_iff)
  then have "1 \<le> unat d - 48" using assms(1) by (auto simp: Isdigit_iff)
  from mult_le_mono1 [OF this, of "10 ^ length ds"] show ?thesis unfolding dec_value_Cons by linarith
qed

lemma dec_value_zeros: "\<forall>c\<in>set zs. c = 0x30 \<Longrightarrow> dec_value (zs @ ds) = dec_value ds"
proof (induction zs)
  case (Cons c zs)
  then show ?case by (simp add: dec_value_Cons)
qed simp

section \<open>The loops of the parser\<close>

definition seg :: "bytes \<Rightarrow> nat \<Rightarrow> nat \<Rightarrow> bytes" where
  "seg z p e = take (e - p) (drop p z)"

lemma seg_Cons: "p < e \<Longrightarrow> e \<le> length z \<Longrightarrow> seg z p e = at z p # seg z (p + 1) e"
proof -
  assume "p < e" "e \<le> length z"
  moreover from this have "drop p z = z ! p # drop (Suc p) z" by (simp add: Cons_nth_drop_Suc)
  moreover have "e - p = Suc (e - Suc p)" using \<open>p < e\<close> by linarith
  ultimately show ?thesis by (simp add: seg_def at_def)
qed

lemma seg_Nil [simp]: "e \<le> p \<Longrightarrow> seg z p e = []"
  by (simp add: seg_def)

lemma length_seg [simp]: "e \<le> length z \<Longrightarrow> length (seg z p e) = e - p"
  by (simp add: seg_def)

lemma seg_drop: "seg z (p + k) e = drop k (seg z p e)"
  by (simp add: seg_def drop_take add.commute)

lemma skip_while_narrow:
  "e \<le> length z \<Longrightarrow> skip_while P z False p e = p + length (takeWhile P (seg z p e))"
proof (induction P z False p e rule: skip_while.induct)
  case (1 P z p e)
  show ?case
  proof (cases "p < e")
    case True
    then show ?thesis using 1 seg_Cons [OF True 1(2)] by (subst skip_while.simps) (simp add: incr_of_def)
  next
    case False
    then show ?thesis by (subst skip_while.simps) simp
  qed
qed

lemma digit_range: "0x30 \<le> c \<and> c \<le> (0x39 :: u8) \<longleftrightarrow> sqlite3Isdigit c"
  by (simp add: Isdigit_iff word_le_nat_alt)

lemma digit_word: "sqlite3Isdigit c \<Longrightarrow> (ucast c :: u64) - 0x30 = of_nat (unat c - 48)"
  by (simp add: Isdigit_iff of_nat_diff unsigned_ucast_eq)

lemma atoi_digits_narrow:
  "e \<le> length z \<Longrightarrow> atoi_digits z False p e i u =
     (let ds = takeWhile sqlite3Isdigit (seg z (p + i) e)
      in (i + length ds, u * 10 ^ length ds + of_nat (dec_value ds)))"
proof (induction z False p e i u rule: atoi_digits.induct)
  case (1 z p e i u)
  show ?case
  proof (cases "p + i < e \<and> sqlite3Isdigit (at z (p + i))")
    case True
    let ?c = "at z (p + i)" and ?ds = "takeWhile sqlite3Isdigit (seg z (p + i + 1) e)"
    have sg: "seg z (p + i) e = ?c # seg z (p + i + 1) e" using seg_Cons [of "p + i" e z] True 1(2) by simp
    have "atoi_digits z False p e i u = atoi_digits z False p e (i + 1) (u * 10 + ucast ?c - 0x30)"
      using True by (subst atoi_digits.simps) (auto simp: digit_range [symmetric] incr_of_def)
    also have "\<dots> = (i + 1 + length ?ds, (u * 10 + ucast ?c - 0x30) * 10 ^ length ?ds + of_nat (dec_value ?ds))"
      using 1(1) [OF _ 1(2)] True by (simp add: digit_range [symmetric] incr_of_def Let_def add.assoc)
    also have "(u * 10 + ucast ?c - 0x30) * 10 ^ length ?ds + of_nat (dec_value ?ds) =
        u * 10 ^ length (?c # ?ds) + of_nat (dec_value (?c # ?ds))"
    proof -
      have eq: "u * 10 + ucast ?c - 0x30 = u * 10 + of_nat (unat ?c - 48)"
        using digit_word [of ?c] True by (simp add: add_diff_eq [symmetric])
      show ?thesis unfolding dec_value_Cons eq by (simp add: distrib_right mult.assoc)
    qed
    finally show ?thesis using True sg by (simp add: Let_def)
  next
    case False
    have "takeWhile sqlite3Isdigit (seg z (p + i) e) = []"
      using False seg_Cons [of "p + i" e z] 1(2) by (cases "p + i < e") auto
    moreover have "atoi_digits z False p e i u = (i, u)"
      using False by (subst atoi_digits.simps) (auto simp: digit_range [symmetric])
    ultimately show ?thesis by simp
  qed
qed

lemma atoi_tail_narrow:
  "e \<le> length z \<Longrightarrow> jj < e \<Longrightarrow>
   atoi_tail z False jj e = (if \<exists>c\<in>set (seg z jj e). \<not> sqlite3Isspace c then 1 else 0)"
proof (induction z False jj e rule: atoi_tail.induct)
  case (1 z jj e)
  note sg = seg_Cons [OF 1(3,2)]
  show ?case
  proof (cases "sqlite3Isspace (at z jj) \<and> jj + 1 < e")
    case True
    then show ?thesis using 1 sg by (subst atoi_tail.simps) (simp add: incr_of_def)
  next
    case False
    then show ?thesis using 1(2,3) sg by (subst atoi_tail.simps) (auto simp: incr_of_def)
  qed
qed

text \<open>Comparing 19 digits with \<open>2 ^ 63\<close>.\<close>

lemma pow63_loop_seg:
  assumes "length es = length ds" "\<forall>k<length es. at z (p + k) = es ! k" "\<forall>c\<in>set es. sqlite3Isdigit c"
    and "\<forall>d\<in>set ds. 48 \<le> d \<and> d \<le> 57"
  shows "(pow63_loop ds z p 1 < 0 \<longleftrightarrow> dec_value es < dec_value (map of_nat ds)) \<and>
    (pow63_loop ds z p 1 = 0 \<longleftrightarrow> dec_value es = dec_value (map of_nat ds))"
  using assms
proof (induction ds arbitrary: es p)
  case (Cons d ds)
  obtain c es' where es: "es = c # es'" using Cons.prems(1) by (cases es) auto
  have c: "at z p = c" using Cons.prems(2) es by (auto dest: spec [of _ 0])
  have tl: "\<forall>k<length es'. at z (p + 1 + k) = es' ! k"
    using Cons.prems(2) es by (auto dest: spec [of _ "Suc _"])
  have d: "unat (of_nat d :: u8) = d" using Cons.prems(4) by (simp add: unat_of_nat)
  have less: "dec_value es' < 10 ^ length es'" "dec_value (map of_nat ds) < 10 ^ length es'"
    using dec_value_less [of es'] dec_value_less [of "map of_nat ds"] Cons.prems es
    by (auto simp: Isdigit_iff unat_of_nat mod_less [of _ 256, OF order_le_less_trans [of _ 57]])
  show ?case
  proof (cases "unat c = d")
    case True
    then have "c = of_nat d" using d by (simp add: word_unat_eq_iff)
    moreover have "pow63_loop (d # ds) z p 1 = pow63_loop ds z (p + 1) 1" using c True by simp
    ultimately show ?thesis
      using Cons.IH [of es' "p + 1"] Cons.prems es tl d by (auto simp: dec_value_Cons)
  next
    case False
    then have "uint c \<noteq> int d" by (metis nat_int unat_eq_nat_uint)
    then have loop: "pow63_loop (d # ds) z p 1 = (int (unat c) - int d) * 10" using c by simp
    have "(x - y) * 10 < 0 \<longleftrightarrow> x < y" "(x - y) * 10 = 0 \<longleftrightarrow> x = y" for x y :: int by auto
    then have sgn: "pow63_loop (d # ds) z p 1 < 0 \<longleftrightarrow> unat c < d" "pow63_loop (d # ds) z p 1 \<noteq> 0"
      unfolding loop using False by (simp_all only: of_nat_less_iff of_nat_eq_iff) simp
    have cd: "48 \<le> unat c" "48 \<le> d" using Cons.prems es by (auto simp: Isdigit_iff)
    have len: "length ds = length es'" using Cons.prems(1) es by simp
    show ?thesis
    proof (cases "unat c < d")
      case True
      have "(unat c - 48) * 10 ^ length es' + 10 ^ length es' \<le> (d - 48) * 10 ^ length es'"
        using True cd mult_le_mono1 [of "unat c - 48 + 1" "d - 48" "10 ^ length es'"] by (simp add: algebra_simps)
      then show ?thesis unfolding es using sgn True less d len by (simp add: dec_value_Cons del: pow63_loop.simps)
    next
      case ge: False
      have "(d - 48) * 10 ^ length es' + 10 ^ length es' \<le> (unat c - 48) * 10 ^ length es'"
        using ge False cd mult_le_mono1 [of "d - 48 + 1" "unat c - 48" "10 ^ length es'"] by (simp add: algebra_simps)
      then show ?thesis unfolding es using sgn ge less d len by (simp add: dec_value_Cons del: pow63_loop.simps)
    qed
  qed
qed simp

lemma pow63_digits: "length pow63 = 18" "\<forall>d\<in>set pow63. 48 \<le> d \<and> d \<le> 57"
  "dec_value (map of_nat pow63) = 922337203685477580"
  by (simp_all add: pow63_def dec_value_def)

lemma compare2pow63_value:
  assumes "length es = 19" "\<forall>k<19. at z (p + k) = es ! k" "\<forall>c\<in>set es. sqlite3Isdigit c"
  shows "(compare2pow63 z p 1 < 0 \<longleftrightarrow> dec_value es < 2 ^ 63) \<and> (compare2pow63 z p 1 = 0 \<longleftrightarrow> dec_value es = 2 ^ 63)"
proof -
  obtain fs l where es: "es = fs @ [l]" "length fs = 18" using assms(1) by (cases es rule: rev_cases) auto
  have l: "at z (p + 18) = l" "48 \<le> unat l" "unat l \<le> 57"
    using assms(2,3) es nth_append_length [of fs l "[]"] by (auto simp: Isdigit_iff)
  have fs: "\<forall>k<length fs. at z (p + k) = fs ! k" "\<forall>c\<in>set fs. sqlite3Isdigit c"
    using assms(2,3) es by (auto simp: nth_append)
  have "length fs = length pow63" using es(2) pow63_digits(1) by simp
  note loop = pow63_loop_seg [OF this fs pow63_digits(2), unfolded pow63_digits(3)]
  define v c where "v = dec_value fs" and "c = pow63_loop pow63 z p 1"
  have v: "dec_value es = 10 * v + (unat l - 48)" unfolding es v_def by (rule dec_value_snoc)
  have c: "c < 0 \<longleftrightarrow> v < 922337203685477580" "c = 0 \<longleftrightarrow> v = 922337203685477580"
    using loop unfolding c_def v_def by blast+
  have cmp: "compare2pow63 z p 1 = (if c = 0 then int (unat l) - 56 else c)"
    unfolding compare2pow63_def c_def Let_def using l(1) by simp
  have last: "int (unat l) - 56 < 0 \<longleftrightarrow> unat l < 56" "int (unat l) - 56 = 0 \<longleftrightarrow> unat l = 56" by linarith+
  have 263: "(2 :: nat) ^ 63 = 9223372036854775808" by simp
  show ?thesis
  proof (cases "c = 0")
    case True
    then show ?thesis unfolding cmp v 263 using c(2) last l(2,3) by auto
  next
    case False
    then have "c < 0 \<longleftrightarrow> 10 * v + (unat l - 48) < 9223372036854775808" "10 * v + (unat l - 48) \<noteq> 9223372036854775808"
      using c l(2,3) by linarith+
    then show ?thesis unfolding cmp v 263 using False by simp
  qed
qed

text \<open>How the number of significant digits bounds the value, and what the accumulator and
  the comparison say about it.\<close>

lemma atoi_range:
  fixes u :: u64
  assumes ds: "\<forall>c\<in>set ds. sqlite3Isdigit c" "ds = [] \<or> hd ds \<noteq> 0x30" "\<forall>k<length ds. at z (p + k) = ds ! k"
    and u: "u = of_nat (dec_value ds)"
  shows "length ds < 19 \<Longrightarrow> dec_value ds < 2 ^ 63 \<and> uint u = int (dec_value ds)"
    "length ds = 19 \<Longrightarrow> uint u = int (dec_value ds) \<and> (compare2pow63 z p 1 < 0 \<longleftrightarrow> dec_value ds < 2 ^ 63) \<and>
      (compare2pow63 z p 1 = 0 \<longleftrightarrow> dec_value ds = 2 ^ 63)"
    "19 < length ds \<Longrightarrow> 2 ^ 63 < dec_value ds"
proof -
  have le: "dec_value ds < 10 ^ 19" if "length ds \<le> 19"
    using dec_value_less [OF ds(1)] power_increasing [OF that, of "10 :: nat"] by linarith
  have uu: "uint u = int (dec_value ds)" if "length ds \<le> 19"
  proof -
    have "dec_value ds < 2 ^ 64" using le [OF that] by simp
    then have "take_bit 64 (dec_value ds) = dec_value ds" by (rule take_bit_nat_eq_self)
    then show ?thesis by (simp add: u unsigned_of_nat)
  qed
  show "dec_value ds < 2 ^ 63 \<and> uint u = int (dec_value ds)" if "length ds < 19"
  proof -
    have "dec_value ds < 10 ^ 18"
      using dec_value_less [OF ds(1)] power_increasing [of "length ds" 18 "10 :: nat"] that by simp
    then show ?thesis using uu that by simp
  qed
  show "uint u = int (dec_value ds) \<and> (compare2pow63 z p 1 < 0 \<longleftrightarrow> dec_value ds < 2 ^ 63) \<and>
      (compare2pow63 z p 1 = 0 \<longleftrightarrow> dec_value ds = 2 ^ 63)" if "length ds = 19"
    using compare2pow63_value [OF that _ ds(1), of z p] ds(3) uu that by simp
  show "2 ^ 63 < dec_value ds" if gt: "19 < length ds"
  proof -
    obtain d es where e: "ds = d # es" using gt by (cases ds) auto
    then have "10 ^ length es \<le> dec_value ds" using dec_value_ge [of d es] ds(1,2) by simp
    moreover have "(10 :: nat) ^ 19 \<le> 10 ^ length es" using gt e by (intro power_increasing) auto
    ultimately show ?thesis by simp
  qed
qed

lemma takeWhile_zeros:
  "takeWhile sqlite3Isdigit xs = takeWhile (\<lambda>c. c = 0x30) xs @ takeWhile sqlite3Isdigit (dropWhile (\<lambda>c. c = 0x30) xs)"
  "dropWhile sqlite3Isdigit xs = dropWhile sqlite3Isdigit (dropWhile (\<lambda>c. c = 0x30) xs)"
  by (induction xs) (auto simp: Isdigit_iff)

lemma seg_after: "seg z (p + length (takeWhile P (seg z p e))) e = dropWhile P (seg z p e)"
  unfolding seg_drop by (simp add: dropWhile_eq_drop)

lemma seg_nth: "e \<le> length z \<Longrightarrow> k < length (seg z p e) \<Longrightarrow> at z (p + k) = seg z p e ! k"
  by (auto simp: seg_def at_def)

lemma seg_hd: "p < e \<Longrightarrow> e \<le> length z \<Longrightarrow> seg z p e \<noteq> [] \<and> hd (seg z p e) = at z p \<and> tl (seg z p e) = seg z (p + 1) e"
  by (simp add: seg_Cons)

text \<open>The decision on overflow, from the digits without leading zeros: the result codes and
  saturated values of the C code are those of the reference.\<close>

lemma atoi_decide:
  fixes u :: u64
  assumes ds: "\<forall>c\<in>set ds. sqlite3Isdigit c" "ds = [] \<or> hd ds \<noteq> 0x30" "\<forall>k<length ds. at z (p + k) = ds ! k"
    and u: "u = of_nat (dec_value ds)"
  shows "(let pNum = (if u > 0x7fffffffffffffff then (if neg then SMALLEST_INT64 else LARGEST_INT64)
                      else if neg then - uint u else uint u)
      in if length ds < 19 then (rc, pNum)
         else let c = (if length ds > 19 then 1 else compare2pow63 z p 1)
           in if c < 0 then (rc, pNum)
              else let pNum = (if neg then SMALLEST_INT64 else LARGEST_INT64)
                in if c > 0 then (2, pNum) else (if neg then rc else 3, pNum)) =
    (let N = int (dec_value ds)
      in if N > 2 ^ 63 then (2, if neg then SMALLEST_INT64 else LARGEST_INT64)
         else if N = 2 ^ 63 then (if neg then (rc, SMALLEST_INT64) else (3, LARGEST_INT64))
         else (rc, if neg then - N else N))"
proof -
  have big: "u > 0x7fffffffffffffff \<longleftrightarrow> uint u > LARGEST_INT64" by (simp add: word_less_def)
  consider "length ds < 19" | "length ds = 19" | "19 < length ds" by linarith
  then show ?thesis
  proof cases
    case 1
    then show ?thesis unfolding Let_def big using atoi_range(1) [OF ds u] by simp
  next
    case 2
    then show ?thesis unfolding Let_def big using atoi_range(2) [OF ds u] by auto
  next
    case 3
    then show ?thesis unfolding Let_def using atoi_range(3) [OF ds u] by simp
  qed
qed

text \<open>The positions: with \<open>p2\<close> behind white space and sign, \<open>s2\<close> the rest of the text, \<open>p3\<close>
  behind the leading zeros and \<open>ds\<close> the digits there.\<close>

lemma atoi_parts:
  fixes p2 :: nat
  assumes n: "n \<le> length z"
  defines "s2 \<equiv> seg z p2 n" and "p3 \<equiv> skip_while (\<lambda>c. c = 0x30) z False p2 n"
  defines "ds \<equiv> takeWhile sqlite3Isdigit (seg z p3 n)"
  shows "atoi_digits z False p3 n 0 0 = (length ds, of_nat (dec_value ds))" (is ?digits)
    and "dec_value (takeWhile sqlite3Isdigit s2) = dec_value ds" (is ?val)
    and "(if length ds = 0 \<and> p2 = p3 then - 1
          else if p3 + length ds < n then atoi_tail z False (p3 + length ds) n else 0) =
      (if takeWhile sqlite3Isdigit s2 = [] then - 1
       else if \<exists>c\<in>set (dropWhile sqlite3Isdigit s2). \<not> sqlite3Isspace c then 1 else 0 :: int)" (is ?rc)
    and "\<forall>c\<in>set ds. sqlite3Isdigit c" "ds = [] \<or> hd ds \<noteq> 0x30" "\<forall>k<length ds. at z (p3 + k) = ds ! k"
proof -
  have s3: "seg z p3 n = dropWhile (\<lambda>c. c = 0x30) s2" "p3 = p2 + length (takeWhile (\<lambda>c. c = 0x30) s2)"
    using seg_after [of z p2 "\<lambda>c. c = 0x30" n] by (simp_all add: p3_def skip_while_narrow [OF n] s2_def)
  show ?digits by (simp add: atoi_digits_narrow [OF n] ds_def Let_def)
  have s4: "seg z (p3 + length ds) n = dropWhile sqlite3Isdigit s2"
    using seg_after [of z p3 sqlite3Isdigit n] s3(1) takeWhile_zeros(2) [of s2] by (simp add: ds_def)
  have all: "takeWhile sqlite3Isdigit s2 = takeWhile (\<lambda>c. c = 0x30) s2 @ ds"
    using takeWhile_zeros(1) [of s2] s3(1) by (simp add: ds_def)
  show ?val unfolding all by (rule dec_value_zeros) (auto dest: set_takeWhileD)
  show ?rc unfolding all using s3(2) atoi_tail_narrow [OF n, of "p3 + length ds"] s4 by (auto simp: seg_def)
  show "\<forall>c\<in>set ds. sqlite3Isdigit c" by (auto simp: ds_def dest: set_takeWhileD)
  show "ds = [] \<or> hd ds \<noteq> 0x30"
  proof (cases "seg z p3 n")
    case (Cons a xs)
    then have "dropWhile (\<lambda>c. c = 0x30) s2 \<noteq> []" using s3(1) by simp
    from hd_dropWhile [OF this] have "a \<noteq> 0x30" using s3(1) Cons by (metis list.sel(1))
    then show ?thesis using Cons by (simp add: ds_def)
  qed (simp add: ds_def)
  show "\<forall>k<length ds. at z (p3 + k) = ds ! k"
    using seg_nth [OF n, of _ p3] by (auto simp: ds_def takeWhile_nth dest: order_less_le_trans [OF _ length_takeWhile_le])
qed

lemma sqlite3Atoi64_ref:
  assumes n: "n \<le> length z"
  shows "sqlite3Atoi64 z n SQLITE_UTF8 = atoi_ref (take n z)"
proof -
  define p1 where "p1 = skip_while sqlite3Isspace z False 0 n"
  define neg where "neg \<longleftrightarrow> p1 < n \<and> at z p1 = 0x2d"
  define p2 where "p2 = (if p1 < n \<and> (at z p1 = 0x2d \<or> at z p1 = 0x2b) then p1 + 1 else p1)"
  have s1: "seg z p1 n = dropWhile sqlite3Isspace (take n z)"
    using seg_after [of z 0 sqlite3Isspace n] by (simp add: p1_def skip_while_narrow [OF n] seg_def)
  have sgn: "(if p1 < n then if at z p1 = 0x2d then (True, p1 + 1)
      else if at z p1 = 0x2b then (False, p1 + 1) else (False, p1) else (False, p1)) = (neg, p2)"
    by (auto simp: neg_def p2_def)
  have ne: "seg z p1 n \<noteq> [] \<longleftrightarrow> p1 < n" using n by (auto simp: seg_def)
  have neg: "dropWhile sqlite3Isspace (take n z) \<noteq> [] \<and> hd (dropWhile sqlite3Isspace (take n z)) = 0x2d \<longleftrightarrow> neg"
    unfolding s1 [symmetric] ne neg_def using seg_hd [OF _ n] by metis
  have s2: "(if dropWhile sqlite3Isspace (take n z) \<noteq> [] \<and> (hd (dropWhile sqlite3Isspace (take n z)) = 0x2d \<or>
        hd (dropWhile sqlite3Isspace (take n z)) = 0x2b) then tl (dropWhile sqlite3Isspace (take n z))
      else dropWhile sqlite3Isspace (take n z)) = seg z p2 n"
    unfolding s1 [symmetric] ne p2_def using seg_hd [OF _ n, of p1] by auto
  note parts = atoi_parts [OF n, of p2]
  have inc: "incr_of False = 1" by (simp add: incr_of_def)
  show ?thesis
    by (simp only: sqlite3Atoi64_def atoi_ref_def Let_def simp_thms not_True_eq_False if_False prod.case
        p1_def [symmetric] inc sgn parts(1,3) mult_1_right neg s2 parts(2)
        atoi_decide [OF parts(4-6) refl, unfolded Let_def])
qed

section \<open>UTF-16 text\<close>

text \<open>The scan for a nonzero high byte, against the reference. Characters are at the offsets
  \<open>b + 2 * k\<close>, their high bytes at \<open>1 - b + 2 * k\<close>.\<close>

lemma utf16_scan_drop2: "utf16_scan z (i + 2) (n + 2) = utf16_scan (drop 2 z) i n + 2"
proof (induction "n - i" arbitrary: i rule: less_induct)
  case less
  then show ?case by (subst (1 2) utf16_scan.simps) auto
qed

lemma utf16_scan_text:
  assumes "b < 2" "2 * m \<le> length z"
  defines "cs \<equiv> fst (utf16_text (b = 1) (take (2 * m) z))"
  shows "utf16_scan z (1 - b) (2 * m) = 1 - b + 2 * length cs \<and> length cs \<le> m \<and>
    snd (utf16_text (b = 1) (take (2 * m) z)) = (length cs < m) \<and>
    (\<forall>k < length cs. at cs k = at z (b + 2 * k))"
  using assms(2) unfolding cs_def
proof (induction m arbitrary: z)
  case 0
  then show ?case using assms(1) by (subst utf16_scan.simps) auto
next
  case (Suc m)
  then obtain x y zs where z: "z = x # y # zs" by (cases z rule: remdups_adj.cases) auto
  let ?cs = "utf16_text (b = 1) (take (2 * m) zs)"
  have IH: "utf16_scan zs (1 - b) (2 * m) = 1 - b + 2 * length (fst ?cs) \<and> length (fst ?cs) \<le> m \<and>
    snd ?cs = (length (fst ?cs) < m) \<and> (\<forall>k < length (fst ?cs). at (fst ?cs) k = at zs (b + 2 * k))"
    using Suc z by simp
  have hi: "at z (1 - b) = (if b = 1 then x else y)" "at z b = (if b = 1 then y else x)"
    using assms(1) z by (auto simp: less_2_cases_iff)
  show ?case
  proof (cases "at z (1 - b) = 0")
    case True
    have "utf16_scan z (1 - b) (2 * Suc m) = utf16_scan z (1 - b + 2) (2 * m + 2)"
      using True assms(1) by (subst utf16_scan.simps) (auto simp: less_2_cases_iff)
    also have "\<dots> = 1 - b + 2 * length (fst ?cs) + 2" using IH z unfolding utf16_scan_drop2 by simp
    finally have sc: "utf16_scan z (1 - b) (2 * Suc m) = 1 - b + 2 * Suc (length (fst ?cs))" by simp
    have tx: "utf16_text (b = 1) (take (2 * Suc m) z) = (at z b # fst ?cs, snd ?cs)"
      using True hi z by (auto simp: split_beta)
    have "at (at z b # fst ?cs) k = at z (b + 2 * k)" if "k < Suc (length (fst ?cs))" for k
      using IH that z by (cases k) auto
    then show ?thesis using sc IH unfolding tx by simp
  next
    case False
    then have "utf16_text (b = 1) (take (2 * Suc m) z) = ([], True)" using hi z by auto
    moreover have "utf16_scan z (1 - b) (2 * Suc m) = 1 - b" using False by (subst utf16_scan.simps) simp
    ultimately show ?thesis by simp
  qed
qed

text \<open>The loops with stride two over the buffer are the loops with stride one over the characters.\<close>

definition strided :: "bytes \<Rightarrow> nat \<Rightarrow> bytes \<Rightarrow> bool" where
  "strided z b cs \<longleftrightarrow> (\<forall>k < length cs. at z (b + 2 * k) = at cs k)"

lemma strided_at: "strided z b cs \<Longrightarrow> k < length cs \<Longrightarrow> at z (b + 2 * k) = at cs k"
  by (simp add: strided_def)

lemma skip_while_wide:
  "strided z b cs \<Longrightarrow> skip_while P z True (b + 2 * p) (b + 2 * length cs) = b + 2 * skip_while P cs False p (length cs)"
proof (induction P cs False p "length cs" rule: skip_while.induct)
  case (1 P cs p)
  have "skip_while P z True (b + 2 * p + 2) (b + 2 * length cs) = b + 2 * skip_while P cs False (p + 1) (length cs)"
    if "p < length cs" "P (at cs p)" using 1 that by (simp add: incr_of_def)
  then show ?case using 1(2)
    by (subst (1 2) skip_while.simps) (auto simp: incr_of_def strided_def)
qed

lemma atoi_digits_wide:
  assumes "strided z b cs"
  shows "atoi_digits z True (b + 2 * p) (b + 2 * length cs) (2 * i) u =
    (case atoi_digits cs False p (length cs) i u of (i', u') \<Rightarrow> (2 * i', u'))"
  using assms
proof (induction cs False p "length cs" i u rule: atoi_digits.induct)
  case (1 cs p i u)
  have e: "at z (b + 2 * p + 2 * i) = at cs (p + i)" if "p + i < length cs"
    using strided_at [OF 1(2) that] by (simp add: add.assoc)
  show ?case
  proof (cases "p + i < length cs \<and> at cs (p + i) \<ge> 0x30 \<and> at cs (p + i) \<le> 0x39")
    case True
    then show ?thesis using 1 e by (subst (1 2) atoi_digits.simps) (simp add: incr_of_def)
  next
    case False
    then show ?thesis using e by (subst (1 2) atoi_digits.simps) auto
  qed
qed

lemma atoi_tail_wide:
  "strided z b cs \<Longrightarrow> j < length cs \<Longrightarrow> atoi_tail z True (b + 2 * j) (b + 2 * length cs) = atoi_tail cs False j (length cs)"
proof (induction cs False j "length cs" rule: atoi_tail.induct)
  case (1 cs j)
  then have "at z (b + 2 * j) = at cs j" by (simp add: strided_def)
  moreover have "atoi_tail z True (b + 2 * j + 2) (b + 2 * length cs) = atoi_tail cs False (j + 1) (length cs)"
    if "sqlite3Isspace (at cs j)" "j + 1 < length cs" using 1 that by (simp add: incr_of_def)
  ultimately show ?case by (subst (1 2) atoi_tail.simps) (auto simp: incr_of_def)
qed

lemma pow63_loop_wide:
  "strided z b cs \<Longrightarrow> p + length ds \<le> length cs \<Longrightarrow> pow63_loop ds z (b + 2 * p) 2 = pow63_loop ds cs p 1"
proof (induction ds arbitrary: p)
  case (Cons d ds)
  then have "at z (b + 2 * p) = at cs p" by (simp add: strided_def)
  moreover have "pow63_loop ds z (b + 2 * p + 2) 2 = pow63_loop ds cs (p + 1) 1" using Cons(1) [of "Suc p"] Cons(2,3) by simp
  ultimately show ?case by (simp add: Let_def)
qed simp

lemma compare2pow63_wide:
  assumes "strided z b cs" "p + 19 \<le> length cs"
  shows "compare2pow63 z (b + 2 * p) 2 = compare2pow63 cs p 1"
proof -
  have "length pow63 = 18" by (simp add: pow63_def)
  moreover have "at z (b + 2 * p + 36) = at cs (p + 18)" using strided_at [OF assms(1), of "p + 18"] assms(2) by (simp add: add.assoc)
  ultimately show ?thesis using pow63_loop_wide [OF assms(1), of p pow63] assms(2)
    by (simp add: compare2pow63_def Let_def)
qed

lemma atoi_digits_bound: "atoi_digits z False p zEnd i u = (j, v) \<Longrightarrow> j = i \<or> p + j \<le> zEnd"
proof (induction z False p zEnd i u rule: atoi_digits.induct)
  case (1 z p zEnd i u)
  then show ?case
    by (subst (asm) (2) atoi_digits.simps) (fastforce simp: incr_of_def split: if_splits)
qed

lemma atoi_tail_01: "atoi_tail z wide j zEnd = 0 \<or> atoi_tail z wide j zEnd = 1"
  by (induction z wide j zEnd rule: atoi_tail.induct) (subst (1 2) atoi_tail.simps, auto)

lemma utf16_text_even: "utf16_text be (take (2 * (length zs div 2)) zs) = utf16_text be zs"
  by (induction be zs rule: utf16_text.induct) (auto simp: split_beta)

text \<open>The UTF-16 run is the UTF-8 run over the characters, except that a nonzero high byte
  turns the code of a clean end into that of trailing text.\<close>

lemma sqlite3Atoi64_wide:
  assumes "enc = SQLITE_UTF16LE \<or> enc = SQLITE_UTF16BE"
    and b: "enc AND 1 = b" and cs: "strided z b cs"
    and sc: "utf16_scan z (3 - enc) (len - len mod 2) XOR 1 = b + 2 * length cs"
  defines "nonNum \<equiv> utf16_scan z (3 - enc) (len - len mod 2) < len - len mod 2"
  shows "sqlite3Atoi64 z len enc =
    (case sqlite3Atoi64 cs (length cs) SQLITE_UTF8 of (rc, v) \<Rightarrow> (if nonNum \<and> rc = 0 then 1 else rc, v))"
proof -
  let ?n = "length cs"
  define p1 where "p1 = skip_while sqlite3Isspace cs False 0 ?n"
  define neg where "neg \<longleftrightarrow> p1 < ?n \<and> at cs p1 = 0x2d"
  define p2 where "p2 = (if p1 < ?n \<and> (at cs p1 = 0x2d \<or> at cs p1 = 0x2b) then p1 + 1 else p1)"
  define p3 where "p3 = skip_while (\<lambda>c. c = 0x30) cs False p2 ?n"
  obtain i u where iu: "atoi_digits cs False p3 ?n 0 0 = (i, u)" by (cases "atoi_digits cs False p3 ?n 0 0")
  have wide: "(enc \<noteq> SQLITE_UTF8) = True" using assms(1) by auto
  have inc: "incr_of True = 2" "incr_of False = 1" by (simp_all add: incr_of_def)
  have s1: "skip_while sqlite3Isspace z True b (b + 2 * ?n) = b + 2 * p1"
    using skip_while_wide [OF cs, of sqlite3Isspace 0] by (simp add: p1_def)
  have g1: "(if b + 2 * p1 < b + 2 * ?n then if at z (b + 2 * p1) = 0x2d then (True, b + 2 * p1 + 2)
      else if at z (b + 2 * p1) = 0x2b then (False, b + 2 * p1 + 2) else (False, b + 2 * p1)
      else (False, b + 2 * p1)) = (neg, b + 2 * p2)"
    using strided_at [OF cs, of p1] by (auto simp: neg_def p2_def)
  have g2: "(if p1 < ?n then if at cs p1 = 0x2d then (True, p1 + 1)
      else if at cs p1 = 0x2b then (False, p1 + 1) else (False, p1) else (False, p1)) = (neg, p2)"
    by (auto simp: neg_def p2_def)
  have s2: "skip_while (\<lambda>c. c = 0x30) z True (b + 2 * p2) (b + 2 * ?n) = b + 2 * p3"
    unfolding p3_def by (rule skip_while_wide [OF cs])
  have d: "atoi_digits z True (b + 2 * p3) (b + 2 * ?n) 0 0 = (2 * i, u)"
    using atoi_digits_wide [OF cs, of p3 0 0] iu by simp
  have t: "b + 2 * p3 + 2 * i < b + 2 * ?n \<longleftrightarrow> p3 + i < ?n"
    "p3 + i < ?n \<Longrightarrow> atoi_tail z True (b + 2 * p3 + 2 * i) (b + 2 * ?n) = atoi_tail cs False (p3 + i) ?n"
    using atoi_tail_wide [OF cs, of "p3 + i"] by (auto simp: add.assoc)
  have z: "2 * i = 0 \<and> b + 2 * p2 = b + 2 * p3 \<longleftrightarrow> i = 0 \<and> p2 = p3" "2 * i < 19 * 2 \<longleftrightarrow> i < 19 * 1"
    "2 * i > 19 * 2 \<longleftrightarrow> i > 19 * 1" by auto
  have c: "compare2pow63 z (b + 2 * p3) 2 = compare2pow63 cs p3 1" if "\<not> i < 19 * 1" "\<not> i > 19 * 1"
  proof (rule compare2pow63_wide [OF cs])
    have "i = 19" using that by simp
    then show "p3 + 19 \<le> ?n" using atoi_digits_bound [OF iu] by auto
  qed
  show ?thesis
    unfolding sqlite3Atoi64_def Let_def wide if_True prod.case b sc s1 g1 s2 d inc nonNum_def [symmetric] z t(1)
      p1_def [symmetric] g2 p3_def [symmetric] iu simp_thms not_True_eq_False if_False
    using t(2) c atoi_tail_01 [of cs False "p3 + i" ?n] by auto
qed

lemma atoi_xor: "b < 2 \<Longrightarrow> (1 - b + 2 * n) XOR 1 = b + 2 * (n :: nat)"
  using xor_one_eq [of "2 * n"] xor_one_eq [of "1 + 2 * n"] by (auto simp: less_2_cases_iff)

lemma sqlite3Atoi64_ref16:
  assumes "enc = SQLITE_UTF16LE \<or> enc = SQLITE_UTF16BE" "len \<le> length z"
  shows "sqlite3Atoi64 z len enc = atoi16_ref (enc = SQLITE_UTF16BE) (take len z)"
proof -
  define b where "b = enc AND 1"
  define m where "m = len div 2"
  have b: "b < 2" "3 - enc = 1 - b" "(b = 1) = (enc = SQLITE_UTF16BE)"
    using assms(1) by (auto simp: b_def)
  have m: "len - len mod 2 = 2 * m" "2 * m \<le> length z"
    using assms(2) by (auto simp: m_def minus_mod_eq_mult_div)
  have "utf16_text (b = 1) (take (2 * m) z) = utf16_text (b = 1) (take len z)"
    using utf16_text_even [of "b = 1" "take len z"] assms(2) by (simp add: m_def min_absorb1 min_absorb2)
  then obtain cs nn where u: "utf16_text (b = 1) (take (2 * m) z) = (cs, nn)" "utf16_text (enc = SQLITE_UTF16BE) (take len z) = (cs, nn)"
    unfolding b(3) by (metis surj_pair)
  have sp: "utf16_scan z (1 - b) (2 * m) = 1 - b + 2 * length cs" "length cs \<le> m" "nn = (length cs < m)"
    "strided z b cs" using utf16_scan_text [OF b(1) m(2)] u(1) by (simp_all add: strided_def)
  have nn: "1 - b + 2 * length cs < 2 * m \<longleftrightarrow> nn" using sp(2,3) b(1) by (auto simp: less_2_cases_iff)
  have "utf16_scan z (3 - enc) (len - len mod 2) XOR 1 = b + 2 * length cs"
    unfolding m(1) b(2) sp(1) by (rule atoi_xor [OF b(1)])
  from sqlite3Atoi64_wide [OF assms(1) b_def [symmetric] sp(4) this]
  show ?thesis
    unfolding atoi16_ref_def u(2) m(1) b(2) sp(1) nn sqlite3Atoi64_ref [OF order_refl] by (simp add: split_beta)
qed

section \<open>Rendering\<close>

lemma text_digits_spec:
  "\<exists>ds. text_digits x acc = ds @ acc \<and> ds \<noteq> [] \<and> (\<forall>c\<in>set ds. sqlite3Isdigit c) \<and> dec_value ds = x \<and>
     (hd ds = 0x30 \<longrightarrow> x = 0) \<and> (\<forall>k. x < 10 ^ Suc k \<longrightarrow> length ds \<le> Suc k)"
proof (induction x acc rule: text_digits.induct)
  case (1 x acc)
  let ?c = "of_nat (x mod 10) + 0x30 :: u8"
  have c: "unat ?c = x mod 10 + 48" by (simp add: unat_word_ariths unat_of_nat)
  then have dig: "sqlite3Isdigit ?c" "dec_value [?c] = x mod 10" by (auto simp: Isdigit_iff dec_value_def)
  show ?case
  proof (cases "x div 10 = 0")
    case True
    then have x: "x mod 10 = x" by (simp add: div_eq_0_iff)
    have "?c = 0x30 \<longrightarrow> x = 0" using c x by auto
    moreover have "text_digits x acc = [?c] @ acc" using True by (subst text_digits.simps) simp
    ultimately show ?thesis using dig x by (intro exI [of _ "[?c]"]) auto
  next
    case False
    then obtain ds where ds: "text_digits (x div 10) (?c # acc) = ds @ ?c # acc" "ds \<noteq> []"
      "\<forall>c\<in>set ds. sqlite3Isdigit c" "dec_value ds = x div 10" "hd ds = 0x30 \<longrightarrow> x div 10 = 0"
      "\<forall>k. x div 10 < 10 ^ Suc k \<longrightarrow> length ds \<le> Suc k" using 1 [OF refl refl] by blast
    have "length (ds @ [?c]) \<le> Suc k" if "x < 10 ^ Suc k" for k
    proof (cases k)
      case 0
      then show ?thesis using that False by simp
    next
      case (Suc j)
      then have "x div 10 < 10 ^ Suc j" using that by (simp add: div_less_iff_less_mult mult.commute)
      then show ?thesis using ds(6) Suc by simp
    qed
    moreover have "text_digits x acc = (ds @ [?c]) @ acc" using False ds(1) by (subst text_digits.simps) (simp add: Let_def)
    moreover have "dec_value (ds @ [?c]) = x" using ds(4) c by (simp add: dec_value_snoc)
    ultimately show ?thesis using ds dig False by (intro exI [of _ "ds @ [?c]"]) auto
  qed
qed

lemma text_digits_0:
  obtains ds where "text_digits x [] = ds" "ds \<noteq> []" "\<forall>c\<in>set ds. sqlite3Isdigit c" "dec_value ds = x"
    "hd ds = 0x30 \<Longrightarrow> x = 0" "x < 10 ^ 19 \<Longrightarrow> length ds \<le> 19"
  using text_digits_spec [of x "[]"] that by (auto dest: spec [of _ 18])

lemma Int64ToText_abs: "is_i64 v \<Longrightarrow> sqlite3Int64ToText v = (if v < 0 then [0x2d] else []) @ text_digits (nat \<bar>v\<bar>) []"
  by (auto simp: sqlite3Int64ToText_def Let_def)

lemma atoi_ref_digits:
  assumes "ds \<noteq> []" "\<forall>c\<in>set ds. sqlite3Isdigit c"
  shows "dec_value ds < 2 ^ 63 \<Longrightarrow> atoi_ref ds = (0, int (dec_value ds))"
    and "dec_value ds \<le> 2 ^ 63 \<Longrightarrow> atoi_ref (0x2d # ds) = (0, - int (dec_value ds))"
proof -
  have first: "hd ds \<noteq> 0x2d" "hd ds \<noteq> 0x2b" "\<not> sqlite3Isspace (hd ds)"
    using bspec [OF assms(2) hd_in_set [OF assms(1)]] by (auto simp: Isdigit_iff Isspace_iff)
  then have dw: "dropWhile sqlite3Isspace ds = ds" using assms(1) by (cases ds) auto
  have tw: "takeWhile sqlite3Isdigit ds = ds" "dropWhile sqlite3Isdigit ds = []" using assms(2) by simp_all
  have sp: "\<not> sqlite3Isspace 0x2d" by (simp add: Isspace_iff)
  show "dec_value ds < 2 ^ 63 \<Longrightarrow> atoi_ref ds = (0, int (dec_value ds))"
    using first assms(1) by (simp add: atoi_ref_def Let_def dw tw)
  show "dec_value ds \<le> 2 ^ 63 \<Longrightarrow> atoi_ref (0x2d # ds) = (0, - int (dec_value ds))"
    using sp assms(1) by (simp add: atoi_ref_def Let_def tw)
qed

lemma atoi_ref_text:
  assumes "is_i64 v"
  shows "atoi_ref (sqlite3Int64ToText v) = (0, v)"
proof -
  obtain ds where ds: "text_digits (nat \<bar>v\<bar>) [] = ds" "ds \<noteq> []" "\<forall>c\<in>set ds. sqlite3Isdigit c" "dec_value ds = nat \<bar>v\<bar>"
    by (rule text_digits_0)
  note t = Int64ToText_abs [OF assms, unfolded ds(1)]
  show ?thesis
  proof (cases "v < 0")
    case True
    have "nat \<bar>v\<bar> \<le> 2 ^ 63" using assms by (simp add: is_i64_def nat_le_iff abs_le_iff)
    then show ?thesis using True atoi_ref_digits(2) [OF ds(2,3)] ds(4) t by simp
  next
    case False
    have "nat \<bar>v\<bar> < 2 ^ 63" using assms False by (simp add: is_i64_def nat_less_iff)
    then show ?thesis using False atoi_ref_digits(1) [OF ds(2,3)] ds(4) t by simp
  qed
qed

text \<open>C25. \<^verbatim>\<open>sqlite3Atoi64\<close> is the reference parser in all three encodings: it skips white space,
  takes a sign, and returns the value of all the digits that follow, saturated to 64
  bits. The result code tells text without digits (-1), a number followed by other text
  (1), a value above \<open>2 ^ 63\<close> (2) and exactly \<open>2 ^ 63\<close> without a minus sign (3), although the C code
  only accumulates the value modulo \<open>2 ^ 64\<close> and compares characters. In UTF-16 the text is
  that of the low bytes up to the first character with a nonzero high byte, such a
  character counts as text behind the number, and an odd last byte is ignored.\<close>

theorem sqlite3Atoi64_reference:
  assumes "len \<le> length zNum" "enc \<in> {SQLITE_UTF8, SQLITE_UTF16LE, SQLITE_UTF16BE}"
  shows "sqlite3Atoi64 zNum len enc =
    (if enc = SQLITE_UTF8 then atoi_ref (take len zNum)
     else atoi16_ref (enc = SQLITE_UTF16BE) (take len zNum))"
  using sqlite3Atoi64_ref [OF assms(1)] sqlite3Atoi64_ref16 [OF _ assms(1)] assms(2) by auto

theorem sqlite3Atoi64_reference_witness:
  "sqlite3Atoi64 [0x20, 0x2d, 0x34, 0x32, 0x78] 5 SQLITE_UTF8 = (1, - 42) \<and>
   sqlite3Atoi64 [0x2d, 0, 0x34, 0, 0x32, 0, 0x32, 1] 8 SQLITE_UTF16LE = (1, - 42) \<and>
   sqlite3Atoi64 [0, 0x20, 0, 0x34, 0, 0x32, 0] 7 SQLITE_UTF16BE = (0, 42)"
proof -
  have "atoi_ref [0x20, 0x2d, 0x34, 0x32, 0x78] = (1, - 42)"
    "atoi16_ref False [0x2d, 0, 0x34, 0, 0x32, 0, 0x32, 1] = (1, - 42)"
    "atoi16_ref True [0, 0x20, 0, 0x34, 0, 0x32, 0] = (0, 42)" by code_simp+
  then show ?thesis
    using sqlite3Atoi64_reference [of 5 "[0x20, 0x2d, 0x34, 0x32, 0x78]" SQLITE_UTF8]
      sqlite3Atoi64_reference [of 8 "[0x2d, 0, 0x34, 0, 0x32, 0, 0x32, 1]" SQLITE_UTF16LE]
      sqlite3Atoi64_reference [of 7 "[0, 0x20, 0, 0x34, 0, 0x32, 0]" SQLITE_UTF16BE] by simp
qed

text \<open>C29. Rendering a 64-bit integer takes at most 20 bytes, and parsing the text gives the
  integer back, for every value from \<open>- 2 ^ 63\<close> to \<open>2 ^ 63 - 1\<close>.\<close>

theorem Int64ToText_roundtrip:
  assumes "is_i64 v"
  shows "length (sqlite3Int64ToText v) \<le> 20 \<and>
    sqlite3Atoi64 (sqlite3Int64ToText v) (length (sqlite3Int64ToText v)) SQLITE_UTF8 = (0, v)"
proof -
  have "nat \<bar>v\<bar> < 10 ^ 19" using assms by (simp add: is_i64_def nat_less_iff abs_less_iff)
  then have "length (text_digits (nat \<bar>v\<bar>) []) \<le> 19" using text_digits_0 [of "nat \<bar>v\<bar>"] by metis
  then have "length (sqlite3Int64ToText v) \<le> 20" by (auto simp: Int64ToText_abs [OF assms])
  moreover have "sqlite3Atoi64 z (length z) SQLITE_UTF8 = atoi_ref z" for z using sqlite3Atoi64_ref [of "length z" z] by simp
  ultimately show ?thesis using atoi_ref_text [OF assms] by simp
qed

theorem Int64ToText_roundtrip_witness:
  "is_i64 (- 9223372036854775808) \<and> sqlite3Atoi64 (sqlite3Int64ToText (- 9223372036854775808))
     (length (sqlite3Int64ToText (- 9223372036854775808))) SQLITE_UTF8 = (0, - 9223372036854775808)"
proof -
  have "is_i64 (- 9223372036854775808)" by (simp add: is_i64_def)
  then show ?thesis using Int64ToText_roundtrip [of "- 9223372036854775808"] by blast
qed

section \<open>Blob literals\<close>

lemma hexdigits_ok: "map sqlite3HexToInt hexdigits = map of_nat [0..<16]"
  by code_simp

lemma HexToInt_digit: "x AND 0xf = x \<Longrightarrow> sqlite3HexToInt (hexdigits ! unat x) = x"
proof -
  assume "x AND 0xf = x"
  then have "unat x < 16" using word_and_le1 [of x 15] by (simp add: word_le_nat_alt)
  moreover have "length hexdigits = 16" by (simp add: hexdigits_def)
  ultimately show ?thesis using arg_cong [OF hexdigits_ok, of "\<lambda>l. l ! unat x"] by simp
qed

lemma nibbles: "push_bit 4 (drop_bit 4 c AND 0xf) OR (c AND 0xf) = (c :: u8)"
  by (rule u8_bit_eqI) (simp add: bit_or_iff bit_and_iff bit_push_bit_iff bit_drop_bit_eq)

lemma hex_pairs_shift: "hex_pairs (x # y # z) k (i + 2) = hex_pairs z k i"
  by (induction k arbitrary: i) (auto simp: numeral_2_eq_2)

lemma hex_pairs_hexFunc: "hex_pairs (hexFunc b @ rest) (length b) 0 = b"
proof (induction b)
  case (Cons c b)
  then show ?case using hex_pairs_shift [of _ _ "hexFunc b @ rest" "length b" 0]
      nibbles [of c] by (simp add: HexToInt_digit and.assoc)
qed simp

lemma length_hexFunc: "length (hexFunc b) = 2 * length b"
  by (induction b) auto

text \<open>C38. The text that SQL \<^verbatim>\<open>hex()\<close> makes of a blob, read back as the digits of a blob
  literal (followed by the closing quote), is the blob.\<close>

theorem HexToBlob_hexFunc:
  "sqlite3HexToBlob (hexFunc b @ [0x27]) (length (hexFunc b)) = b"
  by (simp add: sqlite3HexToBlob_def length_hexFunc hex_pairs_hexFunc)

section \<open>32-bit integers\<close>

lemma int32_digits_spec:
  assumes "\<forall>k<length ds. at z (p + k) = ds ! k" "\<not> sqlite3Isdigit (at z (p + length ds))"
    "\<forall>c\<in>set ds. sqlite3Isdigit c" "i \<le> length ds"
  shows "int32_digits z p n i (int (dec_value (take i ds))) =
    (min (i + n) (length ds), int (dec_value (take (i + n) ds)))"
  using assms(4)
proof (induction n arbitrary: i)
  case (Suc n)
  show ?case
  proof (cases "i < length ds")
    case True
    let ?c = "ds ! i"
    have c: "at z (p + i) = ?c" "sqlite3Isdigit ?c" using assms(1,3) True by auto
    have "dec_value (take (Suc i) ds) = 10 * dec_value (take i ds) + (unat ?c - 48)"
      using True by (simp add: take_Suc_conv_app_nth dec_value_snoc)
    then have step: "int (dec_value (take i ds)) * 10 + int (unat ?c - 48) = int (dec_value (take (i + 1) ds))" by simp
    have "int32_digits z p (Suc n) i (int (dec_value (take i ds))) =
        int32_digits z p n (i + 1) (int (dec_value (take (i + 1) ds)))"
      using c(2) digit_range [of ?c] unfolding int32_digits.simps c(1) by (simp only: step simp_thms if_True)
    then show ?thesis using Suc.IH [of "i + 1"] True by simp
  next
    case False
    then have "i = length ds" using Suc.prems by simp
    then show ?thesis using assms(2) digit_range [of "at z (p + i)"] by (auto split: if_splits)
  qed
qed simp

lemma GetInt32_digits:
  assumes ds: "ds \<noteq> []" "\<forall>c\<in>set ds. sqlite3Isdigit c" "hd ds = 0x30 \<Longrightarrow> ds = [0x30]"
  shows "sqlite3GetInt32 ((if neg then [0x2d] else []) @ ds) =
    (if length ds \<le> 10 \<and> int (dec_value ds) - (if neg then 1 else 0) \<le> 2147483647
     then Some (if neg then - int (dec_value ds) else int (dec_value ds)) else None)"
proof -
  define z where "z = (if neg then [0x2d] else []) @ ds"
  define p where "p = (if neg then 1 else 0 :: nat)"
  have at: "at z (p + k) = at ds k" for k by (simp add: z_def p_def)
  have d0: "sqlite3Isdigit (hd ds)" using ds by simp
  have hd: "at z p = hd ds" using at [of 0] ds(1) by (simp add: at_def hd_conv_nth)
  have ne: "hd ds \<noteq> 0x2d" "hd ds \<noteq> 0x2b" using d0 by (auto simp: Isdigit_iff)
  have neg: "at z 0 = 0x2d \<longleftrightarrow> neg" "at z 0 \<noteq> 0x2b" using hd ne by (auto simp: z_def p_def split: if_splits)
  have dec: "\<not> (at z 0 \<noteq> 0x2d \<and> at z 0 \<noteq> 0x2b \<and> at z 0 = 0x30 \<and> (at z 1 = 0x78 \<or> at z 1 = 0x58) \<and> sqlite3Isxdigit (at z 2))"
    using neg(1) hd ds(3) by (auto simp: z_def p_def at_def)
  define es where "es = dropWhile (\<lambda>c. c = 0x30) ds"
  define q where "q = skip_while (\<lambda>c. c = 0x30) z False p (length z)"
  have sg: "seg z p (length z) = ds" by (simp add: seg_def z_def p_def)
  have q: "q = p + length (takeWhile (\<lambda>c. c = 0x30) ds)" by (simp add: q_def skip_while_narrow sg)
  have es: "es = ds \<or> ds = [0x30] \<and> es = []" using ds(1,3) by (cases ds) (auto simp: es_def)
  then have val: "dec_value es = dec_value ds" "length es \<le> 10 \<longleftrightarrow> length ds \<le> 10"
    by (auto simp: dec_value_def)
  have at': "at z (q + k) = at es k" for k
    using at [of "length (takeWhile (\<lambda>c. c = 0x30) ds) + k"] at_drop [of "length (takeWhile (\<lambda>c. c = 0x30) ds)" ds k]
    by (simp add: q es_def dropWhile_eq_drop add.assoc)
  have "int32_digits z q 11 0 0 = (min 11 (length es), int (dec_value (take 11 es)))"
    using int32_digits_spec [of es z q 0 11] at' es ds(2) by (auto simp: at_def Isdigit_iff)
  then show ?thesis
    unfolding z_def [symmetric] sqlite3GetInt32_def Let_def
    using dec neg hd d0 val by (auto simp: p_def [symmetric] q_def [symmetric] min_def split: if_splits)
qed

text \<open>C37. \<^verbatim>\<open>sqlite3GetInt32\<close> on the text of a 64-bit integer succeeds exactly if the integer
  fits in 32 bits, and then returns it.\<close>

theorem GetInt32_text:
  assumes "is_i64 v"
  shows "sqlite3GetInt32 (sqlite3Int64ToText v) =
    (if - 2147483648 \<le> v \<and> v \<le> 2147483647 then Some v else None)"
proof -
  obtain ds where ds: "text_digits (nat \<bar>v\<bar>) [] = ds" "ds \<noteq> []" "\<forall>c\<in>set ds. sqlite3Isdigit c" "dec_value ds = nat \<bar>v\<bar>"
    "hd ds = 0x30 \<longrightarrow> nat \<bar>v\<bar> = 0" "\<forall>k. nat \<bar>v\<bar> < 10 ^ Suc k \<longrightarrow> length ds \<le> Suc k"
    using text_digits_spec [of "nat \<bar>v\<bar>" "[]"] by auto
  have zero: "ds = [0x30]" if "hd ds = 0x30"
  proof -
    have "length ds \<le> 1" using ds(5,6) that by (auto dest: spec [of _ 0])
    then show ?thesis using ds(2) that by (cases ds) auto
  qed
  have fits: "length ds \<le> 10 \<longleftrightarrow> nat \<bar>v\<bar> < 10 ^ 10"
  proof
    assume "length ds \<le> 10"
    then show "nat \<bar>v\<bar> < 10 ^ 10"
      using dec_value_less [OF ds(3)] power_increasing [of "length ds" 10 "10 :: nat"] unfolding ds(4) by linarith
  next
    assume "nat \<bar>v\<bar> < 10 ^ 10"
    then show "length ds \<le> 10" using ds(6) by (auto dest: spec [of _ 9])
  qed
  have "sqlite3GetInt32 (sqlite3Int64ToText v) =
    (if length ds \<le> 10 \<and> int (nat \<bar>v\<bar>) - (if v < 0 then 1 else 0) \<le> 2147483647
     then Some (if v < 0 then - int (nat \<bar>v\<bar>) else int (nat \<bar>v\<bar>)) else None)"
    using GetInt32_digits [of ds "v < 0", OF ds(2,3) zero]
    unfolding Int64ToText_abs [OF assms] ds(1,4) .
  then show ?thesis unfolding fits by (auto simp: nat_less_iff split: if_splits)
qed

theorem GetInt32_text_witness:
  "sqlite3GetInt32 (sqlite3Int64ToText (- 2147483648)) = Some (- 2147483648) \<and>
   sqlite3GetInt32 (sqlite3Int64ToText 2147483648) = None"
proof -
  have "is_i64 (- 2147483648)" "is_i64 2147483648" by (simp_all add: is_i64_def)
  then show ?thesis using GetInt32_text [of "- 2147483648"] GetInt32_text [of 2147483648] by simp
qed

end
