(* ===== verification/IntArith.thy ===== *)
theory IntArith
  imports Prelude "HOL-Library.Signed_Division" "HOL-Library.Log_Nat"
begin

text \<open>
  Integer arithmetic of \<^verbatim>\<open>util.c\<close>: the overflow-checked 64-bit operations in the portable
  form and in the form that uses compiler built-ins, the 32-bit absolute value, and the
  logarithmic estimates of the query planner. A C \<^verbatim>\<open>i64\<close> is an \<open>int\<close>; the theorems take
  its range as a hypothesis.
\<close>

section \<open>Operations\<close>

text \<open>The result is the return value and the value of \<^verbatim>\<open>*pA\<close> afterwards. Division is C
  division, which truncates towards zero.\<close>

definition sqlite3AddInt64 :: "int \<Rightarrow> int \<Rightarrow> bool \<times> int" where
  "sqlite3AddInt64 iA iB =
    (if iB \<ge> 0 then
       (if iA > 0 \<and> LARGEST_INT64 - iA < iB then (True, iA) else (False, iA + iB))
     else
       (if iA < 0 \<and> - (iA + LARGEST_INT64) > iB + 1 then (True, iA) else (False, iA + iB)))"

definition sqlite3SubInt64 :: "int \<Rightarrow> int \<Rightarrow> bool \<times> int" where
  "sqlite3SubInt64 iA iB =
    (if iB = SMALLEST_INT64 then (if iA \<ge> 0 then (True, iA) else (False, iA - iB))
     else sqlite3AddInt64 iA (- iB))"

definition sqlite3MulInt64 :: "int \<Rightarrow> int \<Rightarrow> bool \<times> int" where
  "sqlite3MulInt64 iA iB =
    (if iB > 0 then
       (if iA > LARGEST_INT64 sdiv iB then (True, iA)
        else if iA < SMALLEST_INT64 sdiv iB then (True, iA)
        else (False, iA * iB))
     else if iB < 0 then
       (if iA > 0 then
          (if iB < SMALLEST_INT64 sdiv iA then (True, iA) else (False, iA * iB))
        else if iA < 0 then
          (if iB = SMALLEST_INT64 then (True, iA)
           else if iA = SMALLEST_INT64 then (True, iA)
           else if - iA > LARGEST_INT64 sdiv (- iB) then (True, iA)
           else (False, iA * iB))
        else (False, iA * iB))
     else (False, iA * iB))"

text \<open>The other branch of the \<^verbatim>\<open>#if\<close>: \<^verbatim>\<open>__builtin_add_overflow\<close> and its siblings store the
  result reduced to 64 bits in every case and return whether it was exact.\<close>

definition wrap64 :: "int \<Rightarrow> int" where
  "wrap64 x = (x + 2 ^ 63) mod 2 ^ 64 - 2 ^ 63"

definition builtin_overflow :: "int \<Rightarrow> bool \<times> int" where
  "builtin_overflow x = (\<not> is_i64 x, wrap64 x)"

definition sqlite3AddInt64_builtin :: "int \<Rightarrow> int \<Rightarrow> bool \<times> int" where
  "sqlite3AddInt64_builtin iA iB = builtin_overflow (iA + iB)"

definition sqlite3SubInt64_builtin :: "int \<Rightarrow> int \<Rightarrow> bool \<times> int" where
  "sqlite3SubInt64_builtin iA iB = builtin_overflow (iA - iB)"

definition sqlite3MulInt64_builtin :: "int \<Rightarrow> int \<Rightarrow> bool \<times> int" where
  "sqlite3MulInt64_builtin iA iB = builtin_overflow (iA * iB)"

definition sqlite3AbsInt32 :: "int \<Rightarrow> int" where
  "sqlite3AbsInt32 x = (if x \<ge> 0 then x else if x = - 2147483648 then 2147483647 else - x)"

text \<open>\<^verbatim>\<open>LogEst\<close> values are approximations of \<open>10 * log\<^sub>2 x\<close>. The loops of \<^verbatim>\<open>sqlite3LogEst\<close>:\<close>

definition logest_add_x :: "int list" where
  "logest_add_x = [10, 10, 9, 9, 8, 8, 7, 7, 7, 6, 6, 6, 5, 5, 5, 4, 4, 4, 4, 3, 3, 3, 3, 3, 3,
     2, 2, 2, 2, 2, 2, 2]"

definition sqlite3LogEstAdd :: "int \<Rightarrow> int \<Rightarrow> int" where
  "sqlite3LogEstAdd a b =
    (if a \<ge> b then
       (if a > b + 49 then a else if a > b + 31 then a + 1 else a + logest_add_x ! nat (a - b))
     else
       (if b > a + 49 then b else if b > a + 31 then b + 1 else b + logest_add_x ! nat (b - a)))"

definition logest_a :: "int list" where
  "logest_a = [0, 2, 3, 5, 6, 7, 8, 9]"

function logest_up :: "nat \<Rightarrow> int \<Rightarrow> nat \<times> int" where
  "logest_up x y = (if 0 < x \<and> x < 8 then logest_up (push_bit 1 x) (y - 10) else (x, y))"
  by pat_completeness auto
termination
  by (relation "measure (\<lambda>(x, y). 8 - x)") (auto simp: push_bit_eq_mult)

function logest_down4 :: "nat \<Rightarrow> int \<Rightarrow> nat \<times> int" where
  "logest_down4 x y = (if x > 255 then logest_down4 (drop_bit 4 x) (y + 40) else (x, y))"
  by pat_completeness auto
termination
  by (relation "measure fst") (auto simp: drop_bit_eq_div)

function logest_down1 :: "nat \<Rightarrow> int \<Rightarrow> nat \<times> int" where
  "logest_down1 x y = (if x > 15 then logest_down1 (drop_bit 1 x) (y + 10) else (x, y))"
  by pat_completeness auto
termination
  by (relation "measure fst") (auto simp: drop_bit_eq_div)

declare logest_up.simps [simp del] logest_down4.simps [simp del] logest_down1.simps [simp del]

definition sqlite3LogEst :: "nat \<Rightarrow> int" where
  "sqlite3LogEst x =
    (if x < 2 then 0
     else
       let (x, y) = (if x < 8 then logest_up x 40
                     else case logest_down4 x 40 of (x, y) \<Rightarrow> logest_down1 x y)
       in logest_a ! (x AND 7) + y - 10)"

text \<open>The variant with \<^verbatim>\<open>__builtin_clzll\<close>, the number of leading zero bits.\<close>

definition clzll :: "nat \<Rightarrow> nat" where
  "clzll x = 64 - floorlog 2 x"

definition sqlite3LogEst_clz :: "nat \<Rightarrow> int" where
  "sqlite3LogEst_clz x =
    (if x < 2 then 0
     else
       let (x, y) = (if x < 8 then logest_up x 40
                     else let i = 60 - clzll x in (drop_bit i x, 40 + int i * 10))
       in logest_a ! (x AND 7) + y - 10)"

definition sqlite3LogEstToInt :: "nat \<Rightarrow> nat" where
  "sqlite3LogEstToInt x =
    (let n = x mod 10;
         x = x div 10;
         n = (if n \<ge> 5 then n - 2 else if n \<ge> 1 then n - 1 else n)
     in if x > 60 then 9223372036854775807
        else if x \<ge> 3 then push_bit (x - 3) (n + 8) else drop_bit (3 - x) (n + 8))"

section \<open>Checked arithmetic\<close>

lemma wrap64_id: "is_i64 x \<Longrightarrow> wrap64 x = x"
  by (simp add: wrap64_def is_i64_def)

lemma AddInt64_spec:
  "is_i64 a \<Longrightarrow> is_i64 b \<Longrightarrow> sqlite3AddInt64 a b = (\<not> is_i64 (a + b), if is_i64 (a + b) then a + b else a)"
  by (auto simp: sqlite3AddInt64_def is_i64_def)

lemma SubInt64_spec:
  "is_i64 a \<Longrightarrow> is_i64 b \<Longrightarrow> sqlite3SubInt64 a b = (\<not> is_i64 (a - b), if is_i64 (a - b) then a - b else a)"
  unfolding sqlite3SubInt64_def using AddInt64_spec [of a "- b"] by (auto simp: is_i64_def)

lemma sdiv_pos: "0 < b \<Longrightarrow> LARGEST_INT64 sdiv b = LARGEST_INT64 div b" "0 < b \<Longrightarrow> SMALLEST_INT64 sdiv b = - (2 ^ 63 div b)"
  by (simp_all add: signed_divide_int_def)

lemma div_gt: "0 < (b :: int) \<Longrightarrow> c div b < a \<longleftrightarrow> c < a * b"
proof
  assume b: "0 < b"
  show "c < a * b" if "c div b < a"
  proof -
    have "(c div b + 1) * b = b * (c div b) + b" by (simp add: algebra_simps)
    then have "c < (c div b + 1) * b"
      using mult_div_mod_eq [of b c] pos_mod_bound [OF b, of c] by linarith
    also have "\<dots> \<le> a * b" using that b by (intro mult_right_mono) auto
    finally show ?thesis .
  qed
  show "c div b < a" if "c < a * b"
  proof (rule ccontr)
    assume "\<not> c div b < a"
    then have "a * b \<le> c div b * b" using b by (intro mult_right_mono) auto
    also have "\<dots> \<le> c" using mult_div_mod_eq [of b c] pos_mod_sign [OF b, of c] mult.commute [of b "c div b"] by linarith
    finally show False using that by simp
  qed
qed

lemma div_lt: "0 < (b :: int) \<Longrightarrow> a < - (c div b) \<longleftrightarrow> a * b < - c"
  using div_gt [of b c "- a"] by auto

lemma MulInt64_spec:
  assumes "is_i64 a" "is_i64 b"
  shows "sqlite3MulInt64 a b = (\<not> is_i64 (a * b), if is_i64 (a * b) then a * b else a)"
proof -
  consider "b > 0" | "b < 0" "a > 0" | "b < 0" "a < 0" | "b = 0 \<or> b < 0 \<and> a = 0" by linarith
  then show ?thesis
  proof cases
    case 1
    have "is_i64 (a * b) \<longleftrightarrow> \<not> LARGEST_INT64 < a * b \<and> \<not> a * b < - (2 ^ 63)" by (auto simp: is_i64_def)
    then show ?thesis using 1 unfolding sqlite3MulInt64_def sdiv_pos [OF 1] div_gt [OF 1] div_lt [OF 1] by presburger
  next
    case 2
    have "a * b \<le> LARGEST_INT64" using mult_pos_neg [OF 2(2,1)] by linarith
    then have "is_i64 (a * b) \<longleftrightarrow> \<not> b * a < - (2 ^ 63)" by (auto simp: is_i64_def mult.commute)
    then show ?thesis using 2 unfolding sqlite3MulInt64_def sdiv_pos [OF 2(2)] div_lt [OF 2(2)] by simp
  next
    case 3
    have pos: "0 \<le> a * b" "(- a) * (- b) = a * b" using 3 by (simp_all add: mult_nonpos_nonpos)
    have big: "LARGEST_INT64 < a * b" if "a = SMALLEST_INT64 \<or> b = SMALLEST_INT64"
    proof -
      have "2 ^ 63 \<le> (- a) * (- b)"
        using that 3 mult_mono [of "2 ^ 63" "- a" 1 "- b"] mult_mono [of 1 "- a" "2 ^ 63" "- b"] by auto
      then show ?thesis using pos(2) by simp
    qed
    have gt: "- a > LARGEST_INT64 sdiv (- b) \<longleftrightarrow> LARGEST_INT64 < a * b"
      using 3 sdiv_pos(1) [of "- b"] div_gt [of "- b" LARGEST_INT64 "- a"] pos(2) by simp
    have "is_i64 (a * b) \<longleftrightarrow> \<not> LARGEST_INT64 < a * b" using pos(1) by (auto simp: is_i64_def)
    then show ?thesis using 3 big unfolding sqlite3MulInt64_def gt by (simp split: if_splits)
  next
    case 4
    have "is_i64 0" by (simp add: is_i64_def)
    moreover have "sqlite3MulInt64 a 0 = (False, 0)" "b < 0 \<Longrightarrow> sqlite3MulInt64 0 b = (False, 0)"
      by (simp_all add: sqlite3MulInt64_def)
    ultimately show ?thesis using 4 by auto
  qed
qed

text \<open>C30. The checked operations: on 64-bit operands the portable code reports overflow exactly
  if the mathematical sum, difference or product does not fit in 64 bits, stores the
  exact result otherwise, and leaves \<^verbatim>\<open>*pA\<close> unchanged when it reports overflow.\<close>

theorem checked_arithmetic:
  assumes "is_i64 a" "is_i64 b"
  shows "sqlite3AddInt64 a b = (\<not> is_i64 (a + b), if is_i64 (a + b) then a + b else a) \<and>
    sqlite3SubInt64 a b = (\<not> is_i64 (a - b), if is_i64 (a - b) then a - b else a) \<and>
    sqlite3MulInt64 a b = (\<not> is_i64 (a * b), if is_i64 (a * b) then a * b else a)"
  using AddInt64_spec [OF assms] SubInt64_spec [OF assms] MulInt64_spec [OF assms] by blast

theorem checked_arithmetic_witness:
  "is_i64 9223372036854775807 \<and> is_i64 (- 9223372036854775808) \<and>
   sqlite3AddInt64 9223372036854775807 9223372036854775807 = (True, 9223372036854775807) \<and>
   sqlite3MulInt64 (- 9223372036854775808) (- 9223372036854775808) = (True, - 9223372036854775808)"
proof -
  have i: "is_i64 9223372036854775807" "is_i64 (- 9223372036854775808)" by (simp_all add: is_i64_def)
  have o: "\<not> is_i64 (9223372036854775807 + 9223372036854775807)"
    "\<not> is_i64 (- 9223372036854775808 * - 9223372036854775808)" by (simp_all add: is_i64_def)
  show ?thesis using checked_arithmetic [OF i(1) i(1)] checked_arithmetic [OF i(2) i(2)] i o by simp
qed

lemma wrap64_range: "is_i64 (wrap64 x)" "wrap64 x mod 2 ^ 64 = x mod 2 ^ 64"
proof -
  show "is_i64 (wrap64 x)"
    using pos_mod_sign [of "2 ^ 64" "x + 2 ^ 63"] pos_mod_bound [of "2 ^ 64" "x + 2 ^ 63"]
    by (auto simp: wrap64_def is_i64_def)
  show "wrap64 x mod 2 ^ 64 = x mod 2 ^ 64" unfolding wrap64_def by (simp add: mod_diff_left_eq)
qed

text \<open>A sum that does not fit is not congruent to the operand it replaces.\<close>

lemma wrap64_moves:
  assumes "is_i64 a" "- (2 ^ 64) < c" "c < 2 ^ 64" "\<not> is_i64 (a + c)"
  shows "wrap64 (a + c) \<noteq> a"
proof
  assume "wrap64 (a + c) = a"
  then have "(a + c + 2 ^ 63) mod 2 ^ 64 = (a + 2 ^ 63) mod 2 ^ 64"
    using assms(1) by (simp add: wrap64_def is_i64_def)
  then have "2 ^ 64 dvd c" by (simp add: mod_eq_dvd_iff)
  then have "c = 0" using assms(2,3) zdvd_imp_le [of "2 ^ 64" c] zdvd_imp_le [of "2 ^ 64" "- c"]
    by (cases c "0 :: int" rule: linorder_cases) auto
  then show False using assms(1,4) by simp
qed

lemma builtin_overflow_agrees:
  assumes "r = (\<not> is_i64 x, if is_i64 x then x else a)"
  shows "builtin_overflow x = (fst r, if fst r then wrap64 x else snd r)"
  using assms by (simp add: builtin_overflow_def wrap64_id)

text \<open>C39. For addition, subtraction and multiplication the built-in branch returns the flag of
  the portable one and, where there is no overflow, stores the same result. On overflow it
  does store a value, the 64-bit integer congruent to the exact result modulo \<open>2 ^ 64\<close>,
  where the portable code leaves \<^verbatim>\<open>*pA\<close> as it was. For addition and subtraction that value is
  never the old \<^verbatim>\<open>*pA\<close>.\<close>

theorem builtin_arithmetic:
  assumes "is_i64 a" "is_i64 b"
  shows "sqlite3AddInt64_builtin a b =
      (fst (sqlite3AddInt64 a b), if fst (sqlite3AddInt64 a b) then wrap64 (a + b) else snd (sqlite3AddInt64 a b)) \<and>
    sqlite3SubInt64_builtin a b =
      (fst (sqlite3SubInt64 a b), if fst (sqlite3SubInt64 a b) then wrap64 (a - b) else snd (sqlite3SubInt64 a b)) \<and>
    sqlite3MulInt64_builtin a b =
      (fst (sqlite3MulInt64 a b), if fst (sqlite3MulInt64 a b) then wrap64 (a * b) else snd (sqlite3MulInt64 a b)) \<and>
    (\<forall>x. is_i64 (wrap64 x) \<and> wrap64 x mod 2 ^ 64 = x mod 2 ^ 64) \<and>
    (fst (sqlite3AddInt64 a b) \<longrightarrow> snd (sqlite3AddInt64 a b) = a \<and> snd (sqlite3AddInt64_builtin a b) \<noteq> a) \<and>
    (fst (sqlite3SubInt64 a b) \<longrightarrow> snd (sqlite3SubInt64 a b) = a \<and> snd (sqlite3SubInt64_builtin a b) \<noteq> a) \<and>
    (fst (sqlite3MulInt64 a b) \<longrightarrow> snd (sqlite3MulInt64 a b) = a)"
proof -
  note ops = sqlite3AddInt64_builtin_def sqlite3SubInt64_builtin_def sqlite3MulInt64_builtin_def
  note spec = AddInt64_spec [OF assms] SubInt64_spec [OF assms] MulInt64_spec [OF assms]
  have "- (2 ^ 64) < b" "b < 2 ^ 64" "- (2 ^ 64) < - b" "- b < 2 ^ 64" using assms(2) by (auto simp: is_i64_def)
  then have mv: "\<not> is_i64 (a + b) \<Longrightarrow> wrap64 (a + b) \<noteq> a" "\<not> is_i64 (a - b) \<Longrightarrow> wrap64 (a - b) \<noteq> a"
    using wrap64_moves [OF assms(1), of b] wrap64_moves [OF assms(1), of "- b"] by simp_all
  show ?thesis
    using mv wrap64_range builtin_overflow_agrees [OF spec(1)] builtin_overflow_agrees [OF spec(2)]
      builtin_overflow_agrees [OF spec(3)]
    by (simp add: ops spec)
qed

theorem builtin_arithmetic_witness:
  "is_i64 9223372036854775807 \<and> is_i64 1 \<and> is_i64 (- 1) \<and>
   sqlite3AddInt64_builtin 9223372036854775807 1 = (True, - 9223372036854775808) \<and>
   sqlite3SubInt64_builtin 9223372036854775807 (- 1) = (True, - 9223372036854775808) \<and>
   sqlite3MulInt64_builtin 9223372036854775807 9223372036854775807 = (True, 1)"
proof -
  have i: "is_i64 9223372036854775807" "is_i64 1" "is_i64 (- 1)" by (simp_all add: is_i64_def)
  have o: "fst (sqlite3AddInt64 9223372036854775807 1)" "fst (sqlite3SubInt64 9223372036854775807 (- 1))"
    "fst (sqlite3MulInt64 9223372036854775807 9223372036854775807)" by code_simp+
  have w: "wrap64 9223372036854775808 = - 9223372036854775808"
    "wrap64 85070591730234615847396907784232501249 = 1" by (simp_all add: wrap64_def)
  show ?thesis
    using builtin_arithmetic [OF i(1,2)] builtin_arithmetic [OF i(1,3)] builtin_arithmetic [OF i(1,1)] i o w
    by simp
qed

section \<open>Logarithmic estimates\<close>

text \<open>The table of \<^verbatim>\<open>sqlite3LogEstAdd\<close> never adds more than 10 and never less than 2.\<close>

lemma logest_add_x_range: "k < 32 \<Longrightarrow> 2 \<le> logest_add_x ! k \<and> logest_add_x ! k \<le> 10"
proof -
  have "list_all (\<lambda>v. 2 \<le> v \<and> v \<le> 10) logest_add_x" "length logest_add_x = 32" by code_simp+
  then show "k < 32 \<Longrightarrow> ?thesis" by (simp add: list_all_length)
qed

lemma LogEstAdd_max: "sqlite3LogEstAdd a b = sqlite3LogEstAdd (max a b) (min a b)"
  by (auto simp: sqlite3LogEstAdd_def max_def min_def)

lemma LogEstAdd_ge: "b \<le> a \<Longrightarrow> a \<le> sqlite3LogEstAdd a b \<and> sqlite3LogEstAdd a b \<le> a + 10"
proof -
  assume le: "b \<le> a"
  show ?thesis
  proof (cases "a \<le> b + 31")
    case True
    then have "nat (a - b) < 32" using le by (simp add: nat_less_iff)
    from logest_add_x_range [OF this] show ?thesis using True le by (simp add: sqlite3LogEstAdd_def)
  next
    case False
    then show ?thesis using le by (simp add: sqlite3LogEstAdd_def)
  qed
qed

text \<open>The loops keep \<open>x * 2 ^ k\<close> between \<open>2 ^ e\<close> and \<open>2 ^ (e + 1)\<close>, where \<open>y = 10 * e + 10\<close> for the
  final \<open>x\<close> between 8 and 15.\<close>

lemma logest_down1_spec:
  "8 \<le> x \<Longrightarrow> \<exists>k. logest_down1 x y = (x div 2 ^ k, y + 10 * int k) \<and> 8 \<le> x div 2 ^ k \<and> x div 2 ^ k < 16"
proof (induction x y rule: logest_down1.induct)
  case (1 x y)
  show ?case
  proof (cases "x > 15")
    case True
    then have "8 \<le> x div 2" by simp
    then obtain k where k: "logest_down1 (x div 2) (y + 10) = (x div 2 div 2 ^ k, y + 10 + 10 * int k)"
      "8 \<le> x div 2 div 2 ^ k" "x div 2 div 2 ^ k < 16"
      using 1 True by (auto simp: drop_bit_eq_div)
    then show ?thesis using True
      by (subst logest_down1.simps) (auto simp: drop_bit_eq_div div_mult2_eq intro!: exI [of _ "Suc k"])
  next
    case False
    then show ?thesis using 1 by (subst logest_down1.simps) (auto intro!: exI [of _ 0])
  qed
qed

lemma logest_down4_spec:
  "8 \<le> x \<Longrightarrow> \<exists>k. logest_down4 x y = (x div 2 ^ k, y + 10 * int k) \<and> 8 \<le> x div 2 ^ k"
proof (induction x y rule: logest_down4.induct)
  case (1 x y)
  show ?case
  proof (cases "x > 255")
    case True
    then have "8 \<le> x div 16" by simp
    then obtain k where k: "logest_down4 (x div 16) (y + 40) = (x div 16 div 2 ^ k, y + 40 + 10 * int k)"
      "8 \<le> x div 16 div 2 ^ k"
      using 1 True by (auto simp: drop_bit_eq_div)
    then show ?thesis using True
      by (subst logest_down4.simps) (auto simp: drop_bit_eq_div div_mult2_eq power_add intro!: exI [of _ "4 + k"])
  next
    case False
    then show ?thesis using 1 by (subst logest_down4.simps) (auto intro!: exI [of _ 0])
  qed
qed

lemma div_pow_unique:
  fixes x :: nat
  assumes "8 \<le> x div 2 ^ k" "x div 2 ^ k < 16" "8 \<le> x div 2 ^ j" "x div 2 ^ j < 16"
  shows "j = k"
proof -
  have less: False if "x div 2 ^ a < 16" "8 \<le> x div 2 ^ b" "a < b" for a b
  proof -
    have "2 ^ b = 2 ^ a * (2 ^ (b - a) :: nat)" using that(3) by (simp add: power_add [symmetric])
    then have "x div 2 ^ b = x div 2 ^ a div 2 ^ (b - a)" by (simp add: div_mult2_eq)
    also have "\<dots> \<le> x div 2 ^ a div 2" using that(3) by (intro div_le_mono2) (auto simp: self_le_power)
    finally show False using that(1,2) by simp
  qed
  show ?thesis using less [of k j] less [of j k] assms by (meson linorder_neqE_nat)
qed

lemma floorlog_div:
  assumes "8 \<le> x"
  shows "8 \<le> x div 2 ^ (floorlog 2 x - 4) \<and> x div 2 ^ (floorlog 2 x - 4) < 16" "4 \<le> floorlog 2 x"
proof -
  let ?n = "floorlog 2 x"
  have b: "2 ^ (?n - 1) \<le> x" "x < 2 ^ ?n" using floorlog_bounds [of x 2] assms by simp_all
  show n: "4 \<le> ?n" using floorlog_geI [of 2 4 x] assms by simp
  obtain m where m: "?n = 4 + m" using le_Suc_ex [OF n] by blast
  then have "?n - 1 = 3 + m" by simp
  then have "(2 :: nat) ^ (?n - 1) = 8 * 2 ^ (?n - 4)" "(2 :: nat) ^ ?n = 16 * 2 ^ (?n - 4)"
    using m by (simp_all add: power_add)
  then show "8 \<le> x div 2 ^ (?n - 4) \<and> x div 2 ^ (?n - 4) < 16"
    using b by (simp add: less_eq_div_iff_mult_less_eq div_less_iff_less_mult)
qed

lemma logest_big:
  assumes "8 \<le> x"
  shows "(case logest_down4 x y of (x, y) \<Rightarrow> logest_down1 x y) =
    (x div 2 ^ (floorlog 2 x - 4), y + 10 * int (floorlog 2 x - 4))"
proof -
  obtain j where j: "logest_down4 x y = (x div 2 ^ j, y + 10 * int j)" "8 \<le> x div 2 ^ j"
    using logest_down4_spec [OF assms] by blast
  obtain k where k: "logest_down1 (x div 2 ^ j) (y + 10 * int j) = (x div 2 ^ j div 2 ^ k, y + 10 * int j + 10 * int k)"
    "8 \<le> x div 2 ^ j div 2 ^ k" "x div 2 ^ j div 2 ^ k < 16"
    using logest_down1_spec [OF j(2)] by blast
  have jk: "x div 2 ^ j div 2 ^ k = x div 2 ^ (j + k)" by (simp add: div_mult2_eq power_add)
  then have "floorlog 2 x - 4 = j + k" using k(2,3) floorlog_div(1) [OF assms] by (intro div_pow_unique) auto
  then show ?thesis using j k jk by simp
qed

lemma logest_a_range: "0 \<le> logest_a ! (x AND 7) \<and> logest_a ! (x AND 7) \<le> 9"
proof -
  have "list_all (\<lambda>v. 0 \<le> v \<and> v \<le> 9) logest_a" "length logest_a = 8" by code_simp+
  moreover have "x AND 7 < 8" using take_bit_nat_less_exp [of 3 x] by (simp add: take_bit_eq_mask mask_eq_exp_minus_1)
  ultimately show ?thesis by (simp add: list_all_length)
qed

lemma LogEst_big: "8 \<le> x \<Longrightarrow> sqlite3LogEst x =
    logest_a ! (x div 2 ^ (floorlog 2 x - 4) AND 7) + 40 + 10 * int (floorlog 2 x - 4) - 10"
  using logest_big [of x 40] by (simp add: sqlite3LogEst_def)

text \<open>The estimate \<^verbatim>\<open>sqlite3LogEst\<close> of a value with \<open>n\<close> binary digits lies between
  \<open>10 * (n - 1)\<close> and \<open>10 * (n - 1) + 9\<close>, the shifting loops and the variant that counts leading
  zeros give the same estimate, and adding two estimates is commutative and gives
  at least the larger one and at most 10 more.\<close>

theorem LogEst_bounds:
  assumes "2 \<le> x" "x < 2 ^ 64"
  shows "10 * (int (floorlog 2 x) - 1) \<le> sqlite3LogEst x \<and> sqlite3LogEst x \<le> 10 * (int (floorlog 2 x) - 1) + 9 \<and>
    sqlite3LogEst_clz x = sqlite3LogEst x \<and> sqlite3LogEstAdd a b = sqlite3LogEstAdd b a \<and>
    max a b \<le> sqlite3LogEstAdd a b \<and> sqlite3LogEstAdd a b \<le> max a b + 10"
proof -
  have add: "sqlite3LogEstAdd a b = sqlite3LogEstAdd b a"
    using LogEstAdd_max [of a b] LogEstAdd_max [of b a] by (simp add: max.commute min.commute)
  have mx: "max a b \<le> sqlite3LogEstAdd a b \<and> sqlite3LogEstAdd a b \<le> max a b + 10"
    unfolding LogEstAdd_max [of a b] by (rule LogEstAdd_ge) simp
  have "10 * (int (floorlog 2 x) - 1) \<le> sqlite3LogEst x \<and> sqlite3LogEst x \<le> 10 * (int (floorlog 2 x) - 1) + 9 \<and>
    sqlite3LogEst_clz x = sqlite3LogEst x"
  proof (cases "x < 8")
    case True
    then have "x \<in> {2, 3, 4, 5, 6, 7}" using assms(1) by auto
    then have "10 * (int (floorlog 2 x) - 1) \<le> sqlite3LogEst x \<and> sqlite3LogEst x \<le> 10 * (int (floorlog 2 x) - 1) + 9"
      by (elim insertE) (simp_all add: sqlite3LogEst_def logest_up.simps logest_a_def compute_floorlog)
    then show ?thesis using True by (simp add: sqlite3LogEst_def sqlite3LogEst_clz_def)
  next
    case False
    have n: "4 \<le> floorlog 2 x" "floorlog 2 x \<le> 64" using floorlog_div(2) [of x] False assms(2) by (auto simp: floorlog_le_iff)
    then have "60 - clzll x = floorlog 2 x - 4" by (simp add: clzll_def)
    then have "sqlite3LogEst_clz x = sqlite3LogEst x"
      using False assms(1) LogEst_big [of x] by (simp add: sqlite3LogEst_clz_def Let_def drop_bit_eq_div)
    then show ?thesis using LogEst_big [of x] False n logest_a_range [of "x div 2 ^ (floorlog 2 x - 4)"] by auto
  qed
  then show ?thesis using add mx by blast
qed

theorem LogEst_bounds_witness: "sqlite3LogEst 1000 = sqlite3LogEst_clz 1000 \<and> 90 \<le> sqlite3LogEst 1000"
proof -
  have "floorlog 2 (1000 :: nat) = 10" by (simp add: compute_floorlog)
  then show ?thesis using LogEst_bounds [of 1000 0 0] by simp
qed

end
