(* ===== verification/WalConn.thy ===== *)
theory WalConn
  imports WalIter
begin

unbundle bit_operations_syntax

text \<open>
  What a connection of \<^verbatim>\<open>wal.c\<close> shares with others, and the small operations on it:
  the wal-index header and checkpoint information in shared memory, the log and
  database files, the methods of the VFS, the lock wrappers, and writing and
  reading the header.
\<close>

section \<open>Shared memory, files and the VFS\<close>

text \<open>\<^verbatim>\<open>struct WalCkptInfo\<close> without the lock bytes, which are never read; \<^verbatim>\<open>aReadMark\<close> has
  \<^verbatim>\<open>WAL_NREADER\<close> entries.\<close>

record WalCkptInfo =
  nBackfill :: nat
  aReadMark :: "nat list"
  nBackfillAttempted :: nat

abbreviation (input) WAL_NREADER :: nat where "WAL_NREADER \<equiv> 5"
abbreviation (input) READMARK_NOT_USED :: nat where "READMARK_NOT_USED \<equiv> 0xffffffff"
abbreviation (input) WAL_WRITE_LOCK :: nat where "WAL_WRITE_LOCK \<equiv> 0"
abbreviation (input) WAL_ALL_BUT_WRITE :: nat where "WAL_ALL_BUT_WRITE \<equiv> 1"
abbreviation (input) WAL_CKPT_LOCK :: nat where "WAL_CKPT_LOCK \<equiv> 1"
abbreviation (input) WAL_RECOVER_LOCK :: nat where "WAL_RECOVER_LOCK \<equiv> 2"
abbreviation (input) WAL_READ_LOCK :: "nat \<Rightarrow> nat" where "WAL_READ_LOCK i \<equiv> 3 + i"

abbreviation (input) SQLITE_IOERR_SHORT_READ :: rc where "SQLITE_IOERR_SHORT_READ \<equiv> 522"
abbreviation (input) SQLITE_READONLY_RECOVERY :: rc where "SQLITE_READONLY_RECOVERY \<equiv> 264"
abbreviation (input) SQLITE_READONLY_CANTINIT :: rc where "SQLITE_READONLY_CANTINIT \<equiv> 1288"
abbreviation (input) SQLITE_BUSY_RECOVERY :: rc where "SQLITE_BUSY_RECOVERY \<equiv> 261"
abbreviation (input) SQLITE_BUSY_SNAPSHOT :: rc where "SQLITE_BUSY_SNAPSHOT \<equiv> 517"
abbreviation (input) WAL_RETRY :: rc where "WAL_RETRY \<equiv> - 1"

text \<open>A wal-index: the two copies of the header, the checkpoint information and the
  pages of \<^verbatim>\<open>WalIndex\<close>. The zeroed one is what \<^verbatim>\<open>sqlite3MallocZero\<close> returns.\<close>

record wshm =
  aHdr0 :: WalIndexHdr
  aHdr1 :: WalIndexHdr
  ckptInfo :: WalCkptInfo
  wiPages :: wi

definition wshm_zero :: wshm where
  "wshm_zero = \<lparr>aHdr0 = hdr_zero, aHdr1 = hdr_zero,
     ckptInfo = \<lparr>nBackfill = 0, aReadMark = replicate WAL_NREADER 0, nBackfillAttempted = 0\<rparr>,
     wiPages = (\<lambda>_. zero_page)\<rparr>"

text \<open>All that a connection works on besides its own structure: the wal-index in shared
  memory, a wal-index in its heap (pages not allocated read as zero), the two
  files, and what else the operating system keeps, of a type of the VFS's choice.\<close>

record 'x world =
  shm :: wshm
  heap :: wshm
  walFile :: bytes
  dbFile :: bytes
  os :: 'x

datatype shm_op = ShmLockShared | ShmLockExclusive | ShmUnlockShared | ShmUnlockExclusive
datatype fd = WalFd | DbFd
datatype fcntl = FCNTL_CKPT_START | FCNTL_CKPT_DONE | FCNTL_SIZE_HINT nat

text \<open>The methods of \<^verbatim>\<open>sqlite3_io_methods\<close> and \<^verbatim>\<open>sqlite3_vfs\<close> that \<^verbatim>\<open>wal.c\<close> calls, with
  the source of randomness, the interrupt flags of the database handle and the
  content of memory that \<^verbatim>\<open>sqlite3_malloc64\<close> returns. Each may change the world:
  other connections run in the meantime.\<close>

record 'x vfs = shm_env +
  xShmLock :: "nat \<Rightarrow> nat \<Rightarrow> shm_op \<Rightarrow> 'x world \<Rightarrow> rc \<times> 'x world"
  xShmBarrier :: "'x world \<Rightarrow> 'x world"
  xShmUnmap :: "bool \<Rightarrow> 'x world \<Rightarrow> 'x world"
  xRead :: "fd \<Rightarrow> nat \<Rightarrow> nat \<Rightarrow> 'x world \<Rightarrow> rc \<times> bytes \<times> 'x world"
  xWrite :: "fd \<Rightarrow> bytes \<Rightarrow> nat \<Rightarrow> 'x world \<Rightarrow> rc \<times> 'x world"
  xTruncate :: "fd \<Rightarrow> nat \<Rightarrow> 'x world \<Rightarrow> rc \<times> 'x world"
  xSync :: "fd \<Rightarrow> nat \<Rightarrow> 'x world \<Rightarrow> rc \<times> 'x world"
  xFileSize :: "fd \<Rightarrow> 'x world \<Rightarrow> rc \<times> nat \<times> 'x world"
  xFileControl :: "fd \<Rightarrow> fcntl \<Rightarrow> 'x world \<Rightarrow> 'x world"
  xPersistWal :: "'x world \<Rightarrow> int \<times> 'x world"
  xLockExclusive :: "'x world \<Rightarrow> rc \<times> 'x world"
  xClose :: "fd \<Rightarrow> 'x world \<Rightarrow> 'x world"
  xDelete :: "'x world \<Rightarrow> 'x world"
  xUnfetch :: "('x world \<Rightarrow> 'x world) option"
  xSleep :: "nat \<Rightarrow> 'x world \<Rightarrow> 'x world"
  xSectorSize :: "'x world \<Rightarrow> int"
  sqlite3_randomness :: "nat \<Rightarrow> 'x world \<Rightarrow> bytes \<times> 'x world"
  isInterrupted :: "'x world \<Rightarrow> bool"
  mallocFailed :: "'x world \<Rightarrow> bool"
  mallocJunk :: wi_page

text \<open>\<^verbatim>\<open>sqlite3OsSync\<close> of \<^verbatim>\<open>os.c\<close> does not call the VFS when the flags are 0.\<close>

definition sqlite3OsSync :: "'x vfs \<Rightarrow> fd \<Rightarrow> nat \<Rightarrow> 'x world \<Rightarrow> rc \<times> 'x world" where
  "sqlite3OsSync V f flags s = (if flags \<noteq> 0 then xSync V f flags s else (SQLITE_OK, s))"

text \<open>The wal-index the pointers \<^verbatim>\<open>apWiData\<close> lead to.\<close>

definition uses_heap :: "Wal \<Rightarrow> bool" where
  "uses_heap w \<longleftrightarrow> exclusiveMode w = WAL_HEAPMEMORY_MODE \<or> bShmUnreliable w"

definition mem :: "Wal \<Rightarrow> 'x world \<Rightarrow> wshm" where
  "mem w s = (if uses_heap w then heap s else shm s)"

definition set_mem :: "Wal \<Rightarrow> wshm \<Rightarrow> 'x world \<Rightarrow> 'x world" where
  "set_mem w m s = (if uses_heap w then s\<lparr>heap := m\<rparr> else s\<lparr>shm := m\<rparr>)"

definition walIndexHdr :: "Wal \<Rightarrow> 'x world \<Rightarrow> WalIndexHdr" where
  "walIndexHdr w s = aHdr0 (mem w s)"

definition walCkptInfo :: "Wal \<Rightarrow> 'x world \<Rightarrow> WalCkptInfo" where
  "walCkptInfo w s = ckptInfo (mem w s)"

definition set_ckptInfo :: "Wal \<Rightarrow> WalCkptInfo \<Rightarrow> 'x world \<Rightarrow> 'x world" where
  "set_ckptInfo w c s = set_mem w ((mem w s)\<lparr>ckptInfo := c\<rparr>) s"

definition pages :: "Wal \<Rightarrow> 'x world \<Rightarrow> wi" where
  "pages w s = wiPages (mem w s)"

definition set_pages :: "Wal \<Rightarrow> wi \<Rightarrow> 'x world \<Rightarrow> 'x world" where
  "set_pages w W s = set_mem w ((mem w s)\<lparr>wiPages := W\<rparr>) s"

section \<open>Locks\<close>

definition walLockShared :: "'x vfs \<Rightarrow> Wal \<Rightarrow> nat \<Rightarrow> 'x world \<Rightarrow> rc \<times> 'x world" where
  "walLockShared V w lockIdx s =
     (if exclusiveMode w \<noteq> 0 then (SQLITE_OK, s) else xShmLock V lockIdx 1 ShmLockShared s)"

definition walUnlockShared :: "'x vfs \<Rightarrow> Wal \<Rightarrow> nat \<Rightarrow> 'x world \<Rightarrow> 'x world" where
  "walUnlockShared V w lockIdx s =
     (if exclusiveMode w \<noteq> 0 then s else snd (xShmLock V lockIdx 1 ShmUnlockShared s))"

definition walLockExclusive :: "'x vfs \<Rightarrow> Wal \<Rightarrow> nat \<Rightarrow> nat \<Rightarrow> 'x world \<Rightarrow> rc \<times> 'x world" where
  "walLockExclusive V w lockIdx n s =
     (if exclusiveMode w \<noteq> 0 then (SQLITE_OK, s) else xShmLock V lockIdx n ShmLockExclusive s)"

definition walUnlockExclusive :: "'x vfs \<Rightarrow> Wal \<Rightarrow> nat \<Rightarrow> nat \<Rightarrow> 'x world \<Rightarrow> 'x world" where
  "walUnlockExclusive V w lockIdx n s =
     (if exclusiveMode w \<noteq> 0 then s else snd (xShmLock V lockIdx n ShmUnlockExclusive s))"

definition walShmBarrier :: "'x vfs \<Rightarrow> Wal \<Rightarrow> 'x world \<Rightarrow> 'x world" where
  "walShmBarrier V w s = (if exclusiveMode w \<noteq> WAL_HEAPMEMORY_MODE then xShmBarrier V s else s)"

section \<open>The header in shared memory\<close>

text \<open>The first forty bytes of \<^verbatim>\<open>struct WalIndexHdr\<close> as they lie in memory: what its
  checksum covers.\<close>

definition le2 :: "u16 \<Rightarrow> bytes" where
  "le2 x = [ucast x, ucast (drop_bit 8 x)]"

definition le4 :: "u32 \<Rightarrow> bytes" where
  "le4 x = [ucast x, ucast (drop_bit 8 x), ucast (drop_bit 16 x), ucast (drop_bit 24 x)]"

definition hdr_bytes :: "WalIndexHdr \<Rightarrow> bytes" where
  "hdr_bytes h = le4 (iVersion h) @ le4 (unused h) @ le4 (iChange h) @ [isInit h, bigEndCksum h]
     @ le2 (hdr_szPage h) @ le4 (of_nat (mxFrame h)) @ le4 (nPage h)
     @ le4 (fst (aFrameCksum h)) @ le4 (snd (aFrameCksum h)) @ aSalt h"

definition walIndexWriteHdr :: "'x vfs \<Rightarrow> Wal \<Rightarrow> 'x world \<Rightarrow> Wal \<times> 'x world" where
  "walIndexWriteHdr V w s =
    (let h = (hdr w)\<lparr>isInit := 1, iVersion := WALINDEX_MAX_VERSION\<rparr>;
         h = h\<lparr>aCksum := walChecksumBytes True (hdr_bytes h) 40 None\<rparr>;
         w = w\<lparr>hdr := h\<rparr>;
         s = set_mem w ((mem w s)\<lparr>aHdr1 := h\<rparr>) s;
         s = walShmBarrier V w s;
         s = set_mem w ((mem w s)\<lparr>aHdr0 := h\<rparr>) s
     in (w, s))"

definition page_size :: "u16 \<Rightarrow> nat" where
  "page_size sz = (unat sz AND 0xfe00) + push_bit 16 (unat sz AND 0x0001)"

definition walPagesize :: "Wal \<Rightarrow> nat" where
  "walPagesize w = page_size (hdr_szPage (hdr w))"

text \<open>\<^verbatim>\<open>(u16)((szPage&0xff00) | (szPage>>16))\<close>, how the header stores a page size.\<close>

definition size_field :: "nat \<Rightarrow> u16" where
  "size_field sz = of_nat ((sz AND 0xff00) OR drop_bit 16 sz)"

text \<open>\<^verbatim>\<open>walIndexTryHdr\<close>: true is the return of 1; \<open>ch\<close> is \<^verbatim>\<open>*pChanged\<close>.\<close>

definition walIndexTryHdr ::
  "'x vfs \<Rightarrow> Wal \<Rightarrow> 'x world \<Rightarrow> bool \<Rightarrow> bool \<times> bool \<times> Wal \<times> 'x world" where
  "walIndexTryHdr V w s ch =
    (let h1 = aHdr0 (mem w s);
         s = walShmBarrier V w s;
         h2 = aHdr1 (mem w s)
     in if h1 \<noteq> h2 then (True, ch, w, s)
        else if isInit h1 = 0 then (True, ch, w, s)
        else if walChecksumBytes True (hdr_bytes h1) 40 None \<noteq> aCksum h1 then (True, ch, w, s)
        else if hdr w \<noteq> h1 then (False, True, w\<lparr>hdr := h1, szPage := page_size (hdr_szPage h1)\<rparr>, s)
        else (False, ch, w, s))"

section \<open>What is relied on\<close>

text \<open>Two worlds that differ at most in the operating system's own state.\<close>

definition same_store :: "'x world \<Rightarrow> 'x world \<Rightarrow> bool" where
  "same_store s t \<longleftrightarrow> shm t = shm s \<and> heap t = heap s \<and> walFile t = walFile s \<and> dbFile t = dbFile s"

primrec fileOf :: "fd \<Rightarrow> 'x world \<Rightarrow> bytes" where
  "fileOf WalFd s = walFile s"
| "fileOf DbFd s = dbFile s"

primrec set_file :: "fd \<Rightarrow> bytes \<Rightarrow> 'x world \<Rightarrow> 'x world" where
  "set_file WalFd b s = s\<lparr>walFile := b\<rparr>"
| "set_file DbFd b s = s\<lparr>dbFile := b\<rparr>"

text \<open>No other connection changes the shared memory or the files while the operation runs:
  the methods that do not write leave them as they are.\<close>

definition vfs_quiet :: "'x vfs \<Rightarrow> bool" where
  "vfs_quiet V \<longleftrightarrow> (\<forall>s.
     (\<forall>i n op. same_store s (snd (xShmLock V i n op s))) \<and>
     same_store s (xShmBarrier V s) \<and>
     (\<forall>f n off. same_store s (snd (snd (xRead V f n off s)))) \<and>
     (\<forall>f n. same_store s (snd (xSync V f n s))) \<and>
     (\<forall>f. same_store s (snd (snd (xFileSize V f s)))) \<and>
     (\<forall>f c. same_store s (xFileControl V f c s)) \<and>
     (\<forall>n. same_store s (xSleep V n s)) \<and>
     (\<forall>n. same_store s (snd (sqlite3_randomness V n s))))"

text \<open>The documented behaviour of the file methods: a read that succeeds returns the bytes of
  the file, a write that succeeds puts its bytes at the offset (the gap to the old
  end of the file being filled with zeroes), a truncation cuts the file; they
  touch nothing else. A mapping that may extend the file and does not fail gives
  a pointer.\<close>

definition overwrite :: "bytes \<Rightarrow> nat \<Rightarrow> bytes \<Rightarrow> bytes" where
  "overwrite f off b = take off f @ replicate (off - length f) 0 @ b @ drop (off + length b) f"

definition vfs_files :: "'x vfs \<Rightarrow> bool" where
  "vfs_files V \<longleftrightarrow>
     (\<forall>f n off s b t. xRead V f n off s = (SQLITE_OK, b, t) \<longrightarrow>
        off + n \<le> length (fileOf f s) \<and> b = take n (drop off (fileOf f s))) \<and>
     (\<forall>f s n t. xFileSize V f s = (SQLITE_OK, n, t) \<longrightarrow> n = length (fileOf f s)) \<and>
     (\<forall>f b off s t. xWrite V f b off s = (SQLITE_OK, t) \<longrightarrow>
        same_store (set_file f (overwrite (fileOf f s) off b) s) t) \<and>
     (\<forall>f n s t. xTruncate V f n s = (SQLITE_OK, t) \<longrightarrow>
        same_store (set_file f (take n (fileOf f s) @ replicate (n - length (fileOf f s)) 0) s) t) \<and>
     (\<forall>i rc p. xShmMap V i True = (rc, p) \<longrightarrow> rc = SQLITE_OK \<or> rc = SQLITE_READONLY \<longrightarrow> p)"

text \<open>A VFS whose methods never fail, but for reads past the end of a file.\<close>

definition vfs_works :: "'x vfs \<Rightarrow> bool" where
  "vfs_works V \<longleftrightarrow> shm_reliable V \<and> (\<forall>s.
     (\<forall>i n op. fst (xShmLock V i n op s) = SQLITE_OK) \<and>
     (\<forall>f n off. off + n \<le> length (fileOf f s) \<longrightarrow> fst (xRead V f n off s) = SQLITE_OK) \<and>
     (\<forall>f b off. fst (xWrite V f b off s) = SQLITE_OK) \<and>
     (\<forall>f n. fst (xTruncate V f n s) = SQLITE_OK) \<and>
     (\<forall>f n. fst (xSync V f n s) = SQLITE_OK) \<and>
     (\<forall>f. fst (xFileSize V f s) = SQLITE_OK))"

lemma vfs_files_D:
  assumes "vfs_files V"
  shows "xRead V f n off s = (SQLITE_OK, b, t) \<Longrightarrow>
      off + n \<le> length (fileOf f s) \<and> b = take n (drop off (fileOf f s))"
    and "xFileSize V f s = (SQLITE_OK, n, t) \<Longrightarrow> n = length (fileOf f s)"
    and "xWrite V f b off s = (SQLITE_OK, t) \<Longrightarrow> same_store (set_file f (overwrite (fileOf f s) off b) s) t"
    and "xTruncate V f n s = (SQLITE_OK, t) \<Longrightarrow>
      same_store (set_file f (take n (fileOf f s) @ replicate (n - length (fileOf f s)) 0) s) t"
    and "xShmMap V i True = (rc, p) \<Longrightarrow> rc = SQLITE_OK \<or> rc = SQLITE_READONLY \<Longrightarrow> p"
  using assms unfolding vfs_files_def by metis+

lemma vfs_works_D:
  assumes "vfs_works V"
  shows "shm_reliable V" "fst (xShmLock V i n op s) = SQLITE_OK"
    and "off + n \<le> length (fileOf f s) \<Longrightarrow> fst (xRead V f n off s) = SQLITE_OK"
    and "fst (xWrite V f b off s) = SQLITE_OK" "fst (xTruncate V f n s) = SQLITE_OK"
    and "fst (xSync V f n s) = SQLITE_OK" "fst (xFileSize V f s) = SQLITE_OK"
  using assms unfolding vfs_works_def by metis+

lemma works_locks:
  assumes "vfs_works V"
  shows "fst (walLockShared V w i s) = SQLITE_OK" "fst (walLockExclusive V w i n s) = SQLITE_OK"
  using vfs_works_D(2) [OF assms] by (simp_all add: walLockShared_def walLockExclusive_def)

lemma same_store_refl [simp]: "same_store s s"
  by (simp add: same_store_def)

lemma same_store_trans: "same_store a b \<Longrightarrow> same_store b c \<Longrightarrow> same_store a c"
  by (simp add: same_store_def)

lemma same_store_eqs:
  "same_store s t \<Longrightarrow> shm t = shm s" "same_store s t \<Longrightarrow> heap t = heap s"
  "same_store s t \<Longrightarrow> walFile t = walFile s" "same_store s t \<Longrightarrow> dbFile t = dbFile s"
  "same_store s t \<Longrightarrow> mem w t = mem w s" "same_store s t \<Longrightarrow> fileOf f t = fileOf f s"
  by (cases f; simp_all add: same_store_def mem_def)+

lemma quiet_same_store:
  assumes "vfs_quiet V"
  shows "xShmLock V i n op s = (rc, t) \<Longrightarrow> same_store s t"
    and "same_store s (xShmBarrier V s)"
    and "xRead V f n off s = (rc, b, t) \<Longrightarrow> same_store s t"
    and "xSync V f n s = (rc, t) \<Longrightarrow> same_store s t"
    and "xFileSize V f s = (rc, n, t) \<Longrightarrow> same_store s t"
    and "same_store s (xFileControl V f c s)"
    and "same_store s (xSleep V n s)"
    and "sqlite3_randomness V n s = (b, t) \<Longrightarrow> same_store s t"
  using assms unfolding vfs_quiet_def by (metis snd_conv)+

lemma quiet_locks:
  assumes "vfs_quiet V"
  shows "walLockShared V w i s = (rc, t) \<Longrightarrow> same_store s t"
    and "same_store s (walUnlockShared V w i s)"
    and "walLockExclusive V w i n s = (rc, t) \<Longrightarrow> same_store s t"
    and "same_store s (walUnlockExclusive V w i n s)"
    and "same_store s (walShmBarrier V w s)"
  using assms
  by (auto simp: walLockShared_def walUnlockShared_def walLockExclusive_def walUnlockExclusive_def
      walShmBarrier_def split: if_splits intro: quiet_same_store) (auto simp: vfs_quiet_def)

lemma mem_set_mem [simp]: "mem w (set_mem w m s) = m"
  by (simp add: mem_def set_mem_def)

lemma set_mem_files [simp]:
  "walFile (set_mem w m s) = walFile s" "dbFile (set_mem w m s) = dbFile s"
  "os (set_mem w m s) = os s" "fileOf f (set_mem w m s) = fileOf f s"
  by (cases f; simp add: set_mem_def)+

text \<open>Operations that leave the locking mode of the connection alone see the same wal-index.\<close>

lemma mem_cong: "uses_heap w' = uses_heap w \<Longrightarrow> mem w' s = mem w s"
  and set_mem_cong: "uses_heap w' = uses_heap w \<Longrightarrow> set_mem w' m s = set_mem w m s"
  by (simp_all add: mem_def set_mem_def)

lemma uses_heap_same_conn: "same_conn w w' \<Longrightarrow> uses_heap w' = uses_heap w"
  using same_conn_fields [of w w'] by (simp add: uses_heap_def)

lemma uses_heap_update [simp]:
  "uses_heap (w\<lparr>hdr := h\<rparr>) = uses_heap w"
  "uses_heap (w\<lparr>szPage := n\<rparr>) = uses_heap w"
  "uses_heap (w\<lparr>nCkpt := c\<rparr>) = uses_heap w"
  "uses_heap (w\<lparr>minFrame := m\<rparr>) = uses_heap w"
  "uses_heap (w\<lparr>readLock := l\<rparr>) = uses_heap w"
  "uses_heap (w\<lparr>writeLock := b\<rparr>) = uses_heap w"
  "uses_heap (w\<lparr>ckptLock := b\<rparr>) = uses_heap w"
  "uses_heap (w\<lparr>iReCksum := m\<rparr>) = uses_heap w"
  "uses_heap (w\<lparr>truncateOnCommit := b\<rparr>) = uses_heap w"
  "uses_heap (w\<lparr>iCallback := m\<rparr>) = uses_heap w"
  "uses_heap (w\<lparr>apWiData := a\<rparr>) = uses_heap w"
  "uses_heap (w\<lparr>readOnly := m\<rparr>) = uses_heap w"
  by (simp_all add: uses_heap_def)

lemma mem_update [simp]:
  "mem (w\<lparr>hdr := h\<rparr>) s = mem w s" "set_mem (w\<lparr>hdr := h\<rparr>) mm s = set_mem w mm s"
  "mem (w\<lparr>szPage := n\<rparr>) s = mem w s" "set_mem (w\<lparr>szPage := n\<rparr>) mm s = set_mem w mm s"
  "mem (w\<lparr>nCkpt := c\<rparr>) s = mem w s" "set_mem (w\<lparr>nCkpt := c\<rparr>) mm s = set_mem w mm s"
  "mem (w\<lparr>minFrame := m\<rparr>) s = mem w s" "set_mem (w\<lparr>minFrame := m\<rparr>) mm s = set_mem w mm s"
  "mem (w\<lparr>readLock := l\<rparr>) s = mem w s" "set_mem (w\<lparr>readLock := l\<rparr>) mm s = set_mem w mm s"
  "mem (w\<lparr>writeLock := b\<rparr>) s = mem w s" "set_mem (w\<lparr>writeLock := b\<rparr>) mm s = set_mem w mm s"
  "mem (w\<lparr>ckptLock := b\<rparr>) s = mem w s" "set_mem (w\<lparr>ckptLock := b\<rparr>) mm s = set_mem w mm s"
  "mem (w\<lparr>iReCksum := m\<rparr>) s = mem w s" "set_mem (w\<lparr>iReCksum := m\<rparr>) mm s = set_mem w mm s"
  "mem (w\<lparr>truncateOnCommit := b\<rparr>) s = mem w s" "set_mem (w\<lparr>truncateOnCommit := b\<rparr>) mm s = set_mem w mm s"
  "mem (w\<lparr>iCallback := m\<rparr>) s = mem w s" "set_mem (w\<lparr>iCallback := m\<rparr>) mm s = set_mem w mm s"
  "mem (w\<lparr>apWiData := a\<rparr>) s = mem w s" "set_mem (w\<lparr>apWiData := a\<rparr>) mm s = set_mem w mm s"
  "mem (w\<lparr>readOnly := m\<rparr>) s = mem w s" "set_mem (w\<lparr>readOnly := m\<rparr>) mm s = set_mem w mm s"
  by (simp_all add: mem_def set_mem_def)

lemma pages_update [simp]:
  "pages (w\<lparr>hdr := h\<rparr>) s = pages w s" "set_pages (w\<lparr>hdr := h\<rparr>) W s = set_pages w W s"
  "pages (w\<lparr>szPage := n\<rparr>) s = pages w s" "set_pages (w\<lparr>szPage := n\<rparr>) W s = set_pages w W s"
  "pages (w\<lparr>nCkpt := c\<rparr>) s = pages w s" "set_pages (w\<lparr>nCkpt := c\<rparr>) W s = set_pages w W s"
  "pages (w\<lparr>minFrame := m\<rparr>) s = pages w s" "set_pages (w\<lparr>minFrame := m\<rparr>) W s = set_pages w W s"
  "pages (w\<lparr>readLock := l\<rparr>) s = pages w s" "set_pages (w\<lparr>readLock := l\<rparr>) W s = set_pages w W s"
  "pages (w\<lparr>writeLock := b\<rparr>) s = pages w s" "set_pages (w\<lparr>writeLock := b\<rparr>) W s = set_pages w W s"
  "pages (w\<lparr>ckptLock := b\<rparr>) s = pages w s" "set_pages (w\<lparr>ckptLock := b\<rparr>) W s = set_pages w W s"
  "pages (w\<lparr>iReCksum := m\<rparr>) s = pages w s" "set_pages (w\<lparr>iReCksum := m\<rparr>) W s = set_pages w W s"
  "pages (w\<lparr>truncateOnCommit := b\<rparr>) s = pages w s" "set_pages (w\<lparr>truncateOnCommit := b\<rparr>) W s = set_pages w W s"
  "pages (w\<lparr>iCallback := m\<rparr>) s = pages w s" "set_pages (w\<lparr>iCallback := m\<rparr>) W s = set_pages w W s"
  "pages (w\<lparr>apWiData := a\<rparr>) s = pages w s" "set_pages (w\<lparr>apWiData := a\<rparr>) W s = set_pages w W s"
  "pages (w\<lparr>readOnly := m\<rparr>) s = pages w s" "set_pages (w\<lparr>readOnly := m\<rparr>) W s = set_pages w W s"
  by (simp_all add: pages_def set_pages_def)

lemma ckptInfo_update [simp]:
  "walCkptInfo (w\<lparr>hdr := h\<rparr>) s = walCkptInfo w s" "set_ckptInfo (w\<lparr>hdr := h\<rparr>) i s = set_ckptInfo w i s"
  "walCkptInfo (w\<lparr>szPage := n\<rparr>) s = walCkptInfo w s" "set_ckptInfo (w\<lparr>szPage := n\<rparr>) i s = set_ckptInfo w i s"
  "walCkptInfo (w\<lparr>nCkpt := c\<rparr>) s = walCkptInfo w s" "set_ckptInfo (w\<lparr>nCkpt := c\<rparr>) i s = set_ckptInfo w i s"
  "walCkptInfo (w\<lparr>minFrame := m\<rparr>) s = walCkptInfo w s" "set_ckptInfo (w\<lparr>minFrame := m\<rparr>) i s = set_ckptInfo w i s"
  "walCkptInfo (w\<lparr>readLock := l\<rparr>) s = walCkptInfo w s" "set_ckptInfo (w\<lparr>readLock := l\<rparr>) i s = set_ckptInfo w i s"
  "walCkptInfo (w\<lparr>writeLock := b\<rparr>) s = walCkptInfo w s" "set_ckptInfo (w\<lparr>writeLock := b\<rparr>) i s = set_ckptInfo w i s"
  "walCkptInfo (w\<lparr>ckptLock := b\<rparr>) s = walCkptInfo w s" "set_ckptInfo (w\<lparr>ckptLock := b\<rparr>) i s = set_ckptInfo w i s"
  "walCkptInfo (w\<lparr>iReCksum := m\<rparr>) s = walCkptInfo w s" "set_ckptInfo (w\<lparr>iReCksum := m\<rparr>) i s = set_ckptInfo w i s"
  "walCkptInfo (w\<lparr>truncateOnCommit := b\<rparr>) s = walCkptInfo w s" "set_ckptInfo (w\<lparr>truncateOnCommit := b\<rparr>) i s = set_ckptInfo w i s"
  "walCkptInfo (w\<lparr>iCallback := m\<rparr>) s = walCkptInfo w s" "set_ckptInfo (w\<lparr>iCallback := m\<rparr>) i s = set_ckptInfo w i s"
  "walCkptInfo (w\<lparr>apWiData := a\<rparr>) s = walCkptInfo w s" "set_ckptInfo (w\<lparr>apWiData := a\<rparr>) i s = set_ckptInfo w i s"
  "walCkptInfo (w\<lparr>readOnly := m\<rparr>) s = walCkptInfo w s" "set_ckptInfo (w\<lparr>readOnly := m\<rparr>) i s = set_ckptInfo w i s"
  by (simp_all add: walCkptInfo_def set_ckptInfo_def)

lemma pages_set_pages [simp]: "pages w (set_pages w W s) = W"
  by (simp add: pages_def set_pages_def)

lemma set_pages_files [simp]: "walFile (set_pages w W s) = walFile s" "dbFile (set_pages w W s) = dbFile s"
  "fileOf f (set_pages w W s) = fileOf f s"
  by (simp_all add: set_pages_def)

lemma pages_cong: "uses_heap w' = uses_heap w \<Longrightarrow> pages w' s = pages w s"
  and set_pages_cong: "uses_heap w' = uses_heap w \<Longrightarrow> set_pages w' W s = set_pages w W s"
  by (simp_all add: pages_def set_pages_def mem_def set_mem_def)

lemma pages_same_store: "same_store s t \<Longrightarrow> pages w t = pages w s"
  by (simp add: pages_def same_store_eqs)

section \<open>Header lemmas\<close>

text \<open>The header that \<^verbatim>\<open>walIndexWriteHdr\<close> stores.\<close>

definition sealed :: "WalIndexHdr \<Rightarrow> WalIndexHdr" where
  "sealed h = (let h = h\<lparr>isInit := 1, iVersion := WALINDEX_MAX_VERSION\<rparr>
     in h\<lparr>aCksum := walChecksumBytes True (hdr_bytes h) 40 None\<rparr>)"

lemma sealed_fields [simp]:
  "mxFrame (sealed h) = mxFrame h" "nPage (sealed h) = nPage h" "aSalt (sealed h) = aSalt h"
  "aFrameCksum (sealed h) = aFrameCksum h" "bigEndCksum (sealed h) = bigEndCksum h"
  "hdr_szPage (sealed h) = hdr_szPage h" "iChange (sealed h) = iChange h" "isInit (sealed h) = 1"
  "iVersion (sealed h) = WALINDEX_MAX_VERSION"
  by (simp_all add: sealed_def Let_def)

lemma sealed_cksum: "walChecksumBytes True (hdr_bytes (sealed h)) 40 None = aCksum (sealed h)"
  by (simp add: sealed_def Let_def hdr_bytes_def)

lemma walIndexWriteHdr_quiet:
  assumes "vfs_quiet V" "walIndexWriteHdr V w s = (w', t)"
  shows "w' = w\<lparr>hdr := sealed (hdr w)\<rparr>"
    "mem w t = (mem w s)\<lparr>aHdr0 := sealed (hdr w), aHdr1 := sealed (hdr w)\<rparr>"
    "walFile t = walFile s" "dbFile t = dbFile s"
proof -
  let ?w = "w\<lparr>hdr := sealed (hdr w)\<rparr>"
  let ?s1 = "set_mem w ((mem w s)\<lparr>aHdr1 := sealed (hdr w)\<rparr>) s"
  have *: "w' = ?w" "t = set_mem w ((mem w (walShmBarrier V ?w ?s1))\<lparr>aHdr0 := sealed (hdr w)\<rparr>)
      (walShmBarrier V ?w ?s1)"
    using assms(2) by (auto simp: walIndexWriteHdr_def sealed_def Let_def mem_cong [of ?w w]
        set_mem_cong [of ?w w] mem_def set_mem_def)
  note b = same_store_eqs [OF quiet_locks(5) [OF assms(1), of ?s1 ?w]]
  show "w' = ?w" "mem w t = (mem w s)\<lparr>aHdr0 := sealed (hdr w), aHdr1 := sealed (hdr w)\<rparr>"
    "walFile t = walFile s" "dbFile t = dbFile s"
    using * b by simp_all
qed

lemma walIndexTryHdr_sealed:
  assumes "vfs_quiet V" "aHdr0 (mem w s) = sealed h" "aHdr1 (mem w s) = sealed h"
  shows "\<exists>t. same_store s t \<and> walIndexTryHdr V w s ch =
    (False, ch \<or> hdr w \<noteq> sealed h,
     if hdr w \<noteq> sealed h then w\<lparr>hdr := sealed h, szPage := page_size (hdr_szPage h)\<rparr> else w, t)"
  using assms same_store_eqs(5) [OF quiet_locks(5) [OF assms(1), of s w], of w]
    quiet_locks(5) [OF assms(1), of s w]
  by (auto simp: walIndexTryHdr_def Let_def sealed_cksum)

section \<open>A plain VFS\<close>

text \<open>One connection on files in memory: the methods do what they are documented to do and
  never fail but for a short read.\<close>

definition plain_vfs :: "unit vfs" where
  "plain_vfs = \<lparr>mallocOk = True, xShmMap = (\<lambda>_ _. (SQLITE_OK, True)),
     xShmLock = (\<lambda>_ _ _ s. (SQLITE_OK, s)), xShmBarrier = (\<lambda>s. s), xShmUnmap = (\<lambda>_ s. s),
     xRead = (\<lambda>f n off s. if off + n \<le> length (fileOf f s)
        then (SQLITE_OK, take n (drop off (fileOf f s)), s)
        else (SQLITE_IOERR_SHORT_READ, map (at (fileOf f s)) [off..<off + n], s)),
     xWrite = (\<lambda>f b off s. (SQLITE_OK, set_file f (overwrite (fileOf f s) off b) s)),
     xTruncate = (\<lambda>f n s. (SQLITE_OK,
        set_file f (take n (fileOf f s) @ replicate (n - length (fileOf f s)) 0) s)),
     xSync = (\<lambda>_ _ s. (SQLITE_OK, s)), xFileSize = (\<lambda>f s. (SQLITE_OK, length (fileOf f s), s)),
     xFileControl = (\<lambda>_ _ s. s), xPersistWal = (\<lambda>s. (0, s)), xLockExclusive = (\<lambda>s. (SQLITE_OK, s)),
     xClose = (\<lambda>_ s. s), xDelete = (\<lambda>s. s\<lparr>walFile := []\<rparr>), xUnfetch = None, xSleep = (\<lambda>_ s. s),
     xSectorSize = (\<lambda>_. 4096), sqlite3_randomness = (\<lambda>n s. (replicate n 0x5a, s)),
     isInterrupted = (\<lambda>_. False), mallocFailed = (\<lambda>_. False), mallocJunk = zero_page\<rparr>"

lemma plain_vfs_quiet: "vfs_quiet plain_vfs"
  by (simp add: vfs_quiet_def plain_vfs_def)

lemma plain_vfs_files: "vfs_files plain_vfs"
  by (simp add: vfs_files_def plain_vfs_def)

lemma plain_vfs_works: "vfs_works plain_vfs"
  by (simp add: vfs_works_def plain_vfs_def shm_reliable_def)

definition plain_world :: "bytes \<Rightarrow> bytes \<Rightarrow> unit world" where
  "plain_world log db = \<lparr>shm = wshm_zero, heap = wshm_zero, walFile = log, dbFile = db, os = ()\<rparr>"

section \<open>Properties\<close>

text \<open>C27. A header that \<^verbatim>\<open>walIndexWriteHdr\<close> has put in shared memory is accepted by
  \<^verbatim>\<open>walIndexTryHdr\<close> of any connection using the same wal-index: the reader takes it over,
  with its page size, and reports a change exactly if its own copy differed. When
  the copies differ, or the checksum is wrong, or the header was never written, the
  read fails and changes nothing of the connection.\<close>

theorem walIndexTryHdr_WriteHdr:
  assumes "vfs_quiet V" "walIndexWriteHdr V w s = (w', t)" "uses_heap r = uses_heap w"
  shows "(\<exists>u. walIndexTryHdr V r t ch = (False, ch \<or> hdr r \<noteq> hdr w',
      if hdr r \<noteq> hdr w' then r\<lparr>hdr := hdr w', szPage := page_size (hdr_szPage (hdr w))\<rparr> else r, u) \<and>
      same_store t u) \<and>
    (\<forall>x. let h = aHdr0 (mem r x); (bad, ch', r', y) = walIndexTryHdr V r x ch in
      (h \<noteq> aHdr1 (mem r x) \<or> isInit h = 0 \<or> walChecksumBytes True (hdr_bytes h) 40 None \<noteq> aCksum h \<longrightarrow> bad) \<and>
      (bad \<longrightarrow> r' = r \<and> ch' = ch))"
proof -
  note wr = walIndexWriteHdr_quiet [OF assms(1,2)]
  have "aHdr0 (mem r t) = sealed (hdr w)" "aHdr1 (mem r t) = sealed (hdr w)"
    using wr(2) mem_cong [OF assms(3), of t] by simp_all
  from walIndexTryHdr_sealed [OF assms(1) this, of ch]
  have 1: "\<exists>u. walIndexTryHdr V r t ch = (False, ch \<or> hdr r \<noteq> hdr w',
      if hdr r \<noteq> hdr w' then r\<lparr>hdr := hdr w', szPage := page_size (hdr_szPage (hdr w))\<rparr> else r, u) \<and>
      same_store t u"
    using wr(1) by auto
  have 2: "mem r (walShmBarrier V r x) = mem r x" for x
    using same_store_eqs(5) [OF quiet_locks(5) [OF assms(1), of x r], of r] .
  show ?thesis using 1 by (auto simp: walIndexTryHdr_def Let_def 2)
qed

theorem walIndexTryHdr_WriteHdr_witness:
  "\<exists>w' t r' u. walIndexWriteHdr plain_vfs (wal_zero\<lparr>hdr := hdr_zero\<lparr>mxFrame := 7\<rparr>\<rparr>) (plain_world [] []) = (w', t) \<and>
    walIndexTryHdr plain_vfs wal_zero t False = (False, True, r', u) \<and> mxFrame (hdr r') = 7"
proof -
  let ?w = "wal_zero\<lparr>hdr := hdr_zero\<lparr>mxFrame := 7\<rparr>\<rparr>"
  obtain w' t where wr: "walIndexWriteHdr plain_vfs ?w (plain_world [] []) = (w', t)"
    by (cases "walIndexWriteHdr plain_vfs ?w (plain_world [] [])")
  have "mxFrame (hdr w') = 7" using walIndexWriteHdr_quiet(1) [OF plain_vfs_quiet wr] by simp
  moreover have "mxFrame (hdr wal_zero) = 0" by (simp add: wal_zero_def hdr_zero_def)
  ultimately have "hdr wal_zero \<noteq> hdr w'" "mxFrame (hdr w') = 7" by (metis zero_neq_numeral)+
  then show ?thesis
    using walIndexTryHdr_WriteHdr [OF plain_vfs_quiet wr, of wal_zero False] wr by auto
qed

end
