(* ===== verification/WalRecover.thy ===== *)
theory WalRecover
  imports WalConn
begin

unbundle bit_operations_syntax

text \<open>
  Recovery of the wal-index from the log file (\<^verbatim>\<open>walIndexRecover\<close> of \<^verbatim>\<open>wal.c\<close>).
\<close>

section \<open>Operations\<close>

text \<open>The inner \<^verbatim>\<open>for\<close> loop of \<^verbatim>\<open>walIndexRecover\<close> over \<open>k\<close> frames from \<open>iFrame\<close> on: it
  returns the result code, whether it was left by a \<^verbatim>\<open>break\<close>, and in \<open>ck\<close> the local
  \<^verbatim>\<open>aFrameCksum\<close>. The private copy of the wal-index page that the loop fills stands
  in the place of the shared page, to which it is copied after the loop.\<close>

primrec recover_frames ::
  "nat \<Rightarrow> 'x vfs \<Rightarrow> nat \<Rightarrow> nat \<Rightarrow> rc \<Rightarrow> Wal \<Rightarrow> 'x world \<Rightarrow> cksum
    \<Rightarrow> rc \<times> bool \<times> Wal \<times> 'x world \<times> cksum" where
  "recover_frames 0 V sz iFrame rc w s ck = (rc, False, w, s, ck)"
| "recover_frames (Suc k) V sz iFrame rc w s ck =
    (let (rc, aFrame, s) = xRead V WalFd (sz + WAL_FRAME_HDRSIZE) (walFrameOffset iFrame sz) s
     in if rc \<noteq> SQLITE_OK then (rc, True, w, s, ck)
     else case walDecodeFrame w (drop WAL_FRAME_HDRSIZE aFrame) aFrame of
       (None, w) \<Rightarrow> (rc, True, w, s, ck)
     | (Some (pgno, nTruncate), w) \<Rightarrow>
        let (rc, W, w) = walIndexAppend V (pages w s) w iFrame pgno;
            s = set_pages w W s
        in if rc \<noteq> SQLITE_OK then (rc, True, w, s, ck)
           else if nTruncate \<noteq> 0 then
             recover_frames k V sz (iFrame + 1) rc
               (w\<lparr>hdr := (hdr w)\<lparr>mxFrame := iFrame, nPage := nTruncate, hdr_szPage := size_field sz\<rparr>\<rparr>)
               s (aFrameCksum (hdr w))
           else recover_frames k V sz (iFrame + 1) rc w s ck)"

text \<open>The outer loop over \<open>k\<close> pages of the wal-index from \<open>iPg\<close> on; \<open>priv\<close> is the content
  of the private buffer.\<close>

primrec recover_pages ::
  "nat \<Rightarrow> 'x vfs \<Rightarrow> nat \<Rightarrow> nat \<Rightarrow> nat \<Rightarrow> wi_page \<Rightarrow> rc \<Rightarrow> Wal \<Rightarrow> 'x world \<Rightarrow> cksum
    \<Rightarrow> rc \<times> Wal \<times> 'x world \<times> cksum" where
  "recover_pages 0 V sz iLastFrame iPg priv rc w s ck = (rc, w, s, ck)"
| "recover_pages (Suc k) V sz iLastFrame iPg priv rc w s ck =
    (let iLast = min iLastFrame (HASHTABLE_NPAGE_ONE + iPg * HASHTABLE_NPAGE);
         iFirst = 1 + (if iPg = 0 then 0 else HASHTABLE_NPAGE_ONE + (iPg - 1) * HASHTABLE_NPAGE);
         (rc, aShare, w) = walIndexPage V w iPg
     in if \<not> aShare then (rc, w, s, ck)
     else
       let s = set_pages w ((pages w s)(iPg := priv)) s;
           (rc, brk, w, s, ck) = recover_frames (iLast + 1 - iFirst) V sz iFirst rc w s ck
       in if brk then (rc, w, s, ck)
          else recover_pages k V sz iLastFrame (iPg + 1) (pages w s iPg) rc w s ck)"

text \<open>The part of \<^verbatim>\<open>walIndexRecover\<close> that reads the log. The two jumps to
  \<^verbatim>\<open>recovery_error\<close> have a result code other than \<^verbatim>\<open>SQLITE_OK\<close>, with which \<^verbatim>\<open>finished\<close>
  does nothing either.\<close>

definition recover_log ::
  "'x vfs \<Rightarrow> Wal \<Rightarrow> nat \<Rightarrow> 'x world \<Rightarrow> rc \<times> Wal \<times> 'x world \<times> cksum" where
  "recover_log V w nSize s =
    (let (rc, aBuf, s) = xRead V WalFd WAL_HDRSIZE 0 s
     in if rc \<noteq> SQLITE_OK then (rc, w, s, (0, 0))
     else
       let magic = sqlite3Get4byte aBuf;
           sz = unat (sqlite3Get4byte (drop 8 aBuf))
       in if magic AND 0xFFFFFFFE \<noteq> WAL_MAGIC \<or> sz AND (sz - 1) \<noteq> 0 \<or> sz > 65536 \<or> sz < 512
          then (rc, w, s, (0, 0))
       else
         let w = w\<lparr>hdr := (hdr w)\<lparr>bigEndCksum := ucast (magic AND 1), aSalt := take 8 (drop 16 aBuf)\<rparr>,
                  szPage := sz, nCkpt := sqlite3Get4byte (drop 12 aBuf)\<rparr>;
             c = walChecksumBytes (bigEndCksum (hdr w) = SQLITE_BIGENDIAN) aBuf 24 None;
             w = w\<lparr>hdr := (hdr w)\<lparr>aFrameCksum := c\<rparr>\<rparr>
         in if fst c \<noteq> sqlite3Get4byte (drop 24 aBuf) \<or> snd c \<noteq> sqlite3Get4byte (drop 28 aBuf)
            then (rc, w, s, (0, 0))
         else if sqlite3Get4byte (drop 4 aBuf) \<noteq> WAL_MAX_VERSION
            then (SQLITE_CANTOPEN, w, s, (0, 0))
         else if \<not> mallocOk V then (SQLITE_NOMEM, w, s, (0, 0))
         else
           let iLastFrame = (nSize - WAL_HDRSIZE) div (sz + WAL_FRAME_HDRSIZE)
           in recover_pages (walFramePage iLastFrame + 1) V sz iLastFrame 0 (mallocJunk V) rc w s (0, 0))"

text \<open>The loop that sets the read marks \<open>i, \<dots>, WAL_NREADER - 1\<close>. A slot in use is left as it
  is, and a \<^verbatim>\<open>SQLITE_BUSY\<close> of the last slot stays the result code.\<close>

primrec recover_marks ::
  "nat \<Rightarrow> 'x vfs \<Rightarrow> nat \<Rightarrow> rc \<Rightarrow> Wal \<Rightarrow> 'x world \<Rightarrow> rc \<times> 'x world" where
  "recover_marks 0 V i rc w s = (rc, s)"
| "recover_marks (Suc k) V i rc w s =
    (let (rc, s) = walLockExclusive V w (WAL_READ_LOCK i) 1 s
     in if rc = SQLITE_OK then
          let c = walCkptInfo w s;
              m = (if i = 1 \<and> mxFrame (hdr w) \<noteq> 0 then mxFrame (hdr w) else READMARK_NOT_USED);
              s = set_ckptInfo w (c\<lparr>aReadMark := (aReadMark c)[i := m]\<rparr>) s;
              s = walUnlockExclusive V w (WAL_READ_LOCK i) 1 s
          in recover_marks k V (i + 1) rc w s
        else if rc \<noteq> SQLITE_BUSY then (rc, s)
        else recover_marks k V (i + 1) rc w s)"

definition recover_finish ::
  "'x vfs \<Rightarrow> Wal \<Rightarrow> cksum \<Rightarrow> 'x world \<Rightarrow> rc \<times> Wal \<times> 'x world" where
  "recover_finish V w ck s =
    (let (w, s) = walIndexWriteHdr V (w\<lparr>hdr := (hdr w)\<lparr>aFrameCksum := ck\<rparr>\<rparr>) s;
         c = walCkptInfo w s;
         s = set_ckptInfo w (c\<lparr>nBackfill := 0, nBackfillAttempted := mxFrame (hdr w),
               aReadMark := (aReadMark c)[0 := 0]\<rparr>) s;
         (rc, s) = recover_marks (WAL_NREADER - 1) V 1 SQLITE_OK w s
     in (rc, w, s))"

definition walIndexRecover ::
  "'x vfs \<Rightarrow> Wal \<Rightarrow> 'x world \<Rightarrow> rc \<times> Wal \<times> 'x world" where
  "walIndexRecover V w s =
    (let iLock = WAL_ALL_BUT_WRITE + (if ckptLock w then 1 else 0);
         (rc, s) = walLockExclusive V w iLock (WAL_READ_LOCK 0 - iLock) s
     in if rc \<noteq> SQLITE_OK then (rc, w, s)
     else
       let w = w\<lparr>hdr := hdr_zero\<rparr>;
           (rc, nSize, s) = xFileSize V WalFd s;
           (rc, w, s) =
             (if rc \<noteq> SQLITE_OK then (rc, w, s)
              else
                let (rc, w, s, ck) =
                      (if nSize > WAL_HDRSIZE then recover_log V w nSize s
                       else (rc, w, s, (0, 0)))
                in if rc = SQLITE_OK then recover_finish V w ck s else (rc, w, s))
       in (rc, w, walUnlockExclusive V w iLock (WAL_READ_LOCK 0 - iLock) s))"

section \<open>The valid part of a log\<close>

text \<open>The specification of recovery: the frames of the file in order, as long as salt, page
  number and rolling checksum are right, each with its page number, its commit
  field and the checksum after it.\<close>

type_synonym frame_info = "u32 \<times> u32 \<times> cksum"

definition frame_at :: "bytes \<Rightarrow> nat \<Rightarrow> nat \<Rightarrow> bytes" where
  "frame_at f sz i = take (sz + WAL_FRAME_HDRSIZE) (drop (walFrameOffset i sz) f)"

definition frame_sum :: "bool \<Rightarrow> nat \<Rightarrow> cksum \<Rightarrow> bytes \<Rightarrow> cksum" where
  "frame_sum n sz ck f = walChecksumBytes n (drop 24 f) sz (Some (walChecksumBytes n f 8 (Some ck)))"

definition frame_valid :: "bool \<Rightarrow> nat \<Rightarrow> bytes \<Rightarrow> cksum \<Rightarrow> bytes \<Rightarrow> bool" where
  "frame_valid n sz salt ck f \<longleftrightarrow> salt = take 8 (drop 8 f) \<and> sqlite3Get4byte f \<noteq> 0 \<and>
     frame_sum n sz ck f = (sqlite3Get4byte (drop 16 f), sqlite3Get4byte (drop 20 f))"

definition frame_info :: "bool \<Rightarrow> nat \<Rightarrow> cksum \<Rightarrow> bytes \<Rightarrow> frame_info" where
  "frame_info n sz ck f = (sqlite3Get4byte f, sqlite3Get4byte (drop 4 f), frame_sum n sz ck f)"

primrec scan :: "nat \<Rightarrow> bool \<Rightarrow> nat \<Rightarrow> bytes \<Rightarrow> cksum \<Rightarrow> bytes \<Rightarrow> nat \<Rightarrow> frame_info list" where
  "scan 0 n sz salt ck f i = []"
| "scan (Suc k) n sz salt ck f i =
    (let fr = frame_at f sz i
     in if frame_valid n sz salt ck fr
        then frame_info n sz ck fr # scan k n sz salt (frame_sum n sz ck fr) f (i + 1)
        else [])"

definition scan_sum :: "cksum \<Rightarrow> frame_info list \<Rightarrow> cksum" where
  "scan_sum ck sc = (if sc = [] then ck else snd (snd (last sc)))"

text \<open>The frames up to and including the last commit frame.\<close>

definition committed :: "frame_info list \<Rightarrow> frame_info list" where
  "committed sc = rev (dropWhile (\<lambda>(pg, n, ck). n = 0) (rev sc))"

lemma scan_length: "length (scan k n sz salt ck f i) \<le> k"
  by (induction k arbitrary: ck i) (auto simp: Let_def)

lemma scan_sum_Cons [simp]: "scan_sum ck (x # sc) = scan_sum (snd (snd x)) sc"
  by (simp add: scan_sum_def)

lemma scan_sum_Nil [simp]: "scan_sum ck [] = ck"
  by (simp add: scan_sum_def)

lemma scan_add:
  "scan (j + k) n sz salt ck f i =
    (let sc = scan j n sz salt ck f i
     in if length sc = j then sc @ scan k n sz salt (scan_sum ck sc) f (i + j) else sc)"
proof (induction j arbitrary: ck i)
  case (Suc j)
  let ?fr = "frame_at f sz i"
  show ?case
  proof (cases "frame_valid n sz salt ck ?fr")
    case True
    then show ?thesis
      using Suc.IH [of "frame_sum n sz ck ?fr" "i + 1"] by (simp add: Let_def frame_info_def)
  qed (simp add: Let_def)
qed simp

lemma scan_proper: "0 \<notin> fst ` set (scan k n sz salt ck f i)"
proof (induction k arbitrary: ck i)
  case (Suc k)
  let ?fr = "frame_at f sz i"
  have "frame_valid n sz salt ck ?fr \<Longrightarrow> fst (frame_info n sz ck ?fr) \<noteq> 0"
    by (simp add: frame_valid_def frame_info_def)
  then show ?case
    using Suc.IH [of "frame_sum n sz ck ?fr" "i + 1"]
    by (cases "frame_valid n sz salt ck ?fr") (auto simp: Let_def)
qed simp

text \<open>The commit state that the loop carries.\<close>

fun track :: "nat \<Rightarrow> frame_info list \<Rightarrow> nat \<times> u32 \<times> cksum \<Rightarrow> nat \<times> u32 \<times> cksum" where
  "track i [] d = d"
| "track i ((pg, n, ck) # sc) d = track (i + 1) sc (if n \<noteq> 0 then (i, n, ck) else d)"

lemma track_append: "track i (a @ b) d = track (i + length a) b (track i a d)"
  by (induction i a d rule: track.induct) simp_all

lemma committed_snoc: "committed (sc @ [x]) = (if fst (snd x) \<noteq> 0 then sc @ [x] else committed sc)"
  by (cases x) (simp add: committed_def)

lemma committed_Nil [simp]: "committed [] = []"
  by (simp add: committed_def)

lemma track_committed:
  "track i sc d = (if committed sc = [] then d
     else (i + length (committed sc) - 1, snd (last (committed sc))))"
proof (induction sc rule: rev_induct)
  case (snoc x sc)
  obtain pg n ck where x: "x = (pg, n, ck)" by (cases x)
  show ?case using snoc by (simp add: track_append committed_snoc x)
qed simp

lemma committed_prefix: "\<exists>t. sc = committed sc @ t \<and> (\<forall>x\<in>set t. fst (snd x) = 0)"
proof (induction sc rule: rev_induct)
  case (snoc x sc)
  then obtain t where t: "sc = committed sc @ t" "\<forall>x\<in>set t. fst (snd x) = 0" by blast
  show ?case
  proof (cases "fst (snd x) = 0")
    case True
    then show ?thesis using t by (intro exI [of _ "t @ [x]"]) (auto simp: committed_snoc)
  qed (simp add: committed_snoc)
qed simp

lemma committed_last: "committed sc \<noteq> [] \<Longrightarrow> fst (snd (last (committed sc))) \<noteq> 0"
  by (induction sc rule: rev_induct) (auto simp: committed_snoc)

section \<open>The loops of recovery\<close>

lemma walDecodeFrame_valid:
  fixes w :: Wal and f :: bytes
  defines "n \<equiv> bigEndCksum (hdr w) = SQLITE_BIGENDIAN" and "ck \<equiv> aFrameCksum (hdr w)"
  shows "frame_valid n (szPage w) (aSalt (hdr w)) ck f \<Longrightarrow>
      walDecodeFrame w (drop 24 f) f = (Some (sqlite3Get4byte f, sqlite3Get4byte (drop 4 f)),
        w\<lparr>hdr := (hdr w)\<lparr>aFrameCksum := frame_sum n (szPage w) ck f\<rparr>\<rparr>)"
    and "\<not> frame_valid n (szPage w) (aSalt (hdr w)) ck f \<Longrightarrow>
      \<exists>c. walDecodeFrame w (drop 24 f) f = (None, w\<lparr>hdr := (hdr w)\<lparr>aFrameCksum := c\<rparr>\<rparr>)"
proof -
  show "walDecodeFrame w (drop 24 f) f = (Some (sqlite3Get4byte f, sqlite3Get4byte (drop 4 f)),
      w\<lparr>hdr := (hdr w)\<lparr>aFrameCksum := frame_sum n (szPage w) ck f\<rparr>\<rparr>)"
    if "frame_valid n (szPage w) (aSalt (hdr w)) ck f"
    using that unfolding frame_valid_def frame_sum_def walDecodeFrame_def Let_def n_def ck_def
    by (auto simp: prod_eq_iff)
  have same: "\<exists>c. w = w\<lparr>hdr := (hdr w)\<lparr>aFrameCksum := c\<rparr>\<rparr>"
    by (rule exI [of _ "aFrameCksum (hdr w)"]) simp
  show "\<exists>c. walDecodeFrame w (drop 24 f) f = (None, w\<lparr>hdr := (hdr w)\<lparr>aFrameCksum := c\<rparr>\<rparr>)"
    if "\<not> frame_valid n (szPage w) (aSalt (hdr w)) ck f"
  proof (cases "aSalt (hdr w) = take 8 (drop 8 f) \<and> sqlite3Get4byte f \<noteq> 0")
    case True
    then show ?thesis
      using that unfolding frame_valid_def n_def ck_def
      by (intro exI [of _ "frame_sum n (szPage w) ck f"])
         (auto simp: prod_eq_iff frame_sum_def walDecodeFrame_def Let_def n_def ck_def)
  next
    case False
    then have "walDecodeFrame w (drop 24 f) f = (None, w)" by (auto simp: walDecodeFrame_def Let_def)
    then show ?thesis using same by (simp only: prod.inject simp_thms)
  qed
qed

text \<open>What recovery may change of a connection.\<close>

definition hdr_moved :: "WalIndexHdr \<Rightarrow> WalIndexHdr \<Rightarrow> bool" where
  "hdr_moved h h' \<longleftrightarrow> h' = h\<lparr>mxFrame := mxFrame h', nPage := nPage h', hdr_szPage := hdr_szPage h',
     aFrameCksum := aFrameCksum h'\<rparr>"

definition same_but_hdr :: "Wal \<Rightarrow> Wal \<Rightarrow> bool" where
  "same_but_hdr w w' \<longleftrightarrow> w' = w\<lparr>hdr := hdr w', apWiData := apWiData w', readOnly := readOnly w'\<rparr> \<and>
     hdr_moved (hdr w) (hdr w')"

lemma hdr_moved_refl [simp]: "hdr_moved h h"
  by (simp add: hdr_moved_def)

lemma hdr_moved_trans: "hdr_moved a b \<Longrightarrow> hdr_moved b c \<Longrightarrow> hdr_moved a c"
  by (cases a; cases b; cases c) (simp add: hdr_moved_def)

lemma hdr_moved_fields:
  assumes "hdr_moved h h'"
  shows "aSalt h' = aSalt h" "bigEndCksum h' = bigEndCksum h" "iChange h' = iChange h"
    "isInit h' = isInit h" "iVersion h' = iVersion h"
  by (subst assms [unfolded hdr_moved_def], simp)+

lemma same_but_hdr_refl [simp]: "same_but_hdr w w"
  by (simp add: same_but_hdr_def)

lemma same_but_hdr_trans: "same_but_hdr a b \<Longrightarrow> same_but_hdr b c \<Longrightarrow> same_but_hdr a c"
  unfolding same_but_hdr_def using hdr_moved_trans [of "hdr a" "hdr b" "hdr c"]
  by (cases a; cases b; cases c) simp

lemma same_but_hdr_fields:
  assumes "same_but_hdr w w'"
  shows "szPage w' = szPage w" "exclusiveMode w' = exclusiveMode w" "writeLock w' = writeLock w"
    "ckptLock w' = ckptLock w" "bShmUnreliable w' = bShmUnreliable w" "nCkpt w' = nCkpt w"
    "readLock w' = readLock w" "uses_heap w' = uses_heap w" "hdr_moved (hdr w) (hdr w')"
proof -
  have *: "w' = w\<lparr>hdr := hdr w', apWiData := apWiData w', readOnly := readOnly w'\<rparr>"
    using assms by (simp add: same_but_hdr_def)
  show "szPage w' = szPage w" "exclusiveMode w' = exclusiveMode w" "writeLock w' = writeLock w"
    "ckptLock w' = ckptLock w" "bShmUnreliable w' = bShmUnreliable w" "nCkpt w' = nCkpt w"
    "readLock w' = readLock w" "uses_heap w' = uses_heap w"
    by (subst *, simp add: uses_heap_def)+
  show "hdr_moved (hdr w) (hdr w')" using assms by (simp add: same_but_hdr_def)
qed

lemma same_conn_same_but_hdr: "same_conn w w' \<Longrightarrow> same_but_hdr w w'"
  by (cases w; cases w') (simp add: same_conn_def same_but_hdr_def)

lemma same_but_hdr_update [simp]:
  "same_but_hdr w (w\<lparr>hdr := (hdr w)\<lparr>aFrameCksum := c\<rparr>\<rparr>)"
  "same_but_hdr w (w\<lparr>hdr := (hdr w)\<lparr>mxFrame := m, nPage := n, hdr_szPage := z\<rparr>\<rparr>)"
  by (simp_all add: same_but_hdr_def hdr_moved_def)

text \<open>Only pages of the wal-index changed.\<close>

definition only_pages :: "Wal \<Rightarrow> 'x world \<Rightarrow> 'x world \<Rightarrow> bool" where
  "only_pages w s t \<longleftrightarrow> (\<exists>W. same_store (set_pages w W s) t)"

lemma only_pages_store: "same_store s t \<Longrightarrow> only_pages w s t"
  unfolding only_pages_def
  by (rule exI [of _ "pages w s"]) (simp add: same_store_def set_pages_def pages_def set_mem_def mem_def)

lemma only_pages_refl [simp]: "only_pages w s s"
  by (simp add: only_pages_store)

lemma only_pages_set [simp]: "only_pages w s (set_pages w W s)"
  unfolding only_pages_def by (rule exI [of _ W]) simp

lemma only_pages_trans: "only_pages w a b \<Longrightarrow> only_pages w b c \<Longrightarrow> only_pages w a c"
  unfolding only_pages_def
  by (auto simp: same_store_def set_pages_def set_mem_def mem_def split: if_splits)

lemma only_pages_cong: "uses_heap w' = uses_heap w \<Longrightarrow> only_pages w' s t = only_pages w s t"
  by (simp add: only_pages_def set_pages_def mem_def set_mem_def)

lemma only_pages_eqs:
  assumes "only_pages w s t"
  shows "walFile t = walFile s" "dbFile t = dbFile s" "aHdr0 (mem w t) = aHdr0 (mem w s)"
    "aHdr1 (mem w t) = aHdr1 (mem w s)" "walCkptInfo w t = walCkptInfo w s"
  using assms unfolding only_pages_def
  by (auto simp: same_store_def set_pages_def set_mem_def mem_def walCkptInfo_def split: if_splits)

text \<open>The state after some frames were recovered: \<open>sc\<close> is what the specification says of
  them.\<close>

definition recovered ::
  "nat \<Rightarrow> nat \<Rightarrow> u32 list \<Rightarrow> frame_info list \<Rightarrow> Wal \<Rightarrow> 'x world \<Rightarrow> cksum \<Rightarrow> Wal \<Rightarrow> 'x world \<Rightarrow> cksum \<Rightarrow> bool"
where
  "recovered sz i log sc w s ck w' s' ck' \<longleftrightarrow>
     wi_repr (pages w' s') (log @ map fst sc) \<and> same_but_hdr w w' \<and> only_pages w s s' \<and>
     (mxFrame (hdr w'), nPage (hdr w'), ck') = track i sc (mxFrame (hdr w), nPage (hdr w), ck) \<and>
     hdr_szPage (hdr w') = (if committed sc \<noteq> [] then size_field sz else hdr_szPage (hdr w))"

lemma recovered_Nil:
  assumes "wi_repr (pages w s) log" "same_store s s'"
  shows "recovered sz i log [] w s ck (w\<lparr>hdr := (hdr w)\<lparr>aFrameCksum := c\<rparr>\<rparr>) s' ck"
  using assms by (simp add: recovered_def only_pages_store pages_same_store
      pages_cong [of "w\<lparr>hdr := (hdr w)\<lparr>aFrameCksum := c\<rparr>\<rparr>" w])

lemma committed_append:
  "committed (a @ b) = (if committed b \<noteq> [] then a @ committed b else committed a)"
  by (induction b rule: rev_induct) (auto simp: committed_snoc simp flip: append_assoc)

lemma recovered_trans:
  assumes "recovered sz i log a w s ck w1 s1 ck1"
    and "recovered sz (i + length a) (log @ map fst a) b w1 s1 ck1 w2 s2 ck2"
  shows "recovered sz i log (a @ b) w s ck w2 s2 ck2"
proof -
  have h: "uses_heap w1 = uses_heap w"
    using assms(1) same_but_hdr_fields(8) by (auto simp: recovered_def)
  show ?thesis
    using assms same_but_hdr_trans [of w w1 w2] only_pages_trans [of w s s1 s2]
      only_pages_cong [OF h, of s1 s2]
    by (auto simp: recovered_def track_append committed_append)
qed

text \<open>One valid frame: decoded, indexed, and recorded if it is a commit.\<close>

lemma recovered_one:
  fixes w :: Wal
  defines "n \<equiv> bigEndCksum (hdr w) = SQLITE_BIGENDIAN" and "c \<equiv> aFrameCksum (hdr w)"
  assumes v: "frame_valid n sz (aSalt (hdr w)) c fr"
    and w1: "w1 = w\<lparr>hdr := (hdr w)\<lparr>aFrameCksum := frame_sum n sz c fr\<rparr>\<rparr>"
    and t: "same_store s t" "wi_repr (pages w s) log" "i = Suc (length log)"
    and app: "walIndexAppend V (pages w1 t) w1 i (sqlite3Get4byte fr) = (SQLITE_OK, W, w2)"
  shows "same_conn w1 w2"
    and "sqlite3Get4byte (drop 4 fr) = 0 \<Longrightarrow>
      recovered sz i log [frame_info n sz c fr] w s ck w2 (set_pages w2 W t) ck"
    and "sqlite3Get4byte (drop 4 fr) \<noteq> 0 \<Longrightarrow>
      recovered sz i log [frame_info n sz c fr] w s ck
        (w2\<lparr>hdr := (hdr w2)\<lparr>mxFrame := i, nPage := sqlite3Get4byte (drop 4 fr),
             hdr_szPage := size_field sz\<rparr>\<rparr>) (set_pages w2 W t) (aFrameCksum (hdr w2))"
proof -
  have u1: "uses_heap w1 = uses_heap w" by (simp add: w1)
  have p: "pages w1 t = pages w s"
    using pages_cong [OF u1] pages_same_store [OF t(1)] by simp
  have pg: "sqlite3Get4byte fr \<noteq> 0" using v by (simp add: frame_valid_def)
  have r: "same_conn w1 w2" "wi_repr W (log @ [sqlite3Get4byte fr])"
    using append_repr [OF t(2) app [unfolded p] _ pg] t(3) by simp_all
  show "same_conn w1 w2" by (rule r)
  have u2: "uses_heap w2 = uses_heap w" using uses_heap_same_conn [OF r(1)] u1 by simp
  have b: "same_but_hdr w w2"
    using same_but_hdr_trans [OF _ same_conn_same_but_hdr [OF r(1)], of w] by (simp add: w1)
  have h2: "hdr w2 = (hdr w)\<lparr>aFrameCksum := frame_sum n sz c fr\<rparr>"
    using same_conn_fields(1) [OF r(1)] by (simp add: w1)
  have o: "only_pages w s (set_pages w2 W t)"
    unfolding set_pages_cong [OF u2]
    by (rule only_pages_trans [OF only_pages_store [OF t(1)] only_pages_set])
  have q: "pages w2 (set_pages w2 W t) = W" by simp
  show "recovered sz i log [frame_info n sz c fr] w s ck w2 (set_pages w2 W t) ck"
    if "sqlite3Get4byte (drop 4 fr) = 0"
    using that r(2) b o q by (simp add: recovered_def frame_info_def committed_def h2)
  let ?w = "w2\<lparr>hdr := (hdr w2)\<lparr>mxFrame := i, nPage := sqlite3Get4byte (drop 4 fr),
             hdr_szPage := size_field sz\<rparr>\<rparr>"
  have "same_but_hdr w ?w" using same_but_hdr_trans [OF b] by simp
  moreover have "pages ?w (set_pages w2 W t) = W" using q by simp
  ultimately show "recovered sz i log [frame_info n sz c fr] w s ck ?w (set_pages w2 W t)
      (aFrameCksum (hdr w2))" if "sqlite3Get4byte (drop 4 fr) \<noteq> 0"
    using that r(2) o by (simp add: recovered_def frame_info_def committed_def h2)
qed

lemma recover_frames_spec:
  assumes Q: "vfs_quiet V" and F: "vfs_files V"
    and "recover_frames k V sz i rc0 w s ck = (rc, brk, w', s', ck')"
    and "szPage w = sz" "wi_repr (pages w s) log" "i = Suc (length log)"
    and "sc = scan k (bigEndCksum (hdr w) = SQLITE_BIGENDIAN) sz (aSalt (hdr w))
      (aFrameCksum (hdr w)) (walFile s) i"
  shows "(rc = SQLITE_OK \<longrightarrow> recovered sz i log sc w s ck w' s' ck' \<and> brk = (length sc < k) \<and>
      (\<not> brk \<longrightarrow> aFrameCksum (hdr w') = scan_sum (aFrameCksum (hdr w)) sc)) \<and>
    (vfs_works V \<and> walFrameOffset (i + k) sz \<le> length (walFile s) \<and> rc0 = SQLITE_OK \<longrightarrow> rc = SQLITE_OK)"
  using assms(3-)
proof (induction k arbitrary: i rc0 w s ck log sc)
  case 0
  then show ?case using recovered_Nil [of w s log s sz i ck "aFrameCksum (hdr w)"] by simp
next
  case (Suc k)
  let ?n = "bigEndCksum (hdr w) = SQLITE_BIGENDIAN" and ?c = "aFrameCksum (hdr w)"
  obtain rc1 fr t where rd: "xRead V WalFd (sz + 24) (walFrameOffset i sz) s = (rc1, fr, t)"
    by (cases "xRead V WalFd (sz + 24) (walFrameOffset i sz) s")
  have st: "same_store s t" using quiet_same_store(3) [OF Q rd] .
  show ?case
  proof (cases "rc1 = SQLITE_OK")
    case False
    moreover have "vfs_works V \<and> walFrameOffset (i + Suc k) sz \<le> length (walFile s) \<longrightarrow> rc1 = SQLITE_OK"
    proof
      assume a: "vfs_works V \<and> walFrameOffset (i + Suc k) sz \<le> length (walFile s)"
      have "walFrameOffset i sz + (sz + 24) \<le> walFrameOffset (i + Suc k) sz"
        using Suc.prems(4) by (simp add: walFrameOffset_def algebra_simps)
      then have "fst (xRead V WalFd (sz + 24) (walFrameOffset i sz) s) = SQLITE_OK"
        using a unfolding vfs_works_def by simp
      then show "rc1 = SQLITE_OK" using rd by simp
    qed
    ultimately show ?thesis using Suc.prems(1) rd by auto
  next
    case True
    have fr: "fr = frame_at (walFile s) sz i"
      using F rd True unfolding vfs_files_def frame_at_def by fastforce
    show ?thesis
    proof (cases "frame_valid ?n sz (aSalt (hdr w)) ?c fr")
      case False
      then obtain c where "walDecodeFrame w (drop 24 fr) fr = (None, w\<lparr>hdr := (hdr w)\<lparr>aFrameCksum := c\<rparr>\<rparr>)"
        using walDecodeFrame_valid(2) [of w fr] Suc.prems(2) by auto
      then have "rc = SQLITE_OK" "brk" "w' = w\<lparr>hdr := (hdr w)\<lparr>aFrameCksum := c\<rparr>\<rparr>" "s' = t" "ck' = ck"
        using Suc.prems(1) rd True by simp_all
      moreover have "sc = []" using False Suc.prems(5) fr by (simp add: Let_def)
      ultimately show ?thesis using recovered_Nil [OF Suc.prems(3) st] by simp
    next
      case valid: True
      define w1 where "w1 = w\<lparr>hdr := (hdr w)\<lparr>aFrameCksum := frame_sum ?n sz ?c fr\<rparr>\<rparr>"
      have dec: "walDecodeFrame w (drop 24 fr) fr =
          (Some (sqlite3Get4byte fr, sqlite3Get4byte (drop 4 fr)), w1)"
        using walDecodeFrame_valid(1) [of w fr] valid Suc.prems(2) by (simp add: w1_def)
      obtain rc2 W w2 where app: "walIndexAppend V (pages w1 t) w1 i (sqlite3Get4byte fr) = (rc2, W, w2)"
        by (cases "walIndexAppend V (pages w1 t) w1 i (sqlite3Get4byte fr)")
      show ?thesis
      proof (cases "rc2 = SQLITE_OK")
        case False
        have "fst (walHashGet V w1 (walFramePage i)) \<noteq> SQLITE_OK"
          using append_repr [OF _ app, of log] False Suc.prems(3,4) valid st
            pages_cong [of w1 w t] pages_same_store [OF st, of w]
          by (auto simp: w1_def frame_valid_def)
        then have "\<not> vfs_works V" using walHashGet_reliable [of V] by (auto simp: vfs_works_def)
        then show ?thesis using Suc.prems(1) rd True dec app False by simp
      next
        case ok: True
        note one = recovered_one [OF valid w1_def st Suc.prems(3,4) app [unfolded ok]]
        define w3 where "w3 = (if sqlite3Get4byte (drop 4 fr) \<noteq> 0
          then w2\<lparr>hdr := (hdr w2)\<lparr>mxFrame := i, nPage := sqlite3Get4byte (drop 4 fr),
             hdr_szPage := size_field sz\<rparr>\<rparr> else w2)"
        define ck3 where "ck3 = (if sqlite3Get4byte (drop 4 fr) \<noteq> 0 then aFrameCksum (hdr w2) else ck)"
        define t3 where "t3 = set_pages w2 W t"
        have rec: "recovered sz i log [frame_info ?n sz ?c fr] w s ck w3 t3 ck3"
          using one by (simp add: w3_def ck3_def t3_def)
        have run: "recover_frames k V sz (i + 1) SQLITE_OK w3 t3 ck3 = (rc, brk, w', s', ck')"
          using Suc.prems(1) rd True dec app ok by (simp add: w3_def ck3_def t3_def Let_def split: if_splits)
        have h3: "aFrameCksum (hdr w3) = frame_sum ?n sz ?c fr" "aSalt (hdr w3) = aSalt (hdr w)"
          "bigEndCksum (hdr w3) = bigEndCksum (hdr w)" "szPage w3 = sz"
          using same_conn_fields [OF one(1)] Suc.prems(2) by (simp_all add: w3_def w1_def)
        have f3: "walFile t3 = walFile s" using rec only_pages_eqs(1) [of w s t3] by (simp add: recovered_def)
        define sc3 where "sc3 = scan k ?n sz (aSalt (hdr w)) (frame_sum ?n sz ?c fr) (walFile s) (i + 1)"
        have sc: "sc = frame_info ?n sz ?c fr # sc3"
          using Suc.prems(5) valid by (simp add: Let_def fr sc3_def)
        have log: "wi_repr (pages w3 t3) (log @ [sqlite3Get4byte fr])" "i + 1 = Suc (length (log @ [sqlite3Get4byte fr]))"
          using rec Suc.prems(4) by (simp_all add: recovered_def frame_info_def)
        note IH = Suc.IH [OF run h3(4) log, of sc3, unfolded h3 f3, OF sc3_def]
        have "recovered sz i log sc w s ck w' s' ck'" if "rc = SQLITE_OK"
          using recovered_trans [OF rec, of sc3 w' s' ck'] IH that by (simp add: sc frame_info_def)
        then show ?thesis using IH sc by (auto simp: frame_info_def)
      qed
    qed
  qed
qed

lemma recovered_start:
  assumes "same_conn w w1" "wi_repr W log"
  shows "recovered sz i log [] w s ck w1 (set_pages w1 W s) ck"
proof -
  have u: "uses_heap w1 = uses_heap w" by (rule uses_heap_same_conn [OF assms(1)])
  have "only_pages w s (set_pages w1 W s)" unfolding set_pages_cong [OF u] by simp
  then show ?thesis
    using assms same_conn_fields(1) [OF assms(1)] same_conn_same_but_hdr [OF assms(1)]
    by (simp add: recovered_def)
qed

lemma wi_repr_other: "wi_repr W log \<Longrightarrow> length log \<le> ht_zero i \<Longrightarrow> wi_repr (W(i := p)) log"
  by (auto simp: wi_repr_def)

lemma walIndexPage_writer:
  assumes "vfs_files V" "writeLock w" "walIndexPage V w i = (SQLITE_OK, p, w1)"
  shows "p"
  using assms(2,3) vfs_files_D(5) [OF assms(1), of i]
  by (auto simp: walIndexPage_def walIndexPageRealloc_def Let_def split: if_splits prod.splits)

lemma walIndexPage_works:
  assumes "vfs_works V"
  shows "\<exists>w1. walIndexPage V w i = (SQLITE_OK, True, w1)"
  using assms
  by (auto simp: walIndexPage_def walIndexPageRealloc_def vfs_works_def shm_reliable_def Let_def)

lemma walFramePage_less: "i < walFramePage n \<Longrightarrow> ht_zero (Suc i) < n"
  using walFramePage_bounds [of n] ht_zero_mono [of "Suc i" "walFramePage n"]
  by (cases "n = 0") (auto simp: walFramePage_def)

lemma walFramePage_le: "walFramePage n \<le> i \<Longrightarrow> n \<le> ht_zero (Suc i)"
  using walFramePage_bounds [of n] ht_zero_mono [of "Suc (walFramePage n)" "Suc i"]
  by (cases "n = 0") (auto simp: ht_zero_Suc)

lemma ht_zero_eqs:
  "(if i = 0 then 0 else 4062 + (i - 1) * 4096) = ht_zero i" "4062 + i * 4096 = ht_zero (Suc i)"
  by (simp_all add: ht_zero_def)

lemma recover_frames_rc:
  "recover_frames k V sz i rc0 w s ck = (rc, False, w', s', ck') \<Longrightarrow> 0 < k \<Longrightarrow> rc = SQLITE_OK"
proof (induction k arbitrary: i rc0 w s ck)
  case (Suc k)
  then show ?case
    by (cases k) (auto simp: Let_def split: prod.splits option.splits if_splits)
qed simp

lemma recover_pages_spec:
  assumes Q: "vfs_quiet V" and F: "vfs_files V"
    and "recover_pages k V sz N iPg priv SQLITE_OK w s ck = (rc, w', s', ck')"
    and "szPage w = sz" "writeLock w" "wi_repr (pages w s) log" "length log = ht_zero iPg"
    and "k = walFramePage N + 1 - iPg" "iPg \<le> walFramePage N"
    and "sc = scan (N - ht_zero iPg) (bigEndCksum (hdr w) = SQLITE_BIGENDIAN) sz (aSalt (hdr w))
      (aFrameCksum (hdr w)) (walFile s) (Suc (ht_zero iPg))"
  shows "(rc = SQLITE_OK \<longrightarrow> recovered sz (Suc (ht_zero iPg)) log sc w s ck w' s' ck') \<and>
    (vfs_works V \<and> walFrameOffset (Suc N) sz \<le> length (walFile s) \<longrightarrow> rc = SQLITE_OK)"
  using assms(3-)
proof (induction k arbitrary: iPg priv w s ck log sc)
  case (Suc k)
  let ?n = "bigEndCksum (hdr w) = SQLITE_BIGENDIAN" and ?c = "aFrameCksum (hdr w)"
  obtain rc1 p w1 where pg: "walIndexPage V w iPg = (rc1, p, w1)" by (cases "walIndexPage V w iPg")
  have sc1: "same_conn w w1" using walIndexPage_same_conn [OF pg] .
  show ?case
  proof (cases p)
    case False
    then have "rc1 \<noteq> SQLITE_OK" using walIndexPage_writer [OF F Suc.prems(3)] pg by blast
    then show ?thesis using Suc.prems(1) pg False walIndexPage_works [of V w iPg] by (auto simp: Let_def)
  next
    case True
    define W1 where "W1 = (pages w1 s)(iPg := priv)"
    define s1 where "s1 = set_pages w1 W1 s"
    define j where "j = min N (ht_zero (Suc iPg)) - ht_zero iPg"
    obtain rc2 brk w2 s2 ck2
      where fr: "recover_frames j V sz (Suc (ht_zero iPg)) rc1 w1 s1 ck = (rc2, brk, w2, s2, ck2)"
      by (cases "recover_frames j V sz (Suc (ht_zero iPg)) rc1 w1 s1 ck")
    have res: "(if brk then (rc2, w2, s2, ck2)
        else recover_pages k V sz N (iPg + 1) (pages w2 s2 iPg) rc2 w2 s2 ck2) = (rc, w', s', ck')"
      using Suc.prems(1) pg True fr
      unfolding recover_pages.simps Let_def ht_zero_eqs(1) W1_def s1_def j_def
      unfolding ht_zero_eqs(2) by simp
    have W1: "wi_repr W1 log"
      using Suc.prems(4,5) pages_cong [OF uses_heap_same_conn [OF sc1], of s]
      by (simp add: W1_def wi_repr_other)
    note f1 = same_conn_fields [OF sc1]
    note start = recovered_start [OF sc1 W1, of sz "Suc (ht_zero iPg)" s ck, folded s1_def]
    have w1: "szPage w1 = sz" "wi_repr (pages w1 s1) log" "Suc (ht_zero iPg) = Suc (length log)"
      "walFile s1 = walFile s"
      using f1 Suc.prems(2,5) W1 by (simp_all add: s1_def)
    define scj where "scj = scan j ?n sz (aSalt (hdr w)) ?c (walFile s) (Suc (ht_zero iPg))"
    note frs = recover_frames_spec [OF Q F fr w1(1-3), of scj, unfolded f1 w1(4), OF scj_def]
    have rec: "recovered sz (Suc (ht_zero iPg)) log scj w s ck w2 s2 ck2" if "rc2 = SQLITE_OK"
      using recovered_trans [OF start, of scj w2 s2 ck2] frs that by simp
    have works: "rc2 = SQLITE_OK" if "vfs_works V" "walFrameOffset (Suc N) sz \<le> length (walFile s)"
    proof -
      have "Suc (ht_zero iPg) + j \<le> Suc N \<or> j = 0" by (auto simp: j_def)
      then have "walFrameOffset (Suc (ht_zero iPg) + j) sz \<le> length (walFile s) \<or> j = 0"
        using that(2) by (auto simp: walFrameOffset_def elim: order_trans [rotated])
      moreover have "rc1 = SQLITE_OK" using walIndexPage_works [OF that(1), of w iPg] pg by simp
      ultimately show ?thesis using frs fr that(1) by auto
    qed
    have all: "sc = (if length scj = j then
        scj @ scan (N - ht_zero iPg - j) ?n sz (aSalt (hdr w)) (scan_sum ?c scj) (walFile s)
          (Suc (ht_zero iPg) + j) else scj)"
    proof -
      have jle: "j + (N - ht_zero iPg - j) = N - ht_zero iPg" by (simp add: j_def)
      show ?thesis
        using scan_add [of j "N - ht_zero iPg - j" ?n sz "aSalt (hdr w)" ?c "walFile s"
            "Suc (ht_zero iPg)"] Suc.prems(8)
        unfolding jle by (simp add: scj_def Let_def)
    qed
    have short: "length scj \<le> j" by (simp add: scj_def scan_length)
    show ?thesis
    proof (cases brk)
      case True
      then show ?thesis using res rec works frs all by auto
    next
      case False
      show ?thesis
      proof (cases "k = 0")
        case True
        then have "N \<le> ht_zero (Suc iPg)" using walFramePage_le Suc.prems(6) by simp
        then have "N - ht_zero iPg - j = 0" by (simp add: j_def)
        then have "sc = scj" using all by simp
        then show ?thesis using res rec works False True by auto
      next
        case k: False
        then have "Suc iPg \<le> walFramePage N" using Suc.prems(6) by simp
        then have N: "ht_zero (Suc iPg) < N" using walFramePage_less [of iPg N] by simp
        then have j: "j = ht_cap iPg" by (simp add: j_def ht_zero_Suc)
        have ok: "rc2 = SQLITE_OK" using recover_frames_rc [of j V sz "Suc (ht_zero iPg)" rc1 w1 s1 ck rc2 w2 s2 ck2] fr False j by simp
        note rec2 = rec [OF ok] and frs2 = frs [THEN conjunct1, rule_format, OF ok]
        have b: "same_but_hdr w w2" "only_pages w s s2" using rec2 by (simp_all add: recovered_def)
        note h2 = same_but_hdr_fields [OF b(1)] and m2 = hdr_moved_fields [OF same_but_hdr_fields(9) [OF b(1)]]
        have len: "length scj = j" using frs2 False short by simp
        define sc2 where "sc2 = scan (N - ht_zero (Suc iPg)) ?n sz (aSalt (hdr w)) (scan_sum ?c scj)
            (walFile s) (Suc (ht_zero (Suc iPg)))"
        have c2: "aFrameCksum (hdr w2) = scan_sum ?c scj" using frs2 False by simp
        have run: "recover_pages k V sz N (Suc iPg) (pages w2 s2 iPg) SQLITE_OK w2 s2 ck2 = (rc, w', s', ck')"
          using res False ok by simp
        have pre: "szPage w2 = sz" "writeLock w2" "wi_repr (pages w2 s2) (log @ map fst scj)"
          "length (log @ map fst scj) = ht_zero (Suc iPg)" "k = walFramePage N + 1 - Suc iPg"
          using h2 Suc.prems(2,3,5,6) rec2 len j by (simp_all add: recovered_def ht_zero_Suc)
        have "sc2 = scan (N - ht_zero (Suc iPg)) (bigEndCksum (hdr w2) = SQLITE_BIGENDIAN) sz (aSalt (hdr w2))
            (aFrameCksum (hdr w2)) (walFile s2) (Suc (ht_zero (Suc iPg)))"
          using m2 c2 only_pages_eqs(1) [OF b(2)] by (simp add: sc2_def)
        note IH = Suc.IH [OF run pre \<open>Suc iPg \<le> walFramePage N\<close> this]
        have "sc = scj @ sc2" using all len j N by (simp add: sc2_def ht_zero_Suc)
        then have "recovered sz (Suc (ht_zero iPg)) log sc w s ck w' s' ck'" if "rc = SQLITE_OK"
          using recovered_trans [OF rec2, of sc2 w' s' ck'] IH that len j by (simp add: ht_zero_Suc)
        then show ?thesis using IH only_pages_eqs(1) [OF b(2)] by auto
      qed
    qed
  qed
qed (simp)

section \<open>Recovery as a whole\<close>

text \<open>The header of a log file, and the valid frames of a file.\<close>

definition log_sz :: "bytes \<Rightarrow> nat" where
  "log_sz b = unat (sqlite3Get4byte (drop 8 b))"

definition log_native :: "bytes \<Rightarrow> bool" where
  "log_native b \<longleftrightarrow> (ucast (sqlite3Get4byte b AND 1) :: u8) = SQLITE_BIGENDIAN"

definition log_sum :: "bytes \<Rightarrow> cksum" where
  "log_sum b = walChecksumBytes (log_native b) b 24 None"

definition log_header_ok :: "bytes \<Rightarrow> bool" where
  "log_header_ok b \<longleftrightarrow> sqlite3Get4byte b AND 0xFFFFFFFE = WAL_MAGIC \<and>
     log_sz b AND (log_sz b - 1) = 0 \<and> log_sz b \<le> 65536 \<and> 512 \<le> log_sz b \<and>
     log_sum b = (sqlite3Get4byte (drop 24 b), sqlite3Get4byte (drop 28 b))"

definition log_scan :: "bytes \<Rightarrow> frame_info list" where
  "log_scan f = (let b = take 32 f in
     if 32 < length f \<and> log_header_ok b
     then scan ((length f - 32) div (log_sz b + 24)) (log_native b) (log_sz b) (take 8 (drop 16 b))
       (log_sum b) f 1
     else [])"

lemma recover_log_spec:
  assumes Q: "vfs_quiet V" and F: "vfs_files V"
    and r: "recover_log V w nSize s = (rc, w', t, ck)"
    and w: "writeLock w" "hdr w = hdr_zero" and n: "nSize = length (walFile s)" "32 < nSize"
  defines "sc \<equiv> log_scan (walFile s)"
  shows "(rc = SQLITE_OK \<longrightarrow> (mxFrame (hdr w'), nPage (hdr w'), ck) = track 1 sc (0, 0, 0, 0) \<and>
      wi_repr (pages w' t) (map fst sc) \<and> only_pages w s t \<and> uses_heap w' = uses_heap w \<and>
      exclusiveMode w' = exclusiveMode w \<and>
      (sc \<noteq> [] \<longrightarrow> szPage w' = log_sz (take 32 (walFile s)) \<and> aSalt (hdr w') = take 8 (drop 16 (take 32 (walFile s)))) \<and>
      (committed sc \<noteq> [] \<longrightarrow> hdr_szPage (hdr w') = size_field (log_sz (take 32 (walFile s))))) \<and>
    (vfs_works V \<and> sqlite3Get4byte (drop 4 (take 32 (walFile s))) = WAL_MAX_VERSION \<longrightarrow> rc = SQLITE_OK)"
proof -
  obtain rc1 b s1 where rd: "xRead V WalFd 32 0 s = (rc1, b, s1)" by (cases "xRead V WalFd 32 0 s")
  have st: "same_store s s1" using quiet_same_store(3) [OF Q rd] .
  have ok1: "vfs_works V \<Longrightarrow> rc1 = SQLITE_OK" using vfs_works_D(3) [of V 0 32 WalFd s] rd n by simp
  show ?thesis
  proof (cases "rc1 = SQLITE_OK")
    case False
    then show ?thesis using r rd ok1 by (auto simp: recover_log_def)
  next
    case True
    have b: "b = take 32 (walFile s)" using vfs_files_D(1) [OF F] rd True by fastforce
    define w1 where "w1 = w\<lparr>szPage := log_sz b, nCkpt := sqlite3Get4byte (drop 12 b),
        hdr := (hdr w)\<lparr>bigEndCksum := ucast (sqlite3Get4byte b AND 1),
          aSalt := take 8 (drop 16 b), aFrameCksum := log_sum b\<rparr>\<rparr>"
    define bad where "bad \<longleftrightarrow> sqlite3Get4byte b AND 0xFFFFFFFE \<noteq> WAL_MAGIC \<or>
        log_sz b AND (log_sz b - 1) \<noteq> 0 \<or> log_sz b > 65536 \<or> log_sz b < 512"
    define N where "N = (nSize - 32) div (log_sz b + 24)"
    define sum where "sum \<longleftrightarrow> fst (log_sum b) = sqlite3Get4byte (drop 24 b) \<and>
        snd (log_sum b) = sqlite3Get4byte (drop 28 b)"
    have eq: "recover_log V w nSize s = (if bad then (SQLITE_OK, w, s1, 0, 0)
       else if \<not> sum then (SQLITE_OK, w1, s1, 0, 0)
       else if sqlite3Get4byte (drop 4 b) \<noteq> WAL_MAX_VERSION then (SQLITE_CANTOPEN, w1, s1, 0, 0)
       else if \<not> mallocOk V then (SQLITE_NOMEM, w1, s1, 0, 0)
       else recover_pages (walFramePage N + 1) V (log_sz b) N 0 (mallocJunk V) SQLITE_OK w1 s1 (0, 0))"
      using rd True
      by (simp add: recover_log_def Let_def bad_def sum_def w1_def N_def log_sz_def log_sum_def
          log_native_def del: recover_pages.simps)
    have hok: "log_header_ok b \<longleftrightarrow> \<not> bad \<and> sum"
      by (auto simp: log_header_ok_def bad_def sum_def prod_eq_iff)
    show ?thesis
    proof (cases "bad \<or> \<not> sum")
      case True
      then have "sc = []" using hok b by (auto simp: sc_def log_scan_def Let_def)
      moreover have "rc = SQLITE_OK" "t = s1" "ck = (0, 0)" "w' = w \<or> w' = w1"
        using r True unfolding eq by (auto split: if_splits)
      moreover from this have "mxFrame (hdr w') = 0" "nPage (hdr w') = 0" "uses_heap w' = uses_heap w"
        "exclusiveMode w' = exclusiveMode w" using w(2) by (auto simp: w1_def hdr_zero_def)
      ultimately show ?thesis using st by (simp add: only_pages_store)
    next
      case hdr: False
      show ?thesis
      proof (cases "sqlite3Get4byte (drop 4 b) = WAL_MAX_VERSION \<and> mallocOk V")
        case False
        then have "rc \<noteq> SQLITE_OK" using r hdr unfolding eq by (auto split: if_splits)
        then show ?thesis using False b vfs_works_D(1) [of V] by (auto simp: shm_reliable_def)
      next
        case True
        then have run: "recover_pages (walFramePage N + 1) V (log_sz b) N 0 (mallocJunk V) SQLITE_OK w1 s1
            (0, 0) = (rc, w', t, ck)" using r hdr unfolding eq by simp
        have sc: "sc = scan (N - ht_zero 0) (bigEndCksum (hdr w1) = SQLITE_BIGENDIAN) (log_sz b)
            (aSalt (hdr w1)) (aFrameCksum (hdr w1)) (walFile s1) (Suc (ht_zero 0))"
          using hdr hok n b same_store_eqs(3) [OF st]
          by (simp add: sc_def log_scan_def Let_def w1_def N_def log_native_def ht_zero_def)
        have pre: "szPage w1 = log_sz b" "writeLock w1" "wi_repr (pages w1 s1) []" "length ([] :: u32 list) = ht_zero 0"
          using w by (simp_all add: w1_def ht_zero_def)
        note rp = recover_pages_spec [OF Q F run pre _ _ sc, simplified]
        have "N * (log_sz b + 24) \<le> nSize - 32" by (simp add: N_def)
        then have "walFrameOffset (Suc N) (log_sz b) \<le> length (walFile s1)"
          using n same_store_eqs(3) [OF st] by (simp add: walFrameOffset_def)
        then have works: "vfs_works V \<longrightarrow> rc = SQLITE_OK" using rp by simp
        have "(mxFrame (hdr w'), nPage (hdr w'), ck) = track 1 sc (0, 0, 0, 0) \<and>
          wi_repr (pages w' t) (map fst sc) \<and> only_pages w s t \<and> uses_heap w' = uses_heap w \<and>
          exclusiveMode w' = exclusiveMode w \<and> szPage w' = log_sz b \<and> aSalt (hdr w') = take 8 (drop 16 b) \<and>
          (committed sc \<noteq> [] \<longrightarrow> hdr_szPage (hdr w') = size_field (log_sz b))"
          if "rc = SQLITE_OK"
        proof -
          have rec: "recovered (log_sz b) (Suc (ht_zero 0)) [] sc w1 s1 (0, 0) w' t ck"
            using rp that by simp
          then have "same_but_hdr w1 w'" "only_pages w1 s1 t" by (simp_all add: recovered_def)
          note f = same_but_hdr_fields [OF this(1)] hdr_moved_fields [OF same_but_hdr_fields(9) [OF this(1)]]
          have u: "uses_heap w1 = uses_heap w" by (simp add: w1_def)
          have "only_pages w s t"
            using only_pages_trans [OF only_pages_store [OF st]] \<open>only_pages w1 s1 t\<close>
            unfolding only_pages_cong [OF u] by blast
          then show ?thesis
            using rec f u w(2) by (simp add: recovered_def w1_def hdr_zero_def ht_zero_def)
        qed
        then show ?thesis using works b by blast
      qed
    qed
  qed
qed

text \<open>Marks: a slot whose lock is obtained is set, another keeps its value.\<close>

definition mark_for :: "Wal \<Rightarrow> nat \<Rightarrow> nat" where
  "mark_for w i = (if i = 1 \<and> mxFrame (hdr w) \<noteq> 0 then mxFrame (hdr w) else READMARK_NOT_USED)"

definition marks_kept :: "Wal \<Rightarrow> nat \<Rightarrow> 'x world \<Rightarrow> 'x world \<Rightarrow> bool" where
  "marks_kept w i s t \<longleftrightarrow> (\<exists>m. same_store (set_ckptInfo w ((walCkptInfo w s)\<lparr>aReadMark := m\<rparr>) s) t \<and>
     length m = length (aReadMark (walCkptInfo w s)) \<and>
     (\<forall>j<length m. m ! j = aReadMark (walCkptInfo w s) ! j \<or> i \<le> j \<and> m ! j = mark_for w j))"

lemma walCkptInfo_set [simp]: "walCkptInfo w (set_ckptInfo w c s) = c"
  by (simp add: walCkptInfo_def set_ckptInfo_def)

lemma set_ckptInfo_files [simp]: "walFile (set_ckptInfo w c s) = walFile s"
  "dbFile (set_ckptInfo w c s) = dbFile s" "fileOf f (set_ckptInfo w c s) = fileOf f s"
  by (simp_all add: set_ckptInfo_def)

lemma walCkptInfo_store: "same_store s t \<Longrightarrow> walCkptInfo w t = walCkptInfo w s"
  by (simp add: walCkptInfo_def same_store_eqs)

lemma set_ckptInfo_store: "same_store s t \<Longrightarrow> same_store (set_ckptInfo w c s) (set_ckptInfo w c t)"
  by (simp add: set_ckptInfo_def set_mem_def mem_def same_store_def)

lemma set_ckptInfo_twice [simp]: "set_ckptInfo w c (set_ckptInfo w d s) = set_ckptInfo w c s"
  by (simp add: set_ckptInfo_def set_mem_def mem_def)

lemma marks_kept_store: "same_store s t \<Longrightarrow> marks_kept w i s t"
  unfolding marks_kept_def
  by (rule exI [of _ "aReadMark (walCkptInfo w s)"])
     (auto simp: walCkptInfo_def set_ckptInfo_def same_store_def set_mem_def mem_def)

lemma marks_kept_trans:
  assumes "marks_kept w i s t" "marks_kept w j t u" "i \<le> j"
  shows "marks_kept w i s u"
proof -
  obtain m where m: "same_store (set_ckptInfo w ((walCkptInfo w s)\<lparr>aReadMark := m\<rparr>) s) t"
    "length m = length (aReadMark (walCkptInfo w s))"
    "\<forall>k<length m. m ! k = aReadMark (walCkptInfo w s) ! k \<or> i \<le> k \<and> m ! k = mark_for w k"
    using assms(1) unfolding marks_kept_def by blast
  obtain n where n: "same_store (set_ckptInfo w ((walCkptInfo w t)\<lparr>aReadMark := n\<rparr>) t) u"
    "length n = length (aReadMark (walCkptInfo w t))"
    "\<forall>k<length n. n ! k = aReadMark (walCkptInfo w t) ! k \<or> j \<le> k \<and> n ! k = mark_for w k"
    using assms(2) unfolding marks_kept_def by blast
  have t: "walCkptInfo w t = (walCkptInfo w s)\<lparr>aReadMark := m\<rparr>"
    using walCkptInfo_store [OF m(1)] by simp
  have "same_store (set_ckptInfo w ((walCkptInfo w s)\<lparr>aReadMark := n\<rparr>) s) u"
    using set_ckptInfo_store [OF m(1), of w "(walCkptInfo w s)\<lparr>aReadMark := n\<rparr>"] n(1)
      same_store_trans by (fastforce simp: t)
  then show ?thesis
    unfolding marks_kept_def using m n t assms(3) by (intro exI [of _ n]) fastforce
qed

lemma marks_kept_set:
  assumes "i < length (aReadMark (walCkptInfo w s))"
  shows "marks_kept w i s (set_ckptInfo w
    ((walCkptInfo w s)\<lparr>aReadMark := (aReadMark (walCkptInfo w s))[i := mark_for w i]\<rparr>) s)"
  unfolding marks_kept_def using assms
  by (intro exI [of _ "(aReadMark (walCkptInfo w s))[i := mark_for w i]"]) (auto simp: nth_list_update)

lemma recover_marks_kept:
  assumes "vfs_quiet V" "recover_marks k V i rc0 w s = (rc, t)" "i + k \<le> length (aReadMark (walCkptInfo w s))"
  shows "marks_kept w i s t \<and> (vfs_works V \<and> rc0 = SQLITE_OK \<longrightarrow> rc = SQLITE_OK)"
  using assms(2,3)
proof (induction k arbitrary: i rc0 s)
  case 0
  then show ?case by (simp add: marks_kept_store)
next
  case (Suc k)
  obtain rc1 s1 where l: "walLockExclusive V w (3 + i) 1 s = (rc1, s1)"
    by (cases "walLockExclusive V w (3 + i) 1 s")
  have st: "same_store s s1" using quiet_locks(3) [OF assms(1) l] .
  have works: "vfs_works V \<Longrightarrow> rc1 = SQLITE_OK" using works_locks(2) [of V w "3 + i" 1 s] l by simp
  have len: "i < length (aReadMark (walCkptInfo w s1))" "Suc i + k \<le> length (aReadMark (walCkptInfo w s1))"
    using Suc.prems(2) walCkptInfo_store [OF st, of w] by simp_all
  show ?case
  proof (cases "rc1 = SQLITE_OK")
    case True
    define s2 where "s2 = set_ckptInfo w ((walCkptInfo w s1)\<lparr>aReadMark :=
        (aReadMark (walCkptInfo w s1))[i := mark_for w i]\<rparr>) s1"
    define s3 where "s3 = walUnlockExclusive V w (3 + i) 1 s2"
    have st3: "same_store s2 s3" unfolding s3_def by (rule quiet_locks(4) [OF assms(1)])
    have k3: "marks_kept w i s s3"
      using marks_kept_trans [OF marks_kept_trans [OF marks_kept_store [OF st]
          marks_kept_set [OF len(1), folded s2_def]] marks_kept_store [OF st3]] by blast
    have "recover_marks k V (Suc i) SQLITE_OK w s3 = (rc, t)"
      using Suc.prems(1) l True by (simp add: Let_def s2_def s3_def mark_for_def)
    moreover have "Suc i + k \<le> length (aReadMark (walCkptInfo w s3))"
      using len walCkptInfo_store [OF st3, of w] by (simp add: s2_def)
    ultimately have r: "marks_kept w (Suc i) s3 t" "vfs_works V \<longrightarrow> rc = SQLITE_OK"
      using Suc.IH [of "Suc i" SQLITE_OK s3] by simp_all
    from k3 r(1) have "marks_kept w i s t" by (rule marks_kept_trans) simp
    then show ?thesis using r(2) by simp
  next
    case False
    show ?thesis
    proof (cases "rc1 = SQLITE_BUSY")
      case True
      then have "recover_marks k V (Suc i) rc1 w s1 = (rc, t)"
        using Suc.prems(1) l False by simp
      then have "marks_kept w (Suc i) s1 t" using Suc.IH [of "Suc i" rc1 s1] len by simp
      then have "marks_kept w i s t" by (rule marks_kept_trans [OF marks_kept_store [OF st]]) simp
      then show ?thesis using works False by auto
    next
      case not_busy: False
      then have "rc = rc1" "t = s1" using Suc.prems(1) l False by simp_all
      then show ?thesis using marks_kept_store [OF st] works by auto
    qed
  qed
qed

lemma recover_finish_spec:
  assumes Q: "vfs_quiet V" and r: "recover_finish V w ck s = (rc, w', t)"
    and len: "length (aReadMark (walCkptInfo w s)) = 5"
  defines "h \<equiv> sealed ((hdr w)\<lparr>aFrameCksum := ck\<rparr>)"
  shows "w' = w\<lparr>hdr := h\<rparr> \<and> pages w t = pages w s \<and> aHdr0 (mem w t) = h \<and> aHdr1 (mem w t) = h \<and>
    nBackfill (walCkptInfo w t) = 0 \<and> nBackfillAttempted (walCkptInfo w t) = mxFrame h \<and>
    length (aReadMark (walCkptInfo w t)) = 5 \<and> aReadMark (walCkptInfo w t) ! 0 = 0 \<and>
    (\<forall>j\<in>{1..<5}. aReadMark (walCkptInfo w t) ! j \<in> {aReadMark (walCkptInfo w s) ! j, mark_for w j}) \<and>
    walFile t = walFile s \<and> dbFile t = dbFile s \<and> (vfs_works V \<longrightarrow> rc = SQLITE_OK)"
proof -
  let ?w0 = "w\<lparr>hdr := (hdr w)\<lparr>aFrameCksum := ck\<rparr>\<rparr>"
  obtain w1 s1 where wr: "walIndexWriteHdr V ?w0 s = (w1, s1)" by (cases "walIndexWriteHdr V ?w0 s")
  note wq = walIndexWriteHdr_quiet [OF Q wr]
  have w1: "w1 = w\<lparr>hdr := h\<rparr>" using wq(1) by (simp add: h_def)
  define c where "c = walCkptInfo w s"
  define d where "d = c\<lparr>nBackfill := 0, nBackfillAttempted := mxFrame h, aReadMark := (aReadMark c)[0 := 0]\<rparr>"
  have m1: "mem w s1 = (mem w s)\<lparr>aHdr0 := h, aHdr1 := h\<rparr>" using wq(2) by (simp add: h_def)
  have c1: "walCkptInfo w s1 = c" using m1 by (simp add: walCkptInfo_def c_def)
  define s2 where "s2 = set_ckptInfo w d s1"
  have rm: "recover_marks 4 V 1 SQLITE_OK w1 s2 = (rc, t)" "w' = w1"
    using r wr c1 by (auto simp: recover_finish_def Let_def w1 s2_def d_def split: prod.splits)
  have d: "walCkptInfo w s2 = d" "length (aReadMark d) = 5" using len by (simp_all add: s2_def d_def c_def)
  have "1 + 4 \<le> length (aReadMark (walCkptInfo w1 s2))" using d by (simp add: w1)
  note km = recover_marks_kept [OF Q rm(1) this]
  have mf: "mark_for w1 = mark_for w" by (simp add: fun_eq_iff mark_for_def w1 h_def)
  obtain m where m: "same_store (set_ckptInfo w (d\<lparr>aReadMark := m\<rparr>) s2) t" "length m = 5"
    "\<forall>j<5. m ! j = aReadMark d ! j \<or> 1 \<le> j \<and> m ! j = mark_for w j"
    using km d mf unfolding marks_kept_def by (auto simp: w1)
  have mt: "mem w t = (mem w s)\<lparr>aHdr0 := h, aHdr1 := h, ckptInfo := d\<lparr>aReadMark := m\<rparr>\<rparr>"
    using same_store_eqs(5) [OF m(1), of w] m1 by (simp add: s2_def set_ckptInfo_def)
  have marks: "m ! 0 = 0" "\<forall>j\<in>{1..<5}. m ! j \<in> {aReadMark c ! j, mark_for w j}"
    using m(3) [rule_format, of 0] m(3) len by (auto simp: d_def c_def)
  show ?thesis
    using mt marks m(2) w1 rm(2) km same_store_eqs(3,4) [OF m(1)] wq(3,4)
    by (simp add: pages_def walCkptInfo_def d_def c_def s2_def)
qed

lemma walIndexRecover_spec:
  assumes Q: "vfs_quiet V" and F: "vfs_files V" and "writeLock w"
    and len: "length (aReadMark (walCkptInfo w s)) = 5"
    and r: "walIndexRecover V w s = (rc, w', t)"
  defines "sc \<equiv> log_scan (walFile s)"
  shows "(rc = SQLITE_OK \<longrightarrow> mxFrame (hdr w') = length (committed sc) \<and>
      (nPage (hdr w'), aFrameCksum (hdr w')) =
        (if committed sc = [] then (0, 0, 0) else snd (last (committed sc))) \<and>
      wi_repr (pages w' t) (map fst sc) \<and>
      aHdr0 (mem w' t) = hdr w' \<and> aHdr1 (mem w' t) = hdr w' \<and> (\<exists>h. hdr w' = sealed h) \<and>
      nBackfill (walCkptInfo w' t) = 0 \<and> nBackfillAttempted (walCkptInfo w' t) = mxFrame (hdr w') \<and>
      aReadMark (walCkptInfo w' t) ! 0 = 0 \<and>
      (\<forall>j\<in>{1..<5}. aReadMark (walCkptInfo w' t) ! j \<in> {aReadMark (walCkptInfo w s) ! j, mark_for w' j}) \<and>
      walFile t = walFile s \<and> dbFile t = dbFile s) \<and>
    (vfs_works V \<and> (32 < length (walFile s) \<longrightarrow> sqlite3Get4byte (drop 4 (take 32 (walFile s))) = WAL_MAX_VERSION)
      \<longrightarrow> rc = SQLITE_OK)"
proof -
  define iLock where "iLock = 1 + (if ckptLock w then 1 else 0 :: nat)"
  obtain rc0 s0 where l: "walLockExclusive V w iLock (3 - iLock) s = (rc0, s0)"
    by (cases "walLockExclusive V w iLock (3 - iLock) s")
  let ?w0 = "w\<lparr>hdr := hdr_zero\<rparr>"
  obtain rc1 nSize s1 where sz: "xFileSize V WalFd s0 = (rc1, nSize, s1)" by (cases "xFileSize V WalFd s0")
  have st: "same_store s s1"
    using same_store_trans [OF quiet_locks(3) [OF Q l] quiet_same_store(5) [OF Q sz]] .
  have works01: "vfs_works V \<Longrightarrow> rc0 = SQLITE_OK \<and> rc1 = SQLITE_OK"
    using works_locks(2) [of V w iLock "3 - iLock" s] vfs_works_D(7) [of V WalFd s0] l sz by simp
  define L where "L = (if nSize > 32 then recover_log V ?w0 nSize s1 else (rc1, ?w0, s1, 0, 0))"
  obtain rc2 w2 s2 ck where L: "L = (rc2, w2, s2, ck)" by (cases L)
  show ?thesis
  proof (cases "rc0 = SQLITE_OK \<and> rc1 = SQLITE_OK")
    case False
    then have "rc \<noteq> SQLITE_OK"
      using r l sz unfolding walIndexRecover_def Let_def iLock_def [symmetric] by (auto split: if_splits)
    then show ?thesis using works01 False by blast
  next
    case True
    have n: "nSize = length (walFile s1)" using vfs_files_D(2) [OF F] sz True same_store_eqs(3) [OF quiet_same_store(5) [OF Q sz]] by fastforce
    have f1: "walFile s1 = walFile s" using same_store_eqs(3) [OF st] .
    have log: "(rc2 = SQLITE_OK \<longrightarrow> (mxFrame (hdr w2), nPage (hdr w2), ck) = track 1 sc (0, 0, 0, 0) \<and>
        wi_repr (pages w2 s2) (map fst sc) \<and> only_pages w s s2 \<and> uses_heap w2 = uses_heap w) \<and>
      (vfs_works V \<and> (32 < length (walFile s) \<longrightarrow>
        sqlite3Get4byte (drop 4 (take 32 (walFile s))) = WAL_MAX_VERSION) \<longrightarrow> rc2 = SQLITE_OK)"
    proof (cases "nSize > 32")
      case big: True
      then have run: "recover_log V ?w0 nSize s1 = (rc2, w2, s2, ck)" using L by (simp add: L_def)
      have "only_pages w s s2" if "only_pages ?w0 s1 s2"
        using only_pages_trans [OF only_pages_store [OF st]] that only_pages_cong [of ?w0 w s1 s2] by simp
      then show ?thesis
        using recover_log_spec [OF Q F run _ _ n big] assms(3) f1 n big by (auto simp: sc_def)
    next
      case small: False
      then have "sc = []" using n f1 by (simp add: sc_def log_scan_def)
      then show ?thesis using L small True st by (auto simp: L_def hdr_zero_def only_pages_store)
    qed
    have L0: "(if nSize > 32 then recover_log V ?w0 nSize s1 else (0, ?w0, s1, 0, 0)) = (rc2, w2, s2, ck)"
      using L True by (simp add: L_def split: if_splits)
    have res: "(case (if rc2 = SQLITE_OK then recover_finish V w2 ck s2 else (rc2, w2, s2)) of
        (rc, w, s) \<Rightarrow> (rc, w, walUnlockExclusive V w iLock (3 - iLock) s)) = (rc, w', t)"
      using r l sz True L0 unfolding walIndexRecover_def Let_def iLock_def [symmetric] by simp
    show ?thesis
    proof (cases "rc2 = SQLITE_OK")
      case False
      then show ?thesis using res log by auto
    next
      case ok: True
      obtain rc3 w3 s3 where fin: "recover_finish V w2 ck s2 = (rc3, w3, s3)"
        by (cases "recover_finish V w2 ck s2")
      have op: "only_pages w s s2" "uses_heap w2 = uses_heap w" using log ok by simp_all
      have ci: "walCkptInfo w2 s2 = walCkptInfo w s"
        using only_pages_eqs(5) [OF op(1)] op(2) by (simp add: walCkptInfo_def mem_def)
      note fs = recover_finish_spec [OF Q fin, unfolded ci, OF len]
      have w3: "w3 = w2\<lparr>hdr := sealed ((hdr w2)\<lparr>aFrameCksum := ck\<rparr>)\<rparr>" using fs by simp
      have t: "rc = rc3" "w' = w3" "same_store s3 t"
        using res fin ok quiet_locks(4) [OF Q] by auto
      note t' = same_store_eqs [OF t(3)]
      have tr: "(mxFrame (hdr w2), nPage (hdr w2), ck) = (if committed sc = [] then (0, 0, 0, 0)
          else (length (committed sc), snd (last (committed sc))))"
        using log ok by (simp add: track_committed)
      have "mxFrame (hdr w') = length (committed sc)" "(nPage (hdr w'), aFrameCksum (hdr w')) =
          (if committed sc = [] then (0, 0, 0) else snd (last (committed sc)))"
        using tr by (auto simp: t(2) w3 split: if_splits)
      moreover have "mark_for w' = mark_for w2" by (simp add: mark_for_def fun_eq_iff t(2) w3)
      moreover have "wi_repr (pages w' t) (map fst sc)"
        using log ok fs t' by (simp add: t(2) w3 pages_def)
      moreover have "\<exists>h. hdr w' = sealed h" by (auto simp: t(2) w3)
      ultimately show ?thesis
        using fs t' only_pages_eqs(1,2) [OF op(1)] log t(1)
        by (simp add: t(2) w3 walCkptInfo_def)
    qed
  qed
qed

section \<open>Logs as they are written\<close>

text \<open>The log header that \<^verbatim>\<open>walFrames\<close> assembles in \<^verbatim>\<open>aWalHdr\<close>.\<close>

definition aWalHdr :: "nat \<Rightarrow> u32 \<Rightarrow> bytes \<Rightarrow> bytes \<times> cksum" where
  "aWalHdr sz nCk salt =
    (let b = sqlite3Put4byte (WAL_MAGIC OR ucast SQLITE_BIGENDIAN) @ sqlite3Put4byte WAL_MAX_VERSION
           @ sqlite3Put4byte (of_nat sz) @ sqlite3Put4byte nCk @ salt;
         c = walChecksumBytes True b 24 None
     in (b @ sqlite3Put4byte (fst c) @ sqlite3Put4byte (snd c), c))"

lemma Get4byte_Put4byte_end [simp]: "sqlite3Get4byte (sqlite3Put4byte v) = v"
  using Get4byte_Put4byte [of v "[]"] by simp

lemma walChecksumBytes_prefix: "length a = n \<Longrightarrow> walChecksumBytes e (a @ b) n c = walChecksumBytes e a n c"
  by (simp add: walChecksumBytes_def)

lemma aWalHdr_ok:
  assumes "aWalHdr sz nCk salt = (b, c)" "length salt = 8"
    and "512 \<le> sz" "sz \<le> 65536" "sz AND (sz - 1) = 0"
  shows "length b = 32" "log_header_ok b" "log_native b" "log_sz b = sz" "log_sum b = c"
    "take 8 (drop 16 b) = salt" "sqlite3Get4byte (drop 4 b) = WAL_MAX_VERSION"
proof -
  define p where "p = sqlite3Put4byte (WAL_MAGIC OR ucast SQLITE_BIGENDIAN) @ sqlite3Put4byte WAL_MAX_VERSION
           @ sqlite3Put4byte (of_nat sz) @ sqlite3Put4byte nCk @ salt"
  have c: "c = walChecksumBytes True p 24 None" and b: "b = p @ sqlite3Put4byte (fst c) @ sqlite3Put4byte (snd c)"
    using assms(1) by (auto simp: aWalHdr_def p_def Let_def)
  have lp: "length p = 24" by (simp add: p_def assms(2))
  show len: "length b = 32" by (simp add: b lp)
  have magic: "sqlite3Get4byte b = WAL_MAGIC" by (simp add: b p_def)
  show native: "log_native b" by (simp add: log_native_def magic)
  show ver: "sqlite3Get4byte (drop 4 b) = WAL_MAX_VERSION" by (simp add: b p_def)
  have "sqlite3Get4byte (drop 8 b) = of_nat sz" by (simp add: b p_def)
  then show sz: "log_sz b = sz"
    using assms(4) by (simp add: log_sz_def unat_of_nat)
  show sum: "log_sum b = c" using native lp by (simp add: log_sum_def b walChecksumBytes_prefix c)
  show "take 8 (drop 16 b) = salt" by (simp add: b p_def assms(2))
  have "sqlite3Get4byte (drop 24 b) = fst c" "sqlite3Get4byte (drop 28 b) = snd c"
    using lp by (simp_all add: b)
  then show "log_header_ok b"
    using magic sz sum assms(3-5) by (simp add: log_header_ok_def)
qed

lemma walEncodeFrame_frame:
  fixes w :: Wal and aData :: bytes
  assumes "walEncodeFrame w pg nT aData = (fr, w')" "iReCksum w = 0"
    and "length aData = szPage w" "length (aSalt (hdr w)) = 8" "pg \<noteq> 0"
  defines "n \<equiv> bigEndCksum (hdr w) = SQLITE_BIGENDIAN" and "ck \<equiv> aFrameCksum (hdr w)"
  defines "sm \<equiv> frame_sum n (szPage w) ck (fr @ aData)"
  shows "length fr = 24" "frame_valid n (szPage w) (aSalt (hdr w)) ck (fr @ aData)"
    "frame_info n (szPage w) ck (fr @ aData) = (pg, nT, sm)"
    "w' = w\<lparr>hdr := (hdr w)\<lparr>aFrameCksum := sm\<rparr>\<rparr>"
proof -
  define a where "a = sqlite3Put4byte pg @ sqlite3Put4byte nT"
  have la: "length a = 8" by (simp add: a_def)
  define c where "c = walChecksumBytes n aData (szPage w) (Some (walChecksumBytes n (a @ aSalt (hdr w)) 8 (Some ck)))"
  have fr: "fr = a @ aSalt (hdr w) @ sqlite3Put4byte (fst c) @ sqlite3Put4byte (snd c)"
    and w': "w' = w\<lparr>hdr := (hdr w)\<lparr>aFrameCksum := c\<rparr>\<rparr>"
    using assms(1,2) by (auto simp: walEncodeFrame_def Let_def a_def c_def n_def ck_def)
  show len: "length fr = 24" by (simp add: fr la assms(4))
  have d: "drop 24 (fr @ aData) = aData" using len by simp
  have sm: "sm = c"
    unfolding sm_def frame_sum_def d unfolding c_def fr append_assoc using la
    by (simp add: walChecksumBytes_prefix)
  have "sqlite3Get4byte (drop 16 (fr @ aData)) = fst c" "sqlite3Get4byte (drop 20 (fr @ aData)) = snd c"
    "take 8 (drop 8 (fr @ aData)) = aSalt (hdr w)" "sqlite3Get4byte (fr @ aData) = pg"
    "sqlite3Get4byte (drop 4 (fr @ aData)) = nT"
    using la assms(4) by (simp_all add: fr) (simp_all add: a_def)
  then show "frame_valid n (szPage w) (aSalt (hdr w)) ck (fr @ aData)"
    "frame_info n (szPage w) ck (fr @ aData) = (pg, nT, sm)"
    "w' = w\<lparr>hdr := (hdr w)\<lparr>aFrameCksum := sm\<rparr>\<rparr>"
    using sm assms(5) w' by (simp_all add: frame_valid_def frame_info_def sm_def)
qed

section \<open>Properties\<close>

text \<open>C9. Recovery restores exactly the committed part of the log. The recovered header
  counts the frames up to the last valid commit frame of the log file, with the
  database size and the checksum stored there; the wal-index represents every
  valid frame; both copies of the header in shared memory are the recovered
  header with its checksum, and the checkpoint information is reset. With methods
  that do not fail and a log of the known version it succeeds.\<close>

theorem walIndexRecover_committed:
  assumes "vfs_quiet V" "vfs_files V" "writeLock w" "length (aReadMark (walCkptInfo w s)) = 5"
    and "walIndexRecover V w s = (rc, w', t)"
  defines "sc \<equiv> log_scan (walFile s)"
  shows "(rc = SQLITE_OK \<longrightarrow> mxFrame (hdr w') = length (committed sc) \<and>
      (nPage (hdr w'), aFrameCksum (hdr w')) =
        (if committed sc = [] then (0, 0, 0) else snd (last (committed sc))) \<and>
      wi_repr (pages w' t) (map fst sc) \<and>
      aHdr0 (mem w' t) = hdr w' \<and> aHdr1 (mem w' t) = hdr w' \<and> (\<exists>h. hdr w' = sealed h) \<and>
      nBackfill (walCkptInfo w' t) = 0 \<and> nBackfillAttempted (walCkptInfo w' t) = mxFrame (hdr w') \<and>
      aReadMark (walCkptInfo w' t) ! 0 = 0 \<and>
      (\<forall>j\<in>{1..<5}. aReadMark (walCkptInfo w' t) ! j \<in> {aReadMark (walCkptInfo w s) ! j, mark_for w' j}) \<and>
      walFile t = walFile s \<and> dbFile t = dbFile s) \<and>
    (vfs_works V \<and> (32 < length (walFile s) \<longrightarrow> sqlite3Get4byte (drop 4 (take 32 (walFile s))) = WAL_MAX_VERSION)
      \<longrightarrow> rc = SQLITE_OK) \<and>
    (\<exists>u. sc = committed sc @ u \<and> (\<forall>x\<in>set u. fst (snd x) = 0))"
  using walIndexRecover_spec [OF assms(1-5)] committed_prefix [of sc] unfolding sc_def by blast

text \<open>A log of one commit frame, written with the encoder.\<close>

definition one_frame_log :: bytes where
  "one_frame_log =
    (let (b, c) = aWalHdr 512 0 (replicate 8 7);
         w = wal_zero\<lparr>szPage := 512, hdr := hdr_zero\<lparr>aSalt := replicate 8 7, aFrameCksum := c\<rparr>\<rparr>;
         d = replicate 512 1
     in b @ fst (walEncodeFrame w 3 9 d) @ d)"

lemma one_frame_log_scan:
  "\<exists>c. log_scan one_frame_log = [(3, 9, c)]"
  "sqlite3Get4byte (drop 4 (take 32 one_frame_log)) = WAL_MAX_VERSION"
proof -
  obtain b c where b: "aWalHdr 512 0 (replicate 8 7) = (b, c)" by (cases "aWalHdr 512 0 (replicate 8 7)")
  note ok = aWalHdr_ok [OF b, simplified]
  define w where "w = wal_zero\<lparr>szPage := 512, hdr := hdr_zero\<lparr>aSalt := replicate 8 7, aFrameCksum := c\<rparr>\<rparr>"
  define d where "d = (replicate 512 1 :: bytes)"
  obtain fr w' where e: "walEncodeFrame w 3 9 d = (fr, w')" by (cases "walEncodeFrame w 3 9 d")
  have w: "iReCksum w = 0" "length d = szPage w" "length (aSalt (hdr w)) = 8" "(3::u32) \<noteq> 0"
    "bigEndCksum (hdr w) = SQLITE_BIGENDIAN" "szPage w = 512" "aSalt (hdr w) = replicate 8 7"
    "aFrameCksum (hdr w) = c"
    by (simp_all add: w_def d_def wal_zero_def hdr_zero_def)
  note f = walEncodeFrame_frame [OF e w(1-4), unfolded w(6,7,8), simplified w(5) simp_thms]
  have log: "one_frame_log = b @ fr @ d"
    using b e by (simp add: one_frame_log_def w_def d_def)
  have hd: "take 32 one_frame_log = b" "length one_frame_log = 568"
    using ok f(1) by (simp_all add: log d_def)
  have fa: "frame_at one_frame_log 512 1 = fr @ d"
    using ok(1) f(1) by (simp add: frame_at_def walFrameOffset_def log d_def)
  show "\<exists>c. log_scan one_frame_log = [(3, 9, c)]"
    using ok f(2,3) hd fa by (simp add: log_scan_def Let_def numeral_eq_Suc [of "num.One"])
  show "sqlite3Get4byte (drop 4 (take 32 one_frame_log)) = WAL_MAX_VERSION" using ok hd by simp
qed

theorem walIndexRecover_committed_witness:
  "\<exists>w' t. walIndexRecover plain_vfs (wal_zero\<lparr>writeLock := True\<rparr>) (plain_world one_frame_log []) =
     (SQLITE_OK, w', t) \<and> mxFrame (hdr w') = 1 \<and> nPage (hdr w') = 9 \<and> wi_repr (pages w' t) [3]"
proof -
  let ?w = "wal_zero\<lparr>writeLock := True\<rparr>" and ?s = "plain_world one_frame_log []"
  obtain rc w' t where r: "walIndexRecover plain_vfs ?w ?s = (rc, w', t)"
    by (cases "walIndexRecover plain_vfs ?w ?s")
  have len: "length (aReadMark (walCkptInfo ?w ?s)) = 5"
    by (simp add: walCkptInfo_def mem_def plain_world_def wshm_zero_def)
  obtain c where c: "log_scan (walFile ?s) = [(3, 9, c)]"
    using one_frame_log_scan(1) by (auto simp: plain_world_def)
  have v: "sqlite3Get4byte (drop 4 (take 32 (walFile ?s))) = WAL_MAX_VERSION"
    using one_frame_log_scan(2) by (simp add: plain_world_def)
  show ?thesis
    using walIndexRecover_committed [OF plain_vfs_quiet plain_vfs_files _ len r] r c v plain_vfs_works
    by (auto simp: committed_def)
qed

end
