(* ===== verification/WalTrans.thy ===== *)
theory WalTrans
  imports WalRecover
begin

unbundle bit_operations_syntax

text \<open>
  Read and write transactions of \<^verbatim>\<open>wal.c\<close>: reading the wal-index header (with
  recovery when it is not usable), opening a snapshot and taking a read mark, the
  write lock, rollback and savepoints.
\<close>

section \<open>Reading the header\<close>

definition free_heap :: "Wal \<Rightarrow> 'x world \<Rightarrow> Wal \<times> 'x world" where
  "free_heap w s = (w\<lparr>apWiData := map (\<lambda>_. False) (apWiData w)\<rparr>, s\<lparr>heap := wshm_zero\<rparr>)"

definition walIndexClose :: "'x vfs \<Rightarrow> Wal \<Rightarrow> bool \<Rightarrow> 'x world \<Rightarrow> Wal \<times> 'x world" where
  "walIndexClose V w isDelete s =
    (let (w, s) = (if exclusiveMode w = WAL_HEAPMEMORY_MODE \<or> bShmUnreliable w then free_heap w s
                   else (w, s))
     in if exclusiveMode w \<noteq> WAL_HEAPMEMORY_MODE then (w, xShmUnmap V isDelete s) else (w, s))"

text \<open>The part of \<^verbatim>\<open>walIndexReadHdr\<close> that runs under the write lock: read the header again and
  recover if it is still not usable. The result is the code, \<^verbatim>\<open>badHdr\<close> and \<^verbatim>\<open>*pChanged\<close>.\<close>

definition readhdr_locked ::
  "'x vfs \<Rightarrow> Wal \<Rightarrow> 'x world \<Rightarrow> bool \<Rightarrow> bool \<Rightarrow> rc \<times> bool \<times> bool \<times> Wal \<times> 'x world" where
  "readhdr_locked V w s badHdr ch =
    (let (rc, page0, w) = walIndexPage V w 0
     in if rc \<noteq> SQLITE_OK then (rc, badHdr, ch, w, s)
     else
       let (badHdr, ch, w, s) = walIndexTryHdr V w s ch
       in if badHdr then
            let (rc, w, s) = walIndexRecover V w s in (rc, badHdr, True, w, s)
          else (rc, badHdr, ch, w, s))"

definition walIndexReadHdr ::
  "'x vfs \<Rightarrow> Wal \<Rightarrow> 'x world \<Rightarrow> bool \<Rightarrow> rc \<times> bool \<times> Wal \<times> 'x world" where
  "walIndexReadHdr V w s ch =
    (let (rc, page0, w) = walIndexPage V w 0
     in if rc \<noteq> SQLITE_OK \<and> rc \<noteq> SQLITE_READONLY_CANTINIT then (rc, ch, w, s)
     else
       let (w, ch) = (if rc = SQLITE_READONLY_CANTINIT
                      then (w\<lparr>bShmUnreliable := True, exclusiveMode := WAL_HEAPMEMORY_MODE\<rparr>, True)
                      else (w, ch));
           (badHdr, ch, w, s) = (if page0 then walIndexTryHdr V w s ch else (True, ch, w, s));
           (rc, badHdr, ch, w, s) =
             (if \<not> badHdr then (rc, badHdr, ch, w, s)
              else if \<not> bShmUnreliable w \<and> readOnly w AND WAL_SHM_RDONLY \<noteq> 0 then
                let (rc, s) = walLockShared V w WAL_WRITE_LOCK s
                in if rc = SQLITE_OK
                   then (SQLITE_READONLY_RECOVERY, badHdr, ch, w, walUnlockShared V w WAL_WRITE_LOCK s)
                   else (rc, badHdr, ch, w, s)
              else if writeLock w then readhdr_locked V w s badHdr ch
              else
                let (rc, s) = walLockExclusive V w WAL_WRITE_LOCK 1 s
                in if rc \<noteq> SQLITE_OK then (rc, badHdr, ch, w, s)
                   else
                     let (rc, badHdr, ch, w, s) = readhdr_locked V (w\<lparr>writeLock := True\<rparr>) s badHdr ch;
                         w = w\<lparr>writeLock := False\<rparr>
                     in (rc, badHdr, ch, w, walUnlockExclusive V w WAL_WRITE_LOCK 1 s));
           rc = (if \<not> badHdr \<and> iVersion (hdr w) \<noteq> WALINDEX_MAX_VERSION then SQLITE_CANTOPEN else rc)
       in if bShmUnreliable w then
            let (rc, w, s) =
              (if rc \<noteq> SQLITE_OK then
                 let (w, s) = walIndexClose V w False s
                 in (if rc = SQLITE_IOERR_SHORT_READ then WAL_RETRY else rc, w\<lparr>bShmUnreliable := False\<rparr>, s)
               else (rc, w, s))
            in (rc, ch, w\<lparr>exclusiveMode := WAL_NORMAL_MODE\<rparr>, s)
          else (rc, ch, w, s))"

section \<open>Ending transactions\<close>

definition sqlite3WalEndWriteTransaction ::
  "'x vfs \<Rightarrow> Wal \<Rightarrow> 'x world \<Rightarrow> rc \<times> Wal \<times> 'x world" where
  "sqlite3WalEndWriteTransaction V w s =
    (if writeLock w then
       (SQLITE_OK, w\<lparr>writeLock := False, iReCksum := 0, truncateOnCommit := False\<rparr>,
        walUnlockExclusive V w WAL_WRITE_LOCK 1 s)
     else (SQLITE_OK, w, s))"

definition sqlite3WalEndReadTransaction ::
  "'x vfs \<Rightarrow> Wal \<Rightarrow> 'x world \<Rightarrow> Wal \<times> 'x world" where
  "sqlite3WalEndReadTransaction V w s =
    (let (rc, w, s) = sqlite3WalEndWriteTransaction V w s
     in if readLock w \<ge> 0
        then (w\<lparr>readLock := - 1\<rparr>, walUnlockShared V w (WAL_READ_LOCK (nat (readLock w))) s)
        else (w, s))"

section \<open>Opening a snapshot\<close>

text \<open>\<^verbatim>\<open>walBeginShmUnreliable\<close>: the loop that looks for a transaction appended to the log, and the
  body up to \<^verbatim>\<open>begin_unreliable_shm_out\<close>.\<close>

function unreliable_scan ::
  "'x vfs \<Rightarrow> nat \<Rightarrow> nat \<Rightarrow> rc \<Rightarrow> Wal \<Rightarrow> 'x world \<Rightarrow> rc \<times> Wal \<times> 'x world" where
  "unreliable_scan V szWal iOffset rc w s =
    (let szFrame = szPage w + WAL_FRAME_HDRSIZE
     in if iOffset + szFrame \<le> szWal then
          let (rc, aFrame, s) = xRead V WalFd szFrame iOffset s
          in if rc \<noteq> SQLITE_OK then (rc, w, s)
             else case walDecodeFrame w (drop WAL_FRAME_HDRSIZE aFrame) aFrame of
               (None, w) \<Rightarrow> (rc, w, s)
             | (Some (pgno, nTruncate), w) \<Rightarrow>
                 if nTruncate \<noteq> 0 then (WAL_RETRY, w, s)
                 else unreliable_scan V szWal (iOffset + szFrame) rc w s
        else (rc, w, s))"
  by pat_completeness auto
termination
  by (relation "measure (\<lambda>(V, szWal, iOffset, rc, w, s). Suc szWal - iOffset)") auto

declare unreliable_scan.simps [simp del]

definition unreliable_body ::
  "'x vfs \<Rightarrow> Wal \<Rightarrow> 'x world \<Rightarrow> bool \<Rightarrow> rc \<times> bool \<times> Wal \<times> 'x world" where
  "unreliable_body V w s ch =
    (let (rc, s) = walLockShared V w (WAL_READ_LOCK 0) s
     in if rc \<noteq> SQLITE_OK then (if rc = SQLITE_BUSY then WAL_RETRY else rc, ch, w, s)
     else
       let w = w\<lparr>readLock := 0\<rparr>;
           (rc, p) = xShmMap V 0 False
       in if rc \<noteq> SQLITE_READONLY_CANTINIT
          then (if rc = SQLITE_READONLY then WAL_RETRY else rc, ch, w, s)
       else
         let w = w\<lparr>hdr := walIndexHdr w s\<rparr>;
             (rc, szWal, s) = xFileSize V WalFd s
         in if rc \<noteq> SQLITE_OK then (rc, ch, w, s)
         else if szWal < WAL_HDRSIZE
           then (if mxFrame (hdr w) = 0 then SQLITE_OK else WAL_RETRY, True, w, s)
         else
           let (rc, aBuf, s) = xRead V WalFd WAL_HDRSIZE 0 s
           in if rc \<noteq> SQLITE_OK then (rc, ch, w, s)
           else if aSalt (hdr w) \<noteq> take 8 (drop 16 aBuf) then (WAL_RETRY, ch, w, s)
           else if \<not> mallocOk V then (SQLITE_NOMEM, ch, w, s)
           else
             let aSaveCksum = aFrameCksum (hdr w);
                 (rc, w, s) = unreliable_scan V szWal
                   (walFrameOffset (mxFrame (hdr w) + 1) (szPage w)) rc w s
             in (rc, ch, w\<lparr>hdr := (hdr w)\<lparr>aFrameCksum := aSaveCksum\<rparr>\<rparr>, s))"

definition walBeginShmUnreliable ::
  "'x vfs \<Rightarrow> Wal \<Rightarrow> 'x world \<Rightarrow> bool \<Rightarrow> rc \<times> bool \<times> Wal \<times> 'x world" where
  "walBeginShmUnreliable V w s ch =
    (let (rc, ch, w, s) = unreliable_body V w s ch
     in if rc \<noteq> SQLITE_OK then
          let (w, s) = free_heap w s;
              (w, s) = sqlite3WalEndReadTransaction V (w\<lparr>bShmUnreliable := False\<rparr>) s
          in (rc, True, w, s)
        else (rc, ch, w, s))"

text \<open>\<^verbatim>\<open>walTryBeginRead\<close>: the two loops over the read marks. \<open>max_mark\<close> picks the largest mark
  not above \<open>mxFrame\<close> among \<open>i, \<dots>\<close> (\<open>k\<close> of them); \<open>claim_mark\<close> sets the first mark
  it can lock exclusively to \<open>mxFrame\<close> (\<open>None\<close> in the second place is the early
  return).\<close>

primrec max_mark :: "nat \<Rightarrow> nat list \<Rightarrow> nat \<Rightarrow> nat \<Rightarrow> nat \<Rightarrow> nat \<Rightarrow> nat \<times> nat" where
  "max_mark 0 marks mx i mxReadMark mxI = (mxReadMark, mxI)"
| "max_mark (Suc k) marks mx i mxReadMark mxI =
    (let thisMark = marks ! i
     in if mxReadMark \<le> thisMark \<and> thisMark \<le> mx then max_mark k marks mx (i + 1) thisMark i
        else max_mark k marks mx (i + 1) mxReadMark mxI)"

primrec claim_mark ::
  "nat \<Rightarrow> 'x vfs \<Rightarrow> Wal \<Rightarrow> nat \<Rightarrow> nat \<Rightarrow> nat \<Rightarrow> nat \<Rightarrow> rc \<Rightarrow> 'x world
    \<Rightarrow> rc \<times> (nat \<times> nat) option \<times> 'x world" where
  "claim_mark 0 V w mx i mxReadMark mxI rc s = (rc, Some (mxReadMark, mxI), s)"
| "claim_mark (Suc k) V w mx i mxReadMark mxI rc s =
    (let (rc, s) = walLockExclusive V w (WAL_READ_LOCK i) 1 s
     in if rc = SQLITE_OK then
          let c = walCkptInfo w s;
              s = set_ckptInfo w (c\<lparr>aReadMark := (aReadMark c)[i := mx]\<rparr>) s;
              s = walUnlockExclusive V w (WAL_READ_LOCK i) 1 s
          in (rc, Some (mx, i), s)
        else if rc \<noteq> SQLITE_BUSY then (rc, None, s)
        else claim_mark k V w mx (i + 1) mxReadMark mxI rc s)"

text \<open>The end of \<^verbatim>\<open>walTryBeginRead\<close>, from the choice of a read mark on: the choice, the
  shared lock on it with the checks that follow, and the two together.\<close>

definition select_mark ::
  "'x vfs \<Rightarrow> Wal \<Rightarrow> 'x world \<Rightarrow> rc \<Rightarrow> rc \<times> (nat \<times> nat) option \<times> 'x world" where
  "select_mark V w s rc =
    (let mx = mxFrame (hdr w);
         (mxReadMark, mxI) = max_mark (WAL_NREADER - 1) (aReadMark (walCkptInfo w s)) mx 1 0 0
     in if readOnly w AND WAL_SHM_RDONLY = 0 \<and> (mxReadMark < mx \<or> mxI = 0)
        then claim_mark (WAL_NREADER - 1) V w mx 1 mxReadMark mxI rc s
        else (rc, Some (mxReadMark, mxI), s))"

definition lock_mark ::
  "'x vfs \<Rightarrow> Wal \<Rightarrow> 'x world \<Rightarrow> nat \<Rightarrow> nat \<Rightarrow> rc \<times> Wal \<times> 'x world" where
  "lock_mark V w s mxReadMark mxI =
    (let (rc, s) = walLockShared V w (WAL_READ_LOCK mxI) s
     in if rc \<noteq> SQLITE_OK then (if rc mod 256 = SQLITE_BUSY then WAL_RETRY else rc, w, s)
     else
       let w = w\<lparr>minFrame := nBackfill (walCkptInfo w s) + 1\<rparr>;
           s = walShmBarrier V w s
       in if aReadMark (walCkptInfo w s) ! mxI \<noteq> mxReadMark \<or> walIndexHdr w s \<noteq> hdr w
          then (WAL_RETRY, w, walUnlockShared V w (WAL_READ_LOCK mxI) s)
          else (rc, w\<lparr>readLock := int mxI\<rparr>, s))"

definition begin_with_mark ::
  "'x vfs \<Rightarrow> Wal \<Rightarrow> 'x world \<Rightarrow> rc \<Rightarrow> rc \<times> Wal \<times> 'x world" where
  "begin_with_mark V w s rc =
    (case select_mark V w s rc of
       (rc, None, s) \<Rightarrow> (rc, w, s)
     | (rc, Some (mxReadMark, mxI), s) \<Rightarrow>
         if mxI = 0 then (if rc = SQLITE_BUSY then WAL_RETRY else SQLITE_READONLY_CANTINIT, w, s)
         else lock_mark V w s mxReadMark mxI)"

abbreviation (input) WAL_RETRY_PROTOCOL_LIMIT :: nat where "WAL_RETRY_PROTOCOL_LIMIT \<equiv> 100"

text \<open>The middle part: what is done with the result of reading the header, and the attempt to
  ignore the log (\<open>None\<close> when a read mark has to be taken).\<close>

definition busy_recovery ::
  "'x vfs \<Rightarrow> Wal \<Rightarrow> 'x world \<Rightarrow> rc \<Rightarrow> rc \<times> 'x world" where
  "busy_recovery V w s rc =
    (if rc = SQLITE_BUSY then
       if apWiData w = [] \<or> \<not> apWiData w ! 0 then (WAL_RETRY, s)
       else
         let (rc, s) = walLockShared V w WAL_RECOVER_LOCK s
         in if rc = SQLITE_OK then (WAL_RETRY, walUnlockShared V w WAL_RECOVER_LOCK s)
            else if rc = SQLITE_BUSY then (SQLITE_BUSY_RECOVERY, s)
            else (rc, s)
     else (rc, s))"

definition begin_without_wal ::
  "'x vfs \<Rightarrow> Wal \<Rightarrow> 'x world \<Rightarrow> rc option \<times> rc \<times> Wal \<times> 'x world" where
  "begin_without_wal V w s =
    (if nBackfill (walCkptInfo w s) = mxFrame (hdr w) then
       let (rc, s) = walLockShared V w (WAL_READ_LOCK 0) s;
           s = walShmBarrier V w s
       in if rc = SQLITE_OK then
            if walIndexHdr w s \<noteq> hdr w
            then (Some WAL_RETRY, rc, w, walUnlockShared V w (WAL_READ_LOCK 0) s)
            else (Some SQLITE_OK, rc, w\<lparr>readLock := 0\<rparr>, s)
          else if rc \<noteq> SQLITE_BUSY then (Some rc, rc, w, s)
          else (None, rc, w, s)
     else (None, SQLITE_OK, w, s))"

definition walTryBeginRead ::
  "'x vfs \<Rightarrow> Wal \<Rightarrow> 'x world \<Rightarrow> bool \<Rightarrow> bool \<Rightarrow> nat \<Rightarrow> rc \<times> bool \<times> nat \<times> Wal \<times> 'x world" where
  "walTryBeginRead V w s ch useWal cnt =
    (let cnt = cnt + 1
     in if cnt > 5 \<and> cnt > WAL_RETRY_PROTOCOL_LIMIT then (SQLITE_PROTOCOL, ch, cnt, w, s)
     else
       let s = (if cnt > 5 then xSleep V (if cnt \<ge> 10 then (cnt - 9) * (cnt - 9) * 39 else 1) s else s)
       in if \<not> useWal then
            let (rc, ch, w, s) = (if \<not> bShmUnreliable w then walIndexReadHdr V w s ch
                                  else (SQLITE_OK, ch, w, s));
                (rc, s) = busy_recovery V w s rc
            in if rc \<noteq> SQLITE_OK then (rc, ch, cnt, w, s)
               else if bShmUnreliable w then
                 let (rc, ch, w, s) = walBeginShmUnreliable V w s ch in (rc, ch, cnt, w, s)
               else
                 let (ret, rc, w, s) = begin_without_wal V w s
                 in case ret of
                      Some r \<Rightarrow> (r, ch, cnt, w, s)
                    | None \<Rightarrow> let (rc, w, s) = begin_with_mark V w s rc in (rc, ch, cnt, w, s)
          else
            let (rc, w, s) = begin_with_mark V w s SQLITE_OK in (rc, ch, cnt, w, s))"

lemma walTryBeginRead_cnt:
  assumes "walTryBeginRead V w s ch useWal cnt = (rc, ch', cnt', w', s')"
  shows "cnt' = Suc cnt" "rc \<noteq> SQLITE_PROTOCOL \<Longrightarrow> cnt < WAL_RETRY_PROTOCOL_LIMIT"
  using assms by (auto simp: walTryBeginRead_def Let_def split: if_splits prod.splits option.splits)

lemma walTryBeginRead_measure:
  assumes "walTryBeginRead V w s ch useWal cnt = (WAL_RETRY, ch', cnt', w', s')"
  shows "101 - cnt' < 101 - cnt"
  using walTryBeginRead_cnt [OF assms] by simp

text \<open>The \<^verbatim>\<open>do \<dots> while( rc==WAL_RETRY )\<close> loop around it; it ends because the counter does.\<close>

function try_begin_read ::
  "'x vfs \<Rightarrow> Wal \<Rightarrow> 'x world \<Rightarrow> bool \<Rightarrow> bool \<Rightarrow> nat \<Rightarrow> rc \<times> bool \<times> Wal \<times> 'x world" where
  "try_begin_read V w s ch useWal cnt =
    (case walTryBeginRead V w s ch useWal cnt of (rc, ch, cnt, w, s) \<Rightarrow>
       if rc = WAL_RETRY then try_begin_read V w s ch useWal cnt else (rc, ch, w, s))"
  by pat_completeness auto
termination
  by (relation "measure (\<lambda>(V, w, s, ch, u, cnt). 101 - cnt)")
     (auto intro: walTryBeginRead_measure [OF sym])

declare try_begin_read.simps [simp del]

definition sqlite3WalBeginReadTransaction ::
  "'x vfs \<Rightarrow> Wal \<Rightarrow> 'x world \<Rightarrow> bool \<Rightarrow> rc \<times> bool \<times> Wal \<times> 'x world" where
  "sqlite3WalBeginReadTransaction V w s ch = try_begin_read V w s ch False 0"

section \<open>Write transactions\<close>

definition sqlite3WalBeginWriteTransaction ::
  "'x vfs \<Rightarrow> Wal \<Rightarrow> 'x world \<Rightarrow> rc \<times> Wal \<times> 'x world" where
  "sqlite3WalBeginWriteTransaction V w s =
    (if readOnly w \<noteq> 0 then (SQLITE_READONLY, w, s)
     else
       let (rc, s) = walLockExclusive V w WAL_WRITE_LOCK 1 s
       in if rc \<noteq> SQLITE_OK then (rc, w, s)
       else
         let w = w\<lparr>writeLock := True\<rparr>
         in if hdr w \<noteq> walIndexHdr w s then
              (SQLITE_BUSY_SNAPSHOT, w\<lparr>writeLock := False\<rparr>, walUnlockExclusive V w WAL_WRITE_LOCK 1 s)
            else (rc, w, s))"

text \<open>\<^verbatim>\<open>sqlite3WalUndo\<close>: the loop calls \<^verbatim>\<open>xUndo\<close> for \<open>k\<close> frames from \<open>iFrame\<close> on; the cache the
  callback works on is its state \<open>u\<close>.\<close>

primrec undo_frames ::
  "nat \<Rightarrow> 'x vfs \<Rightarrow> (u32 \<Rightarrow> 'u \<Rightarrow> rc \<times> 'u) \<Rightarrow> wi \<Rightarrow> nat \<Rightarrow> Wal \<Rightarrow> 'u \<Rightarrow> rc \<times> Wal \<times> 'u" where
  "undo_frames 0 V xUndo W iFrame w u = (SQLITE_OK, w, u)"
| "undo_frames (Suc k) V xUndo W iFrame w u =
    (let (pgno, w) = walFramePgno V W w iFrame;
         (rc, u) = xUndo pgno u
     in if rc \<noteq> SQLITE_OK then (rc, w, u) else undo_frames k V xUndo W (iFrame + 1) w u)"

definition sqlite3WalUndo ::
  "'x vfs \<Rightarrow> (u32 \<Rightarrow> 'u \<Rightarrow> rc \<times> 'u) \<Rightarrow> Wal \<Rightarrow> 'x world \<Rightarrow> 'u \<Rightarrow> rc \<times> Wal \<times> 'x world \<times> 'u" where
  "sqlite3WalUndo V xUndo w s u =
    (if writeLock w then
       let iMax = mxFrame (hdr w);
           w = w\<lparr>hdr := walIndexHdr w s\<rparr>;
           (rc, w, u) = undo_frames (iMax - mxFrame (hdr w)) V xUndo (pages w s) (mxFrame (hdr w) + 1) w u
       in if iMax \<noteq> mxFrame (hdr w) then
            let (W, w) = walCleanupHash V (pages w s) w in (rc, w, set_pages w W s, u)
          else (rc, w, s, u)
     else (SQLITE_OK, w, s, u))"

text \<open>Savepoints: \<^verbatim>\<open>aWalData\<close> has the frame count, the checksum and the checkpoint counter.\<close>

type_synonym wal_savepoint = "nat \<times> cksum \<times> u32"

definition sqlite3WalSavepoint :: "Wal \<Rightarrow> wal_savepoint" where
  "sqlite3WalSavepoint w = (mxFrame (hdr w), aFrameCksum (hdr w), nCkpt w)"

definition sqlite3WalSavepointUndo ::
  "'x vfs \<Rightarrow> Wal \<Rightarrow> wal_savepoint \<Rightarrow> 'x world \<Rightarrow> rc \<times> wal_savepoint \<times> Wal \<times> 'x world" where
  "sqlite3WalSavepointUndo V w aWalData s =
    (let aWalData = (case aWalData of (mx, ck, n) \<Rightarrow>
           if n \<noteq> nCkpt w then (0, ck, nCkpt w) else (mx, ck, n))
     in case aWalData of (mx, ck, n) \<Rightarrow>
          if mx < mxFrame (hdr w) then
            let w = w\<lparr>hdr := (hdr w)\<lparr>mxFrame := mx, aFrameCksum := ck\<rparr>\<rparr>;
                (W, w) = walCleanupHash V (pages w s) w
            in (SQLITE_OK, aWalData, w, set_pages w W s)
          else (SQLITE_OK, aWalData, w, s))"

section \<open>Small operations\<close>

definition sqlite3WalLimit :: "Wal option \<Rightarrow> int \<Rightarrow> Wal option" where
  "sqlite3WalLimit pWal iLimit = map_option (\<lambda>w. w\<lparr>mxWalSize := iLimit\<rparr>) pWal"

definition sqlite3WalReadFrame ::
  "'x vfs \<Rightarrow> Wal \<Rightarrow> nat \<Rightarrow> nat \<Rightarrow> 'x world \<Rightarrow> rc \<times> bytes \<times> 'x world" where
  "sqlite3WalReadFrame V w iRead nOut s =
    (let sz = page_size (hdr_szPage (hdr w));
         iOffset = walFrameOffset iRead sz + WAL_FRAME_HDRSIZE
     in xRead V WalFd (if nOut > sz then sz else nOut) iOffset s)"

definition sqlite3WalReadFrameRaw ::
  "'x vfs \<Rightarrow> Wal \<Rightarrow> nat \<Rightarrow> nat \<Rightarrow> 'x world \<Rightarrow> rc \<times> bytes \<times> 'x world" where
  "sqlite3WalReadFrameRaw V w iRead nOut s =
    (let sz = page_size (hdr_szPage (hdr w));
         iOffset = walFrameOffset iRead sz;
         sz = sz + WAL_FRAME_HDRSIZE
     in xRead V WalFd (if nOut > sz then sz else nOut) iOffset s)"

definition sqlite3WalDbsize :: "Wal option \<Rightarrow> Pgno" where
  "sqlite3WalDbsize pWal = (case pWal of Some w \<Rightarrow> if readLock w \<ge> 0 then nPage (hdr w) else 0 | None \<Rightarrow> 0)"

definition sqlite3WalFrameCount ::
  "'x vfs \<Rightarrow> Wal \<Rightarrow> bool \<Rightarrow> 'x world \<Rightarrow> rc \<times> nat option \<times> 'x world" where
  "sqlite3WalFrameCount V w locked s =
    (if locked then (SQLITE_OK, Some (mxFrame (hdr w)), s)
     else
       let (rc, s) = walLockExclusive V w WAL_WRITE_LOCK 1 s
       in if rc \<noteq> SQLITE_OK then (rc, None, s)
          else (SQLITE_OK, Some (mxFrame (hdr w)), walUnlockExclusive V w WAL_WRITE_LOCK 1 s))"

definition sqlite3WalCallback :: "Wal option \<Rightarrow> nat \<times> Wal option" where
  "sqlite3WalCallback pWal = (case pWal of Some w \<Rightarrow> (iCallback w, Some (w\<lparr>iCallback := 0\<rparr>)) | None \<Rightarrow> (0, None))"

definition sqlite3WalExclusiveMode ::
  "'x vfs \<Rightarrow> Wal \<Rightarrow> int \<Rightarrow> 'x world \<Rightarrow> bool \<times> Wal \<times> 'x world" where
  "sqlite3WalExclusiveMode V w op s =
    (if op = 0 then
       if exclusiveMode w \<noteq> WAL_NORMAL_MODE then
         let w = w\<lparr>exclusiveMode := WAL_NORMAL_MODE\<rparr>;
             (rc, s) = walLockShared V w (WAL_READ_LOCK (nat (readLock w))) s;
             w = (if rc \<noteq> SQLITE_OK then w\<lparr>exclusiveMode := WAL_EXCLUSIVE_MODE\<rparr> else w)
         in (exclusiveMode w = WAL_NORMAL_MODE, w, s)
       else (False, w, s)
     else if op > 0 then
       let s = walUnlockShared V w (WAL_READ_LOCK (nat (readLock w))) s
       in (True, w\<lparr>exclusiveMode := WAL_EXCLUSIVE_MODE\<rparr>, s)
     else (exclusiveMode w = WAL_NORMAL_MODE, w, s))"

definition sqlite3WalHeapMemory :: "Wal option \<Rightarrow> bool" where
  "sqlite3WalHeapMemory pWal = (case pWal of Some w \<Rightarrow> exclusiveMode w = WAL_HEAPMEMORY_MODE | None \<Rightarrow> False)"

section \<open>Choosing a read mark\<close>

lemma max_mark_spec:
  assumes "max_mark k marks mx i m j = (m', j')" "m \<le> mx" "j < i"
  shows "m' \<le> mx" "j' < i + k" "j' = j \<and> m' = m \<or> i \<le> j' \<and> m' = marks ! j'" "m \<le> m'"
    "\<And>l. i \<le> l \<Longrightarrow> l < i + k \<Longrightarrow> marks ! l \<le> mx \<Longrightarrow> marks ! l \<le> m'"
proof -
  have "m' \<le> mx \<and> j' < i + k \<and> (j' = j \<and> m' = m \<or> i \<le> j' \<and> m' = marks ! j') \<and> m \<le> m' \<and>
    (\<forall>l. i \<le> l \<and> l < i + k \<and> marks ! l \<le> mx \<longrightarrow> marks ! l \<le> m')"
    using assms
  proof (induction k arbitrary: i m j)
    case (Suc k)
    have l: "l = i \<or> Suc i \<le> l" if "i \<le> l" for l using that by auto
    show ?case
    proof (cases "m \<le> marks ! i \<and> marks ! i \<le> mx")
      case True
      then have "max_mark k marks mx (Suc i) (marks ! i) i = (m', j')" using Suc.prems(1) by (simp add: Let_def)
      note IH = Suc.IH [OF this]
      then have "m' \<le> mx" "j' < i + Suc k" "i \<le> j' \<and> m' = marks ! j'" "m \<le> m'" "marks ! i \<le> m'"
        using True by auto
      then show ?thesis using IH l True by (metis add_Suc_right add_Suc lessI order_refl)
    next
      case False
      then have "max_mark k marks mx (Suc i) m j = (m', j')" using Suc.prems(1) by (auto simp: Let_def)
      note IH = Suc.IH [OF this Suc.prems(2)]
      then have "m' \<le> mx" "j' < i + Suc k" "j' = j \<and> m' = m \<or> i \<le> j' \<and> m' = marks ! j'" "m \<le> m'"
        "marks ! i \<le> mx \<Longrightarrow> marks ! i \<le> m'"
        using False Suc.prems(3) by auto
      then show ?thesis using IH l Suc.prems(3) by (metis add_Suc_right add_Suc less_SucI)
    qed
  qed simp
  then show "m' \<le> mx" "j' < i + k" "j' = j \<and> m' = m \<or> i \<le> j' \<and> m' = marks ! j'" "m \<le> m'"
    "\<And>l. i \<le> l \<Longrightarrow> l < i + k \<Longrightarrow> marks ! l \<le> mx \<Longrightarrow> marks ! l \<le> m'" by auto
qed

lemma claim_mark_spec:
  "claim_mark k V w mx i m j rc0 s = (rc, Some (m', j'), t) \<Longrightarrow>
    m' = m \<and> j' = j \<or> m' = mx \<and> i \<le> j' \<and> j' < i + k"
proof (induction k arbitrary: i rc0 s)
  case (Suc k)
  obtain rc1 s1 where l: "walLockExclusive V w (3 + i) 1 s = (rc1, s1)"
    by (cases "walLockExclusive V w (3 + i) 1 s")
  show ?case
  proof (cases "rc1 = SQLITE_OK")
    case True
    then show ?thesis using Suc.prems l by (simp add: Let_def)
  next
    case False
    then have "rc1 = SQLITE_BUSY" "claim_mark k V w mx (i + 1) m j rc1 s1 = (rc, Some (m', j'), t)"
      using Suc.prems l by (simp_all split: if_splits)
    then show ?thesis using Suc.IH [of "i + 1" rc1 s1] by auto
  qed
qed simp

lemma claim_mark_None:
  "claim_mark k V w mx i m j rc0 s = (rc, None, t) \<Longrightarrow> rc \<noteq> SQLITE_OK"
proof (induction k arbitrary: i rc0 s)
  case (Suc k)
  then show ?case by (auto simp: Let_def split: prod.splits if_splits)
qed simp

lemma select_mark_spec:
  assumes "select_mark V w s rc0 = (rc, sel, t)"
  shows "sel = None \<Longrightarrow> rc \<noteq> SQLITE_OK"
    and "sel = Some (m, j) \<Longrightarrow> m \<le> mxFrame (hdr w) \<and> j < 5"
proof -
  let ?mx = "mxFrame (hdr w)"
  obtain m0 j0 where mm: "max_mark 4 (aReadMark (walCkptInfo w s)) ?mx 1 0 0 = (m0, j0)"
    by (cases "max_mark 4 (aReadMark (walCkptInfo w s)) ?mx 1 0 0")
  note ms = max_mark_spec [OF mm, simplified]
  have sel: "claim_mark 4 V w ?mx 1 m0 j0 rc0 s = (rc, sel, t) \<or> (rc, sel, t) = (rc0, Some (m0, j0), s)"
    using assms mm by (auto simp: select_mark_def Let_def split: if_splits)
  show "sel = None \<Longrightarrow> rc \<noteq> SQLITE_OK" using sel claim_mark_None [of 4 V w ?mx 1 m0 j0 rc0 s rc t] by auto
  show "m \<le> ?mx \<and> j < 5" if "sel = Some (m, j)"
    using sel claim_mark_spec [of 4 V w ?mx 1 m0 j0 rc0 s rc m j t] that ms by auto
qed

lemma begin_with_mark_OK:
  assumes "begin_with_mark V w s rc0 = (SQLITE_OK, w', t)"
  shows "\<exists>j n. 1 \<le> j \<and> j < 5 \<and> w' = w\<lparr>minFrame := n, readLock := int j\<rparr> \<and>
    aReadMark (walCkptInfo w t) ! j \<le> mxFrame (hdr w) \<and> walIndexHdr w t = hdr w \<and>
    (vfs_quiet V \<longrightarrow> n = nBackfill (walCkptInfo w t) + 1)"
proof -
  obtain rc1 sel s1 where sel: "select_mark V w s rc0 = (rc1, sel, s1)" by (cases "select_mark V w s rc0")
  obtain m j where mj: "sel = Some (m, j)" "j \<noteq> 0" "lock_mark V w s1 m j = (SQLITE_OK, w', t)"
    using assms sel select_mark_spec(1) [OF sel]
    by (auto simp: begin_with_mark_def split: option.splits if_splits)
  obtain s2 where l: "walLockShared V w (3 + j) s1 = (SQLITE_OK, s2)"
    using mj(3) by (auto simp: lock_mark_def Let_def split: prod.splits if_splits)
  let ?w = "w\<lparr>minFrame := nBackfill (walCkptInfo w s2) + 1\<rparr>"
  have r: "t = walShmBarrier V ?w s2" "w' = ?w\<lparr>readLock := int j\<rparr>"
    "aReadMark (walCkptInfo w t) ! j = m" "walIndexHdr w t = hdr w"
    using mj(3) l by (auto simp: lock_mark_def Let_def walIndexHdr_def split: if_splits)
  have "vfs_quiet V \<Longrightarrow> walCkptInfo w t = walCkptInfo w s2"
    using walCkptInfo_store [OF quiet_locks(5) [of V s2 ?w], of w] r(1) by simp
  then show ?thesis
    using r select_mark_spec(2) [OF sel mj(1)] mj(2)
    by (intro exI [of _ j] exI [of _ "nBackfill (walCkptInfo w s2) + 1"]) auto
qed

section \<open>Snapshots\<close>

text \<open>What an open read transaction on the shared wal-index has: a read lock, the header that is
  in shared memory, and a read mark not beyond it.\<close>

definition snapshot_open :: "Wal \<Rightarrow> 'x world \<Rightarrow> bool" where
  "snapshot_open w s \<longleftrightarrow> 0 \<le> readLock w \<and> readLock w < int WAL_NREADER \<and> walIndexHdr w s = hdr w \<and>
     (0 < readLock w \<longrightarrow> aReadMark (walCkptInfo w s) ! nat (readLock w) \<le> mxFrame (hdr w))"

lemma walIndexHdr_update [simp]:
  "walIndexHdr (w\<lparr>readLock := l\<rparr>) s = walIndexHdr w s" "walIndexHdr (w\<lparr>minFrame := n\<rparr>) s = walIndexHdr w s"
  "walIndexHdr (w\<lparr>writeLock := b\<rparr>) s = walIndexHdr w s" "walIndexHdr (w\<lparr>hdr := h\<rparr>) s = walIndexHdr w s"
  by (simp_all add: walIndexHdr_def)

lemma begin_with_mark_snapshot:
  assumes "begin_with_mark V w s rc0 = (SQLITE_OK, w', t)"
  shows "snapshot_open w' t \<and> 0 < readLock w' \<and> hdr w' = hdr w \<and>
    (vfs_quiet V \<longrightarrow> minFrame w' = nBackfill (walCkptInfo w' t) + 1)"
  using begin_with_mark_OK [OF assms] by (auto simp: snapshot_open_def)

lemma begin_without_wal_spec:
  assumes "begin_without_wal V w s = (ret, rc, w', t)"
  shows "ret = Some SQLITE_OK \<Longrightarrow> w' = w\<lparr>readLock := 0\<rparr> \<and> walIndexHdr w t = hdr w" "ret = None \<Longrightarrow> w' = w"
    and "vfs_quiet V \<Longrightarrow> ret = Some SQLITE_OK \<Longrightarrow> nBackfill (walCkptInfo w t) = mxFrame (hdr w)"
proof -
  show "w' = w\<lparr>readLock := 0\<rparr> \<and> walIndexHdr w t = hdr w" if "ret = Some SQLITE_OK"
    using assms that by (auto simp: begin_without_wal_def Let_def split: prod.splits if_splits)
  show "w' = w" if "ret = None"
    using assms that by (auto simp: begin_without_wal_def Let_def split: prod.splits if_splits)
  assume q: "vfs_quiet V" and ok: "ret = Some SQLITE_OK"
  obtain rc1 s1 where l: "walLockShared V w (3 + 0) s = (rc1, s1)" by (cases "walLockShared V w (3 + 0) s")
  have "nBackfill (walCkptInfo w s) = mxFrame (hdr w)" "t = walShmBarrier V w s1"
    using assms ok l by (auto simp: begin_without_wal_def Let_def split: if_splits)
  then show "nBackfill (walCkptInfo w t) = mxFrame (hdr w)"
    using walCkptInfo_store [OF same_store_trans [OF quiet_locks(1) [OF q l] quiet_locks(5) [OF q, of s1 w]]]
    by simp
qed

lemma walBeginShmUnreliable_flag:
  assumes "walBeginShmUnreliable V w s ch = (SQLITE_OK, ch', w', t)" "bShmUnreliable w"
  shows "bShmUnreliable w'"
proof -
  have scan: "bShmUnreliable w2 = bShmUnreliable w1"
    if "unreliable_scan V n i rc w1 s1 = (rc', w2, s2)" for n i rc rc' w1 w2 and s1 s2 :: "'a world"
    using that
  proof (induction V n i rc w1 s1 rule: unreliable_scan.induct)
    case (1 V n i rc w1 s1)
    have dec: "bShmUnreliable w3 = bShmUnreliable w1" if "walDecodeFrame w1 d f = (r, w3)" for d f r w3
      using that by (auto simp: walDecodeFrame_def Let_def split: if_splits)
    show ?case
      using 1 dec unfolding unreliable_scan.simps [of V n i rc w1 s1] Let_def
      by (auto split: if_splits prod.splits option.splits)
  qed
  obtain rc1 ch1 w1 s1 where b: "unreliable_body V w s ch = (rc1, ch1, w1, s1)"
    by (cases "unreliable_body V w s ch")
  have "bShmUnreliable w1 = bShmUnreliable w"
    using b scan unfolding unreliable_body_def Let_def by (auto split: prod.splits if_splits)
  moreover have "rc1 = SQLITE_OK" "w' = w1"
    using assms(1) b by (auto simp: walBeginShmUnreliable_def Let_def split: if_splits prod.splits)
  ultimately show ?thesis using assms(2) by simp
qed

lemma walTryBeginRead_OK:
  assumes "walTryBeginRead V w s ch useWal cnt = (SQLITE_OK, ch', cnt', w', t)" "\<not> bShmUnreliable w'"
  shows "snapshot_open w' t \<and> (useWal \<longrightarrow> 0 < readLock w' \<and> hdr w' = hdr w) \<and>
    (vfs_quiet V \<longrightarrow> (if readLock w' = 0 then nBackfill (walCkptInfo w' t) = mxFrame (hdr w')
       else minFrame w' = nBackfill (walCkptInfo w' t) + 1))"
proof -
  let ?n = "cnt + 1"
  define s1 where "s1 = (if ?n > 5 then xSleep V (if ?n \<ge> 10 then (?n - 9) * (?n - 9) * 39 else 1) s else s)"
  have lim: "cnt < 100" using walTryBeginRead_cnt(2) [OF assms(1)] by simp
  show ?thesis
  proof (cases useWal)
    case True
    then have "begin_with_mark V w s1 SQLITE_OK = (SQLITE_OK, w', t)"
      using assms(1) lim by (auto simp: walTryBeginRead_def Let_def s1_def split: prod.splits)
    from begin_with_mark_snapshot [OF this] show ?thesis by auto
  next
    case False
    define rd where "rd = (if \<not> bShmUnreliable w then walIndexReadHdr V w s1 ch else (SQLITE_OK, ch, w, s1))"
    obtain rc2 ch2 w2 s2 where rd: "rd = (rc2, ch2, w2, s2)" by (cases rd)
    obtain rc3 s3 where br: "busy_recovery V w2 s2 rc2 = (rc3, s3)" by (cases "busy_recovery V w2 s2 rc2")
    obtain ret rc4 w4 s4 where wo: "begin_without_wal V w2 s3 = (ret, rc4, w4, s4)"
      by (cases "begin_without_wal V w2 s3")
    note wo' = begin_without_wal_spec [OF wo]
    have run: "(if rc3 \<noteq> SQLITE_OK then (rc3, ch2, ?n, w2, s3)
       else if bShmUnreliable w2 then
         let (rc, ch, w, s) = walBeginShmUnreliable V w2 s3 ch2 in (rc, ch, ?n, w, s)
       else case ret of
              Some r \<Rightarrow> (r, ch2, ?n, w4, s4)
            | None \<Rightarrow> let (rc, w, s) = begin_with_mark V w4 s4 rc4 in (rc, ch2, ?n, w, s)) =
       (SQLITE_OK, ch', cnt', w', t)"
      using assms(1) lim False rd br wo
      unfolding walTryBeginRead_def Let_def s1_def [symmetric] rd_def [symmetric] by (simp cong: if_cong)
    have rel: "\<not> bShmUnreliable w2"
    proof
      assume u: "bShmUnreliable w2"
      obtain rc5 ch5 w5 s5 where bu: "walBeginShmUnreliable V w2 s3 ch2 = (rc5, ch5, w5, s5)"
        by (cases "walBeginShmUnreliable V w2 s3 ch2")
      have "rc5 = SQLITE_OK" "w5 = w'" using run u bu by (simp_all split: if_splits)
      then show False using walBeginShmUnreliable_flag [of V w2 s3 ch2 ch5 w5 s5] bu u assms(2) by simp
    qed
    show ?thesis
    proof (cases ret)
      case None
      then have "begin_with_mark V w4 s4 rc4 = (SQLITE_OK, w', t)"
        using run rel by (auto split: if_splits prod.splits)
      from begin_with_mark_snapshot [OF this] show ?thesis using False by auto
    next
      case (Some r)
      then have "r = SQLITE_OK" "w4 = w'" "s4 = t" using run rel by (simp_all split: if_splits)
      then show ?thesis using wo' Some False by (auto simp: snapshot_open_def)
    qed
  qed
qed

lemma try_begin_read_not_retry: "try_begin_read V w s ch u cnt = (rc, ch', w', t) \<Longrightarrow> rc \<noteq> WAL_RETRY"
proof (induction V w s ch u cnt rule: try_begin_read.induct)
  case (1 V w s ch u cnt)
  then show ?case by (subst (asm) try_begin_read.simps) (auto split: prod.splits if_splits)
qed

text \<open>A run of the loop as a number of calls: \<open>read_attempts V n w s ch cnt r\<close> says that \<open>n\<close> calls of
  \<^verbatim>\<open>walTryBeginRead\<close>, starting with the counter at \<open>cnt\<close>, all but the last of which ask for a
  retry, end with the result \<open>r\<close>.\<close>

inductive read_attempts ::
  "'x vfs \<Rightarrow> nat \<Rightarrow> Wal \<Rightarrow> 'x world \<Rightarrow> bool \<Rightarrow> nat \<Rightarrow> rc \<times> bool \<times> Wal \<times> 'x world \<Rightarrow> bool" where
  last: "walTryBeginRead V w s ch False cnt = (rc, ch', cnt', w', t) \<Longrightarrow> rc \<noteq> WAL_RETRY \<Longrightarrow>
    read_attempts V 1 w s ch cnt (rc, ch', w', t)"
| retry: "walTryBeginRead V w s ch False cnt = (WAL_RETRY, ch1, cnt1, w1, s1) \<Longrightarrow>
    read_attempts V n w1 s1 ch1 cnt1 r \<Longrightarrow> read_attempts V (Suc n) w s ch cnt r"

lemma try_begin_read_attempts: "\<exists>n. read_attempts V n w s ch cnt (try_begin_read V w s ch False cnt)"
proof (induction V w s ch False cnt rule: try_begin_read.induct)
  case (1 V w s ch cnt)
  obtain rc1 ch1 c1 w1 s1 where t: "walTryBeginRead V w s ch False cnt = (rc1, ch1, c1, w1, s1)"
    by (cases "walTryBeginRead V w s ch False cnt")
  show ?case
  proof (cases "rc1 = WAL_RETRY")
    case True
    then have "try_begin_read V w s ch False cnt = try_begin_read V w1 s1 ch1 False c1"
      using t by (subst try_begin_read.simps) simp
    then show ?thesis using 1 [OF t [symmetric] refl refl refl True] retry [OF t [unfolded True]] by metis
  next
    case False
    then have "try_begin_read V w s ch False cnt = (rc1, ch1, w1, s1)" using t by (subst try_begin_read.simps) simp
    then show ?thesis using last [OF t False] by auto
  qed
qed

lemma read_attempts_last:
  "read_attempts V n w s ch cnt r \<Longrightarrow>
    \<exists>w0 s0 ch0. walTryBeginRead V w0 s0 ch0 False (cnt + n - 1) = (fst r, fst (snd r), cnt + n, snd (snd r)) \<and> 0 < n"
proof (induction rule: read_attempts.induct)
  case (last V w s ch cnt rc ch' cnt' w' t)
  then show ?case using walTryBeginRead_cnt(1) [OF last(1)] by auto
next
  case (retry V w s ch cnt ch1 cnt1 w1 s1 n r)
  then show ?case using walTryBeginRead_cnt(1) [OF retry(1)] by auto
qed

lemma read_attempts_bound: "read_attempts V n w s ch cnt r \<Longrightarrow> cnt \<le> 100 \<Longrightarrow> cnt + n \<le> 101"
proof (induction rule: read_attempts.induct)
  case (retry V w s ch cnt ch1 cnt1 w1 s1 n r)
  then show ?case using walTryBeginRead_cnt [OF retry(1)] by simp
qed simp

lemma try_begin_read_last:
  assumes "try_begin_read V w s ch False cnt = (rc, ch', w', t)"
  shows "\<exists>w0 s0 ch0 c0 c1. walTryBeginRead V w0 s0 ch0 False c0 = (rc, ch', c1, w', t)"
proof -
  obtain n where "read_attempts V n w s ch cnt (rc, ch', w', t)"
    using try_begin_read_attempts [of V w s ch cnt] assms by auto
  from read_attempts_last [OF this] show ?thesis unfolding fst_conv snd_conv by blast
qed

section \<open>Without contention\<close>

lemma walIndexPage_reliable:
  assumes "shm_reliable E"
  shows "\<exists>w1. walIndexPage E w i = (SQLITE_OK, True, w1) \<and> same_conn w w1 \<and> readOnly w1 = readOnly w"
  using assms
  by (auto simp: walIndexPage_def walIndexPageRealloc_def shm_reliable_def Let_def same_conn_def)

lemma walIndexReadHdr_sealed:
  assumes Q: "vfs_quiet V" and K: "vfs_works V" and u: "\<not> bShmUnreliable w"
    and h: "aHdr0 (mem w s) = sealed h" "aHdr1 (mem w s) = sealed h"
  shows "\<exists>w1 t. walIndexReadHdr V w s ch = (SQLITE_OK, ch \<or> hdr w \<noteq> sealed h, w1, t) \<and> same_store s t \<and>
    hdr w1 = sealed h \<and> uses_heap w1 = uses_heap w \<and> exclusiveMode w1 = exclusiveMode w \<and>
    bShmUnreliable w1 = bShmUnreliable w \<and> readOnly w1 = readOnly w"
proof -
  obtain w1 where p: "walIndexPage V w 0 = (SQLITE_OK, True, w1)" and sc: "same_conn w w1"
    and ro: "readOnly w1 = readOnly w"
    using walIndexPage_reliable [OF vfs_works_D(1) [OF K]] by blast
  note f = same_conn_fields [OF sc] and uh = uses_heap_same_conn [OF sc]
  have "aHdr0 (mem w1 s) = sealed h" "aHdr1 (mem w1 s) = sealed h" using h mem_cong [OF uh, of s] by simp_all
  from walIndexTryHdr_sealed [OF Q this, of ch] obtain t where t: "same_store s t"
    "walIndexTryHdr V w1 s ch = (False, ch \<or> hdr w1 \<noteq> sealed h,
       if hdr w1 \<noteq> sealed h then w1\<lparr>hdr := sealed h, szPage := page_size (hdr_szPage h)\<rparr> else w1, t)"
    by blast
  define w2 where "w2 = (if hdr w1 \<noteq> sealed h then w1\<lparr>hdr := sealed h, szPage := page_size (hdr_szPage h)\<rparr> else w1)"
  have f2: "hdr w2 = sealed h" "uses_heap w2 = uses_heap w" "exclusiveMode w2 = exclusiveMode w"
    "bShmUnreliable w2 = bShmUnreliable w" "readOnly w2 = readOnly w"
    using f uh ro by (simp_all add: w2_def)
  have "walIndexReadHdr V w s ch = (SQLITE_OK, ch \<or> hdr w \<noteq> sealed h, w2, t)"
    using p t(2) [folded w2_def] f(1,4) f2 u unfolding walIndexReadHdr_def Let_def by simp
  then show ?thesis using f2 t(1) by blast
qed

lemma select_mark_works:
  assumes Q: "vfs_quiet V" and K: "vfs_works V" and len: "length (aReadMark (walCkptInfo w s)) = 5"
    and ro: "readOnly w AND WAL_SHM_RDONLY = 0"
  shows "\<exists>rc m j t. select_mark V w s rc0 = (rc, Some (m, j), t) \<and> j \<noteq> 0 \<and> j < 5 \<and>
    aReadMark (walCkptInfo w t) ! j = m \<and> nBackfill (walCkptInfo w t) = nBackfill (walCkptInfo w s) \<and>
    aHdr0 (mem w t) = aHdr0 (mem w s) \<and> aHdr1 (mem w t) = aHdr1 (mem w s) \<and> pages w t = pages w s \<and>
    walFile t = walFile s \<and> dbFile t = dbFile s"
proof -
  let ?mx = "mxFrame (hdr w)" and ?c = "walCkptInfo w s"
  obtain m0 j0 where mm: "max_mark 4 (aReadMark ?c) ?mx 1 0 0 = (m0, j0)"
    by (cases "max_mark 4 (aReadMark ?c) ?mx 1 0 0")
  note ms = max_mark_spec [OF mm, simplified]
  show ?thesis
  proof (cases "m0 < ?mx \<or> j0 = 0")
    case False
    then have "select_mark V w s rc0 = (rc0, Some (m0, j0), s)" using mm ro by (simp add: select_mark_def)
    moreover have "j0 \<noteq> 0" "j0 < 5" "aReadMark ?c ! j0 = m0" using False ms(2,3) by auto
    ultimately show ?thesis by blast
  next
    case True
    obtain s1 where l: "walLockExclusive V w (3 + 1) 1 s = (SQLITE_OK, s1)"
      using works_locks(2) [OF K, of w "3 + 1" 1 s] by (cases "walLockExclusive V w (3 + 1) 1 s") auto
    define s2 where "s2 = set_ckptInfo w ((walCkptInfo w s1)\<lparr>aReadMark := (aReadMark (walCkptInfo w s1))[1 := ?mx]\<rparr>) s1"
    define s3 where "s3 = walUnlockExclusive V w (3 + 1) 1 s2"
    note e1 = same_store_eqs [OF quiet_locks(3) [OF Q l]] and e3 = same_store_eqs [OF quiet_locks(4) [OF Q, of s2 w "3 + 1" 1], folded s3_def]
    have "claim_mark (Suc 3) V w ?mx 1 m0 j0 rc0 s = (SQLITE_OK, Some (?mx, 1), s3)"
      unfolding claim_mark.simps Let_def using l by (simp add: s3_def s2_def)
    then have "claim_mark 4 V w ?mx 1 m0 j0 rc0 s = (SQLITE_OK, Some (?mx, 1), s3)" by simp
    then have sel: "select_mark V w s rc0 = (SQLITE_OK, Some (?mx, 1), s3)"
      using mm ro True by (simp add: select_mark_def)
    have c3: "walCkptInfo w s3 = ?c\<lparr>aReadMark := (aReadMark ?c)[1 := ?mx]\<rparr>"
      using e1 e3 by (simp add: walCkptInfo_def s2_def set_ckptInfo_def)
    have m3: "aHdr0 (mem w s3) = aHdr0 (mem w s)" "aHdr1 (mem w s3) = aHdr1 (mem w s)" "pages w s3 = pages w s"
      "walFile s3 = walFile s" "dbFile s3 = dbFile s"
      using e1 e3 by (simp_all add: s2_def set_ckptInfo_def pages_def)
    show ?thesis
      by (rule exI [of _ SQLITE_OK], rule exI [of _ ?mx], rule exI [of _ 1], rule exI [of _ s3])
         (use sel c3 m3 len in simp)
  qed
qed

lemma lock_mark_works:
  assumes Q: "vfs_quiet V" and K: "vfs_works V" and "aReadMark (walCkptInfo w s) ! j = m" "walIndexHdr w s = hdr w"
  shows "\<exists>t. lock_mark V w s m j = (SQLITE_OK,
    w\<lparr>minFrame := nBackfill (walCkptInfo w s) + 1, readLock := int j\<rparr>, t) \<and> same_store s t"
proof -
  obtain s1 where l: "walLockShared V w (3 + j) s = (SQLITE_OK, s1)"
    using works_locks(1) [OF K, of w "3 + j" s] by (cases "walLockShared V w (3 + j) s") auto
  have s1: "same_store s s1" by (rule quiet_locks(1) [OF Q l])
  let ?w = "w\<lparr>minFrame := nBackfill (walCkptInfo w s1) + 1\<rparr>"
  have t: "same_store s (walShmBarrier V ?w s1)"
    by (rule same_store_trans [OF s1 quiet_locks(5) [OF Q]])
  have "walIndexHdr w (walShmBarrier V ?w s1) = hdr w" "walCkptInfo w (walShmBarrier V ?w s1) = walCkptInfo w s"
    using same_store_eqs(5) [OF t, of w] assms(4) by (simp_all add: walIndexHdr_def walCkptInfo_def)
  then have "lock_mark V w s m j = (SQLITE_OK, ?w\<lparr>readLock := int j\<rparr>, walShmBarrier V ?w s1)"
    using l assms(3) by (simp add: lock_mark_def Let_def)
  then show ?thesis using t walCkptInfo_store [OF s1, of w] by auto
qed

lemma begin_read_works:
  assumes Q: "vfs_quiet V" and K: "vfs_works V" and u: "\<not> bShmUnreliable w"
    and h: "aHdr0 (mem w s) = sealed h" "aHdr1 (mem w s) = sealed h"
    and len: "length (aReadMark (walCkptInfo w s)) = 5" and ro: "readOnly w AND WAL_SHM_RDONLY = 0"
  shows "\<exists>w' t. sqlite3WalBeginReadTransaction V w s ch = (SQLITE_OK, ch \<or> hdr w \<noteq> sealed h, w', t) \<and>
    walTryBeginRead V w s ch False 0 = (SQLITE_OK, ch \<or> hdr w \<noteq> sealed h, 1, w', t) \<and>
    hdr w' = sealed h \<and> \<not> bShmUnreliable w' \<and> walFile t = walFile s \<and> dbFile t = dbFile s \<and>
    (readLock w' = 0 \<longleftrightarrow> nBackfill (walCkptInfo w s) = mxFrame h)"
proof -
  obtain w1 s1 where rd: "walIndexReadHdr V w s ch = (SQLITE_OK, ch \<or> hdr w \<noteq> sealed h, w1, s1)"
    and st: "same_store s s1" and f: "hdr w1 = sealed h" "uses_heap w1 = uses_heap w"
      "exclusiveMode w1 = exclusiveMode w" "bShmUnreliable w1 = bShmUnreliable w" "readOnly w1 = readOnly w"
    using walIndexReadHdr_sealed [OF Q K u h] by blast
  have m1: "mem w1 s1 = mem w s" using same_store_eqs(5) [OF st] mem_cong [OF f(2)] by metis
  have c1: "walCkptInfo w1 s1 = walCkptInfo w s" using m1 by (simp add: walCkptInfo_def)
  have br: "busy_recovery V w1 s1 SQLITE_OK = (SQLITE_OK, s1)" by (simp add: busy_recovery_def)
  have first: "sqlite3WalBeginReadTransaction V w s ch = (rc, ch', w', t)"
    if "walTryBeginRead V w s ch False 0 = (rc, ch', 1, w', t)" "rc \<noteq> WAL_RETRY" for rc ch' w' t
    using that by (simp add: sqlite3WalBeginReadTransaction_def try_begin_read.simps)
  show ?thesis
  proof (cases "nBackfill (walCkptInfo w s) = mxFrame h")
    case True
    obtain s2 where l: "walLockShared V w1 (3 + 0) s1 = (SQLITE_OK, s2)"
      using works_locks(1) [OF K, of w1 "3 + 0" s1] by (cases "walLockShared V w1 (3 + 0) s1") auto
    define s3 where "s3 = walShmBarrier V w1 s2"
    have t: "same_store s1 s3" unfolding s3_def
      by (rule same_store_trans [OF quiet_locks(1) [OF Q l] quiet_locks(5) [OF Q]])
    have "walIndexHdr w1 s3 = hdr w1" using same_store_eqs(5) [OF t, of w1] m1 h f by (simp add: walIndexHdr_def)
    then have "begin_without_wal V w1 s1 = (Some SQLITE_OK, SQLITE_OK, w1\<lparr>readLock := 0\<rparr>, s3)"
      using True l c1 f by (simp add: begin_without_wal_def s3_def Let_def)
    then have "walTryBeginRead V w s ch False 0 = (SQLITE_OK, ch \<or> hdr w \<noteq> sealed h, 1, w1\<lparr>readLock := 0\<rparr>, s3)"
      using rd br u f by (simp add: walTryBeginRead_def)
    note r = this first [OF this]
    show ?thesis
      by (rule exI [of _ "w1\<lparr>readLock := 0\<rparr>"], rule exI [of _ s3])
         (use r f u True same_store_eqs(3,4) [OF t] same_store_eqs(3,4) [OF st] in simp)
  next
    case False
    have wo: "begin_without_wal V w1 s1 = (None, SQLITE_OK, w1, s1)"
      using False c1 f by (simp add: begin_without_wal_def)
    have "length (aReadMark (walCkptInfo w1 s1)) = 5" "readOnly w1 AND 2 = 0" using len c1 ro f by simp_all
    from select_mark_works [OF Q K this, of SQLITE_OK] obtain rc m j s2
      where sel: "select_mark V w1 s1 SQLITE_OK = (rc, Some (m, j), s2)" "j \<noteq> 0" "j < 5"
        "aReadMark (walCkptInfo w1 s2) ! j = m" "aHdr0 (mem w1 s2) = aHdr0 (mem w1 s1)"
        "walFile s2 = walFile s1" "dbFile s2 = dbFile s1"
      by blast
    have "walIndexHdr w1 s2 = hdr w1" using sel(5) m1 h f by (simp add: walIndexHdr_def)
    from lock_mark_works [OF Q K sel(4) this] obtain s3 where
      lm: "lock_mark V w1 s2 m j = (SQLITE_OK, w1\<lparr>minFrame := nBackfill (walCkptInfo w1 s2) + 1, readLock := int j\<rparr>, s3)"
      and s3: "same_store s2 s3" by blast
    let ?w = "w1\<lparr>minFrame := nBackfill (walCkptInfo w1 s2) + 1, readLock := int j\<rparr>"
    have "begin_with_mark V w1 s1 SQLITE_OK = (SQLITE_OK, ?w, s3)"
      using sel lm by (simp add: begin_with_mark_def)
    then have "walTryBeginRead V w s ch False 0 = (SQLITE_OK, ch \<or> hdr w \<noteq> sealed h, 1, ?w, s3)"
      using rd br u f wo by (simp add: walTryBeginRead_def)
    note r = this first [OF this]
    show ?thesis
      by (rule exI [of _ ?w], rule exI [of _ s3])
         (use r f u False sel same_store_eqs(3,4) [OF s3] same_store_eqs(3,4) [OF st] in simp)
  qed
qed

section \<open>Rollback\<close>

lemma walFramePgno_repr:
  assumes "wi_repr W log" "0 < f" "f \<le> length log" "shm_reliable E"
  shows "\<exists>w'. walFramePgno E W w f = (log ! (f - 1), w') \<and> same_conn w w'"
proof -
  let ?i = "walFramePage f"
  note r = wi_repr_frame [OF assms(1-3)] and b = walFramePage_bounds [OF assms(2)]
  show ?thesis
  proof (cases "?i = 0")
    case True
    then show ?thesis using r by (simp add: walFramePgno_def ht_zero_def)
  next
    case False
    have z: "ht_zero ?i = 4062 + (?i - 1) * 4096" using False by (simp add: ht_zero_def)
    have "f - 1 - 4062 = (?i - 1) * 4096 + (f - ht_zero ?i - 1)" "f - ht_zero ?i - 1 < 4096"
      using b ht_cap_le [of ?i] unfolding z by linarith+
    then have idx: "(f - 1 - 4062) mod 4096 = f - ht_zero ?i - 1" by simp
    obtain w' where p: "walIndexPage E w ?i = (SQLITE_OK, True, w')"
      using walIndexPage_reliable [OF assms(4)] by blast
    then have "walFramePgno E W w f = (log ! (f - 1), w')"
      using False r unfolding walFramePgno_def Let_def idx by simp
    then show ?thesis using walIndexPage_same_conn [OF p] by blast
  qed
qed

lemma cleanup_repr_reliable:
  assumes "wi_repr W log" "walCleanupHash E W w = (W', w')" "mxFrame (hdr w) \<le> length log" "shm_reliable E"
  shows "wi_repr W' (take (mxFrame (hdr w)) log) \<and> same_conn w w'"
proof (cases "mxFrame (hdr w) = 0")
  case True
  then show ?thesis using assms(2) by (simp add: walCleanupHash_def)
next
  case False
  then show ?thesis using cleanup_repr [OF assms(1,2) _ assms(3)] walHashGet_reliable [OF assms(4)] by simp
qed

lemma undo_frames_repr:
  assumes "wi_repr W log" "shm_reliable V" "\<forall>pg u. fst (xUndo pg u) = SQLITE_OK"
    and "0 < i" "i + k \<le> Suc (length log)"
  shows "\<exists>w'. undo_frames k V xUndo W i w u =
    (SQLITE_OK, w', fold (\<lambda>pg u. snd (xUndo pg u)) (take k (drop (i - 1) log)) u) \<and> same_conn w w'"
  using assms(4-)
proof (induction k arbitrary: i w u)
  case (Suc k)
  obtain w1 where f: "walFramePgno V W w i = (log ! (i - 1), w1)" "same_conn w w1"
    using walFramePgno_repr [OF assms(1) _ _ assms(2), of i w] Suc.prems by auto
  obtain u1 where u: "xUndo (log ! (i - 1)) u = (SQLITE_OK, u1)"
    using assms(3) by (metis prod.collapse)
  have "drop (i - 1) log = log ! (i - 1) # drop i log"
    using Suc.prems Cons_nth_drop_Suc [of "i - 1" log] by simp
  then show ?case
    using Suc.IH [of "Suc i" w1 u1] Suc.prems f u same_conn_trans [OF f(2)] by auto
qed simp

section \<open>Properties\<close>

text \<open>C18. Beginning a read transaction always returns, after at most 101 attempts and never with
  the code that asks for a retry: the hundred-and-first attempt fails with
  \<^verbatim>\<open>SQLITE_PROTOCOL\<close>. When it succeeds on the shared wal-index,
  whatever other connections did in the meantime, the connection has the header that
  is in shared memory and a read lock whose mark is not beyond it; without
  interference it also skips exactly the frames already in the database.\<close>

theorem sqlite3WalBeginReadTransaction_snapshot:
  assumes "sqlite3WalBeginReadTransaction V w s ch = (rc, ch', w', t)"
  shows "(\<exists>n. read_attempts V n w s ch 0 (rc, ch', w', t) \<and> n \<le> 101 \<and> (n = 101 \<longrightarrow> rc = SQLITE_PROTOCOL)) \<and>
    rc \<noteq> WAL_RETRY \<and>
    (rc = SQLITE_OK \<and> \<not> bShmUnreliable w' \<longrightarrow> snapshot_open w' t \<and>
      (vfs_quiet V \<longrightarrow> (if readLock w' = 0 then nBackfill (walCkptInfo w' t) = mxFrame (hdr w')
         else minFrame w' = nBackfill (walCkptInfo w' t) + 1)))"
proof -
  have r: "try_begin_read V w s ch False 0 = (rc, ch', w', t)"
    using assms by (simp add: sqlite3WalBeginReadTransaction_def)
  obtain n where n: "read_attempts V n w s ch 0 (rc, ch', w', t)"
    using try_begin_read_attempts [of V w s ch 0] r by auto
  obtain w0 s0 ch0 where l: "walTryBeginRead V w0 s0 ch0 False (n - 1) = (rc, ch', n, w', t)" "0 < n"
    using read_attempts_last [OF n] by auto
  have "n \<le> 101" "n = 101 \<longrightarrow> rc = SQLITE_PROTOCOL"
    using read_attempts_bound [OF n] walTryBeginRead_cnt(2) [OF l(1)] by (cases "rc = SQLITE_PROTOCOL"; auto)+
  then show ?thesis using n l try_begin_read_not_retry [OF r] walTryBeginRead_OK by blast
qed

text \<open>C31. Without contention a read transaction opens at the first attempt on the header found in
  shared memory, reports a change exactly if the connection's copy was another one,
  and bypasses the log exactly if all of it has been checkpointed.\<close>

theorem sqlite3WalBeginReadTransaction_uncontended:
  assumes "vfs_quiet V" "vfs_works V" "\<not> bShmUnreliable w" "readOnly w AND WAL_SHM_RDONLY = 0"
    and "aHdr0 (mem w s) = sealed h" "aHdr1 (mem w s) = sealed h"
    and "length (aReadMark (walCkptInfo w s)) = 5"
  shows "\<exists>w' t. sqlite3WalBeginReadTransaction V w s ch = (SQLITE_OK, ch \<or> hdr w \<noteq> sealed h, w', t) \<and>
    walTryBeginRead V w s ch False 0 = (SQLITE_OK, ch \<or> hdr w \<noteq> sealed h, 1, w', t) \<and>
    hdr w' = sealed h \<and> \<not> bShmUnreliable w' \<and> walFile t = walFile s \<and> dbFile t = dbFile s \<and>
    (readLock w' = 0 \<longleftrightarrow> nBackfill (walCkptInfo w s) = mxFrame h)"
  by (rule begin_read_works [OF assms(1-3,5-7,4)])

text \<open>C22. A write transaction starts only on the latest snapshot: it succeeds with the write lock and
  the connection's header equal to the one in shared memory, and otherwise leaves
  the connection as it was. When the lock can be had it fails exactly because
  another connection has written since the snapshot was taken.\<close>

theorem sqlite3WalBeginWriteTransaction_no_fork:
  assumes "\<not> writeLock w" "sqlite3WalBeginWriteTransaction V w s = (rc, w', t)"
  shows "(rc = SQLITE_OK \<longrightarrow> w' = w\<lparr>writeLock := True\<rparr> \<and> walIndexHdr w' t = hdr w' \<and> readOnly w = 0) \<and>
    (rc \<noteq> SQLITE_OK \<longrightarrow> w' = w) \<and> (readOnly w \<noteq> 0 \<longrightarrow> rc = SQLITE_READONLY \<and> t = s) \<and>
    (vfs_quiet V \<and> vfs_works V \<and> readOnly w = 0 \<longrightarrow>
      rc = (if walIndexHdr w s = hdr w then SQLITE_OK else SQLITE_BUSY_SNAPSHOT))"
proof -
  obtain rc1 s1 where l: "walLockExclusive V w 0 1 s = (rc1, s1)" by (cases "walLockExclusive V w 0 1 s")
  have same: "w\<lparr>writeLock := False\<rparr> = w" using assms(1) by (cases w) simp
  have "vfs_quiet V \<Longrightarrow> walIndexHdr w s1 = walIndexHdr w s"
    using same_store_eqs(5) [OF quiet_locks(3) [OF _ l], of w] by (simp add: walIndexHdr_def)
  moreover have "vfs_works V \<Longrightarrow> rc1 = SQLITE_OK" using works_locks(2) [of V w 0 1 s] l by simp
  ultimately show ?thesis
    using assms(2) l same by (auto simp: sqlite3WalBeginWriteTransaction_def Let_def split: if_splits)
qed

text \<open>C20. Rollback: \<^verbatim>\<open>sqlite3WalUndo\<close> restores the header to the last commit, calls the pager back for
  exactly the pages written since, in order, and cuts the index back to the
  committed log.\<close>

theorem sqlite3WalUndo_rollback:
  assumes "writeLock w" "shm_reliable V" "\<forall>pg u. fst (xUndo pg u) = SQLITE_OK"
    and "wi_repr (pages w s) log" "length log = mxFrame (hdr w)" "mxFrame (walIndexHdr w s) \<le> mxFrame (hdr w)"
    and "sqlite3WalUndo V xUndo w s u = (rc, w', t, u')"
  shows "rc = SQLITE_OK \<and> hdr w' = walIndexHdr w s \<and>
    wi_repr (pages w' t) (take (mxFrame (walIndexHdr w s)) log) \<and>
    u' = fold (\<lambda>pg u. snd (xUndo pg u)) (drop (mxFrame (walIndexHdr w s)) log) u \<and>
    walFile t = walFile s \<and> dbFile t = dbFile s \<and> walIndexHdr w' t = walIndexHdr w s"
proof -
  let ?h = "walIndexHdr w s" and ?mx = "mxFrame (walIndexHdr w s)" and ?w = "w\<lparr>hdr := walIndexHdr w s\<rparr>"
  have rel: "wi_repr (pages ?w s) log" using assms(4) by simp
  obtain w1 where un: "undo_frames (mxFrame (hdr w) - ?mx) V xUndo (pages ?w s) (?mx + 1) ?w u =
      (SQLITE_OK, w1, fold (\<lambda>pg u. snd (xUndo pg u)) (drop ?mx log) u)" and sc: "same_conn ?w w1"
    using undo_frames_repr [OF rel assms(2,3), of "?mx + 1" "mxFrame (hdr w) - ?mx" ?w u] assms(5,6) by auto
  have h1: "hdr w1 = ?h" "uses_heap w1 = uses_heap w"
    using same_conn_fields(1) [OF sc] uses_heap_same_conn [OF sc] by simp_all
  have p1: "pages w1 s = pages w s" by (rule pages_cong [OF h1(2)])
  show ?thesis
  proof (cases "mxFrame (hdr w) = ?mx")
    case True
    then have "(rc, w', t, u') = (SQLITE_OK, w1, s, fold (\<lambda>pg u. snd (xUndo pg u)) (drop ?mx log) u)"
      using assms(1,7) un h1 by (auto simp: sqlite3WalUndo_def Let_def)
    moreover have "walIndexHdr w1 s = ?h" using mem_cong [OF h1(2), of s] by (simp add: walIndexHdr_def)
    ultimately show ?thesis using h1 p1 assms(4,5) True by simp
  next
    case False
    obtain W w2 where cl: "walCleanupHash V (pages w1 s) w1 = (W, w2)" by (cases "walCleanupHash V (pages w1 s) w1")
    have r: "wi_repr W (take ?mx log)" "same_conn w1 w2"
      using cleanup_repr_reliable [OF _ cl _ assms(2), of log] p1 h1 assms(4-6) by simp_all
    have res: "(rc, w', t, u') = (SQLITE_OK, w2, set_pages w2 W s, fold (\<lambda>pg u. snd (xUndo pg u)) (drop ?mx log) u)"
      using assms(1,7) un h1 False cl by (auto simp: sqlite3WalUndo_def Let_def)
    have "uses_heap w2 = uses_heap w" using uses_heap_same_conn [OF r(2)] h1 by simp
    then have "walIndexHdr w2 (set_pages w2 W s) = ?h"
      by (simp add: walIndexHdr_def set_pages_def mem_def set_mem_def)
    then show ?thesis using res r h1 same_conn_fields(1) [OF r(2)] by simp
  qed
qed

text \<open>C32. Savepoints: undoing to a savepoint of the same log puts back the frame count and the running
  checksum and cuts the index to the frames there were; after the log was
  restarted the savepoint stands for its beginning.\<close>

theorem sqlite3WalSavepointUndo_restores:
  assumes "shm_reliable V" "wi_repr (pages w s) log" "length log = mxFrame (hdr w)"
    and "mxFrame (hdr w0) \<le> mxFrame (hdr w)"
    and "sqlite3WalSavepointUndo V w (sqlite3WalSavepoint w0) s = (rc, sp, w', t)"
  shows "rc = SQLITE_OK \<and>
    mxFrame (hdr w') = (if nCkpt w0 = nCkpt w then mxFrame (hdr w0) else 0) \<and>
    wi_repr (pages w' t) (take (mxFrame (hdr w')) log) \<and>
    (mxFrame (hdr w') < mxFrame (hdr w) \<longrightarrow> aFrameCksum (hdr w') = aFrameCksum (hdr w0)) \<and>
    sp = (mxFrame (hdr w'), aFrameCksum (hdr w0), nCkpt w)"
proof -
  define mx where "mx = (if nCkpt w0 = nCkpt w then mxFrame (hdr w0) else 0)"
  let ?w = "w\<lparr>hdr := (hdr w)\<lparr>mxFrame := mx, aFrameCksum := aFrameCksum (hdr w0)\<rparr>\<rparr>"
  show ?thesis
  proof (cases "mx < mxFrame (hdr w)")
    case True
    obtain W w2 where cl: "walCleanupHash V (pages ?w s) ?w = (W, w2)" by (cases "walCleanupHash V (pages ?w s) ?w")
    have r: "wi_repr W (take mx log)" "same_conn ?w w2"
      using cleanup_repr_reliable [OF _ cl _ assms(1), of log] assms(2-4) True by simp_all
    have "(rc, sp, w', t) = (SQLITE_OK, (mx, aFrameCksum (hdr w0), nCkpt w), w2, set_pages w2 W s)"
      using assms(5) True cl
      by (auto simp: sqlite3WalSavepointUndo_def sqlite3WalSavepoint_def mx_def Let_def split: if_splits)
    then show ?thesis using r same_conn_fields(1) [OF r(2)] by (simp add: mx_def)
  next
    case False
    then have "(rc, sp, w', t) = (SQLITE_OK, (mx, aFrameCksum (hdr w0), nCkpt w), w, s)"
      using assms(5)
      by (auto simp: sqlite3WalSavepointUndo_def sqlite3WalSavepoint_def mx_def Let_def split: if_splits)
    moreover have "mxFrame (hdr w) = mx" using False assms(4) by (auto simp: mx_def split: if_splits)
    ultimately show ?thesis using assms(2,3) by (simp add: mx_def)
  qed
qed

text \<open>Concrete inputs: a world whose header says that the log has two committed frames.\<close>

definition hdr2 :: WalIndexHdr where
  "hdr2 = hdr_zero\<lparr>mxFrame := 2, nPage := 5\<rparr>"

definition world2 :: "unit world" where
  "world2 = (plain_world [] [])\<lparr>shm := wshm_zero\<lparr>aHdr0 := sealed hdr2, aHdr1 := sealed hdr2\<rparr>\<rparr>"

lemma world2_simps:
  "aHdr0 (mem wal_zero world2) = sealed hdr2" "aHdr1 (mem wal_zero world2) = sealed hdr2"
  "length (aReadMark (walCkptInfo wal_zero world2)) = 5" "nBackfill (walCkptInfo wal_zero world2) = 0"
  "\<not> bShmUnreliable wal_zero" "readOnly wal_zero AND WAL_SHM_RDONLY = 0"
  by (simp_all add: world2_def mem_def uses_heap_def wal_zero_def walCkptInfo_def wshm_zero_def plain_world_def)

theorem sqlite3WalBeginReadTransaction_snapshot_witness:
  "\<exists>ch' w' t. sqlite3WalBeginReadTransaction plain_vfs wal_zero world2 False = (SQLITE_OK, ch', w', t) \<and>
     snapshot_open w' t \<and> mxFrame (hdr w') = 2"
proof -
  obtain w' t where r: "sqlite3WalBeginReadTransaction plain_vfs wal_zero world2 False =
      (SQLITE_OK, False \<or> hdr wal_zero \<noteq> sealed hdr2, w', t)" "hdr w' = sealed hdr2" "\<not> bShmUnreliable w'"
    using begin_read_works [OF plain_vfs_quiet plain_vfs_works world2_simps(5,1,2,3,6), of False] by blast
  show ?thesis
    using sqlite3WalBeginReadTransaction_snapshot [OF r(1)] r by (simp add: hdr2_def)
qed

theorem sqlite3WalBeginReadTransaction_uncontended_witness:
  "\<exists>ch' w' t. sqlite3WalBeginReadTransaction plain_vfs wal_zero world2 False = (SQLITE_OK, ch', w', t) \<and>
     readLock w' \<noteq> 0 \<and> hdr w' = sealed hdr2"
proof -
  obtain w' t where r: "sqlite3WalBeginReadTransaction plain_vfs wal_zero world2 False =
      (SQLITE_OK, False \<or> hdr wal_zero \<noteq> sealed hdr2, w', t)" "hdr w' = sealed hdr2"
      "readLock w' = 0 \<longleftrightarrow> nBackfill (walCkptInfo wal_zero world2) = mxFrame hdr2"
    using sqlite3WalBeginReadTransaction_uncontended [OF plain_vfs_quiet plain_vfs_works
        world2_simps(5,6,1,2,3), of False] by blast
  then show ?thesis using world2_simps(4) by (simp add: hdr2_def)
qed

theorem sqlite3WalBeginWriteTransaction_no_fork_witness:
  "(\<exists>t. sqlite3WalBeginWriteTransaction plain_vfs (wal_zero\<lparr>hdr := sealed hdr2\<rparr>) world2 =
     (SQLITE_OK, wal_zero\<lparr>hdr := sealed hdr2, writeLock := True\<rparr>, t)) \<and>
   (\<exists>t. sqlite3WalBeginWriteTransaction plain_vfs wal_zero world2 = (SQLITE_BUSY_SNAPSHOT, wal_zero, t))"
proof -
  have z: "\<not> writeLock wal_zero" "\<not> writeLock (wal_zero\<lparr>hdr := sealed hdr2\<rparr>)" "readOnly wal_zero = 0"
    by (simp_all add: wal_zero_def)
  have h: "walIndexHdr wal_zero world2 = sealed hdr2" using world2_simps(1) by (simp add: walIndexHdr_def)
  have "mxFrame (hdr wal_zero) \<noteq> mxFrame (sealed hdr2)" by (simp add: wal_zero_def hdr_zero_def hdr2_def)
  then have ne: "walIndexHdr wal_zero world2 \<noteq> hdr wal_zero" using h by metis
  obtain rc1 w1 t1 where r1: "sqlite3WalBeginWriteTransaction plain_vfs (wal_zero\<lparr>hdr := sealed hdr2\<rparr>) world2 = (rc1, w1, t1)"
    by (cases "sqlite3WalBeginWriteTransaction plain_vfs (wal_zero\<lparr>hdr := sealed hdr2\<rparr>) world2")
  obtain rc2 w2 t2 where r2: "sqlite3WalBeginWriteTransaction plain_vfs wal_zero world2 = (rc2, w2, t2)"
    by (cases "sqlite3WalBeginWriteTransaction plain_vfs wal_zero world2")
  show ?thesis
    using sqlite3WalBeginWriteTransaction_no_fork [OF z(2) r1] sqlite3WalBeginWriteTransaction_no_fork [OF z(1) r2]
      r1 r2 z h ne plain_vfs_quiet plain_vfs_works by simp
qed

text \<open>A writer that has appended a frame of page 7 to an empty log.\<close>

definition writer1 :: Wal where
  "writer1 = wal_zero\<lparr>writeLock := True, hdr := hdr_zero\<lparr>mxFrame := 1\<rparr>\<rparr>"

definition world1 :: "unit world" where
  "world1 = (plain_world [] [])\<lparr>shm := wshm_zero\<lparr>wiPages := index1\<rparr>\<rparr>"

lemma world1_simps:
  "wi_repr (pages writer1 world1) [7]" "walIndexHdr writer1 world1 = hdr_zero" "writeLock writer1"
  "mxFrame (hdr writer1) = 1" "mxFrame hdr_zero = 0" "shm_reliable plain_vfs"
  using index1_repr vfs_works_D(1) [OF plain_vfs_works]
  by (simp_all add: world1_def pages_def mem_def uses_heap_def wal_zero_def writer1_def walIndexHdr_def
      wshm_zero_def plain_world_def hdr_zero_def)

theorem sqlite3WalUndo_rollback_witness:
  "\<exists>w' t. sqlite3WalUndo plain_vfs (\<lambda>pg u. (SQLITE_OK, pg # u)) writer1 world1 [] = (SQLITE_OK, w', t, [7]) \<and>
     hdr w' = hdr_zero"
proof -
  obtain rc w' t u' where r: "sqlite3WalUndo plain_vfs (\<lambda>pg u. (SQLITE_OK, pg # u)) writer1 world1 [] = (rc, w', t, u')"
    by (cases "sqlite3WalUndo plain_vfs (\<lambda>pg u. (SQLITE_OK, pg # u)) writer1 world1 []")
  show ?thesis
    using sqlite3WalUndo_rollback [OF world1_simps(3,6) _ world1_simps(1) _ _ r] world1_simps r by simp
qed

theorem sqlite3WalSavepointUndo_restores_witness:
  "\<exists>sp w' t. sqlite3WalSavepointUndo plain_vfs writer1 (sqlite3WalSavepoint wal_zero) world1 = (SQLITE_OK, sp, w', t) \<and>
     mxFrame (hdr w') = 0"
proof -
  obtain rc sp w' t where r: "sqlite3WalSavepointUndo plain_vfs writer1 (sqlite3WalSavepoint wal_zero) world1 = (rc, sp, w', t)"
    by (cases "sqlite3WalSavepointUndo plain_vfs writer1 (sqlite3WalSavepoint wal_zero) world1")
  have "mxFrame (hdr wal_zero) = 0" by (simp add: wal_zero_def hdr_zero_def)
  then show ?thesis
    using sqlite3WalSavepointUndo_restores [OF world1_simps(6,1) _ _ r] world1_simps r by (simp split: if_splits)
qed

end
