(* ===== verification/WalWrite.thy ===== *)
theory WalWrite
  imports WalTrans
begin

unbundle bit_operations_syntax

text \<open>
  Writing to the log: restarting it from the beginning, writing frames with their
  checksums, padding and syncing a commit, and publishing it in the wal-index
  (\<^verbatim>\<open>walRestartLog\<close>, \<^verbatim>\<open>walFrames\<close> and what they call in \<^verbatim>\<open>wal.c\<close>).
\<close>

section \<open>Restarting the log\<close>

definition walRestartHdr :: "'x vfs \<Rightarrow> Wal \<Rightarrow> bytes \<Rightarrow> 'x world \<Rightarrow> Wal \<times> 'x world" where
  "walRestartHdr V w salt1 s =
    (let a = aSalt (hdr w);
         salt = sqlite3Put4byte (1 + sqlite3Get4byte a) @ salt1;
         w = w\<lparr>nCkpt := nCkpt w + 1, hdr := (hdr w)\<lparr>mxFrame := 0, aSalt := salt\<rparr>\<rparr>;
         (w, s) = walIndexWriteHdr V w s;
         c = walCkptInfo w s
     in (w, set_ckptInfo w (c\<lparr>nBackfill := 0, nBackfillAttempted := 0,
              aReadMark := [aReadMark c ! 0, 0, READMARK_NOT_USED, READMARK_NOT_USED, READMARK_NOT_USED]\<rparr>) s))"

text \<open>\<^verbatim>\<open>walRestartLog\<close>; the second result is \<^verbatim>\<open>*pRestarted\<close>.\<close>

definition walRestartLog ::
  "'x vfs \<Rightarrow> Wal \<Rightarrow> 'x world \<Rightarrow> rc \<times> bool \<times> Wal \<times> 'x world" where
  "walRestartLog V w s =
    (if readLock w \<noteq> 0 then (SQLITE_OK, False, w, s)
     else
       let (rc, restarted, w, s) =
         (if nBackfill (walCkptInfo w s) > 0 then
            let (salt1, s) = sqlite3_randomness V 4 s;
                (rc, s) = walLockExclusive V w (WAL_READ_LOCK 1) (WAL_NREADER - 1) s
            in if rc = SQLITE_OK then
                 let (w, s) = walRestartHdr V w salt1 s
                 in (SQLITE_OK, True, w, walUnlockExclusive V w (WAL_READ_LOCK 1) (WAL_NREADER - 1) s)
               else if rc \<noteq> SQLITE_BUSY then (rc, False, w, s)
               else (SQLITE_OK, False, w, s)
          else (SQLITE_OK, False, w, s))
       in if rc \<noteq> SQLITE_OK then (rc, restarted, w, s)
       else
         let s = walUnlockShared V w (WAL_READ_LOCK 0) s;
             (rc, ch, w, s) = try_begin_read V (w\<lparr>readLock := - 1\<rparr>) s False True 0
         in (rc, restarted, w, s))"

section \<open>Writing frames\<close>

text \<open>A page of the pager's list of dirty pages, with the fields the log uses; the list \<^verbatim>\<open>pDirty\<close> is a list of these.
  \<open>wal_append\<close> is the flag \<^verbatim>\<open>PGHDR_WAL_APPEND\<close>.\<close>

record PgHdr =
  pgno :: Pgno
  pData :: bytes
  wal_append :: bool

text \<open>The build without \<^verbatim>\<open>LIBSQL_CUSTOM_PAGER_CODEC\<close>; both callers pass a result pointer.\<close>

definition libsql_pager_codec :: "PgHdr \<Rightarrow> rc \<times> bytes" where
  "libsql_pager_codec p = (SQLITE_OK, pData p)"

record WalWriter =
  iSyncPoint :: nat
  syncFlags :: nat
  ww_szPage :: nat

definition WAL_SYNC_FLAGS :: "nat \<Rightarrow> nat" where
  "WAL_SYNC_FLAGS x = x AND 0x03"

definition CKPT_SYNC_FLAGS :: "nat \<Rightarrow> nat" where
  "CKPT_SYNC_FLAGS x = drop_bit 2 x AND 0x03"

definition walWriteToLog ::
  "'x vfs \<Rightarrow> WalWriter \<Rightarrow> bytes \<Rightarrow> nat \<Rightarrow> 'x world \<Rightarrow> rc \<times> 'x world" where
  "walWriteToLog V p pContent iOffset s =
    (if iOffset < iSyncPoint p \<and> iOffset + length pContent \<ge> iSyncPoint p then
       let iFirstAmt = iSyncPoint p - iOffset;
           (rc, s) = xWrite V WalFd (take iFirstAmt pContent) iOffset s
       in if rc \<noteq> SQLITE_OK then (rc, s)
       else
         let (rc, s) = sqlite3OsSync V WalFd (WAL_SYNC_FLAGS (syncFlags p)) s
         in if length pContent - iFirstAmt = 0 \<or> rc \<noteq> SQLITE_OK then (rc, s)
            else xWrite V WalFd (drop iFirstAmt pContent) (iOffset + iFirstAmt) s
     else xWrite V WalFd pContent iOffset s)"

definition walWriteOneFrame ::
  "'x vfs \<Rightarrow> WalWriter \<Rightarrow> Wal \<Rightarrow> PgHdr \<Rightarrow> u32 \<Rightarrow> nat \<Rightarrow> 'x world \<Rightarrow> rc \<times> Wal \<times> 'x world" where
  "walWriteOneFrame V p w pPage nTruncate iOffset s =
    (let (rc, aData) = libsql_pager_codec pPage
     in if rc \<noteq> SQLITE_OK then (rc, w, s)
     else
       let (aFrame, w) = walEncodeFrame w (pgno pPage) nTruncate aData;
           (rc, s) = walWriteToLog V p aFrame iOffset s
       in if rc \<noteq> SQLITE_OK then (rc, w, s)
          else
            let (rc, s) = walWriteToLog V p (take (ww_szPage p) aData) (iOffset + WAL_FRAME_HDRSIZE) s
            in (rc, w, s))"

primrec rewrite_frames ::
  "nat \<Rightarrow> 'x vfs \<Rightarrow> nat \<Rightarrow> nat \<Rightarrow> rc \<Rightarrow> Wal \<Rightarrow> 'x world \<Rightarrow> rc \<times> Wal \<times> 'x world" where
  "rewrite_frames 0 V sz iRead rc w s = (rc, w, s)"
| "rewrite_frames (Suc k) V sz iRead rc w s =
    (if rc \<noteq> SQLITE_OK then (rc, w, s)
     else
       let iOff = walFrameOffset iRead sz;
           (rc, aBuf, s) = xRead V WalFd (sz + WAL_FRAME_HDRSIZE) iOff s
       in if rc = SQLITE_OK then
            let iPgno = sqlite3Get4byte aBuf;
                nDbSize = sqlite3Get4byte (drop 4 aBuf);
                (aFrame, w) = walEncodeFrame w iPgno nDbSize (drop WAL_FRAME_HDRSIZE aBuf);
                (rc, s) = xWrite V WalFd aFrame iOff s
            in rewrite_frames k V sz (iRead + 1) rc w s
          else rewrite_frames k V sz (iRead + 1) rc w s)"

definition walRewriteChecksums ::
  "'x vfs \<Rightarrow> Wal \<Rightarrow> nat \<Rightarrow> 'x world \<Rightarrow> rc \<times> Wal \<times> 'x world" where
  "walRewriteChecksums V w iLast s =
    (let sz = szPage w
     in if \<not> mallocOk V then (SQLITE_NOMEM, w, s)
     else
       let iCksumOff = (if iReCksum w = 1 then 24 else walFrameOffset (iReCksum w - 1) sz + 16);
           (rc, aBuf, s) = xRead V WalFd 8 iCksumOff s;
           iRead = iReCksum w;
           w = w\<lparr>hdr := (hdr w)\<lparr>aFrameCksum := (sqlite3Get4byte aBuf, sqlite3Get4byte (drop 4 aBuf))\<rparr>,
                iReCksum := 0\<rparr>
       in rewrite_frames (iLast + 1 - iRead) V sz iRead rc w s)"

definition walLimitSize :: "'x vfs \<Rightarrow> int \<Rightarrow> 'x world \<Rightarrow> 'x world" where
  "walLimitSize V nMax s =
    (let (rx, sz, s) = xFileSize V WalFd s
     in if rx = SQLITE_OK \<and> int sz > nMax then snd (xTruncate V WalFd (nat nMax) s) else s)"

definition sqlite3SectorSize :: "'x vfs \<Rightarrow> 'x world \<Rightarrow> nat" where
  "sqlite3SectorSize V s =
    (let iRet = xSectorSize V s in if iRet < 32 then 512 else if iRet > 0x10000 then 0x10000 else nat iRet)"

section \<open>Committing\<close>

text \<open>\<^verbatim>\<open>walFrames\<close>, in the order of its parts. First the log header, written when the log is empty.\<close>

definition frames_header ::
  "'x vfs \<Rightarrow> Wal \<Rightarrow> nat \<Rightarrow> nat \<Rightarrow> 'x world \<Rightarrow> rc \<times> Wal \<times> 'x world" where
  "frames_header V w sz sync_flags s =
    (if mxFrame (hdr w) \<noteq> 0 then (SQLITE_OK, w, s)
     else
       let (salt, s) = (if nCkpt w = 0 then sqlite3_randomness V 8 s else (aSalt (hdr w), s));
           (b, c) = aWalHdr sz (nCkpt w) salt;
           w = w\<lparr>szPage := sz, truncateOnCommit := True,
                hdr := (hdr w)\<lparr>aSalt := salt, bigEndCksum := SQLITE_BIGENDIAN, aFrameCksum := c\<rparr>\<rparr>;
           (rc, s) = xWrite V WalFd b 0 s
       in if rc \<noteq> SQLITE_OK then (rc, w, s)
          else if syncHeader w then
            let (rc, s) = sqlite3OsSync V WalFd (CKPT_SYNC_FLAGS sync_flags) s in (rc, w, s)
          else (rc, w, s))"

text \<open>The loop over the dirty pages: it returns the pages with their flags set, the number of
  the last frame, the next offset and \<^verbatim>\<open>pLast\<close>.\<close>

primrec frames_write ::
  "PgHdr list \<Rightarrow> 'x vfs \<Rightarrow> WalWriter \<Rightarrow> nat \<Rightarrow> u32 \<Rightarrow> bool \<Rightarrow> nat \<Rightarrow> nat \<Rightarrow> PgHdr option \<Rightarrow> Wal \<Rightarrow> 'x world
    \<Rightarrow> rc \<times> PgHdr list \<times> nat \<times> nat \<times> PgHdr option \<times> Wal \<times> 'x world" where
  "frames_write [] V ww iFirst nTruncate isCommit iFrame iOffset pLast w s =
     (SQLITE_OK, [], iFrame, iOffset, pLast, w, s)"
| "frames_write (p # ps) V ww iFirst nTruncate isCommit iFrame iOffset pLast w s =
    (let (rc, iWrite, w) =
           (if iFirst \<noteq> 0 \<and> (ps \<noteq> [] \<or> \<not> isCommit) then sqlite3WalFindFrame V (pages w s) w (pgno p)
            else (SQLITE_OK, 0, w))
     in if iFirst \<noteq> 0 \<and> (ps \<noteq> [] \<or> \<not> isCommit) \<and> iWrite \<ge> iFirst then
          let iOff = walFrameOffset iWrite (ww_szPage ww) + WAL_FRAME_HDRSIZE;
              w = (if iReCksum w = 0 \<or> iWrite < iReCksum w then w\<lparr>iReCksum := iWrite\<rparr> else w);
              (rc, aData) = libsql_pager_codec p
          in if rc \<noteq> SQLITE_OK then (rc, p # ps, iFrame, iOffset, pLast, w, s)
          else
            let (rc, s) = xWrite V WalFd (take (ww_szPage ww) aData) iOff s
            in if rc \<noteq> SQLITE_OK then (rc, p # ps, iFrame, iOffset, pLast, w, s)
            else
              let (rc, ps, r) = frames_write ps V ww iFirst nTruncate isCommit iFrame iOffset pLast w s
              in (rc, p\<lparr>wal_append := False\<rparr> # ps, r)
        else
          let iFrame = iFrame + 1;
              nDbSize = (if isCommit \<and> ps = [] then nTruncate else 0);
              (rc, w, s) = walWriteOneFrame V ww w p nDbSize iOffset s
          in if rc \<noteq> SQLITE_OK then (rc, p # ps, iFrame, iOffset, pLast, w, s)
          else
            let p = p\<lparr>wal_append := True\<rparr>;
                (rc, ps, r) = frames_write ps V ww iFirst nTruncate isCommit iFrame
                  (iOffset + ww_szPage ww + WAL_FRAME_HDRSIZE) (Some p) w s
            in (rc, p # ps, r))"

text \<open>The padding loop; it runs only for a commit, whose last page is always appended, so
  \<^verbatim>\<open>pLast\<close> is set.\<close>

function frames_pad ::
  "'x vfs \<Rightarrow> WalWriter \<Rightarrow> PgHdr \<Rightarrow> u32 \<Rightarrow> nat \<Rightarrow> nat \<Rightarrow> Wal \<Rightarrow> 'x world \<Rightarrow> rc \<times> nat \<times> Wal \<times> 'x world" where
  "frames_pad V ww pLast nTruncate nExtra iOffset w s =
    (if iOffset < iSyncPoint ww then
       let (rc, w, s) = walWriteOneFrame V ww w pLast nTruncate iOffset s
       in if rc \<noteq> SQLITE_OK then (rc, nExtra, w, s)
          else frames_pad V ww pLast nTruncate (nExtra + 1)
                 (iOffset + ww_szPage ww + WAL_FRAME_HDRSIZE) w s
     else (SQLITE_OK, nExtra, w, s))"
  by pat_completeness auto
termination
  by (relation "measure (\<lambda>(V, ww, p, n, e, iOffset, w, s). iSyncPoint ww - iOffset)") auto

declare frames_pad.simps [simp del]

text \<open>Padding and syncing: the flag is true for an early return.\<close>

definition frames_sync ::
  "'x vfs \<Rightarrow> WalWriter \<Rightarrow> PgHdr option \<Rightarrow> u32 \<Rightarrow> nat \<Rightarrow> Wal \<Rightarrow> 'x world
    \<Rightarrow> bool \<times> rc \<times> nat \<times> Wal \<times> 'x world" where
  "frames_sync V ww pLast nTruncate iOffset w s =
    (let sectorSize = sqlite3SectorSize V s;
         sp = (iOffset + sectorSize - 1) div sectorSize * sectorSize;
         (rc, nExtra, w, s) =
           (if padToSectorBoundary w then
              case pLast of
                Some p \<Rightarrow> frames_pad V (ww\<lparr>iSyncPoint := sp\<rparr>) p nTruncate 0 iOffset w s
              | None \<Rightarrow> (SQLITE_OK, 0, w, s)
            else (SQLITE_OK, 0, w, s))
     in if rc \<noteq> SQLITE_OK then (True, rc, nExtra, w, s)
        else if padToSectorBoundary w \<and> sp \<noteq> iOffset then (False, rc, nExtra, w, s)
        else
          let (rc, s) = sqlite3OsSync V WalFd (WAL_SYNC_FLAGS (syncFlags ww)) s
          in (False, rc, nExtra, w, s))"

text \<open>Appending the new frames to the wal-index.\<close>

primrec frames_index ::
  "PgHdr list \<Rightarrow> 'x vfs \<Rightarrow> nat \<Rightarrow> rc \<Rightarrow> Wal \<Rightarrow> 'x world \<Rightarrow> rc \<times> nat \<times> Wal \<times> 'x world" where
  "frames_index [] V iFrame rc w s = (rc, iFrame, w, s)"
| "frames_index (p # ps) V iFrame rc w s =
    (if rc \<noteq> SQLITE_OK then (rc, iFrame, w, s)
     else if \<not> wal_append p then frames_index ps V iFrame rc w s
     else
       let (rc, W, w) = walIndexAppend V (pages w s) w (iFrame + 1) (pgno p)
       in frames_index ps V (iFrame + 1) rc w (set_pages w W s))"

primrec extra_index ::
  "nat \<Rightarrow> 'x vfs \<Rightarrow> u32 \<Rightarrow> nat \<Rightarrow> rc \<Rightarrow> Wal \<Rightarrow> 'x world \<Rightarrow> rc \<times> nat \<times> Wal \<times> 'x world" where
  "extra_index 0 V pg iFrame rc w s = (rc, iFrame, w, s)"
| "extra_index (Suc k) V pg iFrame rc w s =
    (if rc \<noteq> SQLITE_OK then (rc, iFrame, w, s)
     else
       let (rc, W, w) = walIndexAppend V (pages w s) w (iFrame + 1) pg
       in extra_index k V pg (iFrame + 1) rc w (set_pages w W s))"

text \<open>The last part: the index, the header and the output parameter.\<close>

definition frames_publish ::
  "'x vfs \<Rightarrow> Wal \<Rightarrow> nat \<Rightarrow> PgHdr list \<Rightarrow> u32 \<Rightarrow> bool \<Rightarrow> bool \<Rightarrow> PgHdr option \<Rightarrow> nat \<Rightarrow> rc \<Rightarrow> 'x world
    \<Rightarrow> rc \<times> nat option \<times> Wal \<times> 'x world" where
  "frames_publish V w sz pList nTruncate isCommit restarted pLast nExtra rc s =
    (let (rc, iFrame, w, s) = frames_index pList V (mxFrame (hdr w)) rc w s;
         (rc, iFrame, w, s) = (case pLast of
            Some p \<Rightarrow> extra_index nExtra V (pgno p) iFrame rc w s
          | None \<Rightarrow> (rc, iFrame, w, s))
     in if rc \<noteq> SQLITE_OK then (rc, None, w, s)
     else
       let nFrames = (if isCommit then if restarted then iFrame else iFrame - mxFrame (hdr w) else 0);
           h = (hdr w)\<lparr>hdr_szPage := size_field sz, mxFrame := iFrame\<rparr>;
           h = (if isCommit then h\<lparr>iChange := iChange h + 1, nPage := nTruncate\<rparr> else h);
           w = w\<lparr>hdr := h\<rparr>
       in if isCommit then
            let (w, s) = walIndexWriteHdr V w s in (rc, Some nFrames, w\<lparr>iCallback := iFrame\<rparr>, s)
          else (rc, Some nFrames, w, s))"

text \<open>\<^verbatim>\<open>walFrames\<close> from the check of the page size on.\<close>

definition frames_body ::
  "'x vfs \<Rightarrow> Wal \<Rightarrow> nat \<Rightarrow> PgHdr list \<Rightarrow> u32 \<Rightarrow> bool \<Rightarrow> nat \<Rightarrow> bool \<Rightarrow> nat \<Rightarrow> 'x world
    \<Rightarrow> rc \<times> nat option \<times> PgHdr list \<times> Wal \<times> 'x world" where
  "frames_body V w sz pList nTruncate isCommit sync_flags restarted iFirst s =
    (if szPage w \<noteq> sz then (SQLITE_CORRUPT, None, pList, w, s)
     else
       let ww = \<lparr>iSyncPoint = 0, syncFlags = sync_flags, ww_szPage = sz\<rparr>;
           (rc, pList, iFrame, iOffset, pLast, w, s) =
             frames_write pList V ww iFirst nTruncate isCommit (mxFrame (hdr w))
               (walFrameOffset (mxFrame (hdr w) + 1) sz) None w s
       in if rc \<noteq> SQLITE_OK then (rc, None, pList, w, s)
       else
         let (rc, w, s) = (if isCommit \<and> iReCksum w \<noteq> 0 then walRewriteChecksums V w iFrame s
                           else (SQLITE_OK, w, s))
         in if rc \<noteq> SQLITE_OK then (rc, None, pList, w, s)
         else
           let (ret, rc, nExtra, w, s) =
                 (if isCommit \<and> WAL_SYNC_FLAGS sync_flags \<noteq> 0
                  then frames_sync V ww pLast nTruncate iOffset w s
                  else (False, SQLITE_OK, 0, w, s))
           in if ret then (rc, None, pList, w, s)
           else
             let (w, s) =
                   (if isCommit \<and> truncateOnCommit w \<and> mxWalSize w \<ge> 0 then
                      let off = int (walFrameOffset (iFrame + nExtra + 1) sz)
                      in (w\<lparr>truncateOnCommit := False\<rparr>,
                          walLimitSize V (if off > mxWalSize w then off else mxWalSize w) s)
                    else (w, s));
                 (rc, nFrames, w, s) =
                   frames_publish V w sz pList nTruncate isCommit restarted pLast nExtra rc s
             in (rc, nFrames, pList, w, s))"

definition walFrames ::
  "'x vfs \<Rightarrow> Wal \<Rightarrow> nat \<Rightarrow> PgHdr list \<Rightarrow> u32 \<Rightarrow> bool \<Rightarrow> nat \<Rightarrow> 'x world
    \<Rightarrow> rc \<times> nat option \<times> PgHdr list \<times> Wal \<times> 'x world" where
  "walFrames V w sz pList nTruncate isCommit sync_flags s =
    (let iFirst = (if hdr w \<noteq> walIndexHdr w s then mxFrame (walIndexHdr w s) + 1 else 0);
         (rc, restarted, w, s) = walRestartLog V w s
     in if rc \<noteq> SQLITE_OK then (rc, None, pList, w, s)
     else
       let (rc, w, s) = frames_header V w sz sync_flags s
       in if rc \<noteq> SQLITE_OK then (rc, None, pList, w, s)
       else frames_body V w sz pList nTruncate isCommit sync_flags restarted iFirst s)"

definition sqlite3WalFrames ::
  "'x vfs \<Rightarrow> Wal \<Rightarrow> nat \<Rightarrow> PgHdr list \<Rightarrow> u32 \<Rightarrow> bool \<Rightarrow> nat \<Rightarrow> 'x world
    \<Rightarrow> rc \<times> nat option \<times> PgHdr list \<times> Wal \<times> 'x world" where
  "sqlite3WalFrames V w sz pList nTruncate isCommit sync_flags s =
     walFrames V w sz pList nTruncate isCommit sync_flags s"

section \<open>Bytes of a file\<close>

lemma length_overwrite [simp]: "length (overwrite f off b) = max (length f) (off + length b)"
  by (simp add: overwrite_def)

lemma take_overwrite: "n \<le> off \<Longrightarrow> n \<le> length f \<Longrightarrow> take n (overwrite f off b) = take n f"
  by (simp add: overwrite_def min_def)

lemma drop_overwrite: "take (length b) (drop off (overwrite f off b)) = b"
  by (simp add: overwrite_def)

lemma overwrite_append: "overwrite (overwrite f off a) (off + length a) b = overwrite f off (a @ b)"
proof -
  define g where "g = overwrite f off a"
  have m: "min (length f) off + (off - length f) = off" by simp
  have g: "take (off + length a) g = take off f @ replicate (off - length f) 0 @ a"
    "drop (off + length a + length b) g = drop (off + length a + length b) f"
    "off + length a - length g = 0"
    using m by (simp_all add: g_def overwrite_def ac_simps)
  show ?thesis unfolding g_def [symmetric] overwrite_def [of g] g by (simp add: overwrite_def add.assoc)
qed

text \<open>A write changes nothing before or after it.\<close>

lemma outside_overwrite:
  assumes "m + n \<le> off \<or> off + length b \<le> m" "off \<le> length f"
  shows "take n (drop m (overwrite f off b)) = take n (drop m f)"
  using assms(1)
proof
  assume "m + n \<le> off"
  then have "take (m + n) (overwrite f off b) = take (m + n) f"
    using assms(2) by (simp add: take_overwrite)
  then show ?thesis by (metis add.commute take_drop)
next
  assume m: "off + length b \<le> m"
  have "drop (m - (off + length b)) (drop (off + length b) (overwrite f off b)) =
      drop (m - (off + length b)) (drop (off + length b) f)"
    using assms(2) by (simp add: overwrite_def)
  then show ?thesis using m by (simp only: drop_drop) simp
qed

lemma inside_overwrite:
  assumes "k + length b \<le> n" "m + n \<le> length f"
  shows "take n (drop m (overwrite f (m + k) b)) = overwrite (take n (drop m f)) k b"
proof -
  have "take n (drop m (overwrite f (m + k) b)) =
      take k (drop m f) @ b @ take (n - (k + length b)) (drop (m + k + length b) f)"
    using assms by (cases "n = k") (auto simp: overwrite_def take_drop [symmetric] drop_take min_def add.commute [of k])
  also have "\<dots> = overwrite (take n (drop m f)) k b"
    using assms by (auto simp: overwrite_def drop_take min_def ac_simps)
  finally show ?thesis .
qed

lemma walFrameOffset_Suc: "0 < i \<Longrightarrow> walFrameOffset (Suc i) sz = walFrameOffset i sz + (sz + 24)"
  by (cases i) (simp_all add: walFrameOffset_def)

lemma walFrameOffset_mono: "i \<le> j \<Longrightarrow> walFrameOffset i sz \<le> walFrameOffset j sz"
  by (simp add: walFrameOffset_def diff_le_mono)

lemma walFrameOffset_hdr: "32 \<le> walFrameOffset i sz"
  by (simp add: walFrameOffset_def)

lemma frame_at_other:
  assumes "i \<noteq> j" "0 < i" "0 < j" "k + length b \<le> sz + 24" "walFrameOffset i sz + k \<le> length f"
  shows "frame_at (overwrite f (walFrameOffset i sz + k) b) sz j = frame_at f sz j"
proof -
  have "walFrameOffset j sz + (sz + 24) \<le> walFrameOffset i sz \<or>
      walFrameOffset i sz + (sz + 24) \<le> walFrameOffset j sz"
    using assms(1-3) walFrameOffset_mono [of "Suc j" i sz] walFrameOffset_mono [of "Suc i" j sz]
    by (cases "j < i") (simp_all add: walFrameOffset_Suc)
  then show ?thesis
    unfolding frame_at_def using assms(4,5) by (intro outside_overwrite) auto
qed

lemma frame_at_patch:
  assumes "k + length b \<le> sz + 24" "walFrameOffset i sz + (sz + 24) \<le> length f"
  shows "frame_at (overwrite f (walFrameOffset i sz + k) b) sz i = overwrite (frame_at f sz i) k b"
  unfolding frame_at_def using assms by (intro inside_overwrite) simp_all

lemma frame_at_written: "length b = sz + 24 \<Longrightarrow> frame_at (overwrite f (walFrameOffset i sz) b) sz i = b"
  using drop_overwrite [of b "walFrameOffset i sz" f] by (simp add: frame_at_def)

lemma scan_cong:
  "(\<And>j. i \<le> j \<Longrightarrow> j < i + k \<Longrightarrow> frame_at g sz j = frame_at f sz j) \<Longrightarrow>
    scan k n sz salt ck g i = scan k n sz salt ck f i"
proof (induction k arbitrary: ck i)
  case (Suc k)
  have "frame_at g sz i = frame_at f sz i" by (rule Suc.prems) simp_all
  moreover have "scan k n sz salt c g (i + 1) = scan k n sz salt c f (i + 1)" for c
    by (rule Suc.IH) (rule Suc.prems, simp_all)
  ultimately show ?case by (simp add: Let_def)
qed simp

section \<open>The log as its writer knows it\<close>

text \<open>The abstract log is the list of the pages written: page number, commit field and data.\<close>

type_synonym log_page = "u32 \<times> u32 \<times> bytes"

definition raw_at :: "bytes \<Rightarrow> nat \<Rightarrow> nat \<Rightarrow> log_page" where
  "raw_at f sz i = (let fr = frame_at f sz i in (sqlite3Get4byte fr, sqlite3Get4byte (drop 4 fr), drop 24 fr))"

definition log_raw :: "bytes \<Rightarrow> nat \<Rightarrow> nat \<Rightarrow> log_page list" where
  "log_raw f sz n = map (raw_at f sz) [1..<Suc n]"

definition log_hd :: "Wal \<Rightarrow> bytes \<Rightarrow> bool" where
  "log_hd w f \<longleftrightarrow> (let b = take 32 f in
     log_header_ok b \<and> sqlite3Get4byte (drop 4 b) = WAL_MAX_VERSION \<and> log_sz b = szPage w \<and>
     log_native b = (bigEndCksum (hdr w) = SQLITE_BIGENDIAN) \<and> take 8 (drop 16 b) = aSalt (hdr w) \<and>
     length (aSalt (hdr w)) = 8)"

text \<open>The scan of the first \<open>k\<close> frames, and that they are valid.\<close>

definition fscan :: "Wal \<Rightarrow> bytes \<Rightarrow> nat \<Rightarrow> frame_info list" where
  "fscan w f k = scan k (bigEndCksum (hdr w) = SQLITE_BIGENDIAN) (szPage w) (aSalt (hdr w))
     (log_sum (take 32 f)) f 1"

definition chained :: "Wal \<Rightarrow> bytes \<Rightarrow> nat \<Rightarrow> bool" where
  "chained w f k \<longleftrightarrow> length (fscan w f k) = k"

definition chain_sum :: "Wal \<Rightarrow> bytes \<Rightarrow> nat \<Rightarrow> cksum" where
  "chain_sum w f k = scan_sum (log_sum (take 32 f)) (fscan w f k)"

text \<open>The invariant of a writer: the file holds the abstract log, and its frames are valid up to
  the first one overwritten, after which checksums are owed.\<close>

definition log_inv :: "Wal \<Rightarrow> bytes \<Rightarrow> log_page list \<Rightarrow> bool" where
  "log_inv w f ps \<longleftrightarrow> log_hd w f \<and> walFrameOffset (length ps + 1) (szPage w) \<le> length f \<and>
     log_raw f (szPage w) (length ps) = ps \<and> 0 \<notin> fst ` set ps \<and>
     (if iReCksum w = 0 then chained w f (length ps) \<and> aFrameCksum (hdr w) = chain_sum w f (length ps)
      else iReCksum w \<le> length ps \<and> chained w f (iReCksum w - 1))"

lemma log_raw_Suc: "log_raw f sz (Suc n) = log_raw f sz n @ [raw_at f sz (Suc n)]"
  by (simp add: log_raw_def)

lemma length_log_raw [simp]: "length (log_raw f sz n) = n"
  by (simp add: log_raw_def)

lemma log_raw_nth: "i < n \<Longrightarrow> log_raw f sz n ! i = raw_at f sz (Suc i)"
  by (simp add: log_raw_def del: upt_Suc)

lemma log_raw_cong:
  "(\<And>j. 0 < j \<Longrightarrow> j \<le> n \<Longrightarrow> frame_at g sz j = frame_at f sz j) \<Longrightarrow> log_raw g sz n = log_raw f sz n"
  by (rule nth_equalityI) (simp_all add: log_raw_nth raw_at_def)

lemma fscan_cong:
  assumes "take 32 g = take 32 f" "\<And>j. 0 < j \<Longrightarrow> j \<le> k \<Longrightarrow> frame_at g (szPage w) j = frame_at f (szPage w) j"
  shows "fscan w g k = fscan w f k" "chained w g k = chained w f k" "chain_sum w g k = chain_sum w f k"
proof -
  show s: "fscan w g k = fscan w f k"
    unfolding fscan_def assms(1) by (rule scan_cong) (rule assms(2), simp_all)
  show "chained w g k = chained w f k" "chain_sum w g k = chain_sum w f k"
    by (simp_all add: chained_def chain_sum_def s assms(1))
qed

lemma fscan_add:
  "chained w f j \<Longrightarrow> fscan w f (j + k) = fscan w f j @ scan k (bigEndCksum (hdr w) = SQLITE_BIGENDIAN)
     (szPage w) (aSalt (hdr w)) (chain_sum w f j) f (1 + j)"
  unfolding fscan_def chained_def chain_sum_def scan_add by (simp add: Let_def)

lemma chained_le: "chained w f n \<Longrightarrow> k \<le> n \<Longrightarrow> chained w f k"
proof (rule ccontr)
  assume c: "chained w f n" "k \<le> n" "\<not> chained w f k"
  have "fscan w f (k + (n - k)) = fscan w f k"
    using c(3) unfolding fscan_def chained_def scan_add by (simp add: Let_def)
  then have "length (fscan w f k) = n" using c(1,2) by (simp add: chained_def)
  moreover have "length (fscan w f k) \<le> k" by (simp add: fscan_def scan_length)
  ultimately show False using c(2,3) by (simp add: chained_def)
qed

text \<open>The next frame continues the chain.\<close>

lemma chained_Suc:
  fixes w :: Wal and f :: bytes and k :: nat
  defines "fr \<equiv> frame_at f (szPage w) (Suc k)" and "n \<equiv> bigEndCksum (hdr w) = SQLITE_BIGENDIAN"
  assumes "chained w f k" "frame_valid n (szPage w) (aSalt (hdr w)) (chain_sum w f k) fr"
  shows "chained w f (Suc k)" "chain_sum w f (Suc k) = frame_sum n (szPage w) (chain_sum w f k) fr"
    "fscan w f (Suc k) = fscan w f k @ [frame_info n (szPage w) (chain_sum w f k) fr]"
proof -
  show s: "fscan w f (Suc k) = fscan w f k @ [frame_info n (szPage w) (chain_sum w f k) fr]"
    using fscan_add [OF assms(3), of 1] assms(4) by (simp add: fr_def n_def Let_def)
  then show "chained w f (Suc k)" "chain_sum w f (Suc k) = frame_sum n (szPage w) (chain_sum w f k) fr"
    using assms(3) by (simp_all add: chained_def chain_sum_def scan_sum_def frame_info_def)
qed

lemma log_hd_same:
  assumes "take 32 g = take 32 f" "szPage w' = szPage w" "aSalt (hdr w') = aSalt (hdr w)"
    "bigEndCksum (hdr w') = bigEndCksum (hdr w)"
  shows "log_hd w' g = log_hd w f" "fscan w' g k = fscan w g k" "chained w' g k = chained w g k"
    "chain_sum w' g k = chain_sum w g k"
  using assms by (simp_all add: log_hd_def fscan_def chained_def chain_sum_def)

lemma raw_at_encoded:
  assumes "walEncodeFrame w pg nT d = (fr, w')" "length (aSalt (hdr w)) = 8" "frame_at f sz i = fr @ d"
  shows "raw_at f sz i = (pg, nT, d)" "length fr = 24"
  using assms by (auto simp: raw_at_def walEncodeFrame_def Let_def split: if_splits)

lemma walEncodeFrame_conn:
  "walEncodeFrame w pg nT d = (fr, w') \<Longrightarrow> w' = w\<lparr>hdr := (hdr w)\<lparr>aFrameCksum := aFrameCksum (hdr w')\<rparr>\<rparr>"
  by (auto simp: walEncodeFrame_def Let_def split: if_splits)

lemma log_hd_salt: "log_hd w f \<Longrightarrow> length (aSalt (hdr w)) = 8"
  by (simp add: log_hd_def Let_def)

lemma Get4byte_take: "4 \<le> n \<Longrightarrow> sqlite3Get4byte (take n p) = sqlite3Get4byte p"
  by (simp add: sqlite3Get4byte_def at_take)

lemma Get4byte_overwrite:
  assumes "k + 4 \<le> off" "off \<le> length f"
  shows "sqlite3Get4byte (drop k (overwrite f off b)) = sqlite3Get4byte (drop k f)"
  using outside_overwrite [of k 4 off b f] assms Get4byte_take [of 4] by (metis order_refl)

text \<open>Appending a frame keeps the invariant.\<close>

lemma log_inv_append:
  assumes I: "log_inv w f ps" and e: "walEncodeFrame w pg nT d = (fr, w')"
    and d: "length d = szPage w" and pg: "pg \<noteq> 0"
  defines "g \<equiv> overwrite f (walFrameOffset (length ps + 1) (szPage w)) (fr @ d)"
  shows "log_inv w' g (ps @ [(pg, nT, d)])"
proof -
  define n where "n = length ps"
  define sz where "sz = szPage w"
  have I': "log_hd w f" "walFrameOffset (Suc n) sz \<le> length f" "log_raw f sz n = ps" "0 \<notin> fst ` set ps"
    using I by (simp_all add: log_inv_def n_def sz_def)
  note salt = log_hd_salt [OF I'(1)]
  have lf: "length fr = 24" using e salt by (auto simp: walEncodeFrame_def Let_def split: if_splits)
  have g: "g = overwrite f (walFrameOffset (Suc n) sz + 0) (fr @ d)" by (simp add: g_def n_def sz_def)
  have new: "frame_at g sz (Suc n) = fr @ d" unfolding g using lf d by (simp add: frame_at_written sz_def)
  have old: "frame_at g sz j = frame_at f sz j" if "0 < j" "j \<le> n" for j
    unfolding g using that lf d I'(2) by (intro frame_at_other) (simp_all add: sz_def)
  have hd: "take 32 g = take 32 f"
    using walFrameOffset_hdr [of "Suc n" sz] I'(2) by (simp add: g take_overwrite)
  note same = log_hd_same [OF hd, of w' w] and wc = walEncodeFrame_conn [OF e]
  have w': "szPage w' = szPage w" "aSalt (hdr w') = aSalt (hdr w)" "bigEndCksum (hdr w') = bigEndCksum (hdr w)"
    "iReCksum w' = iReCksum w"
    by (subst wc, simp)+
  have raw: "log_raw g sz (Suc n) = ps @ [(pg, nT, d)]"
    using log_raw_cong [of n g sz f] old I'(3) raw_at_encoded(1) [OF e salt new] by (simp add: log_raw_Suc)
  have sp: "walFrameOffset (Suc (Suc n)) sz \<le> length g"
    using lf d by (simp add: g walFrameOffset_Suc sz_def)
  have "if iReCksum w' = 0 then chained w' g (Suc n) \<and> aFrameCksum (hdr w') = chain_sum w' g (Suc n)
      else iReCksum w' \<le> Suc n \<and> chained w' g (iReCksum w' - 1)"
  proof (cases "iReCksum w = 0")
    case True
    have c: "chained w g n" "aFrameCksum (hdr w) = chain_sum w g n"
      using I True fscan_cong [OF hd, of n w] old by (simp_all add: log_inv_def n_def sz_def)
    note E = walEncodeFrame_frame [OF e True d salt pg, unfolded c(2)]
    have "aFrameCksum (hdr w') = chain_sum w g (Suc n) \<and> chained w g (Suc n)"
      using chained_Suc [OF c(1)] E(2) new by (subst E(4)) (simp add: sz_def)
    then show ?thesis using True w' same by simp
  next
    case False
    then have "iReCksum w \<le> n" "chained w f (iReCksum w - 1)" using I by (simp_all add: log_inv_def n_def)
    then show ?thesis
      using False w' same fscan_cong(2) [OF hd, of "iReCksum w - 1" w] old by (simp add: sz_def)
  qed
  then show ?thesis
    using I'(1,4) pg same(1) w' sp raw by (simp add: log_inv_def n_def sz_def split: if_splits)
qed

text \<open>Overwriting the data of a frame makes its checksum and the later ones owed.\<close>

lemma log_inv_patch:
  assumes I: "log_inv w f ps" and i: "0 < i" "i \<le> length ps" and d: "length d = szPage w"
  defines "g \<equiv> overwrite f (walFrameOffset i (szPage w) + 24) d"
    and "w' \<equiv> (if iReCksum w = 0 \<or> i < iReCksum w then w\<lparr>iReCksum := i\<rparr> else w)"
  shows "log_inv w' g (ps[i - 1 := (fst (ps ! (i - 1)), fst (snd (ps ! (i - 1))), d)])"
proof -
  define n where "n = length ps"
  define sz where "sz = szPage w"
  have I': "log_hd w f" "walFrameOffset (Suc n) sz \<le> length f" "log_raw f sz n = ps" "0 \<notin> fst ` set ps"
    using I by (simp_all add: log_inv_def n_def sz_def)
  have fits: "walFrameOffset i sz + (sz + 24) \<le> length f"
    using walFrameOffset_mono [of "Suc i" "Suc n" sz] i I'(2) by (simp add: walFrameOffset_Suc n_def)
  have g: "g = overwrite f (walFrameOffset i sz + 24) d" by (simp add: g_def sz_def)
  have new: "frame_at g sz i = overwrite (frame_at f sz i) 24 d"
    unfolding g using d fits by (intro frame_at_patch) (simp_all add: sz_def)
  have old: "frame_at g sz j = frame_at f sz j" if "0 < j" "j \<noteq> i" for j
    unfolding g using that i d fits by (intro frame_at_other) (simp_all add: sz_def)
  have hd: "take 32 g = take 32 f"
    using walFrameOffset_hdr [of i sz] fits by (simp add: g take_overwrite)
  have lf: "length (frame_at f sz i) = sz + 24" using fits by (simp add: frame_at_def)
  have raw: "log_raw g sz n = ps[i - 1 := (fst (ps ! (i - 1)), fst (snd (ps ! (i - 1))), d)]"
  proof (rule nth_equalityI)
    fix j assume "j < length (log_raw g sz n)"
    then have j: "j < n" by simp
    have p: "ps ! j = raw_at f sz (Suc j)" using j log_raw_nth [of j n f sz] I'(3) by simp
    show "log_raw g sz n ! j = ps[i - 1 := (fst (ps ! (i - 1)), fst (snd (ps ! (i - 1))), d)] ! j"
    proof (cases "Suc j = i")
      case True
      have "raw_at g sz i = (fst (raw_at f sz i), fst (snd (raw_at f sz i)), d)"
        unfolding raw_at_def new Let_def using lf d
        by (simp add: Get4byte_overwrite Get4byte_overwrite [where k = 0, simplified])
           (simp add: overwrite_def sz_def)
      then show ?thesis using True j p by (auto simp: log_raw_nth n_def)
    next
      case False
      then have "i - 1 \<noteq> j" using i by auto
      then show ?thesis using False j p old [of "Suc j"] by (simp add: log_raw_nth raw_at_def)
    qed
  qed (simp add: n_def)
  have r: "0 < iReCksum w'" "iReCksum w' \<le> i" "iReCksum w' = i \<or> iReCksum w' = iReCksum w"
    using i by (auto simp: w'_def)
  have "chained w f (iReCksum w' - 1)"
    using I r i chained_le [of w f n "i - 1"] chained_le [of w f "iReCksum w - 1" "iReCksum w' - 1"]
    by (auto simp: log_inv_def n_def w'_def split: if_splits)
  then have "chained w g (iReCksum w' - 1)"
    using fscan_cong(2) [OF hd, of "iReCksum w' - 1" w] old r by (simp add: sz_def)
  moreover have "szPage w' = szPage w" "hdr w' = hdr w" by (simp_all add: w'_def)
  moreover have "0 \<notin> fst ` set (ps[i - 1 := (fst (ps ! (i - 1)), fst (snd (ps ! (i - 1))), d)])"
    using I'(4) i set_update_subset_insert [of ps "i - 1"] nth_mem [of "i - 1" ps] by fastforce
  ultimately show ?thesis
    using I'(1,2) raw r i log_hd_same [OF hd, of w' w] by (simp add: log_inv_def n_def sz_def g)
qed

section \<open>Rewriting checksums\<close>

text \<open>The invariant of the loop: the frames up to \<open>k\<close> are valid again.\<close>

definition rewriting :: "Wal \<Rightarrow> bytes \<Rightarrow> log_page list \<Rightarrow> nat \<Rightarrow> bool" where
  "rewriting w f ps k \<longleftrightarrow> log_hd w f \<and> walFrameOffset (length ps + 1) (szPage w) \<le> length f \<and>
     log_raw f (szPage w) (length ps) = ps \<and> 0 \<notin> fst ` set ps \<and> iReCksum w = 0 \<and>
     chained w f k \<and> aFrameCksum (hdr w) = chain_sum w f k"

lemma rewriting_all: "rewriting w f ps (length ps) \<Longrightarrow> log_inv w f ps"
  by (simp add: rewriting_def log_inv_def)

lemma rewriting_step:
  assumes R: "rewriting w f ps k" and k: "k < length ps"
  defines "o1 \<equiv> frame_at f (szPage w) (Suc k)"
  assumes e: "walEncodeFrame w (sqlite3Get4byte o1) (sqlite3Get4byte (drop 4 o1)) (drop 24 o1) = (fr, w')"
  defines "g \<equiv> overwrite f (walFrameOffset (Suc k) (szPage w)) fr"
  shows "rewriting w' g ps (Suc k)" "szPage w' = szPage w"
proof -
  define n where "n = length ps"
  define sz where "sz = szPage w"
  have R': "log_hd w f" "walFrameOffset (Suc n) sz \<le> length f" "log_raw f sz n = ps" "0 \<notin> fst ` set ps"
      "iReCksum w = 0" "chained w f k" "aFrameCksum (hdr w) = chain_sum w f k"
    using R by (simp_all add: rewriting_def n_def sz_def)
  note salt = log_hd_salt [OF R'(1)]
  have fits: "walFrameOffset (Suc k) sz + (sz + 24) \<le> length f"
    using walFrameOffset_mono [of "Suc (Suc k)" "Suc n" sz] k R'(2) by (simp add: walFrameOffset_Suc n_def)
  have o1: "length o1 = sz + 24" using fits by (simp add: o1_def frame_at_def sz_def)
  have p: "ps ! k = raw_at f sz (Suc k)" using k log_raw_nth [of k n f sz] R'(3) by (simp add: n_def)
  have pg: "sqlite3Get4byte o1 \<noteq> 0"
    using R'(4) nth_mem [OF k] p by (force simp: raw_at_def Let_def o1_def sz_def)
  have d: "length (drop 24 o1) = szPage w" using o1 by (simp add: sz_def)
  note E = walEncodeFrame_frame [OF e R'(5) d salt pg, unfolded R'(7)]
  have g: "g = overwrite f (walFrameOffset (Suc k) sz + 0) fr" by (simp add: g_def sz_def)
  have "frame_at g sz (Suc k) = overwrite (frame_at f sz (Suc k)) 0 fr"
    unfolding g using E(1) fits by (intro frame_at_patch) simp_all
  then have new: "frame_at g sz (Suc k) = fr @ drop 24 o1"
    using E(1) by (simp add: overwrite_def o1_def sz_def)
  have old: "frame_at g sz j = frame_at f sz j" if "0 < j" "j \<noteq> Suc k" for j
    unfolding g using that E(1) fits by (intro frame_at_other) simp_all
  have hd: "take 32 g = take 32 f"
    using walFrameOffset_hdr [of "Suc k" sz] fits by (simp add: g take_overwrite)
  have "raw_at g sz (Suc k) = raw_at f sz (Suc k)"
    using raw_at_encoded(1) [OF e salt new] by (simp add: raw_at_def Let_def o1_def sz_def)
  then have "raw_at g sz j = raw_at f sz j" if "0 < j" for j
    using old [OF that] by (cases "j = Suc k") (simp_all add: raw_at_def)
  then have raw: "log_raw g sz n = ps" unfolding R'(3) [symmetric] by (auto simp: log_raw_def simp del: upt_Suc)
  have c: "chained w g k" "chain_sum w g k = chain_sum w f k"
    using R'(6) fscan_cong [OF hd, of k w] old by (simp_all add: sz_def)
  have c': "chained w g (Suc k)" "aFrameCksum (hdr w') = chain_sum w g (Suc k)"
    using chained_Suc [OF c(1)] E(2,4) new by (simp_all add: sz_def c(2))
  have w': "szPage w' = szPage w" "aSalt (hdr w') = aSalt (hdr w)" "bigEndCksum (hdr w') = bigEndCksum (hdr w)"
    "iReCksum w' = 0"
    using E(4) R'(5) by simp_all
  have "walFrameOffset (Suc n) sz \<le> length g" using R'(2) by (simp add: g)
  then show "rewriting w' g ps (Suc k)"
    using c' raw R'(1,4) w'(4) log_hd_same [OF hd w'(1-3)] log_hd_same(2-4) [OF refl w'(1-3), of g]
    by (simp add: rewriting_def n_def sz_def w'(1))
  show "szPage w' = szPage w" by (rule w')
qed

definition only_log :: "'x world \<Rightarrow> 'x world \<Rightarrow> bool" where
  "only_log s t \<longleftrightarrow> same_store (s\<lparr>walFile := walFile t\<rparr>) t"

lemma only_log_refl [simp]: "only_log s s"
  by (simp add: only_log_def same_store_def)

lemma only_log_trans: "only_log a b \<Longrightarrow> only_log b c \<Longrightarrow> only_log a c"
  by (simp add: only_log_def same_store_def)

lemma only_log_store: "same_store s t \<Longrightarrow> only_log s t"
  by (simp add: only_log_def same_store_def)

lemma only_log_eqs:
  "only_log s t \<Longrightarrow> dbFile t = dbFile s" "only_log s t \<Longrightarrow> shm t = shm s" "only_log s t \<Longrightarrow> heap t = heap s"
  "only_log s t \<Longrightarrow> mem w t = mem w s" "only_log s t \<Longrightarrow> pages w t = pages w s"
  by (simp_all add: only_log_def same_store_def mem_def pages_def)

lemma xWrite_log:
  assumes "vfs_files V" "xWrite V WalFd b off s = (SQLITE_OK, t)"
  shows "walFile t = overwrite (walFile s) off b" "only_log s t"
  using vfs_files_D(3) [OF assms] by (simp_all add: same_store_def only_log_def)

text \<open>The connection keeps everything but the checksum and the debt.\<close>

definition same_writer :: "Wal \<Rightarrow> Wal \<Rightarrow> bool" where
  "same_writer w w' \<longleftrightarrow> w' = w\<lparr>hdr := (hdr w)\<lparr>aFrameCksum := aFrameCksum (hdr w')\<rparr>,
     iReCksum := iReCksum w', apWiData := apWiData w', readOnly := readOnly w'\<rparr>"

lemma same_writer_refl [simp]: "same_writer w w"
  by (simp add: same_writer_def)

lemma hdr_cksum_trans:
  "b = a\<lparr>aFrameCksum := aFrameCksum b\<rparr> \<Longrightarrow> c = b\<lparr>aFrameCksum := aFrameCksum c\<rparr> \<Longrightarrow>
    c = a\<lparr>aFrameCksum := aFrameCksum c\<rparr>" for a b c :: WalIndexHdr
  by (cases a; cases b; cases c) simp

lemma same_writer_trans: "same_writer a b \<Longrightarrow> same_writer b c \<Longrightarrow> same_writer a c"
  by (cases a; cases b; cases c) (auto simp: same_writer_def intro: hdr_cksum_trans)

lemma same_writer_update [simp]:
  "same_writer w (w\<lparr>iReCksum := i\<rparr>)" "same_writer w (w\<lparr>hdr := (hdr w)\<lparr>aFrameCksum := c\<rparr>\<rparr>)"
  "same_writer w (w\<lparr>hdr := (hdr w)\<lparr>aFrameCksum := c\<rparr>, iReCksum := i\<rparr>)"
  by (simp_all add: same_writer_def)

lemma same_writer_conn: "same_conn w w' \<Longrightarrow> same_writer w w'"
  by (cases w; cases w') (simp add: same_conn_def same_writer_def)

lemma same_writer_encode: "walEncodeFrame w pg nT d = (fr, w') \<Longrightarrow> same_writer w w'"
  using walEncodeFrame_conn [of w pg nT d fr w'] by (metis same_writer_update(2))

lemma rewrite_frames_OK:
  assumes "vfs_quiet V" "vfs_files V"
  shows "rewrite_frames m V (szPage w) (Suc k) SQLITE_OK w s = (SQLITE_OK, w', t) \<Longrightarrow>
    rewriting w (walFile s) ps k \<Longrightarrow> k + m = length ps \<Longrightarrow>
    rewriting w' (walFile t) ps (length ps) \<and> only_log s t \<and> same_writer w w'"
proof (induction m arbitrary: k w s)
  case (Suc m)
  let ?off = "walFrameOffset (Suc k) (szPage w)"
  obtain rc1 b s1 where r: "xRead V WalFd (szPage w + 24) ?off s = (rc1, b, s1)"
    by (cases "xRead V WalFd (szPage w + 24) ?off s")
  have stop: "rc \<noteq> SQLITE_OK \<Longrightarrow> rewrite_frames m V z i rc w1 s0 = (rc, w1, s0)" for rc z i w1 and s0 :: "'a world"
    by (cases m) simp_all
  have ok1: "rc1 = SQLITE_OK" using Suc.prems(1) r stop by (auto simp: Let_def split: if_splits)
  have b: "b = frame_at (walFile s) (szPage w) (Suc k)"
    using vfs_files_D(1) [OF assms(2), of WalFd] r ok1 by (auto simp: frame_at_def)
  obtain fr w1 where e: "walEncodeFrame w (sqlite3Get4byte b) (sqlite3Get4byte (drop 4 b)) (drop 24 b) = (fr, w1)"
    by (cases "walEncodeFrame w (sqlite3Get4byte b) (sqlite3Get4byte (drop 4 b)) (drop 24 b)")
  obtain rc2 s2 where wr: "xWrite V WalFd fr ?off s1 = (rc2, s2)" by (cases "xWrite V WalFd fr ?off s1")
  have run: "rewrite_frames m V (szPage w) (Suc k + 1) rc2 w1 s2 = (SQLITE_OK, w', t)"
    using Suc.prems(1) r ok1 e wr by (simp add: Let_def)
  then have ok2: "rc2 = SQLITE_OK" using stop by fastforce
  note q = quiet_same_store(3) [OF assms(1) r]
  note wl = xWrite_log [OF assms(2) wr [unfolded ok2]]
  have "k < length ps" using Suc.prems(3) by simp
  note st = rewriting_step [OF Suc.prems(2) this, folded b, OF e]
  have "rewriting w1 (walFile s2) ps (Suc k)" using st(1) wl(1) q by (simp add: same_store_eqs)
  then have "rewriting w' (walFile t) ps (length ps) \<and> only_log s2 t \<and> same_writer w1 w'"
    using Suc.IH [of w1 "Suc k" s2] run ok2 Suc.prems(3) st(2) by simp
  then show ?case
    using only_log_trans [OF only_log_store [OF q] wl(2)] same_writer_encode [OF e]
      only_log_trans same_writer_trans by blast
qed simp

lemma stored_sum:
  assumes I: "log_inv w f ps" and r: "0 < iReCksum w"
  defines "off \<equiv> (if iReCksum w = 1 then 24 else walFrameOffset (iReCksum w - 1) (szPage w) + 16)"
  defines "b \<equiv> take 8 (drop off f)"
  shows "(sqlite3Get4byte b, sqlite3Get4byte (drop 4 b)) = chain_sum w f (iReCksum w - 1)"
proof (cases "iReCksum w = 1")
  case True
  have "log_sum (take 32 f) = (sqlite3Get4byte (drop 24 (take 32 f)), sqlite3Get4byte (drop 28 (take 32 f)))"
    using I by (simp add: log_inv_def log_hd_def log_header_ok_def Let_def)
  then show ?thesis
    using True by (simp add: b_def off_def chain_sum_def fscan_def drop_take Get4byte_take)
next
  case False
  define k where "k = iReCksum w - 2"
  have k: "iReCksum w - 1 = Suc k" using r False by (simp add: k_def)
  let ?fr = "frame_at f (szPage w) (Suc k)" and ?n = "bigEndCksum (hdr w) = SQLITE_BIGENDIAN"
  have c: "chained w f (Suc k)" using I r k by (simp add: log_inv_def)
  then have c0: "chained w f k" using chained_le by simp
  have "length (fscan w f (k + 1)) = Suc k" using c by (simp add: chained_def)
  then have v: "frame_valid ?n (szPage w) (aSalt (hdr w)) (chain_sum w f k) ?fr"
    using c0 unfolding fscan_add [OF c0] by (auto simp: chained_def Let_def split: if_splits)
  have "chain_sum w f (Suc k) = (sqlite3Get4byte (drop 16 ?fr), sqlite3Get4byte (drop 20 ?fr))"
    using chained_Suc(2) [OF c0 v] v by (simp add: frame_valid_def)
  then show ?thesis
    using False k by (simp add: b_def off_def frame_at_def drop_take Get4byte_take add.commute)
qed

lemma walRewriteChecksums_OK:
  assumes Q: "vfs_quiet V" and F: "vfs_files V"
    and r: "walRewriteChecksums V w (length ps) s = (SQLITE_OK, w', t)"
    and I: "log_inv w (walFile s) ps" and k: "0 < iReCksum w"
  shows "log_inv w' (walFile t) ps" "iReCksum w' = 0" "only_log s t" "same_writer w w'"
proof -
  let ?off = "if iReCksum w = 1 then 24 else walFrameOffset (iReCksum w - 1) (szPage w) + 16"
  obtain rc1 b s1 where rd: "xRead V WalFd 8 ?off s = (rc1, b, s1)" by (cases "xRead V WalFd 8 ?off s")
  define w1 where "w1 = w\<lparr>hdr := (hdr w)\<lparr>aFrameCksum := (sqlite3Get4byte b, sqlite3Get4byte (drop 4 b))\<rparr>,
                iReCksum := 0\<rparr>"
  define m where "m = length ps + 1 - iReCksum w"
  have run: "rewrite_frames m V (szPage w) (iReCksum w) rc1 w1 s1 = (SQLITE_OK, w', t)"
    using r rd by (simp add: walRewriteChecksums_def Let_def w1_def m_def split: if_splits)
  have "rc \<noteq> SQLITE_OK \<Longrightarrow> rewrite_frames m V z i rc w1 s0 = (rc, w1, s0)" for rc z i w1 and s0 :: "'a world"
    by (cases m) simp_all
  then have ok: "rc1 = SQLITE_OK" using run by fastforce
  have b: "b = take 8 (drop ?off (walFile s))"
    using vfs_files_D(1) [OF F rd [unfolded ok]] by simp
  note q = quiet_same_store(3) [OF Q rd]
  have le: "iReCksum w \<le> length ps" "chained w (walFile s) (iReCksum w - 1)"
    using I k by (simp_all add: log_inv_def)
  have f: "szPage w1 = szPage w" "aSalt (hdr w1) = aSalt (hdr w)" "bigEndCksum (hdr w1) = bigEndCksum (hdr w)"
    by (simp_all add: w1_def)
  have "rewriting w1 (walFile s1) ps (iReCksum w - 1)"
    using I le stored_sum [OF I k, folded b] log_hd_same [OF refl f, of "walFile s"]
    unfolding rewriting_def log_inv_def same_store_eqs(3) [OF q] f(1)
    by (simp add: w1_def)
  then have "rewriting w' (walFile t) ps (length ps) \<and> only_log s1 t \<and> same_writer w1 w'"
    using rewrite_frames_OK [OF Q F, of m w1 "iReCksum w - 1" s1 w' t ps] run ok k le f by (simp add: m_def)
  moreover have "same_writer w w1" by (simp add: w1_def)
  ultimately show "log_inv w' (walFile t) ps" "iReCksum w' = 0" "only_log s t" "same_writer w w'"
    using rewriting_all only_log_trans [OF only_log_store [OF q]] same_writer_trans
    by (auto simp: rewriting_def)
qed

end
