(* ===== verification/WalCommit.thy ===== *)
theory WalCommit
  imports WalWrite
begin

unbundle bit_operations_syntax

text \<open>
  Correctness of \<^verbatim>\<open>walFrames\<close>: one call updates an abstract log of pages, and
  what a commit wrote is what recovery finds.
\<close>

section \<open>What a log holds\<close>

text \<open>The newest data of every page.\<close>

definition log_view :: "log_page list \<Rightarrow> u32 \<rightharpoonup> bytes" where
  "log_view ps = map_of (rev (map (\<lambda>(pg, n, d). (pg, d)) ps))"

lemma log_view_append: "log_view (ps @ qs) = log_view ps ++ log_view qs"
  by (simp add: log_view_def)

lemma log_view_Nil [simp]: "log_view [] = Map.empty"
  by (simp add: log_view_def)

lemma log_view_Cons: "log_view ((pg, n, d) # qs) = [pg \<mapsto> d] ++ log_view qs"
  by (simp add: log_view_def map_add_def fun_eq_iff split: option.splits)

lemma log_view_snoc: "log_view (ps @ [(pg, n, d)]) = (log_view ps)(pg \<mapsto> d)"
  by (simp add: log_view_append log_view_Cons)

lemma log_view_None: "log_view ps pg = None \<longleftrightarrow> pg \<notin> fst ` set ps"
  by (force simp: log_view_def map_of_eq_None_iff)

lemma log_view_patch:
  assumes "i < length ps" "pg = fst (ps ! i)" "pg \<notin> fst ` set (drop (Suc i) ps)"
  shows "log_view (ps[i := (pg, n, d)]) = (log_view ps)(pg \<mapsto> d)"
proof -
  obtain n0 d0 where x: "ps ! i = (pg, n0, d0)" using assms(2) by (cases "ps ! i") auto
  have ps: "ps = take i ps @ (pg, n0, d0) # drop (Suc i) ps" using id_take_nth_drop [OF assms(1)] x by simp
  have "log_view (drop (Suc i) ps) pg = None" using assms(3) by (simp add: log_view_None)
  then have "(m ++ ([pg \<mapsto> d] ++ log_view (drop (Suc i) ps))) =
      (m ++ ([pg \<mapsto> d0] ++ log_view (drop (Suc i) ps)))(pg \<mapsto> d)" for m
    by (auto simp: fun_eq_iff map_add_def split: option.splits)
  then show ?thesis
    unfolding upd_conv_take_nth_drop [OF assms(1)] log_view_append log_view_Cons
    using arg_cong [OF ps, of log_view] unfolding log_view_append log_view_Cons by metis
qed

lemma log_view_patch_after:
  assumes "m \<le> i" "i < length ps" "pg = fst (ps ! i)" "pg \<notin> fst ` set (drop (Suc i) ps)"
  shows "log_view (drop m (ps[i := (pg, n, d)])) = (log_view (drop m ps))(pg \<mapsto> d)"
  using log_view_patch [of "i - m" "drop m ps" pg n d] assms by (simp add: drop_update_swap Suc_diff_le)

lemma log_view_repeat: "log_view (ps @ [x] @ replicate k x) = log_view (ps @ [x])"
proof (induction k)
  case (Suc k)
  obtain pg n d where x: "x = (pg, n, d)" by (cases x)
  have "log_view (ps @ [x] @ replicate (Suc k) x) = log_view (ps @ [x] @ replicate k x) ++ log_view [x]"
    by (simp add: log_view_append [symmetric] replicate_append_same)
  then show ?case using Suc by (simp add: log_view_append x log_view_Cons)
qed simp

section \<open>Writing one frame\<close>

lemma walWriteToLog_OK:
  assumes "vfs_quiet V" "vfs_files V" "walWriteToLog V ww c off s = (SQLITE_OK, t)"
  shows "walFile t = overwrite (walFile s) off c" "only_log s t"
proof -
  have "walFile t = overwrite (walFile s) off c \<and> only_log s t"
  proof (cases "off < iSyncPoint ww \<and> off + length c \<ge> iSyncPoint ww")
    case False
    then have "xWrite V WalFd c off s = (SQLITE_OK, t)" using assms(3) by (simp only: walWriteToLog_def if_False)
    then show ?thesis using xWrite_log [OF assms(2)] by blast
  next
    case True
    define m where "m = iSyncPoint ww - off"
    have m: "length (take m c) = m" using True by (auto simp: m_def)
    obtain rc1 s1 where w1: "xWrite V WalFd (take m c) off s = (rc1, s1)"
      by (cases "xWrite V WalFd (take m c) off s")
    obtain rc2 s2 where y: "sqlite3OsSync V WalFd (WAL_SYNC_FLAGS (syncFlags ww)) s1 = (rc2, s2)"
      by (cases "sqlite3OsSync V WalFd (WAL_SYNC_FLAGS (syncFlags ww)) s1")
    have run: "(if rc1 \<noteq> SQLITE_OK then (rc1, s1)
       else if length c - m = 0 \<or> rc2 \<noteq> SQLITE_OK then (rc2, s2)
       else xWrite V WalFd (drop m c) (off + m) s2) = (SQLITE_OK, t)"
      using assms(3) True w1 y unfolding walWriteToLog_def Let_def m_def [symmetric] by (simp cong: if_cong)
    then have ok: "rc1 = SQLITE_OK" by (auto split: if_splits)
    note l1 = xWrite_log [OF assms(2) w1 [unfolded ok]]
    have st: "same_store s1 s2"
      using y quiet_same_store(4) [OF assms(1)] by (auto simp: sqlite3OsSync_def split: if_splits)
    note l2 = only_log_trans [OF l1(2) only_log_store [OF st]]
    show ?thesis
    proof (cases "length c - m = 0 \<or> rc2 \<noteq> SQLITE_OK")
      case True
      then have "t = s2" "take m c = c" using run ok by (auto split: if_splits)
      then show ?thesis using l1 l2 st by (simp add: same_store_eqs)
    next
      case False
      then have "xWrite V WalFd (drop m c) (off + m) s2 = (SQLITE_OK, t)" using run ok by simp
      note l3 = xWrite_log [OF assms(2) this]
      show ?thesis
        using l3 l1 only_log_trans [OF l2 l3(2)] overwrite_append [of "walFile s" off "take m c" "drop m c"] m st
        by (simp add: same_store_eqs)
    qed
  qed
  then show "walFile t = overwrite (walFile s) off c" "only_log s t" by simp_all
qed

text \<open>A page as the log takes it.\<close>

definition page_ok :: "nat \<Rightarrow> PgHdr \<Rightarrow> bool" where
  "page_ok sz p \<longleftrightarrow> length (pData p) = sz \<and> pgno p \<noteq> 0"

lemma walWriteOneFrame_OK:
  assumes Q: "vfs_quiet V" and F: "vfs_files V"
    and r: "walWriteOneFrame V ww w p nT off s = (SQLITE_OK, w', t)"
    and I: "log_inv w (walFile s) ps" and off: "off = walFrameOffset (length ps + 1) (szPage w)"
    and p: "ww_szPage ww = szPage w" "page_ok (szPage w) p"
  shows "log_inv w' (walFile t) (ps @ [(pgno p, nT, pData p)])" "only_log s t" "same_writer w w'"
    "iReCksum w' = iReCksum w"
proof -
  obtain fr w1 where e: "walEncodeFrame w (pgno p) nT (pData p) = (fr, w1)"
    by (cases "walEncodeFrame w (pgno p) nT (pData p)")
  obtain rc1 s1 where l: "walWriteToLog V ww fr off s = (rc1, s1)" by (cases "walWriteToLog V ww fr off s")
  have ok: "rc1 = SQLITE_OK" and w': "w' = w1"
    and l2: "walWriteToLog V ww (pData p) (off + 24) s1 = (SQLITE_OK, t)"
    using r e l p by (auto simp: walWriteOneFrame_def libsql_pager_codec_def page_ok_def split: if_splits prod.splits)
  note a = walWriteToLog_OK [OF Q F l [unfolded ok]] and b = walWriteToLog_OK [OF Q F l2]
  have d: "length (pData p) = szPage w" "pgno p \<noteq> 0" using p by (simp_all add: page_ok_def)
  have "length (aSalt (hdr w)) = 8" using I log_hd_salt [of w "walFile s"] by (simp add: log_inv_def)
  then have lf: "length fr = 24" using e by (auto simp: walEncodeFrame_def Let_def split: if_splits)
  have "walFile t = overwrite (walFile s) off (fr @ pData p)"
    using a(1) b(1) overwrite_append [of "walFile s" off fr "pData p"] lf by simp
  then show "log_inv w' (walFile t) (ps @ [(pgno p, nT, pData p)])"
    using log_inv_append [OF I e d] w' off by simp
  show "only_log s t" using a(2) b(2) only_log_trans by blast
  show "same_writer w w'" using same_writer_encode [OF e] w' by simp
  show "iReCksum w' = iReCksum w" unfolding w' by (subst walEncodeFrame_conn [OF e]) simp
qed

lemma same_writer_fields:
  assumes "same_writer w w'"
  shows "szPage w' = szPage w" "mxFrame (hdr w') = mxFrame (hdr w)" "uses_heap w' = uses_heap w"
    "readLock w' = readLock w" "minFrame w' = minFrame w" "bShmUnreliable w' = bShmUnreliable w"
    "padToSectorBoundary w' = padToSectorBoundary w" "truncateOnCommit w' = truncateOnCommit w"
    "mxWalSize w' = mxWalSize w" "pages w' s = pages w s" "mem w' s = mem w s"
    "hdr w' = (hdr w)\<lparr>aFrameCksum := aFrameCksum (hdr w')\<rparr>" "writeLock w' = writeLock w"
  by (subst assms [unfolded same_writer_def], simp add: uses_heap_def pages_def mem_def)+

lemma find_tables_error:
  "find_tables k E W w pg iLast m = (rc, q, w') \<Longrightarrow> rc \<noteq> SQLITE_OK \<Longrightarrow> q = 0"
  by (induction k arbitrary: w) (auto simp: Let_def split: prod.splits if_splits option.splits)

text \<open>What the writer's search finds is the newest frame of the page in the log.\<close>

lemma FindFrame_newest:
  assumes "wi_repr W lg" "mxFrame (hdr w) \<le> length lg" "sqlite3WalFindFrame E W w pg = (rc, q, w')"
  shows "same_conn w w'" "q \<noteq> 0 \<Longrightarrow> q \<le> mxFrame (hdr w) \<and> lg ! (q - 1) = pg \<and>
    (\<forall>j. q \<le> j \<and> j < mxFrame (hdr w) \<longrightarrow> lg ! j \<noteq> pg)"
proof -
  let ?n = "mxFrame (hdr w)"
  have r: "walFindFrame E W w pg ?n = (rc, q, w')" using assms(3) by (simp add: sqlite3WalFindFrame_def)
  note f = walFindFrame_found [OF assms(1,2) r]
  show "same_conn w w'" using f by simp
  assume q: "q \<noteq> 0"
  have "rc = SQLITE_OK"
  proof (cases "?n = 0 \<or> (readLock w = 0 \<and> \<not> bShmUnreliable w)")
    case True
    then show ?thesis using r q by (auto simp: walFindFrame_def)
  next
    case False
    then have "find_tables (walFramePage ?n + 1 - walFramePage (minFrame w)) E W w pg ?n
        (walFramePage (minFrame w)) = (rc, q, w')"
      using r by (simp only: walFindFrame_def Let_def if_False)
    then show ?thesis using q find_tables_error by blast
  qed
  then have fl: "q = find_linear lg pg (minFrame w) ?n" using f q by (auto simp: found_def split: if_splits)
  have A: "q \<in> answers lg pg (minFrame w) ?n" "\<forall>s\<in>answers lg pg (minFrame w) ?n. s \<le> q"
    using find_linear_newest [of lg pg "minFrame w" ?n] q by (auto simp: newest_def fl [symmetric])
  have "lg ! j \<noteq> pg" if j: "q \<le> j" "j < ?n" for j
  proof
    assume "lg ! j = pg"
    then have "Suc j \<in> answers lg pg (minFrame w) ?n" using A(1) j by (simp add: answers_def)
    then show False using A(2) j by fastforce
  qed
  then show "q \<le> ?n \<and> lg ! (q - 1) = pg \<and> (\<forall>j. q \<le> j \<and> j < ?n \<longrightarrow> lg ! j \<noteq> pg)"
    using A(1) by (simp add: answers_def)
qed

section \<open>The loop over the dirty pages\<close>

text \<open>What the loop needs to know of the pages still to be written: the index covers the frames
  up to \<open>mxFrame\<close>, and none of the pages has a frame after them yet.\<close>

definition to_write :: "Wal \<Rightarrow> 'x world \<Rightarrow> log_page list \<Rightarrow> PgHdr list \<Rightarrow> bool" where
  "to_write w s ps qs \<longleftrightarrow> mxFrame (hdr w) \<le> length ps \<and>
     (\<exists>lg. wi_repr (pages w s) lg \<and> mxFrame (hdr w) \<le> length lg \<and>
        take (mxFrame (hdr w)) lg = map fst (take (mxFrame (hdr w)) ps)) \<and>
     distinct (map pgno qs) \<and>
     (\<forall>q\<in>set qs. page_ok (szPage w) q \<and> pgno q \<notin> fst ` set (drop (mxFrame (hdr w)) ps))"

definition page_map :: "PgHdr list \<Rightarrow> u32 \<rightharpoonup> bytes" where
  "page_map qs = map_of (map (\<lambda>p. (pgno p, pData p)) qs)"

lemma page_map_Nil [simp]: "page_map [] = Map.empty"
  by (simp add: page_map_def)

lemma page_map_Cons: "pgno p \<notin> pgno ` set qs \<Longrightarrow> m ++ page_map (p # qs) = m(pgno p \<mapsto> pData p) ++ page_map qs"
proof -
  assume "pgno p \<notin> pgno ` set qs"
  then have "page_map qs (pgno p) = None" by (simp add: page_map_def map_of_eq_None_iff image_image)
  moreover have "page_map (p # qs) = (page_map qs)(pgno p \<mapsto> pData p)" by (simp add: page_map_def)
  ultimately show ?thesis by (auto simp: map_add_def fun_eq_iff split: option.splits)
qed

lemma in_set_drop: "x \<in> set (drop q ps) \<longleftrightarrow> (\<exists>j. q \<le> j \<and> j < length ps \<and> ps ! j = x)"
proof
  assume "x \<in> set (drop q ps)"
  then obtain i where "i < length ps - q" "ps ! (q + i) = x" by (auto simp: in_set_conv_nth)
  then show "\<exists>j. q \<le> j \<and> j < length ps \<and> ps ! j = x" by (intro exI [of _ "q + i"]) simp
next
  assume "\<exists>j. q \<le> j \<and> j < length ps \<and> ps ! j = x"
  then obtain j where "q \<le> j" "j < length ps" "ps ! j = x" by blast
  then show "x \<in> set (drop q ps)" by (simp add: in_set_conv_nth) (rule exI [of _ "j - q"], simp)
qed

text \<open>The result of the loop: \<open>ps'\<close> is the log after it. Frames after the first \<open>m\<close> do not carry
  the commit mark, but for the last one of a commit.\<close>

definition uncommitted :: "nat \<Rightarrow> log_page list \<Rightarrow> bool" where
  "uncommitted m ps \<longleftrightarrow> (\<forall>x\<in>set (drop m ps). fst (snd x) = 0)"

definition written ::
  "nat \<Rightarrow> u32 \<Rightarrow> bool \<Rightarrow> PgHdr list \<Rightarrow> log_page list \<Rightarrow> PgHdr list \<Rightarrow> log_page list \<Rightarrow> bool" where
  "written m nT c qs ps qs' ps' \<longleftrightarrow> take m ps' = take m ps \<and>
     log_view (drop m ps') = log_view (drop m ps) ++ page_map qs \<and>
     map fst ps' = map fst ps @ map pgno (filter wal_append qs') \<and>
     (qs = [] \<longrightarrow> ps' = ps) \<and>
     (c \<and> qs \<noteq> [] \<longrightarrow> last ps' = (pgno (last qs), nT, pData (last qs)) \<and> ps' \<noteq> []) \<and>
     (uncommitted m ps \<longrightarrow> (\<exists>q. uncommitted m q \<and>
        ps' = q @ (if c \<and> qs \<noteq> [] then [(pgno (last qs), nT, pData (last qs))] else [])))"

lemma uncommitted_append: "uncommitted m ps \<Longrightarrow> fst (snd x) = 0 \<Longrightarrow> uncommitted m (ps @ [x])"
  by (auto simp: uncommitted_def drop_append dest: in_set_dropD)

lemma uncommitted_patch:
  assumes "uncommitted m ps" "i < length ps" "fst (snd x) = fst (snd (ps ! i))"
  shows "uncommitted m (ps[i := x])"
  unfolding uncommitted_def
proof
  fix y
  assume "y \<in> set (drop m (ps[i := x]))"
  then obtain j where j: "m \<le> j" "j < length ps" "ps[i := x] ! j = y" by (auto simp: in_set_drop)
  then have "ps ! j \<in> set (drop m ps)" unfolding in_set_drop by blast
  then have "fst (snd (ps ! j)) = 0" using assms(1) by (simp add: uncommitted_def)
  then show "fst (snd y) = 0" using j assms(2,3) by (cases "j = i") auto
qed

lemma to_write_find:
  assumes T: "to_write w s ps (p # qs)" and f: "sqlite3WalFindFrame E (pages w s) w (pgno p) = (rc, q, w')"
  shows "same_conn w w'" "q \<noteq> 0 \<Longrightarrow> q \<le> length ps \<and> fst (ps ! (q - 1)) = pgno p \<and>
    pgno p \<notin> fst ` set (drop q ps)"
proof -
  let ?n = "mxFrame (hdr w)"
  obtain lg where lg: "wi_repr (pages w s) lg" "?n \<le> length lg" "take ?n lg = map fst (take ?n ps)"
    and n: "?n \<le> length ps" and new: "pgno p \<notin> fst ` set (drop ?n ps)"
    using T by (auto simp: to_write_def)
  note F = FindFrame_newest [OF lg(1,2) f]
  show "same_conn w w'" by (rule F)
  assume q: "q \<noteq> 0"
  note F = F(2) [OF q]
  have eq: "lg ! j = fst (ps ! j)" if "j < ?n" for j
    using arg_cong [OF lg(3), of "\<lambda>l. l ! j"] that n by simp
  have "fst (ps ! j) \<noteq> pgno p" if "q \<le> j" "j < length ps" for j
  proof (cases "j < ?n")
    case False
    then have "ps ! j \<in> set (drop ?n ps)" using that unfolding in_set_drop by (intro exI [of _ j]) simp
    then show ?thesis using new by force
  qed (use F eq that in auto)
  then have "pgno p \<notin> fst ` set (drop q ps)" by (auto simp: in_set_drop) (metis fst_conv)
  then show "q \<le> length ps \<and> fst (ps ! (q - 1)) = pgno p \<and> pgno p \<notin> fst ` set (drop q ps)"
    using F eq [of "q - 1"] n q by auto
qed

lemma to_write_append:
  assumes "to_write w s ps (p # qs)" "same_writer w w'" "only_log s t"
  shows "to_write w' t (ps @ [(pgno p, nT, d)]) qs"
  using assms(1) unfolding to_write_def same_writer_fields(1,2,10) [OF assms(2)] only_log_eqs(5) [OF assms(3)]
  by auto (metis imageI)

lemma to_write_patch:
  assumes "to_write w s ps (p # qs)" "same_writer w w'" "only_log s t" "i < length ps" "fst x = fst (ps ! i)"
  shows "to_write w' t (ps[i := x]) qs"
proof -
  have m: "map fst (take n (ps[i := x])) = map fst (take n ps)" for n
    using assms(4,5) by (intro nth_equalityI) (auto simp: nth_list_update)
  moreover have "fst ` set (drop n (ps[i := x])) = fst ` set (drop n ps)" for n
  proof -
    have "map fst (ps[i := x]) = map fst ps" using m [of "length ps"] by simp
    then have "map fst (drop n (ps[i := x])) = map fst (drop n ps)" by (metis drop_map)
    then show ?thesis by (metis list.set_map)
  qed
  ultimately show ?thesis
    using assms(1) unfolding to_write_def same_writer_fields(1,2,10) [OF assms(2)] only_log_eqs(5) [OF assms(3)]
    by simp
qed

lemma written_append:
  assumes "written m nT c qs (ps @ [(pgno p, if c \<and> qs = [] then nT else 0, pData p)]) qs' ps'"
    and "m \<le> length ps" "distinct (map pgno (p # qs))" "wal_append p'" "pgno p' = pgno p"
  shows "written m nT c (p # qs) ps (p' # qs') ps'"
proof -
  have "\<exists>q. uncommitted m q \<and> ps' = q @ (if c \<and> p # qs \<noteq> [] then [(pgno (last (p # qs)), nT, pData (last (p # qs)))] else [])"
    if u: "uncommitted m ps"
  proof (cases "c \<and> qs = []")
    case True
    then show ?thesis using u assms(1) by (auto simp: written_def)
  next
    case False
    then show ?thesis using uncommitted_append [OF u, of "(pgno p, 0, pData p)"] assms(1) by (auto simp: written_def)
  qed
  then show ?thesis
    using assms page_map_Cons [of p qs "log_view (drop m ps)"] by (auto simp: written_def log_view_snoc)
qed

lemma written_patch:
  assumes "written m nT c qs (ps[i := (pgno p, fst (snd (ps ! i)), pData p)]) qs' ps'" "qs \<noteq> [] \<or> \<not> c"
    and "m \<le> i" "i < length ps" "fst (ps ! i) = pgno p" "pgno p \<notin> fst ` set (drop (Suc i) ps)"
    and "distinct (map pgno (p # qs))" "\<not> wal_append p'"
  shows "written m nT c (p # qs) ps (p' # qs') ps'"
proof -
  have "map fst (ps[i := (pgno p, fst (snd (ps ! i)), pData p)]) = map fst ps"
    using assms(4,5) by (intro nth_equalityI) (auto simp: nth_list_update)
  moreover have "uncommitted m ps \<Longrightarrow> uncommitted m (ps[i := (pgno p, fst (snd (ps ! i)), pData p)])"
    using uncommitted_patch [OF _ assms(4), of m "(pgno p, fst (snd (ps ! i)), pData p)"] by simp
  ultimately show ?thesis
    using assms page_map_Cons [of p qs "log_view (drop m ps)"]
      log_view_patch_after [OF assms(3,4) assms(5) [symmetric] assms(6)]
    by (auto simp: written_def)
qed

lemma log_inv_cong:
  assumes "szPage w' = szPage w" "iReCksum w' = iReCksum w" "aSalt (hdr w') = aSalt (hdr w)"
    "bigEndCksum (hdr w') = bigEndCksum (hdr w)" "aFrameCksum (hdr w') = aFrameCksum (hdr w)"
  shows "log_inv w' f ps = log_inv w f ps"
  unfolding log_inv_def log_hd_def chained_def chain_sum_def fscan_def by (simp only: assms)

lemma frames_write_OK:
  assumes Q: "vfs_quiet V" and F: "vfs_files V"
  shows "frames_write qs V ww iFirst nT c (length ps) (walFrameOffset (length ps + 1) (szPage w)) pl w s =
      (SQLITE_OK, qs', iFrame', off', pl', w', t) \<Longrightarrow>
    log_inv w (walFile s) ps \<Longrightarrow> to_write w s ps qs \<Longrightarrow> ww_szPage ww = szPage w \<Longrightarrow>
    iFirst = 0 \<or> m < iFirst \<Longrightarrow> m \<le> length ps \<Longrightarrow>
    \<exists>ps'. written m nT c qs ps qs' ps' \<and> log_inv w' (walFile t) ps' \<and> iFrame' = length ps' \<and>
      off' = walFrameOffset (length ps' + 1) (szPage w) \<and> only_log s t \<and> same_writer w w' \<and>
      (if c \<and> qs \<noteq> [] then map_option (\<lambda>p. (pgno p, pData p)) pl' = Some (pgno (last qs), pData (last qs))
       else qs = [] \<longrightarrow> pl' = pl)"
proof (induction qs arbitrary: ps w s pl qs')
  case Nil
  then show ?case by (auto simp: written_def)
next
  case (Cons p qs)
  let ?over = "iFirst \<noteq> 0 \<and> (qs \<noteq> [] \<or> \<not> c)" and ?sz = "szPage w"
  let ?off = "walFrameOffset (length ps + 1) ?sz"
  have ok: "page_ok ?sz p" "distinct (map pgno (p # qs))" using Cons.prems(3) by (simp_all add: to_write_def)
  obtain rc1 iWrite w1 where f: "(if ?over then sqlite3WalFindFrame V (pages w s) w (pgno p)
      else (SQLITE_OK, 0, w)) = (rc1, iWrite, w1)"
    by (cases "if ?over then sqlite3WalFindFrame V (pages w s) w (pgno p) else (SQLITE_OK, 0, w)")
  have c1: "same_conn w w1" using f to_write_find(1) [OF Cons.prems(3)] by (auto split: if_splits)
  note s1 = same_writer_conn [OF c1]
  have w1: "szPage w1 = ?sz" "iReCksum w1 = iReCksum w" "hdr w1 = hdr w"
    using same_conn_fields [OF c1] by simp_all
  have I1: "log_inv w1 (walFile s) ps"
    using Cons.prems(2) w1 log_inv_cong [of w1 w] by simp
  show ?case
  proof (cases "?over \<and> iWrite \<ge> iFirst")
    case True
    define w2 where "w2 = (if iReCksum w1 = 0 \<or> iWrite < iReCksum w1 then w1\<lparr>iReCksum := iWrite\<rparr> else w1)"
    have q: "iWrite \<noteq> 0" using True by simp
    have i: "iWrite \<le> length ps" "fst (ps ! (iWrite - 1)) = pgno p" "pgno p \<notin> fst ` set (drop iWrite ps)"
      using to_write_find(2) [OF Cons.prems(3) _ q, of V rc1 w1] f True by auto
    obtain rc2 s2 where x: "xWrite V WalFd (take ?sz (pData p)) (walFrameOffset iWrite ?sz + 24) s = (rc2, s2)"
      by (cases "xWrite V WalFd (take ?sz (pData p)) (walFrameOffset iWrite ?sz + 24) s")
    obtain rc3 qs3 r3 where rec: "frames_write qs V ww iFirst nT c (length ps) ?off pl w2 s2 = (rc3, qs3, r3)"
      by (cases "frames_write qs V ww iFirst nT c (length ps) ?off pl w2 s2")
    have run: "rc2 = SQLITE_OK" "rc3 = SQLITE_OK" "qs' = p\<lparr>wal_append := False\<rparr> # qs3"
        "r3 = (iFrame', off', pl', w', t)"
      using Cons.prems(1,4) f True x rec
      by (auto simp: libsql_pager_codec_def Let_def w2_def split: if_splits)
    define ps1 where "ps1 = ps[iWrite - 1 := (pgno p, fst (snd (ps ! (iWrite - 1))), pData p)]"
    have l: "length ps1 = length ps" by (simp add: ps1_def)
    have d: "length (pData p) = szPage w1" using ok w1 by (simp add: page_ok_def)
    note xl = xWrite_log [OF F x [unfolded run(1)]]
    have I2: "log_inv w2 (walFile s2) ps1"
      using log_inv_patch [OF I1 _ i(1) d] q xl(1) d i(2) w1 by (simp add: w2_def ps1_def)
    have s2: "same_writer w w2"
      using same_writer_trans [OF s1, of w2] by (simp add: w2_def)
    have T2: "to_write w2 s2 ps1 qs"
      unfolding ps1_def using to_write_patch [OF Cons.prems(3) s2 xl(2)] i q by simp
    have sz2: "szPage w2 = ?sz" using w1 by (simp add: w2_def)
    obtain ps' where P: "written m nT c qs ps1 qs3 ps'" "log_inv w' (walFile t) ps'" "iFrame' = length ps'"
        "off' = walFrameOffset (length ps' + 1) ?sz" "only_log s2 t" "same_writer w2 w'"
        "if c \<and> qs \<noteq> [] then map_option (\<lambda>p. (pgno p, pData p)) pl' = Some (pgno (last qs), pData (last qs))
         else qs = [] \<longrightarrow> pl' = pl"
      using Cons.IH [of ps1 w2 pl s2 qs3] rec run I2 T2 Cons.prems(4-6) sz2 l by auto
    have "written m nT c (p # qs) ps qs' ps'"
      unfolding run(3) using P(1) True i q Cons.prems(5) ok
      by (intro written_patch [where i = "iWrite - 1"]) (auto simp: ps1_def)
    moreover have "only_log s t" "same_writer w w'"
      using only_log_trans [OF xl(2) P(5)] same_writer_trans [OF s2 P(6)] by simp_all
    ultimately show ?thesis using P True by (intro exI [of _ ps']) (auto split: if_splits)
  next
    case False
    define n where "n = (if c \<and> qs = [] then nT else 0)"
    let ?p = "p\<lparr>wal_append := True\<rparr>"
    obtain rc2 w2 s2 where x: "walWriteOneFrame V ww w1 p n ?off s = (rc2, w2, s2)"
      by (cases "walWriteOneFrame V ww w1 p n ?off s")
    obtain rc3 qs3 r3 where rec: "frames_write qs V ww iFirst nT c (length ps + 1) (?off + ?sz + 24)
        (Some ?p) w2 s2 = (rc3, qs3, r3)"
      by (cases "frames_write qs V ww iFirst nT c (length ps + 1) (?off + ?sz + 24) (Some ?p) w2 s2")
    have run: "rc2 = SQLITE_OK" "rc3 = SQLITE_OK" "qs' = ?p # qs3" "r3 = (iFrame', off', pl', w', t)"
      using Cons.prems(1,4) f False x rec by (auto simp: Let_def n_def split: if_splits)
    define ps1 where "ps1 = ps @ [(pgno p, n, pData p)]"
    have l: "length ps1 = length ps + 1" by (simp add: ps1_def)
    note wf1 = walWriteOneFrame_OK [OF Q F x [unfolded run(1)] I1, unfolded w1(1), OF refl Cons.prems(4) ok(1)]
    have s2: "same_writer w w2" using same_writer_trans [OF s1 wf1(3)] .
    have T2: "to_write w2 s2 ps1 qs" unfolding ps1_def by (rule to_write_append [OF Cons.prems(3) s2 wf1(2)])
    have sz2: "szPage w2 = ?sz" by (rule same_writer_fields(1) [OF s2])
    have off: "?off + ?sz + 24 = walFrameOffset (length ps1 + 1) (szPage w2)"
      by (simp add: l sz2 walFrameOffset_Suc)
    have rec': "frames_write qs V ww iFirst nT c (length ps1) (walFrameOffset (length ps1 + 1) (szPage w2))
        (Some ?p) w2 s2 = (SQLITE_OK, qs3, iFrame', off', pl', w', t)"
      using rec run unfolding off l by simp
    obtain ps' where P: "written m nT c qs ps1 qs3 ps'" "log_inv w' (walFile t) ps'" "iFrame' = length ps'"
        "off' = walFrameOffset (length ps' + 1) ?sz" "only_log s2 t" "same_writer w2 w'"
        "if c \<and> qs \<noteq> [] then map_option (\<lambda>p. (pgno p, pData p)) pl' = Some (pgno (last qs), pData (last qs))
         else qs = [] \<longrightarrow> pl' = Some ?p"
      using Cons.IH [OF rec'] wf1(1) T2 Cons.prems(4-6) sz2 l by (auto simp: ps1_def)
    have "written m nT c (p # qs) ps qs' ps'"
      unfolding run(3) using P(1) Cons.prems(6) ok by (intro written_append) (auto simp: ps1_def n_def)
    moreover have "only_log s t" "same_writer w w'"
      using only_log_trans [OF wf1(2) P(5)] same_writer_trans [OF s2 P(6)] by simp_all
    ultimately show ?thesis using P by (intro exI [of _ ps']) (auto split: if_splits)
  qed
qed

section \<open>What restarting does\<close>

text \<open>Moving a read mark changes the read marks only.\<close>

definition marks_moved :: "Wal \<Rightarrow> 'x world \<Rightarrow> 'x world \<Rightarrow> bool" where
  "marks_moved w s t \<longleftrightarrow> (\<exists>m. same_store (set_ckptInfo w ((walCkptInfo w s)\<lparr>aReadMark := m\<rparr>) s) t)"

definition same_reader :: "Wal \<Rightarrow> Wal \<Rightarrow> bool" where
  "same_reader w w' \<longleftrightarrow> w' = w\<lparr>minFrame := minFrame w', readLock := readLock w'\<rparr>"

lemma marks_moved_store: "same_store s t \<Longrightarrow> marks_moved w s t"
  unfolding marks_moved_def
  by (rule exI [of _ "aReadMark (walCkptInfo w s)"])
     (simp add: same_store_def set_ckptInfo_def walCkptInfo_def set_mem_def mem_def)

lemma marks_moved_set: "marks_moved w s (set_ckptInfo w ((walCkptInfo w s)\<lparr>aReadMark := m\<rparr>) s)"
  unfolding marks_moved_def by (rule exI [of _ m]) simp

lemma marks_moved_trans: "marks_moved w a b \<Longrightarrow> marks_moved w b c \<Longrightarrow> marks_moved w a c"
  unfolding marks_moved_def
  by (auto simp: same_store_def set_ckptInfo_def walCkptInfo_def set_mem_def mem_def split: if_splits)

lemma marks_moved_cong: "uses_heap w' = uses_heap w \<Longrightarrow> marks_moved w' s t = marks_moved w s t"
  by (simp add: marks_moved_def set_ckptInfo_def walCkptInfo_def set_mem_def mem_def)

lemma marks_moved_eqs:
  assumes "marks_moved w s t"
  shows "walFile t = walFile s" "dbFile t = dbFile s" "pages w t = pages w s"
    "walIndexHdr w t = walIndexHdr w s" "nBackfill (walCkptInfo w t) = nBackfill (walCkptInfo w s)"
  using assms unfolding marks_moved_def
  by (auto simp: same_store_def set_ckptInfo_def walCkptInfo_def set_mem_def mem_def pages_def
      walIndexHdr_def split: if_splits)

lemma same_reader_refl [simp]: "same_reader w w"
  by (simp add: same_reader_def)

lemma same_reader_update [simp]:
  "same_reader w (w\<lparr>minFrame := n\<rparr>)" "same_reader w (w\<lparr>readLock := l\<rparr>)"
  "same_reader w (w\<lparr>minFrame := n, readLock := l\<rparr>)"
  by (simp_all add: same_reader_def)

lemma same_reader_trans: "same_reader a b \<Longrightarrow> same_reader b c \<Longrightarrow> same_reader a c"
  by (cases a; cases b; cases c) (simp add: same_reader_def)

lemma same_reader_fields:
  assumes "same_reader w w'"
  shows "hdr w' = hdr w" "szPage w' = szPage w" "iReCksum w' = iReCksum w" "uses_heap w' = uses_heap w"
    "nCkpt w' = nCkpt w" "pages w' s = pages w s" "walIndexHdr w' s = walIndexHdr w s"
    "truncateOnCommit w' = truncateOnCommit w" "mxWalSize w' = mxWalSize w" "mem w' s = mem w s"
  by (subst assms [unfolded same_reader_def], simp add: uses_heap_def pages_def mem_def walIndexHdr_def)+

lemma claim_mark_moved:
  "vfs_quiet V \<Longrightarrow> claim_mark k V w mx i a b rc s = (rc', r, t) \<Longrightarrow> marks_moved w s t"
proof (induction k arbitrary: i rc s)
  case (Suc k)
  obtain rc1 s1 where l: "walLockExclusive V w (3 + i) 1 s = (rc1, s1)"
    by (cases "walLockExclusive V w (3 + i) 1 s")
  let ?c = "walCkptInfo w s1"
  let ?s2 = "set_ckptInfo w (?c\<lparr>aReadMark := (aReadMark ?c)[i := mx]\<rparr>) s1"
  have a: "marks_moved w s s1" by (rule marks_moved_store [OF quiet_locks(3) [OF Suc.prems(1) l]])
  show ?case
  proof (cases "rc1 = SQLITE_OK")
    case True
    then have "t = walUnlockExclusive V w (3 + i) 1 ?s2" using Suc.prems(2) l by (simp add: Let_def)
    moreover have "marks_moved w ?s2 (walUnlockExclusive V w (3 + i) 1 ?s2)"
      by (rule marks_moved_store [OF quiet_locks(4) [OF Suc.prems(1)]])
    ultimately show ?thesis using a marks_moved_set marks_moved_trans by blast
  next
    case False
    then have "t = s1 \<or> claim_mark k V w mx (i + 1) a b rc1 s1 = (rc', r, t)"
      using Suc.prems(2) l by (auto simp: Let_def split: if_splits)
    then show ?thesis using a Suc.IH [OF Suc.prems(1)] marks_moved_trans by blast
  qed
qed (simp add: marks_moved_store)

lemma lock_mark_moved:
  assumes Q: "vfs_quiet V" and r: "lock_mark V w s m j = (rc, w', t)"
  shows "same_reader w w' \<and> marks_moved w s t"
proof -
  obtain rc2 s2 where l: "walLockShared V w (3 + j) s = (rc2, s2)" by (cases "walLockShared V w (3 + j) s")
  let ?w = "w\<lparr>minFrame := nBackfill (walCkptInfo w s2) + 1\<rparr>"
  let ?s3 = "walShmBarrier V ?w s2"
  have a: "same_store s s2" by (rule quiet_locks(1) [OF Q l])
  have b: "same_store s ?s3" by (rule same_store_trans [OF a quiet_locks(5) [OF Q]])
  have c: "same_store s (walUnlockShared V ?w (3 + j) ?s3)" by (rule same_store_trans [OF b quiet_locks(2) [OF Q]])
  have "t = s2 \<or> t = ?s3 \<or> t = walUnlockShared V ?w (3 + j) ?s3" "w' = w \<or> w' = ?w \<or> w' = ?w\<lparr>readLock := int j\<rparr>"
    using r l by (auto simp: lock_mark_def Let_def split: if_splits)
  then show ?thesis using a b c marks_moved_store by (metis same_reader_refl same_reader_update)
qed

lemma begin_with_mark_moved:
  assumes Q: "vfs_quiet V" and r: "begin_with_mark V w s rc0 = (rc, w', t)"
  shows "same_reader w w' \<and> marks_moved w s t"
proof -
  obtain rc1 sel s1 where sel: "select_mark V w s rc0 = (rc1, sel, s1)" by (cases "select_mark V w s rc0")
  have a: "marks_moved w s s1"
    using sel claim_mark_moved [OF Q] marks_moved_store [OF same_store_refl, of w s]
    by (auto simp: select_mark_def Let_def split: prod.splits if_splits)
  have "w' = w \<and> t = s1 \<or> (\<exists>m j. lock_mark V w s1 m j = (rc, w', t))"
    using r sel by (auto simp: begin_with_mark_def split: option.splits if_splits)
  then show ?thesis using a lock_mark_moved [OF Q] marks_moved_trans [OF a] by (metis same_reader_refl)
qed

lemma try_begin_read_moved:
  assumes "vfs_quiet V" "try_begin_read V w s ch u cnt = (rc, ch', w', t)" u
  shows "same_reader w w' \<and> marks_moved w s t"
  using assms
proof (induction V w s ch u cnt rule: try_begin_read.induct)
  case (1 V w s ch u cnt)
  obtain rc1 ch1 c1 w1 s1 where t: "walTryBeginRead V w s ch u cnt = (rc1, ch1, c1, w1, s1)"
    by (cases "walTryBeginRead V w s ch u cnt")
  define s0 where "s0 = (if cnt + 1 > 5 then xSleep V (if cnt + 1 \<ge> 10 then (cnt + 1 - 9) * (cnt + 1 - 9) * 39 else 1) s else s)"
  have sl: "marks_moved w s s0"
    using marks_moved_store [OF quiet_same_store(7) [OF 1(2)]] marks_moved_store [OF same_store_refl]
    by (auto simp: s0_def)
  have "w1 = w \<and> s1 = s \<or> (\<exists>rc. begin_with_mark V w s0 SQLITE_OK = (rc, w1, s1))"
    using t 1(4) by (auto simp: walTryBeginRead_def Let_def s0_def split: prod.splits if_splits)
  then have a: "same_reader w w1" "marks_moved w s s1"
    using begin_with_mark_moved [OF 1(2)] marks_moved_trans [OF sl] marks_moved_store [OF same_store_refl]
    by (metis same_reader_refl)+
  show ?case
  proof (cases "rc1 = WAL_RETRY")
    case True
    then have "try_begin_read V w1 s1 ch1 u c1 = (rc, ch', w', t)"
      using 1(3) t by (subst (asm) try_begin_read.simps) simp
    from 1(1) [OF t [symmetric] refl refl refl True 1(2) this 1(4)]
    have "same_reader w1 w'" "marks_moved w1 s1 t" by simp_all
    then show ?thesis
      using a same_reader_trans marks_moved_trans marks_moved_cong [OF same_reader_fields(4) [OF a(1)]] by blast
  next
    case False
    then show ?thesis using 1(3) t a by (subst (asm) try_begin_read.simps) simp
  qed
qed

text \<open>The random bytes are as many as asked for.\<close>

definition vfs_random :: "'x vfs \<Rightarrow> bool" where
  "vfs_random V \<longleftrightarrow> (\<forall>n s. length (fst (sqlite3_randomness V n s)) = n)"

text \<open>The header a restarted log starts with.\<close>

definition restarted_hdr :: "WalIndexHdr \<Rightarrow> bytes \<Rightarrow> WalIndexHdr" where
  "restarted_hdr h salt1 = sealed (h\<lparr>mxFrame := 0, aSalt := sqlite3Put4byte (1 + sqlite3Get4byte (aSalt h)) @ salt1\<rparr>)"

lemma walRestartHdr_spec:
  assumes Q: "vfs_quiet V" and r: "walRestartHdr V w salt1 s = (w', t)"
  shows "w' = w\<lparr>nCkpt := nCkpt w + 1, hdr := restarted_hdr (hdr w) salt1\<rparr>" "walFile t = walFile s"
    "dbFile t = dbFile s" "pages w t = pages w s" "walIndexHdr w t = restarted_hdr (hdr w) salt1"
    "nBackfill (walCkptInfo w t) = 0"
proof -
  let ?w = "w\<lparr>nCkpt := nCkpt w + 1, hdr := (hdr w)\<lparr>mxFrame := 0,
    aSalt := sqlite3Put4byte (1 + sqlite3Get4byte (aSalt (hdr w))) @ salt1\<rparr>\<rparr>"
  obtain w1 s1 where h: "walIndexWriteHdr V ?w s = (w1, s1)" by (cases "walIndexWriteHdr V ?w s")
  note H = walIndexWriteHdr_quiet [OF Q h]
  have u: "uses_heap w1 = uses_heap w" by (simp add: H(1) uses_heap_def)
  define c where "c = (walCkptInfo w1 s1)\<lparr>nBackfill := 0, nBackfillAttempted := 0, aReadMark :=
    [aReadMark (walCkptInfo w1 s1) ! 0, 0, READMARK_NOT_USED, READMARK_NOT_USED, READMARK_NOT_USED]\<rparr>"
  have w': "w' = w1" and t: "nBackfill c = 0" "t = set_ckptInfo w1 c s1"
    using r h by (auto simp: walRestartHdr_def Let_def c_def)
  show "w' = w\<lparr>nCkpt := nCkpt w + 1, hdr := restarted_hdr (hdr w) salt1\<rparr>"
    by (simp add: w' H(1) restarted_hdr_def)
  have m: "mem w s1 = (mem w s)\<lparr>aHdr0 := restarted_hdr (hdr w) salt1, aHdr1 := restarted_hdr (hdr w) salt1\<rparr>"
    using H(2) by (simp add: restarted_hdr_def mem_def uses_heap_def)
  show "walFile t = walFile s" "dbFile t = dbFile s" "pages w t = pages w s"
    "walIndexHdr w t = restarted_hdr (hdr w) salt1" "nBackfill (walCkptInfo w t) = 0"
    using t H(3,4) m u
    by (auto simp: set_ckptInfo_def walCkptInfo_def pages_def walIndexHdr_def set_mem_cong [of w1 w] mem_cong [of w1 w])
qed

text \<open>Restarting leaves the files alone; the log becomes empty exactly if it says so.\<close>

definition restarted_conn :: "Wal \<Rightarrow> bool \<Rightarrow> Wal \<Rightarrow> bool" where
  "restarted_conn w restarted w' \<longleftrightarrow>
     (if restarted then \<exists>salt1. length salt1 = 4 \<and>
        same_reader (w\<lparr>nCkpt := nCkpt w + 1, hdr := restarted_hdr (hdr w) salt1\<rparr>) w'
      else same_reader w w')"

lemma walRestartLog_spec:
  assumes Q: "vfs_quiet V" and R: "vfs_random V" and r: "walRestartLog V w s = (SQLITE_OK, restarted, w', t)"
  shows "restarted_conn w restarted w'" "walFile t = walFile s" "dbFile t = dbFile s" "pages w t = pages w s"
    "walIndexHdr w t = (if restarted then hdr w' else walIndexHdr w s)"
    "restarted \<Longrightarrow> readLock w = 0 \<and> 0 < nBackfill (walCkptInfo w s)"
    "nBackfill (walCkptInfo w t) = (if restarted then 0 else nBackfill (walCkptInfo w s))"
proof -
  have "restarted_conn w restarted w' \<and> walFile t = walFile s \<and> dbFile t = dbFile s \<and> pages w t = pages w s \<and>
    walIndexHdr w t = (if restarted then hdr w' else walIndexHdr w s) \<and>
    (restarted \<longrightarrow> readLock w = 0 \<and> 0 < nBackfill (walCkptInfo w s)) \<and>
    nBackfill (walCkptInfo w t) = (if restarted then 0 else nBackfill (walCkptInfo w s))"
  proof (cases "readLock w = 0")
    case False
    then show ?thesis using r by (auto simp: walRestartLog_def restarted_conn_def)
  next
    case True
    obtain salt1 s1 where rn: "sqlite3_randomness V 4 s = (salt1, s1)" by (cases "sqlite3_randomness V 4 s")
    have l4: "length salt1 = 4" using R rn unfolding vfs_random_def by (metis fst_conv)
    obtain rc2 s2 where lk: "walLockExclusive V w 4 4 s1 = (rc2, s2)" by (cases "walLockExclusive V w 4 4 s1")
    have st: "same_store s s2"
      by (rule same_store_trans [OF quiet_same_store(8) [OF Q rn] quiet_locks(3) [OF Q lk]])
    obtain w3 s3 where rh: "walRestartHdr V w salt1 s2 = (w3, s3)" by (cases "walRestartHdr V w salt1 s2")
    note H = walRestartHdr_spec [OF Q rh]
    define b where "b = (0 < nBackfill (walCkptInfo w s) \<and> rc2 = SQLITE_OK)"
    define w4 where "w4 = (if b then w3 else w)"
    define s4 where "s4 = (if b then walUnlockExclusive V w3 4 4 s3 else if 0 < nBackfill (walCkptInfo w s) then s2 else s)"
    obtain rc5 ch5 w5 s5 where tb: "try_begin_read V (w4\<lparr>readLock := - 1\<rparr>) (walUnlockShared V w4 3 s4) False True 0 =
        (rc5, ch5, w5, s5)"
      by (cases "try_begin_read V (w4\<lparr>readLock := - 1\<rparr>) (walUnlockShared V w4 3 s4) False True 0")
    have run: "restarted = b" "w' = w5" "t = s5"
      using r True rn lk rh tb unfolding walRestartLog_def
      by (auto simp: b_def w4_def s4_def Let_def split: if_splits)
    note M = try_begin_read_moved [OF Q tb TrueI]
    have ul: "same_store s4 (walUnlockShared V w4 3 s4)" by (rule quiet_locks(2) [OF Q])
    have u4: "uses_heap w4 = uses_heap w" using H(1) by (simp add: w4_def)
    have "marks_moved w (walUnlockShared V w4 3 s4) t"
      using M run(3) u4 by (simp add: marks_moved_cong [of "w4\<lparr>readLock := - 1\<rparr>" w])
    from marks_moved_trans [OF marks_moved_store [OF ul] this] have mm: "marks_moved w s4 t" .
    have sr: "same_reader w4 w'" using M same_reader_trans [OF same_reader_update(2)] run(2) by blast
    have h4: "hdr w' = hdr w4" using same_reader_fields(1) [OF sr] .
    show ?thesis
    proof (cases b)
      case True
      then have s3: "same_store s3 s4" by (simp add: s4_def quiet_locks(4) [OF Q])
      have "walFile s4 = walFile s" "dbFile s4 = dbFile s" "pages w s4 = pages w s"
          "walIndexHdr w s4 = restarted_hdr (hdr w) salt1" "nBackfill (walCkptInfo w s4) = 0"
        using H(2-6) same_store_eqs [OF s3] same_store_eqs [OF st]
        by (simp_all add: pages_def walIndexHdr_def walCkptInfo_def)
      then show ?thesis
        using marks_moved_eqs [OF mm] True sr h4 H(1) l4 run(1) \<open>readLock w = 0\<close>
        by (auto simp: restarted_conn_def w4_def b_def)
    next
      case False
      then have "same_store s s4" using st by (simp add: s4_def)
      then have "walFile s4 = walFile s" "dbFile s4 = dbFile s" "pages w s4 = pages w s"
          "walIndexHdr w s4 = walIndexHdr w s" "walCkptInfo w s4 = walCkptInfo w s"
        using same_store_eqs [of s s4] by (simp_all add: pages_def walIndexHdr_def walCkptInfo_def)
      then show ?thesis
        using marks_moved_eqs [OF mm] False sr run(1) by (simp add: restarted_conn_def w4_def)
    qed
  qed
  then show "restarted_conn w restarted w'" "walFile t = walFile s" "dbFile t = dbFile s" "pages w t = pages w s"
    "walIndexHdr w t = (if restarted then hdr w' else walIndexHdr w s)"
    "restarted \<Longrightarrow> readLock w = 0 \<and> 0 < nBackfill (walCkptInfo w s)"
    "nBackfill (walCkptInfo w t) = (if restarted then 0 else nBackfill (walCkptInfo w s))"
    by simp_all
qed

section \<open>The parts of a commit\<close>

definition page_size_ok :: "nat \<Rightarrow> bool" where
  "page_size_ok sz \<longleftrightarrow> 512 \<le> sz \<and> sz \<le> 65536 \<and> sz AND (sz - 1) = 0"

text \<open>A new log header starts an empty log.\<close>

lemma frames_header_new:
  assumes Q: "vfs_quiet V" and F: "vfs_files V" and R: "vfs_random V"
    and r: "frames_header V w sz fl s = (SQLITE_OK, w', t)"
    and w: "mxFrame (hdr w) = 0" "nCkpt w \<noteq> 0 \<Longrightarrow> length (aSalt (hdr w)) = 8" "iReCksum w = 0" "page_size_ok sz"
  shows "log_inv w' (walFile t) []" "only_log s t" "szPage w' = sz"
    "\<exists>a b c. w' = w\<lparr>szPage := sz, truncateOnCommit := True, hdr := (hdr w)\<lparr>aSalt := a, bigEndCksum := b, aFrameCksum := c\<rparr>\<rparr>"
proof -
  obtain salt s1 where sa: "(if nCkpt w = 0 then sqlite3_randomness V 8 s else (aSalt (hdr w), s)) = (salt, s1)"
    by (cases "if nCkpt w = 0 then sqlite3_randomness V 8 s else (aSalt (hdr w), s)")
  have st: "same_store s s1" using sa quiet_same_store(8) [OF Q] by (auto split: if_splits)
  have l8: "length salt = 8"
    using sa w(2) R unfolding vfs_random_def by (cases "nCkpt w = 0") (auto, metis fst_conv)
  obtain b c where hb: "aWalHdr sz (nCkpt w) salt = (b, c)" by (cases "aWalHdr sz (nCkpt w) salt")
  note B = aWalHdr_ok [OF hb l8] and sz = w(4) [unfolded page_size_ok_def]
  let ?w = "w\<lparr>szPage := sz, truncateOnCommit := True,
    hdr := (hdr w)\<lparr>aSalt := salt, bigEndCksum := SQLITE_BIGENDIAN, aFrameCksum := c\<rparr>\<rparr>"
  obtain rc2 s2 where x: "xWrite V WalFd b 0 s1 = (rc2, s2)" by (cases "xWrite V WalFd b 0 s1")
  have run: "rc2 = SQLITE_OK" "w' = ?w" and y: "t = s2 \<or> (\<exists>n. sqlite3OsSync V WalFd n s2 = (SQLITE_OK, t))"
    using r w(1) sa hb x unfolding frames_header_def by (auto simp: Let_def split: if_splits prod.splits)
  note xl = xWrite_log [OF F x [unfolded run(1)]]
  have s2: "same_store s2 t"
    using y quiet_same_store(4) [OF Q] by (auto simp: sqlite3OsSync_def split: if_splits)
  show "only_log s t" using only_log_trans [OF only_log_store [OF st] only_log_trans [OF xl(2) only_log_store [OF s2]]] .
  have f: "walFile t = overwrite (walFile s) 0 b" using xl(1) s2 st by (simp add: same_store_eqs)
  have hd: "take 32 (walFile t) = b" "32 \<le> length (walFile t)"
    using B(1) sz by (simp_all add: f overwrite_def)
  show "log_inv w' (walFile t) []"
    using B sz hd l8 w(3) run(2)
    by (simp add: log_inv_def log_hd_def chained_def chain_sum_def fscan_def log_raw_def walFrameOffset_def)
  show "szPage w' = sz" by (simp add: run(2))
  show "\<exists>a b c. w' = w\<lparr>szPage := sz, truncateOnCommit := True, hdr := (hdr w)\<lparr>aSalt := a, bigEndCksum := b, aFrameCksum := c\<rparr>\<rparr>"
    using run(2) by blast
qed

text \<open>Padding repeats the commit frame.\<close>

lemma frames_pad_OK:
  assumes "vfs_quiet V" "vfs_files V" "frames_pad V ww p nT e off w s = (SQLITE_OK, e', w', t)"
    and "log_inv w (walFile s) ps" "off = walFrameOffset (length ps + 1) (szPage w)" "ww_szPage ww = szPage w"
    and "page_ok (szPage w) p"
  shows "e \<le> e' \<and> log_inv w' (walFile t) (ps @ replicate (e' - e) (pgno p, nT, pData p)) \<and> only_log s t \<and>
    same_writer w w' \<and> iReCksum w' = iReCksum w"
  using assms
proof (induction V ww p nT e off w s arbitrary: ps rule: frames_pad.induct)
  case (1 V ww p nT e off w s)
  note prems = 1(2-8)
  show ?case
  proof (cases "off < iSyncPoint ww")
    case False
    then show ?thesis using prems by (simp add: frames_pad.simps)
  next
    case True
    obtain rc1 w1 s1 where x: "walWriteOneFrame V ww w p nT off s = (rc1, w1, s1)"
      by (cases "walWriteOneFrame V ww w p nT off s")
    have ok: "rc1 = SQLITE_OK" and rec: "frames_pad V ww p nT (e + 1) (off + ww_szPage ww + 24) w1 s1 = (SQLITE_OK, e', w', t)"
      using prems(3) True x by (auto simp: frames_pad.simps [of V ww p nT e] Let_def split: if_splits)
    note W = walWriteOneFrame_OK [OF prems(1,2) x [unfolded ok] prems(4-7)]
    have sz: "szPage w1 = szPage w" by (rule same_writer_fields(1) [OF W(3)])
    have "e + 1 \<le> e' \<and> log_inv w' (walFile t) ((ps @ [(pgno p, nT, pData p)]) @ replicate (e' - (e + 1)) (pgno p, nT, pData p)) \<and>
        only_log s1 t \<and> same_writer w1 w' \<and> iReCksum w' = iReCksum w1"
      using 1(1) [OF True x [symmetric] refl refl _ prems(1,2) rec W(1)] ok prems(5-7) sz
      by (simp add: walFrameOffset_Suc)
    moreover from this have "(ps @ [(pgno p, nT, pData p)]) @ replicate (e' - (e + 1)) (pgno p, nT, pData p) =
        ps @ replicate (e' - e) (pgno p, nT, pData p)"
      by (simp add: Suc_diff_Suc [symmetric])
    ultimately show ?thesis using only_log_trans [OF W(2)] same_writer_trans [OF W(3)] W(4) by auto
  qed
qed

lemma frames_sync_OK:
  assumes Q: "vfs_quiet V" and F: "vfs_files V"
    and r: "frames_sync V ww (Some p) nT off w s = (False, SQLITE_OK, e, w', t)"
    and I: "log_inv w (walFile s) ps" "off = walFrameOffset (length ps + 1) (szPage w)" "ww_szPage ww = szPage w"
      "page_ok (szPage w) p"
  shows "log_inv w' (walFile t) (ps @ replicate e (pgno p, nT, pData p)) \<and> only_log s t \<and> same_writer w w' \<and>
    iReCksum w' = iReCksum w"
proof -
  let ?z = "sqlite3SectorSize V s"
  define ww1 where "ww1 = ww\<lparr>iSyncPoint := (off + ?z - 1) div ?z * ?z\<rparr>"
  obtain rc1 e1 w1 s1 where pd: "(if padToSectorBoundary w then frames_pad V ww1 p nT 0 off w s
      else (SQLITE_OK, 0, w, s)) = (rc1, e1, w1, s1)"
    by (cases "if padToSectorBoundary w then frames_pad V ww1 p nT 0 off w s else (SQLITE_OK, 0, w, s)")
  have run: "rc1 = SQLITE_OK" "e = e1" "w' = w1"
    and y: "t = s1 \<or> (\<exists>n rc. sqlite3OsSync V WalFd n s1 = (rc, t))"
    using r pd unfolding frames_sync_def by (auto simp: Let_def ww1_def split: if_splits prod.splits)
  have st: "same_store s1 t"
    using y quiet_same_store(4) [OF Q] by (auto simp: sqlite3OsSync_def split: if_splits)
  have "log_inv w1 (walFile s1) (ps @ replicate e (pgno p, nT, pData p)) \<and> only_log s s1 \<and> same_writer w w1 \<and>
      iReCksum w1 = iReCksum w"
  proof (cases "padToSectorBoundary w")
    case True
    then have "frames_pad V ww1 p nT 0 off w s = (SQLITE_OK, e1, w1, s1)" using pd run(1) by simp
    from frames_pad_OK [OF Q F this I(1,2) _ I(4)] show ?thesis using I(3) run(2) by (simp add: ww1_def)
  next
    case False
    then show ?thesis using pd run I(1) by simp
  qed
  then show ?thesis using run(3) only_log_trans [OF _ only_log_store [OF st]] st by (simp add: same_store_eqs)
qed

text \<open>A truncation that fails leaves the file alone.\<close>

definition vfs_truncate :: "'x vfs \<Rightarrow> bool" where
  "vfs_truncate V \<longleftrightarrow> (\<forall>f n s. fst (xTruncate V f n s) \<noteq> SQLITE_OK \<longrightarrow> same_store s (snd (xTruncate V f n s)))"

lemma log_inv_cut:
  assumes I: "log_inv w f ps" and m: "walFrameOffset (length ps + 1) (szPage w) \<le> m"
  shows "log_inv w (take m f) ps"
proof -
  let ?n = "length ps" and ?sz = "szPage w"
  have fr: "frame_at (take m f) ?sz j = frame_at f ?sz j" if "0 < j" "j \<le> ?n" for j
  proof -
    have "walFrameOffset j ?sz + (?sz + 24) \<le> m"
      using walFrameOffset_mono [of "Suc j" "?n + 1" ?sz] that m by (simp add: walFrameOffset_Suc)
    then show ?thesis by (simp add: frame_at_def drop_take min_def)
  qed
  have hd: "take 32 (take m f) = take 32 f" using walFrameOffset_hdr [of "?n + 1" ?sz] m by (simp add: min_def)
  have c: "fscan w (take m f) k = fscan w f k" "chained w (take m f) k = chained w f k"
      "chain_sum w (take m f) k = chain_sum w f k" if "k \<le> ?n" for k
    using fscan_cong [OF hd, of k w] fr that by simp_all
  have "log_hd w (take m f) = log_hd w f" unfolding log_hd_def hd ..
  moreover have "log_raw (take m f) ?sz ?n = log_raw f ?sz ?n" by (rule log_raw_cong) (rule fr)
  ultimately show ?thesis
    using I m c [of ?n] c(2) [of "iReCksum w - 1"] by (auto simp: log_inv_def split: if_splits)
qed

lemma walLimitSize_inv:
  assumes Q: "vfs_quiet V" and F: "vfs_files V" and U: "vfs_truncate V" and I: "log_inv w (walFile s) ps"
    and m: "int (walFrameOffset (length ps + 1) (szPage w)) \<le> nMax"
  shows "log_inv w (walFile (walLimitSize V nMax s)) ps" "only_log s (walLimitSize V nMax s)"
proof -
  obtain rx sz s1 where z: "xFileSize V WalFd s = (rx, sz, s1)" by (cases "xFileSize V WalFd s")
  note st = quiet_same_store(5) [OF Q z]
  obtain rc t where x: "xTruncate V WalFd (nat nMax) s1 = (rc, t)" by (cases "xTruncate V WalFd (nat nMax) s1")
  have "log_inv w (walFile (walLimitSize V nMax s)) ps \<and> only_log s (walLimitSize V nMax s)"
  proof (cases "rx = SQLITE_OK \<and> int sz > nMax \<and> rc = SQLITE_OK")
    case True
    then have l: "walLimitSize V nMax s = t" using z x by (simp add: walLimitSize_def)
    have "same_store (s1\<lparr>walFile := take (nat nMax) (walFile s1) @ replicate (nat nMax - length (walFile s1)) 0\<rparr>) t"
      using vfs_files_D(4) [OF F, of WalFd] x True by simp
    moreover have "nat nMax \<le> length (walFile s1)"
      using vfs_files_D(2) [OF F, of WalFd s sz s1] z True st by (auto simp: same_store_eqs)
    ultimately have t: "walFile t = take (nat nMax) (walFile s)" "only_log s1 t"
      using st by (simp_all add: same_store_def only_log_def)
    have "walFrameOffset (length ps + 1) (szPage w) \<le> nat nMax" using m by linarith
    then show ?thesis using l t log_inv_cut [OF I] only_log_trans [OF only_log_store [OF st]] by simp
  next
    case False
    then have "walLimitSize V nMax s = s1 \<or> walLimitSize V nMax s = t \<and> rc \<noteq> SQLITE_OK"
      using z x by (auto simp: walLimitSize_def)
    moreover have "rc \<noteq> SQLITE_OK \<Longrightarrow> same_store s1 t" using U x unfolding vfs_truncate_def by (metis fst_conv snd_conv)
    ultimately have "same_store s (walLimitSize V nMax s)" using st same_store_trans by metis
    then show ?thesis using I only_log_store by (simp add: same_store_eqs)
  qed
  then show "log_inv w (walFile (walLimitSize V nMax s)) ps" "only_log s (walLimitSize V nMax s)" by simp_all
qed

section \<open>Publishing\<close>

text \<open>The index covers the first \<open>i\<close> frames; frames after them, if any, were never committed.\<close>

definition index_to :: "Wal \<Rightarrow> 'x world \<Rightarrow> nat \<Rightarrow> u32 list \<Rightarrow> bool" where
  "index_to w s i log \<longleftrightarrow> length log = i \<and> (\<exists>lg. wi_repr (pages w s) lg \<and> i \<le> length lg \<and> take i lg = log \<and>
     (i = length lg \<or> i = mxFrame (hdr w)))"

lemma index_to_append:
  assumes "index_to w s i log" "walIndexAppend V (pages w s) w (i + 1) pg = (SQLITE_OK, W, w')" "pg \<noteq> 0"
  shows "index_to w' (set_pages w' W s) (i + 1) (log @ [pg])" "same_conn w w'"
proof -
  obtain lg where lg: "wi_repr (pages w s) lg" "i \<le> length lg" "take i lg = log" "i = length lg \<or> i = mxFrame (hdr w)"
    and l: "length log = i"
    using assms(1) by (auto simp: index_to_def)
  have "i + 1 = Suc (length lg) \<or> (i + 1 = Suc (mxFrame (hdr w)) \<and> i + 1 \<le> length lg)" using lg by auto
  note A = append_repr [OF lg(1) assms(2) this assms(3)]
  show "same_conn w w'" using A by simp
  have "wi_repr W (log @ [pg])" using A lg(3) by simp
  then show "index_to w' (set_pages w' W s) (i + 1) (log @ [pg])"
    using l by (auto simp: index_to_def intro!: exI [of _ "log @ [pg]"])
qed

lemma pages_only: "uses_heap w' = uses_heap w \<Longrightarrow> only_pages w s (set_pages w' W s)"
  using only_pages_cong [of w' w s "set_pages w' W s"] only_pages_set [of w' s W] by blast

lemma frames_index_OK:
  "frames_index qs V i SQLITE_OK w s = (SQLITE_OK, i', w', t) \<Longrightarrow> index_to w s i log \<Longrightarrow>
    \<forall>q\<in>set qs. pgno q \<noteq> 0 \<Longrightarrow>
    index_to w' t i' (log @ map pgno (filter wal_append qs)) \<and> same_conn w w' \<and> only_pages w s t"
proof (induction qs arbitrary: i w s log)
  case (Cons q qs)
  show ?case
  proof (cases "wal_append q")
    case False
    then show ?thesis using Cons by simp
  next
    case True
    obtain rc1 W w1 where a: "walIndexAppend V (pages w s) w (i + 1) (pgno q) = (rc1, W, w1)"
      by (cases "walIndexAppend V (pages w s) w (i + 1) (pgno q)")
    have rec: "frames_index qs V (i + 1) rc1 w1 (set_pages w1 W s) = (SQLITE_OK, i', w', t)"
      using Cons.prems(1) True a by simp
    have ok: "rc1 = SQLITE_OK" using rec by (cases qs) (auto split: if_splits)
    note A = index_to_append [OF Cons.prems(2) a [unfolded ok]]
    have u: "uses_heap w1 = uses_heap w" using A(2) Cons.prems(3) uses_heap_same_conn by simp
    have "index_to w' t i' ((log @ [pgno q]) @ map pgno (filter wal_append qs)) \<and> same_conn w1 w' \<and>
        only_pages w1 (set_pages w1 W s) t"
      using Cons.IH [OF _ A(1)] rec ok Cons.prems(3) by simp
    then show ?thesis
      using True A(2) Cons.prems(3) same_conn_trans only_pages_trans [OF pages_only [OF u, of s W]]
        only_pages_cong [OF u, of "set_pages w1 W s" t] by auto
  qed
qed simp

lemma extra_index_OK:
  "extra_index k V pg i SQLITE_OK w s = (SQLITE_OK, i', w', t) \<Longrightarrow> index_to w s i log \<Longrightarrow> pg \<noteq> 0 \<Longrightarrow>
    index_to w' t i' (log @ replicate k pg) \<and> same_conn w w' \<and> only_pages w s t"
proof (induction k arbitrary: i w s log)
  case (Suc k)
  obtain rc1 W w1 where a: "walIndexAppend V (pages w s) w (i + 1) pg = (rc1, W, w1)"
    by (cases "walIndexAppend V (pages w s) w (i + 1) pg")
  have rec: "extra_index k V pg (i + 1) rc1 w1 (set_pages w1 W s) = (SQLITE_OK, i', w', t)"
    using Suc.prems(1) a by simp
  have ok: "rc1 = SQLITE_OK" using rec by (cases k) (auto split: if_splits)
  note A = index_to_append [OF Suc.prems(2) a [unfolded ok] Suc.prems(3)]
  have u: "uses_heap w1 = uses_heap w" using A(2) uses_heap_same_conn by simp
  have "index_to w' t i' ((log @ [pg]) @ replicate k pg) \<and> same_conn w1 w' \<and> only_pages w1 (set_pages w1 W s) t"
    using Suc.IH [OF _ A(1) Suc.prems(3)] rec ok by simp
  then show ?case
    using A(2) same_conn_trans only_pages_trans [OF pages_only [OF u, of s W]]
      only_pages_cong [OF u, of "set_pages w1 W s" t] by auto
qed simp

lemma frames_publish_OK:
  assumes Q: "vfs_quiet V"
    and r: "frames_publish V w sz qs nT c rs pl e SQLITE_OK s = (SQLITE_OK, n, w', t)"
    and I: "index_to w s (mxFrame (hdr w)) log" "\<forall>q\<in>set qs. pgno q \<noteq> 0"
    and p: "e \<noteq> 0 \<longrightarrow> (\<exists>p. pl = Some p \<and> pgno p = pg)" "pg \<noteq> 0"
  defines "log' \<equiv> log @ map pgno (filter wal_append qs) @ replicate e pg"
  shows "\<exists>lg. wi_repr (pages w' t) lg \<and> length log' \<le> length lg \<and> take (length log') lg = log'"
    "mxFrame (hdr w') = length log'" "walFile t = walFile s" "dbFile t = dbFile s"
    "szPage w' = szPage w \<and> iReCksum w' = iReCksum w \<and> aSalt (hdr w') = aSalt (hdr w) \<and>
       bigEndCksum (hdr w') = bigEndCksum (hdr w) \<and> aFrameCksum (hdr w') = aFrameCksum (hdr w) \<and>
       nCkpt w' = nCkpt w \<and> uses_heap w' = uses_heap w"
    "walIndexHdr w t = (if c then hdr w' else walIndexHdr w s)" "c \<Longrightarrow> nPage (hdr w') = nT \<and> (\<exists>h. hdr w' = sealed h)"
    "n = Some (if c then if rs then length log' else length log' - length log else 0)"
    "walCkptInfo w t = walCkptInfo w s" "hdr_szPage (hdr w') = size_field sz"
proof -
  obtain rc1 i1 w1 s1 where f1: "frames_index qs V (mxFrame (hdr w)) SQLITE_OK w s = (rc1, i1, w1, s1)"
    by (cases "frames_index qs V (mxFrame (hdr w)) SQLITE_OK w s")
  let ?x = "case pl of Some p \<Rightarrow> extra_index e V (pgno p) i1 rc1 w1 s1 | None \<Rightarrow> (rc1, i1, w1, s1)"
  obtain rc2 i2 w2 s2 where f2: "?x = (rc2, i2, w2, s2)" by (cases ?x)
  have ok2: "rc2 = SQLITE_OK" using r f1 f2 by (auto simp: frames_publish_def split: if_splits)
  have ok1: "rc1 = SQLITE_OK" using f2 ok2 by (cases e) (auto split: option.splits if_splits)
  note A = frames_index_OK [OF f1 [unfolded ok1] I]
  have x: "extra_index e V pg i1 SQLITE_OK w1 s1 = (SQLITE_OK, i2, w2, s2)"
    using f2 ok1 ok2 p(1) by (cases e) (auto split: option.splits)
  note B = extra_index_OK [OF x conjunct1 [OF A] p(2)]
  have c2: "same_conn w w2" using A B same_conn_trans by blast
  note cf = same_conn_fields [OF c2] and u = uses_heap_same_conn [OF c2]
  have u1: "uses_heap w1 = uses_heap w" using A uses_heap_same_conn by blast
  have op: "only_pages w s s2" using A B only_pages_trans by (metis only_pages_cong [OF u1])
  note oe = only_pages_eqs [OF op]
  have ix: "index_to w2 s2 i2 log'" using B by (simp add: log'_def)
  then have i2: "i2 = length log'" by (simp add: index_to_def)
  define h where "h = (if c then (hdr w2)\<lparr>hdr_szPage := size_field sz, mxFrame := i2, iChange := iChange (hdr w2) + 1, nPage := nT\<rparr>
     else (hdr w2)\<lparr>hdr_szPage := size_field sz, mxFrame := i2\<rparr>)"
  obtain w3 s3 where wh: "walIndexWriteHdr V (w2\<lparr>hdr := h\<rparr>) s2 = (w3, s3)"
    by (cases "walIndexWriteHdr V (w2\<lparr>hdr := h\<rparr>) s2")
  note H = walIndexWriteHdr_quiet [OF Q wh]
  have run: "w' = (if c then w3\<lparr>iCallback := i2\<rparr> else w2\<lparr>hdr := h\<rparr>)" "t = (if c then s3 else s2)"
      "n = Some (if c then if rs then i2 else i2 - mxFrame (hdr w2) else 0)"
    using r f1 f2 ok2 wh by (auto simp: frames_publish_def Let_def h_def split: if_splits)
  have hd': "hdr w' = (if c then sealed h else h)" using run(1) H(1) by simp
  have hf: "mxFrame h = i2" "aSalt h = aSalt (hdr w)" "bigEndCksum h = bigEndCksum (hdr w)" "aFrameCksum h = aFrameCksum (hdr w)"
    using cf(1) by (simp_all add: h_def)
  have u': "uses_heap w' = uses_heap w" using run(1) H(1) u by simp
  have pg': "pages w' t = pages w2 s2"
    using run H(1,2) by (cases c) (simp_all add: pages_def mem_def uses_heap_def)
  show "\<exists>lg. wi_repr (pages w' t) lg \<and> length log' \<le> length lg \<and> take (length log') lg = log'"
    using ix i2 unfolding pg' index_to_def by blast
  show "mxFrame (hdr w') = length log'" by (simp add: hd' hf i2)
  show "walFile t = walFile s" "dbFile t = dbFile s" using run(2) H(3,4) oe by simp_all
  show "szPage w' = szPage w \<and> iReCksum w' = iReCksum w \<and> aSalt (hdr w') = aSalt (hdr w) \<and>
       bigEndCksum (hdr w') = bigEndCksum (hdr w) \<and> aFrameCksum (hdr w') = aFrameCksum (hdr w) \<and>
       nCkpt w' = nCkpt w \<and> uses_heap w' = uses_heap w"
  proof -
    have "nCkpt w2 = nCkpt w" by (subst c2 [unfolded same_conn_def]) simp
    then show ?thesis using u' cf run(1) H(1) by (simp add: hd' hf)
  qed
  show "walIndexHdr w t = (if c then hdr w' else walIndexHdr w s)"
  proof (cases c)
    case True
    have "aHdr0 (mem w2 t) = sealed h" using run(2) H(2) True by (simp add: mem_def)
    then show ?thesis using True u by (simp add: walIndexHdr_def hd' mem_def)
  next
    case False
    then show ?thesis using run(2) oe(3) by (simp add: walIndexHdr_def)
  qed
  show "c \<Longrightarrow> nPage (hdr w') = nT \<and> (\<exists>h. hdr w' = sealed h)" by (auto simp: hd' h_def)
  show "n = Some (if c then if rs then length log' else length log' - length log else 0)"
    using run(3) i2 cf(1) I(1) by (simp add: index_to_def)
  show "hdr_szPage (hdr w') = size_field sz" by (simp add: hd' h_def)
  show "walCkptInfo w t = walCkptInfo w s"
  proof (cases c)
    case True
    have "ckptInfo (mem w2 t) = ckptInfo (mem w2 s2)" using run(2) H(2) True by (simp add: mem_def uses_heap_def)
    then show ?thesis using u oe(5) by (simp add: walCkptInfo_def mem_def)
  next
    case False
    then show ?thesis using run(2) oe(5) by (simp add: walCkptInfo_def)
  qed
qed

section \<open>Committing\<close>

text \<open>The state of a writer: its header counts the frames of the log, the file holds them, and
  the index leads to them.\<close>

definition indexed :: "Wal \<Rightarrow> 'x world \<Rightarrow> log_page list \<Rightarrow> bool" where
  "indexed w s ps \<longleftrightarrow> mxFrame (hdr w) = length ps \<and>
     (\<exists>lg. wi_repr (pages w s) lg \<and> length ps \<le> length lg \<and> take (length ps) lg = map fst ps)"

definition writer_inv :: "Wal \<Rightarrow> 'x world \<Rightarrow> log_page list \<Rightarrow> bool" where
  "writer_inv w s ps \<longleftrightarrow> indexed w s ps \<and>
     (if ps = [] then iReCksum w = 0 \<and> (nCkpt w \<noteq> 0 \<longrightarrow> length (aSalt (hdr w)) = 8)
      else log_inv w (walFile s) ps)"

text \<open>What a call of \<^verbatim>\<open>walFrames\<close> does to the log \<open>ps\<close>, of which \<open>m\<close> frames are committed.\<close>

definition log_step ::
  "nat \<Rightarrow> log_page list \<Rightarrow> PgHdr list \<Rightarrow> u32 \<Rightarrow> bool \<Rightarrow> log_page list \<Rightarrow> bool" where
  "log_step m ps qs nT c ps' \<longleftrightarrow> take m ps' = take m ps \<and>
     log_view (drop m ps') = log_view (drop m ps) ++ page_map qs \<and>
     (c \<longrightarrow> last ps' = (pgno (last qs), nT, pData (last qs)) \<and> ps' \<noteq> []) \<and>
     (uncommitted m ps \<longrightarrow> (\<exists>q e. uncommitted m q \<and> (c \<longleftrightarrow> 0 < e) \<and>
        ps' = q @ replicate e (pgno (last qs), nT, pData (last qs))))"

lemma log_view_split: "log_view ps = log_view (take m ps) ++ log_view (drop m ps)"
  using log_view_append [of "take m ps" "drop m ps"] by simp

lemma log_step_view: "log_step m ps qs nT c ps' \<Longrightarrow> log_view ps' = log_view ps ++ page_map qs"
  using log_view_split [of ps m] log_view_split [of ps' m] by (simp add: log_step_def)

text \<open>The middle of \<^verbatim>\<open>walFrames\<close>: everything that writes to the log file.\<close>

lemma frames_log_OK:
  assumes Q: "vfs_quiet V" and F: "vfs_files V"
    and w1: "frames_write qs V ww iFirst nT c (length ps) (walFrameOffset (length ps + 1) (szPage w)) None w s =
      (SQLITE_OK, qs1, iFrame, off, pl, w1, s1)"
    and w2: "(if c \<and> iReCksum w1 \<noteq> 0 then walRewriteChecksums V w1 iFrame s1 else (SQLITE_OK, w1, s1)) =
      (SQLITE_OK, w2, s2)"
    and w3: "(if c \<and> fl \<noteq> 0 then frames_sync V ww pl nT off w2 s2 else (False, SQLITE_OK, 0, w2, s2)) =
      (False, SQLITE_OK, e, w3, s3)"
    and I: "log_inv w (walFile s) ps" "to_write w s ps qs" "ww_szPage ww = szPage w" "qs \<noteq> []"
    and m: "iFirst = 0 \<or> m < iFirst" "m \<le> length ps"
  shows "\<exists>ps'. log_step m ps qs nT c ps' \<and> log_inv w3 (walFile s3) ps' \<and> only_log s s3 \<and> same_writer w w3 \<and>
    (c \<longrightarrow> iReCksum w3 = 0) \<and> length ps' = iFrame + e \<and>
    map fst ps' = map fst ps @ map pgno (filter wal_append qs1) @ replicate e (pgno (last qs)) \<and>
    (e \<noteq> 0 \<longrightarrow> (\<exists>p. pl = Some p \<and> pgno p = pgno (last qs)))"
proof -
  obtain ps1 where P: "written m nT c qs ps qs1 ps1" "log_inv w1 (walFile s1) ps1" "iFrame = length ps1"
      "off = walFrameOffset (length ps1 + 1) (szPage w)" "only_log s s1" "same_writer w w1"
      "if c \<and> qs \<noteq> [] then map_option (\<lambda>p. (pgno p, pData p)) pl = Some (pgno (last qs), pData (last qs))
       else qs = [] \<longrightarrow> pl = None"
    using frames_write_OK [OF Q F w1 I(1-3) m] by blast
  note W = P(1) [unfolded written_def]
  have R: "log_inv w2 (walFile s2) ps1" "only_log s1 s2" "same_writer w1 w2" "c \<longrightarrow> iReCksum w2 = 0"
  proof -
    have "log_inv w2 (walFile s2) ps1 \<and> only_log s1 s2 \<and> same_writer w1 w2 \<and> (c \<longrightarrow> iReCksum w2 = 0)"
    proof (cases "c \<and> iReCksum w1 \<noteq> 0")
      case True
      then have "walRewriteChecksums V w1 (length ps1) s1 = (SQLITE_OK, w2, s2)" using w2 P(3) by simp
      from walRewriteChecksums_OK [OF Q F this P(2)] True show ?thesis by simp
    qed (use w2 P(2) in auto)
    then show "log_inv w2 (walFile s2) ps1" "only_log s1 s2" "same_writer w1 w2" "c \<longrightarrow> iReCksum w2 = 0" by simp_all
  qed
  note s2 = same_writer_trans [OF P(6) R(3)] and o2 = only_log_trans [OF P(5) R(2)]
  show ?thesis
  proof (cases "c \<and> fl \<noteq> 0")
    case False
    then have "e = 0" "w3 = w2" "s3 = s2" using w3 by auto
    moreover have "uncommitted m ps \<longrightarrow> (\<exists>q e. uncommitted m q \<and> (c \<longleftrightarrow> 0 < e) \<and>
        ps1 = q @ replicate e (pgno (last qs), nT, pData (last qs)))"
    proof
      assume "uncommitted m ps"
      then obtain q where q: "uncommitted m q"
          "ps1 = q @ (if c then [(pgno (last qs), nT, pData (last qs))] else [])"
        using W I(4) by auto
      then show "\<exists>q e. uncommitted m q \<and> (c \<longleftrightarrow> 0 < e) \<and> ps1 = q @ replicate e (pgno (last qs), nT, pData (last qs))"
        by (intro exI [of _ q] exI [of _ "if c then 1 else 0"]) simp
    qed
    ultimately show ?thesis using W R s2 o2 I(4) P(3) by (intro exI [of _ ps1]) (simp add: log_step_def)
  next
    case True
    then obtain p where p: "pl = Some p" "pgno p = pgno (last qs)" "pData p = pData (last qs)"
      using P(7) I(4) by auto
    have ok: "page_ok (szPage w2) p"
      using I(2,4) p same_writer_fields(1) [OF s2] by (simp add: to_write_def page_ok_def)
    let ?x = "(pgno p, nT, pData p)"
    have fs: "frames_sync V ww (Some p) nT off w2 s2 = (False, SQLITE_OK, e, w3, s3)" using w3 True p(1) by simp
    have S: "log_inv w3 (walFile s3) (ps1 @ replicate e ?x)" "only_log s2 s3" "same_writer w2 w3" "iReCksum w3 = iReCksum w2"
      using frames_sync_OK [OF Q F fs R(1) _ _ ok] P(4) I(3) same_writer_fields(1) [OF s2] by simp_all
    have l: "last ps1 = ?x" "ps1 \<noteq> []" using W True I(4) p by simp_all
    then have b: "ps1 = butlast ps1 @ [?x]" by (metis append_butlast_last_id)
    have "log_view (drop m (ps1 @ replicate e ?x)) = log_view (drop m ps1)"
    proof -
      have "page_map qs (pgno (last qs)) \<noteq> None"
        using I(4) by (simp add: page_map_def map_of_eq_None_iff image_image)
      moreover have "log_view (drop m ps1) = log_view (drop m ps) ++ page_map qs" using W by blast
      ultimately have "log_view (drop m ps1) (pgno (last qs)) \<noteq> None" by (simp add: map_add_None)
      then have ne: "drop m ps1 \<noteq> []" by (metis log_view_Nil)
      then have "last (drop m ps1) = ?x" using l by (simp add: last_drop)
      then obtain zs where zs: "drop m ps1 = zs @ [?x]" using ne append_butlast_last_id [of "drop m ps1"] by metis
      moreover have "drop m (ps1 @ replicate e ?x) = drop m ps1 @ replicate e ?x" using ne by simp
      ultimately show ?thesis using log_view_repeat [of zs ?x e] by simp
    qed
    moreover have "take m (ps1 @ replicate e ?x) = take m ps"
    proof -
      have "length ps \<le> length ps1" using W by (metis length_append length_map le_add1)
      then show ?thesis using W m(2) by simp
    qed
    moreover have "last (ps1 @ replicate e ?x) = ?x" using l by (cases e) (simp_all add: last_replicate del: replicate_Suc)
    moreover have "uncommitted m ps \<longrightarrow> (\<exists>q k. uncommitted m q \<and> (c \<longleftrightarrow> 0 < k) \<and> ps1 @ replicate e ?x = q @ replicate k ?x)"
    proof
      assume "uncommitted m ps"
      then obtain q where q: "uncommitted m q" "ps1 = q @ [?x]" using W I(4) True p by auto
      then show "\<exists>q k. uncommitted m q \<and> (c \<longleftrightarrow> 0 < k) \<and> ps1 @ replicate e ?x = q @ replicate k ?x"
        using True by (intro exI [of _ q] exI [of _ "Suc e"]) simp
    qed
    ultimately show ?thesis
      using S W R(4) True p l P(3) only_log_trans [OF o2 S(2)] same_writer_trans [OF s2 S(3)]
      by (intro exI [of _ "ps1 @ replicate e ?x"]) (simp add: log_step_def)
  qed
qed

lemma indexed_to_write:
  assumes "indexed w s ps" "\<forall>q\<in>set qs. page_ok (szPage w) q" "distinct (map pgno qs)"
  shows "to_write w s ps qs" "index_to w s (mxFrame (hdr w)) (map fst ps)"
  using assms by (auto simp: indexed_def to_write_def index_to_def)

lemma frames_write_pgno:
  "frames_write qs V ww iFirst nT c i off pl w s = (rc, qs', r) \<Longrightarrow> map pgno qs' = map pgno qs"
proof (induction qs arbitrary: i off pl w s qs' rc r)
  case (Cons p qs)
  then show ?case
    by (auto simp: Let_def libsql_pager_codec_def split: prod.splits if_splits dest!: Cons.IH)
qed simp

lemma frames_body_OK:
  assumes Q: "vfs_quiet V" and F: "vfs_files V" and U: "vfs_truncate V"
    and r: "frames_body V w sz qs nT c fl rs iFirst s = (SQLITE_OK, n, qs', w', t)"
    and I: "log_inv w (walFile s) ps" "indexed w s ps"
    and P: "\<forall>q\<in>set qs. page_ok sz q" "distinct (map pgno qs)" "qs \<noteq> []"
    and m: "iFirst = 0 \<or> m < iFirst" "m \<le> length ps"
  shows "\<exists>ps'. log_step m ps qs nT c ps' \<and> log_inv w' (walFile t) ps' \<and> indexed w' t ps' \<and> dbFile t = dbFile s \<and>
    uses_heap w' = uses_heap w \<and> (c \<longrightarrow> iReCksum w' = 0 \<and> nPage (hdr w') = nT \<and> (\<exists>h. hdr w' = sealed h)) \<and>
    walIndexHdr w t = (if c then hdr w' else walIndexHdr w s) \<and>
    n = Some (if c then if rs then length ps' else length ps' - length ps else 0) \<and>
    walCkptInfo w t = walCkptInfo w s \<and> hdr_szPage (hdr w') = size_field sz \<and> szPage w' = sz"
proof -
  define ww where "ww = \<lparr>iSyncPoint = 0, syncFlags = fl, ww_szPage = sz\<rparr>"
  have sz: "szPage w = sz" using r by (auto simp: frames_body_def split: if_splits)
  have mx: "mxFrame (hdr w) = length ps" using I(2) by (simp add: indexed_def)
  note TI = indexed_to_write [OF I(2) P(1) [folded sz] P(2)]
  let ?f = "frames_write qs V ww iFirst nT c (length ps) (walFrameOffset (length ps + 1) (szPage w)) None w s"
  obtain rc1 qs1 iFrame off pl w1 s1 where f1: "?f = (rc1, qs1, iFrame, off, pl, w1, s1)" by (cases ?f)
  let ?g = "if c \<and> iReCksum w1 \<noteq> 0 then walRewriteChecksums V w1 iFrame s1 else (SQLITE_OK, w1, s1)"
  obtain rc2 w2 s2 where f2: "?g = (rc2, w2, s2)" by (cases ?g)
  let ?h = "if c \<and> WAL_SYNC_FLAGS fl \<noteq> 0 then frames_sync V ww pl nT off w2 s2 else (False, SQLITE_OK, 0, w2, s2)"
  obtain ret rc3 e w3 s3 where f3: "?h = (ret, rc3, e, w3, s3)" by (cases ?h)
  define lim where "lim = (if int (walFrameOffset (iFrame + e + 1) sz) > mxWalSize w3
    then int (walFrameOffset (iFrame + e + 1) sz) else mxWalSize w3)"
  define tr where "tr = (c \<and> truncateOnCommit w3 \<and> mxWalSize w3 \<ge> 0)"
  define w4 where "w4 = (if tr then w3\<lparr>truncateOnCommit := False\<rparr> else w3)"
  define s4 where "s4 = (if tr then walLimitSize V lim s3 else s3)"
  obtain rc5 n5 w5 s5 where f5: "frames_publish V w4 sz qs1 nT c rs pl e rc3 s4 = (rc5, n5, w5, s5)"
    by (cases "frames_publish V w4 sz qs1 nT c rs pl e rc3 s4")
  have p4: "(if c \<and> truncateOnCommit w3 \<and> mxWalSize w3 \<ge> 0
      then (w3\<lparr>truncateOnCommit := False\<rparr>, walLimitSize V (if int (walFrameOffset (iFrame + e + 1) sz) > mxWalSize w3
        then int (walFrameOffset (iFrame + e + 1) sz) else mxWalSize w3) s3)
      else (w3, s3)) = (w4, s4)"
    by (simp add: w4_def s4_def tr_def lim_def)
  have run: "rc1 = SQLITE_OK" "rc2 = SQLITE_OK" "\<not> ret" "rc5 = SQLITE_OK" "n = n5" "w' = w5" "t = s5"
  proof -
    have *: "(if rc1 \<noteq> SQLITE_OK then (rc1, None, qs1, w1, s1) else if rc2 \<noteq> SQLITE_OK then (rc2, None, qs1, w2, s2)
        else if ret then (rc3, None, qs1, w3, s3) else (rc5, n5, qs1, w5, s5)) = (SQLITE_OK, n, qs', w', t)"
      using r f1 f2 f3 f5 p4 unfolding frames_body_def Let_def ww_def [symmetric] mx
      by (simp add: sz cong: if_cong)
    have "ret \<Longrightarrow> rc3 \<noteq> SQLITE_OK"
      using f3 by (auto simp: frames_sync_def Let_def split: if_splits prod.splits)
    then show "rc1 = SQLITE_OK" "rc2 = SQLITE_OK" "\<not> ret" "rc5 = SQLITE_OK" "n = n5" "w' = w5" "t = s5"
      using * by (auto split: if_splits)
  qed
  have ok3: "rc3 = SQLITE_OK"
  proof (rule ccontr)
    assume "rc3 \<noteq> SQLITE_OK"
    moreover from this have "frames_index qs1 V i rc3 w s = (rc3, i, w, s)" for i w and s :: "'a world"
      by (cases qs1) simp_all
    moreover from calculation have "extra_index e V g i rc3 w s = (rc3, i, w, s)" for g i w and s :: "'a world"
      by (cases e) simp_all
    ultimately show False using f5 run(4) by (auto simp: frames_publish_def split: option.splits)
  qed
  obtain ps' where L: "log_step m ps qs nT c ps'" "log_inv w3 (walFile s3) ps'" "only_log s s3" "same_writer w w3"
      "c \<longrightarrow> iReCksum w3 = 0" "length ps' = iFrame + e"
      "map fst ps' = map fst ps @ map pgno (filter wal_append qs1) @ replicate e (pgno (last qs))"
      "e \<noteq> 0 \<longrightarrow> (\<exists>p. pl = Some p \<and> pgno p = pgno (last qs))"
    using frames_log_OK [OF Q F f1 [unfolded run] f2 [unfolded run] f3 [unfolded run(3) ok3, simplified run(3)]
        I(1) TI(1) _ P(3) m] run(3) by (auto simp: ww_def sz)
  have sz3: "szPage w3 = sz" using same_writer_fields(1) [OF L(4)] sz by simp
  have L4: "log_inv w4 (walFile s4) ps' \<and> only_log s3 s4"
  proof (cases tr)
    case True
    have "int (walFrameOffset (length ps' + 1) (szPage w3)) \<le> lim" by (simp add: lim_def sz3 L(6))
    from walLimitSize_inv [OF Q F U L(2) this] True log_inv_cong [of w4 w3]
    show ?thesis by (simp add: w4_def s4_def)
  qed (use L(2) in \<open>simp add: w4_def s4_def\<close>)
  have o4: "only_log s s4" using only_log_trans L(3) L4 by blast
  note wf3 = same_writer_fields [OF L(4)]
  have w4: "mxFrame (hdr w4) = length ps" "uses_heap w4 = uses_heap w" "iReCksum w4 = iReCksum w3"
    "szPage w4 = szPage w3"
    using wf3(2,3) mx by (simp_all add: w4_def)
  have pg4: "pages w4 s4 = pages w s" using wf3(10) only_log_eqs(5) [OF o4] by (simp add: w4_def)
  have ix: "index_to w4 s4 (mxFrame (hdr w4)) (map fst ps)"
    using TI(2) unfolding index_to_def w4(1) mx pg4 by simp
  have q0: "\<forall>q\<in>set qs1. pgno q \<noteq> 0" "pgno (last qs) \<noteq> 0"
    using frames_write_pgno [OF f1] P(1,3) unfolding page_ok_def by (metis image_iff list.set_map last_in_set)+
  note B = frames_publish_OK [OF Q f5 [unfolded run(4) ok3] ix q0(1) L(8) q0(2), folded L(7)]
  have fin: "log_inv w' (walFile t) ps'" using L4 B(3,5) log_inv_cong [of w' w4] run by simp
  have "indexed w' t ps'" using B(1,2) run by (simp add: indexed_def)
  moreover have "walIndexHdr w t = (if c then hdr w' else walIndexHdr w s)"
    using B(6) run w4(2) only_log_eqs(4) [OF o4, of w] by (simp add: walIndexHdr_def mem_def)
  moreover have "walCkptInfo w t = walCkptInfo w s"
    using B(9) run w4(2) only_log_eqs(4) [OF o4, of w] by (simp add: walCkptInfo_def mem_def)
  ultimately show ?thesis
    using L(1,5) fin B(4,5,7,8,10) run w4 sz3 only_log_eqs(1) [OF o4] by (intro exI [of _ ps']) simp
qed

lemma chained_valid:
  assumes "chained w f (Suc k)"
  shows "chained w f k" "frame_valid (bigEndCksum (hdr w) = SQLITE_BIGENDIAN) (szPage w) (aSalt (hdr w))
    (chain_sum w f k) (frame_at f (szPage w) (Suc k))"
proof -
  show c: "chained w f k" using chained_le [OF assms] by simp
  have "length (fscan w f (k + 1)) = Suc k" using assms by (simp add: chained_def)
  then show "frame_valid (bigEndCksum (hdr w) = SQLITE_BIGENDIAN) (szPage w) (aSalt (hdr w))
      (chain_sum w f k) (frame_at f (szPage w) (Suc k))"
    using c unfolding fscan_add [OF c] by (auto simp: chained_def Let_def split: if_splits)
qed

text \<open>A scan reads the pages of the log.\<close>

lemma fscan_raw:
  "chained w f k \<Longrightarrow> map (\<lambda>(pg, n, ck). (pg, n)) (fscan w f k) = map (\<lambda>(pg, n, d). (pg, n)) (log_raw f (szPage w) k)"
proof (induction k)
  case (Suc k)
  note V = chained_valid [OF Suc.prems]
  show ?case
    using Suc.IH [OF V(1)] unfolding chained_Suc(3) [OF V] log_raw_Suc
    by (simp add: frame_info_def raw_at_def Let_def)
qed (simp add: fscan_def log_raw_def)

lemma log_inv_scan:
  assumes I: "log_inv w f ps" "iReCksum w = 0" "ps \<noteq> []"
  shows "\<exists>rest. log_scan f = fscan w f (length ps) @ rest"
    "map (\<lambda>(pg, n, ck). (pg, n)) (fscan w f (length ps)) = map (\<lambda>(pg, n, d). (pg, n)) ps"
    "length (fscan w f (length ps)) = length ps" "aFrameCksum (hdr w) = snd (snd (last (fscan w f (length ps))))"
proof -
  define n where "n = length ps"
  define b where "b = take 32 f"
  define N where "N = (length f - 32) div (szPage w + 24)"
  have c: "chained w f n" "aFrameCksum (hdr w) = chain_sum w f n" "log_raw f (szPage w) n = ps"
    "walFrameOffset (n + 1) (szPage w) \<le> length f"
    using I by (simp_all add: log_inv_def n_def)
  have h: "log_header_ok b" "log_sz b = szPage w" "log_native b = (bigEndCksum (hdr w) = SQLITE_BIGENDIAN)"
    "take 8 (drop 16 b) = aSalt (hdr w)"
    using I(1) by (simp_all add: log_inv_def log_hd_def Let_def b_def)
  have sp: "n * (szPage w + 24) \<le> length f - 32" using c(4) by (simp add: walFrameOffset_def)
  then have le: "n \<le> N" by (simp add: N_def less_eq_div_iff_mult_less_eq)
  have "0 < n * (szPage w + 24)" using I(3) by (simp add: n_def)
  then have "32 < length f" using sp by linarith
  then have "log_scan f = fscan w f (n + (N - n))"
    using h le by (simp add: log_scan_def Let_def b_def [symmetric] fscan_def N_def)
  then show "\<exists>rest. log_scan f = fscan w f (length ps) @ rest"
    unfolding fscan_add [OF c(1)] n_def [symmetric] by blast
  show "map (\<lambda>(pg, n, ck). (pg, n)) (fscan w f (length ps)) = map (\<lambda>(pg, n, d). (pg, n)) ps"
    using fscan_raw [OF c(1)] c(3) by (simp add: n_def)
  show l: "length (fscan w f (length ps)) = length ps" using c(1) by (simp add: chained_def n_def)
  show "aFrameCksum (hdr w) = snd (snd (last (fscan w f (length ps))))"
    using c(2) l I(3) by (auto simp: chain_sum_def scan_sum_def n_def)
qed

lemma walFrames_OK:
  assumes Q: "vfs_quiet V" and F: "vfs_files V" and R: "vfs_random V" and U: "vfs_truncate V"
    and r: "walFrames V w sz qs nT c fl s = (SQLITE_OK, n, qs', w', t)"
    and I: "writer_inv w s ps" "mxFrame (walIndexHdr w s) \<le> length ps"
      "readLock w = 0 \<Longrightarrow> hdr w = walIndexHdr w s \<and> iReCksum w = 0"
    and P: "page_size_ok sz" "\<forall>q\<in>set qs. page_ok sz q" "distinct (map pgno qs)" "qs \<noteq> []"
  shows "\<exists>rs ps'. (rs \<longrightarrow> readLock w = 0 \<and> 0 < nBackfill (walCkptInfo w s)) \<and>
    log_step (if rs then 0 else mxFrame (walIndexHdr w s)) (if rs then [] else ps) qs nT c ps' \<and>
    indexed w' t ps' \<and> log_inv w' (walFile t) ps' \<and> dbFile t = dbFile s \<and>
    (c \<longrightarrow> iReCksum w' = 0 \<and> nPage (hdr w') = nT \<and> (\<exists>h. hdr w' = sealed h) \<and> walIndexHdr w' t = hdr w') \<and>
    (\<not> c \<and> \<not> rs \<longrightarrow> walIndexHdr w' t = walIndexHdr w s) \<and>
    n = Some (if c then if rs then length ps' else length ps' - length ps else 0) \<and>
    nBackfill (walCkptInfo w' t) = (if rs then 0 else nBackfill (walCkptInfo w s)) \<and> hdr_szPage (hdr w') = size_field sz \<and>
    szPage w' = sz \<and> uses_heap w' = uses_heap w"
proof -
  define iFirst where "iFirst = (if hdr w \<noteq> walIndexHdr w s then mxFrame (walIndexHdr w s) + 1 else 0)"
  obtain rc1 rs w1 s1 where f1: "walRestartLog V w s = (rc1, rs, w1, s1)" by (cases "walRestartLog V w s")
  obtain rc2 w2 s2 where f2: "frames_header V w1 sz fl s1 = (rc2, w2, s2)" by (cases "frames_header V w1 sz fl s1")
  have run: "rc1 = SQLITE_OK" "rc2 = SQLITE_OK"
    "frames_body V w2 sz qs nT c fl rs iFirst s2 = (SQLITE_OK, n, qs', w', t)"
    using r f1 f2 by (auto simp: walFrames_def Let_def iFirst_def split: if_splits)
  note S = walRestartLog_spec [OF Q R f1 [unfolded run(1)]]
  define base where "base = (if rs then [] else ps)"
  have u1: "uses_heap w1 = uses_heap w" and ck1: "iReCksum w1 = iReCksum w"
    using S(1) same_reader_fields by (auto simp: restarted_conn_def split: if_splits)
  have B1: "writer_inv w1 s1 base"
  proof (cases rs)
    case True
    then obtain salt1 where "length salt1 = 4" "hdr w1 = restarted_hdr (hdr w) salt1"
      using S(1) same_reader_fields(1) by (auto simp: restarted_conn_def)
    then show ?thesis
      using True S(6) I(3) ck1 by (auto simp: writer_inv_def indexed_def base_def restarted_hdr_def intro: exI [of _ "[]"])
  next
    case False
    then have sr: "same_reader w w1" using S(1) by (simp add: restarted_conn_def)
    note f = same_reader_fields [OF sr]
    have "log_inv w1 g ps = log_inv w g ps" for g using f by (intro log_inv_cong) simp_all
    then show ?thesis
      using I(1) False S(2,4) f(1,3,5) f(6) [of s1] by (simp add: writer_inv_def indexed_def base_def)
  qed
  have B2: "log_inv w2 (walFile s2) base" "indexed w2 s2 base" "only_log s1 s2" "uses_heap w2 = uses_heap w1"
  proof -
    have "log_inv w2 (walFile s2) base \<and> indexed w2 s2 base \<and> only_log s1 s2 \<and> uses_heap w2 = uses_heap w1"
    proof (cases "base = []")
      case True
      then have b: "mxFrame (hdr w1) = 0" "iReCksum w1 = 0" "nCkpt w1 \<noteq> 0 \<Longrightarrow> length (aSalt (hdr w1)) = 8"
        using B1 by (simp_all add: writer_inv_def indexed_def)
      note H = frames_header_new [OF Q F R f2 [unfolded run(2)] b(1) b(3) b(2) P(1)]
      obtain a b' c' where "w2 = w1\<lparr>szPage := sz, truncateOnCommit := True,
          hdr := (hdr w1)\<lparr>aSalt := a, bigEndCksum := b', aFrameCksum := c'\<rparr>\<rparr>"
        using H(4) by blast
      then show ?thesis using H(1,2) True b(1) by (auto simp: indexed_def intro: exI [of _ "[]"])
    next
      case False
      then have "mxFrame (hdr w1) \<noteq> 0" using B1 by (simp add: writer_inv_def indexed_def)
      then have "w2 = w1" "s2 = s1" using f2 by (auto simp: frames_header_def)
      then show ?thesis using B1 False by (simp add: writer_inv_def)
    qed
    then show "log_inv w2 (walFile s2) base" "indexed w2 s2 base" "only_log s1 s2" "uses_heap w2 = uses_heap w1"
      by simp_all
  qed
  define m where "m = (if rs then 0 else mxFrame (walIndexHdr w s))"
  have m: "iFirst = 0 \<or> m < iFirst" "m \<le> length base"
    using I(2,3) S(6) by (auto simp: iFirst_def m_def base_def)
  obtain ps' where E: "log_step m base qs nT c ps'" "log_inv w' (walFile t) ps'" "indexed w' t ps'"
      "dbFile t = dbFile s2" "uses_heap w' = uses_heap w2"
      "c \<longrightarrow> iReCksum w' = 0 \<and> nPage (hdr w') = nT \<and> (\<exists>h. hdr w' = sealed h)"
      "walIndexHdr w2 t = (if c then hdr w' else walIndexHdr w2 s2)"
      "n = Some (if c then if rs then length ps' else length ps' - length base else 0)"
      "walCkptInfo w2 t = walCkptInfo w2 s2" "hdr_szPage (hdr w') = size_field sz" "szPage w' = sz"
    using frames_body_OK [OF Q F U run(3) B2(1,2) P(2-4) m] by blast
  have u': "uses_heap w' = uses_heap w" using E(5) B2(4) u1 by simp
  have "walIndexHdr w2 s2 = walIndexHdr w s1"
    using only_log_eqs(4) [OF B2(3), of w2] B2(4) u1 by (simp add: walIndexHdr_def mem_def)
  then have live: "walIndexHdr w' t = (if c then hdr w' else if rs then hdr w1 else walIndexHdr w s)"
    using E(5,7) S(5) by (auto simp: walIndexHdr_def mem_def)
  have "walCkptInfo w' t = walCkptInfo w s1"
    using E(9) only_log_eqs(4) [OF B2(3), of w2] u' B2(4) u1 by (simp add: walCkptInfo_def mem_def)
  then show ?thesis
    using E(1-4,6,8,10,11) live S(3,6,7) only_log_eqs(1) [OF B2(3)] u'
    by (intro exI [of _ rs] exI [of _ ps']) (auto simp: m_def base_def)
qed

section \<open>Properties\<close>

text \<open>C4. \<^verbatim>\<open>sqlite3WalFrames\<close> refines an update of an abstract log of pages. When it succeeds the log
  file holds a log in which every page written has its new data and every other page
  the data it had (or none, when the log was restarted, which happens only when all
  of it had been checkpointed and no reader uses it); the frames committed before are
  untouched, so that readers of older snapshots keep theirs; header and wal-index
  describe the new log. A commit publishes the header, ends with a commit frame of the given
  database size (repeated as padding), no earlier frame of the transaction being marked as one, and
  leaves no checksum to be recomputed; a spill leaves the published
  header as it was. The count reported for a commit is that of the frames of
  this call alone.\<close>

theorem sqlite3WalFrames_log:
  assumes "vfs_quiet V" "vfs_files V" "vfs_random V" "vfs_truncate V"
    and "sqlite3WalFrames V w sz qs nT c fl s = (SQLITE_OK, n, qs', w', t)"
    and "writer_inv w s ps" "mxFrame (walIndexHdr w s) \<le> length ps"
    and "readLock w = 0 \<Longrightarrow> hdr w = walIndexHdr w s \<and> iReCksum w = 0"
    and "page_size_ok sz" "\<forall>q\<in>set qs. page_ok sz q" "distinct (map pgno qs)" "qs \<noteq> []"
  shows "\<exists>rs ps'. (rs \<longrightarrow> readLock w = 0 \<and> 0 < nBackfill (walCkptInfo w s)) \<and>
    log_step (if rs then 0 else mxFrame (walIndexHdr w s)) (if rs then [] else ps) qs nT c ps' \<and>
    indexed w' t ps' \<and> log_inv w' (walFile t) ps' \<and> dbFile t = dbFile s \<and>
    (c \<longrightarrow> iReCksum w' = 0 \<and> nPage (hdr w') = nT \<and> (\<exists>h. hdr w' = sealed h) \<and> walIndexHdr w' t = hdr w') \<and>
    (\<not> c \<and> \<not> rs \<longrightarrow> walIndexHdr w' t = walIndexHdr w s) \<and>
    n = Some (if c then if rs then length ps' else length ps' - length ps else 0) \<and>
    nBackfill (walCkptInfo w' t) = (if rs then 0 else nBackfill (walCkptInfo w s)) \<and> hdr_szPage (hdr w') = size_field sz \<and>
    szPage w' = sz \<and> uses_heap w' = uses_heap w"
  using walFrames_OK [OF assms(1-4) assms(5) [unfolded sqlite3WalFrames_def] assms(6-12)] .

lemma committed_none: "(\<forall>x\<in>set sc. fst (snd x) = 0) \<Longrightarrow> committed sc = []"
  by (induction sc rule: rev_induct) (auto simp: committed_snoc)

text \<open>What recovery gets to see of a log that ends with a commit: the log, and behind it at most
  frames that continue its chain of checksums.\<close>

lemma log_inv_committed:
  assumes I: "log_inv w f ps" "iReCksum w = 0" "ps \<noteq> []" and "fst (snd (last ps)) = nT" "nT \<noteq> 0"
  shows "take (length ps) (map fst (log_scan f)) = map fst ps" "length ps \<le> length (committed (log_scan f))"
    "(\<forall>x\<in>set (drop (length ps) (log_scan f)). fst (snd x) = 0) \<Longrightarrow>
      length (committed (log_scan f)) = length ps \<and> snd (last (committed (log_scan f))) = (nT, aFrameCksum (hdr w))"
proof -
  define sc where "sc = fscan w f (length ps)"
  note S = log_inv_scan [OF I, folded sc_def]
  obtain rest where r: "log_scan f = sc @ rest" using S(1) by blast
  have ne: "sc \<noteq> []" using S(3) I(3) by auto
  have "(\<lambda>(pg, n, ck). (pg, n)) (last sc) = (\<lambda>(pg, n, d). (pg, n)) (last ps)"
    using arg_cong [OF S(2), of last] ne I(3) by (simp add: last_map)
  then have n: "fst (snd (last sc)) = nT" using assms(4) by (cases "last sc"; cases "last ps") simp
  then have com: "committed sc = sc"
    using committed_snoc [of "butlast sc" "last sc"] ne assms(5) by simp
  show "take (length ps) (map fst (log_scan f)) = map fst ps"
    using arg_cong [OF S(2), of "map fst"] S(3) r by (simp add: case_prod_beta comp_def)
  show "length ps \<le> length (committed (log_scan f))"
    using com S(3) unfolding r by (simp add: committed_append)
  show "length (committed (log_scan f)) = length ps \<and> snd (last (committed (log_scan f))) = (nT, aFrameCksum (hdr w))"
    if "\<forall>x\<in>set (drop (length ps) (log_scan f)). fst (snd x) = 0"
  proof -
    have "committed rest = []" using that r S(3) by (intro committed_none) simp
    then show ?thesis using com S(3,4) n r by (simp add: committed_append prod_eq_iff)
  qed
qed

text \<open>C2. Commits are durable. After a successful commit, recovery of the log file by any
  connection, with nothing but the file, recovers at least the frames up to the commit: its
  header reaches as far, its index starts with the pages of those frames, and
  their contents are the pages of the transaction over those the log had. What
  recovery may find beyond is only a frame that validly continues the log and is marked
  as a commit; unless the file has one, recovery stops exactly at the commit, with
  the database size and the checksum of the committer's header.\<close>

theorem sqlite3WalFrames_recover:
  assumes "vfs_quiet V" "vfs_files V" "vfs_random V" "vfs_truncate V"
    and "sqlite3WalFrames V w sz qs nT True fl s = (SQLITE_OK, n, qs', w', t)" "nT \<noteq> 0"
    and "writer_inv w s ps" "mxFrame (walIndexHdr w s) \<le> length ps"
    and "readLock w = 0 \<Longrightarrow> hdr w = walIndexHdr w s \<and> iReCksum w = 0"
    and "page_size_ok sz" "\<forall>q\<in>set qs. page_ok sz q" "distinct (map pgno qs)" "qs \<noteq> []"
    and "vfs_quiet V2" "vfs_files V2" "writeLock w2" "length (aReadMark (walCkptInfo w2 s2)) = 5"
    and "walFile s2 = walFile t" "walIndexRecover V2 w2 s2 = (SQLITE_OK, w3, t2)"
  defines "new \<equiv> log_raw (walFile t2) (szPage w') (mxFrame (hdr w'))"
  shows "mxFrame (hdr w') \<le> mxFrame (hdr w3) \<and>
    (\<exists>log. wi_repr (pages w3 t2) log \<and> mxFrame (hdr w3) \<le> length log \<and> take (mxFrame (hdr w')) log = map fst new) \<and>
    (log_view new = log_view ps ++ page_map qs \<or> (readLock w = 0 \<and> log_view new = page_map qs)) \<and>
    ((\<forall>x\<in>set (drop (mxFrame (hdr w')) (log_scan (walFile t))). fst (snd x) = 0) \<longrightarrow>
      mxFrame (hdr w3) = mxFrame (hdr w') \<and> nPage (hdr w3) = nT \<and> aFrameCksum (hdr w3) = aFrameCksum (hdr w'))"
proof -
  obtain rs ps' where W: "rs \<longrightarrow> readLock w = 0" "log_step (if rs then 0 else mxFrame (walIndexHdr w s))
        (if rs then [] else ps) qs nT True ps'" "indexed w' t ps'" "log_inv w' (walFile t) ps'" "iReCksum w' = 0"
    using walFrames_OK [OF assms(1-4) assms(5) [unfolded sqlite3WalFrames_def] assms(7-13)] by blast
  have ne: "ps' \<noteq> []" and last: "fst (snd (last ps')) = nT"
    and view: "log_view ps' = log_view (if rs then [] else ps) ++ page_map qs"
    using W(2) log_step_view [OF W(2)] by (simp_all add: log_step_def)
  define sc where "sc = log_scan (walFile t)"
  have mx: "mxFrame (hdr w') = length ps'" using W(3) by (simp add: indexed_def)
  note S = log_inv_committed [OF W(4,5) ne last assms(6), folded sc_def]
  have R: "mxFrame (hdr w3) = length (committed sc)" "wi_repr (pages w3 t2) (map fst sc)" "walFile t2 = walFile t"
      "committed sc \<noteq> [] \<Longrightarrow> (nPage (hdr w3), aFrameCksum (hdr w3)) = snd (last (committed sc))"
    using walIndexRecover_spec [OF assms(14-17,19)] assms(18) by (auto simp: sc_def)
  have le: "length (committed sc) \<le> length sc"
    using committed_prefix [of sc] by (metis le_add1 length_append)
  have new: "new = ps'" using W(4) R(3) mx by (simp add: new_def log_inv_def)
  have "committed sc \<noteq> []" using S(2) ne by auto
  then have "nPage (hdr w3) = nT \<and> aFrameCksum (hdr w3) = aFrameCksum (hdr w')"
    if "snd (last (committed sc)) = (nT, aFrameCksum (hdr w'))" using R(4) that by simp
  moreover have "\<exists>log. wi_repr (pages w3 t2) log \<and> mxFrame (hdr w3) \<le> length log \<and> take (length ps') log = map fst ps'"
    using R(1,2) S(1) le by (intro exI [of _ "map fst sc"]) simp
  ultimately show ?thesis
    using R(1) S(2,3) view W(1) unfolding mx new sc_def [symmetric] by (auto split: if_splits)
qed

text \<open>A commit of one page into an empty log.\<close>

definition page1 :: PgHdr where
  "page1 = \<lparr>pgno = 1, pData = replicate 512 9, wal_append = False\<rparr>"

definition conn1 :: Wal where
  "conn1 = wal_zero\<lparr>writeLock := True, readLock := 1, mxWalSize := - 1\<rparr>"

lemma plain_vfs_random: "vfs_random plain_vfs"
  by (simp add: vfs_random_def plain_vfs_def)

lemma plain_vfs_truncate: "vfs_truncate plain_vfs"
  by (simp add: vfs_truncate_def plain_vfs_def)

lemma plain_methods:
  "xWrite plain_vfs f b off s = (SQLITE_OK, set_file f (overwrite (fileOf f s) off b) s)"
  "sqlite3_randomness plain_vfs n s = (replicate n 0x5a, s)"
  by (simp_all add: plain_vfs_def)

lemma conn1_ok:
  "writer_inv conn1 (plain_world [] []) []" "mxFrame (walIndexHdr conn1 (plain_world [] [])) \<le> length ([] :: log_page list)"
  "readLock conn1 = 0 \<Longrightarrow> hdr conn1 = walIndexHdr conn1 (plain_world [] []) \<and> iReCksum conn1 = 0"
  "page_size_ok 512" "\<forall>q\<in>set [page1]. page_ok 512 q" "distinct (map pgno [page1])" "[page1] \<noteq> []"
  by (auto simp: page_size_ok_def conn1_def wal_zero_def hdr_zero_def writer_inv_def indexed_def page_ok_def page1_def plain_world_def
    walIndexHdr_def mem_def wshm_zero_def intro: exI [of _ "[]"])

lemma commit1:
  assumes p: "pgno p = 1" "length (pData p) = 512"
  shows "\<exists>n qs' w' t. sqlite3WalFrames plain_vfs conn1 512 [p] 1 True 0 (plain_world [] []) = (SQLITE_OK, n, qs', w', t) \<and>
     length (walFile t) = 568 \<and> walCkptInfo conn1 t = walCkptInfo conn1 (plain_world [] [])"
proof -
  let ?s = "plain_world [] []" and ?salt = "replicate 8 0x5a :: bytes"
  obtain b c where b: "aWalHdr 512 0 ?salt = (b, c)" by (cases "aWalHdr 512 0 ?salt")
  have lb: "length b = 32" using aWalHdr_ok(1) [OF b] by simp
  define w1 where "w1 = conn1\<lparr>szPage := 512, truncateOnCommit := True,
    hdr := hdr_zero\<lparr>aSalt := ?salt, bigEndCksum := SQLITE_BIGENDIAN, aFrameCksum := c\<rparr>\<rparr>"
  define s1 where "s1 = ?s\<lparr>walFile := b\<rparr>"
  have h: "frames_header plain_vfs conn1 512 0 ?s = (SQLITE_OK, w1, s1)"
    by (simp add: frames_header_def conn1_def wal_zero_def hdr_zero_def plain_methods b w1_def s1_def
        plain_world_def overwrite_def)
  obtain fr w2 where e: "walEncodeFrame w1 1 1 (pData p) = (fr, w2)"
    by (cases "walEncodeFrame w1 1 1 (pData p)")
  have w2: "w2 = w1\<lparr>hdr := (hdr w1)\<lparr>aFrameCksum := aFrameCksum (hdr w2)\<rparr>\<rparr>" by (rule walEncodeFrame_conn [OF e])
  have lf: "length fr = 24"
    using e by (auto simp: walEncodeFrame_def Let_def w1_def conn1_def wal_zero_def)
  define s2 where "s2 = s1\<lparr>walFile := overwrite (overwrite b 32 fr) 56 (pData p)\<rparr>"
  let ?ww = "\<lparr>iSyncPoint = 0, syncFlags = 0, ww_szPage = 512\<rparr>"
  have f: "frames_write [p] plain_vfs ?ww 0 1 True 0 32 None w1 s1 =
      (SQLITE_OK, [p\<lparr>wal_append := True\<rparr>], 1, 568, Some (p\<lparr>wal_append := True\<rparr>), w2, s2)"
    using e p by (simp add: Let_def walWriteOneFrame_def libsql_pager_codec_def walWriteToLog_def plain_methods s1_def s2_def)
  have mx: "mxFrame (hdr w1) = 0" "iReCksum w1 = 0" "mxWalSize w1 = - 1" "szPage w1 = 512"
    by (simp_all add: w1_def conn1_def hdr_zero_def wal_zero_def)
  have mx2: "mxFrame (hdr w2) = 0" "iReCksum w2 = 0" "mxWalSize w2 = - 1" using mx by (subst w2, simp)+
  obtain rc W w3 where ap: "walIndexAppend plain_vfs (pages w2 s2) w2 1 1 = (rc, W, w3)"
    by (cases "walIndexAppend plain_vfs (pages w2 s2) w2 1 1")
  have ok: "rc = SQLITE_OK"
    using append_repr [OF wi_repr_Nil ap] walHashGet_reliable [OF vfs_works_D(1) [OF plain_vfs_works], of w2 "walFramePage 1"]
    by simp
  define h3 where "h3 = (hdr w3)\<lparr>hdr_szPage := size_field 512, mxFrame := Suc 0, iChange := iChange (hdr w3) + 1, nPage := 1\<rparr>"
  obtain w5 s5 where wh: "walIndexWriteHdr plain_vfs (w3\<lparr>hdr := h3\<rparr>) (set_pages w3 W s2) = (w5, s5)"
    by (cases "walIndexWriteHdr plain_vfs (w3\<lparr>hdr := h3\<rparr>) (set_pages w3 W s2)")
  obtain n w4 s4 where pb: "frames_publish plain_vfs w2 512 [p\<lparr>wal_append := True\<rparr>] 1 True False
      (Some (p\<lparr>wal_append := True\<rparr>)) 0 SQLITE_OK s2 = (SQLITE_OK, n, w4, s4)"
    using ap ok mx2 wh p by (simp add: frames_publish_def Let_def h3_def)
  have ix: "index_to w2 s2 (mxFrame (hdr w2)) []" by (auto simp: index_to_def mx2 intro: exI [of _ "[]"])
  from frames_publish_OK(3) [OF plain_vfs_quiet pb ix, of 1] have "walFile s4 = walFile s2" using p by simp
  then have "length (walFile s4) = 568" using lb lf p by (simp add: s2_def)
  moreover have "walCkptInfo conn1 s4 = walCkptInfo conn1 ?s"
  proof -
    have "uses_heap w2 = uses_heap conn1" by (subst w2) (simp add: w1_def uses_heap_def)
    then show ?thesis
      using frames_publish_OK(9) [OF plain_vfs_quiet pb ix, of 1] p
      by (simp add: walCkptInfo_def mem_def s2_def s1_def)
  qed
  moreover have "hdr conn1 = walIndexHdr conn1 ?s" "walRestartLog plain_vfs conn1 ?s = (SQLITE_OK, False, conn1, ?s)"
    by (simp_all add: conn1_def wal_zero_def walIndexHdr_def mem_def plain_world_def wshm_zero_def walRestartLog_def)
  ultimately show ?thesis
    using h f pb mx mx2
    by (auto simp: sqlite3WalFrames_def walFrames_def frames_body_def Let_def WAL_SYNC_FLAGS_def walFrameOffset_def)
qed

theorem sqlite3WalFrames_log_witness:
  "\<exists>n qs' w' t ps'. sqlite3WalFrames plain_vfs conn1 512 [page1] 1 True 0 (plain_world [] []) = (SQLITE_OK, n, qs', w', t) \<and>
     indexed w' t ps' \<and> log_inv w' (walFile t) ps' \<and> log_view ps' = [1 \<mapsto> replicate 512 9] \<and> walIndexHdr w' t = hdr w'"
proof -
  obtain n qs' w' t where r: "sqlite3WalFrames plain_vfs conn1 512 [page1] 1 True 0 (plain_world [] []) = (SQLITE_OK, n, qs', w', t)"
    using commit1 [of page1] by (auto simp: page1_def)
  have "page_map [page1] = [1 \<mapsto> replicate 512 9]" by (simp add: page_map_def page1_def)
  then show ?thesis
    using sqlite3WalFrames_log [OF plain_vfs_quiet plain_vfs_files plain_vfs_random plain_vfs_truncate r conn1_ok] r
    by (auto simp: log_step_def)
qed

theorem sqlite3WalFrames_recover_witness:
  "\<exists>n qs' w' t w3 t2. sqlite3WalFrames plain_vfs conn1 512 [page1] 1 True 0 (plain_world [] []) = (SQLITE_OK, n, qs', w', t) \<and>
     walIndexRecover plain_vfs (wal_zero\<lparr>writeLock := True\<rparr>) (plain_world (walFile t) []) = (SQLITE_OK, w3, t2) \<and>
     mxFrame (hdr w3) = mxFrame (hdr w') \<and> nPage (hdr w3) = 1"
proof -
  obtain n qs' w' t where r: "sqlite3WalFrames plain_vfs conn1 512 [page1] 1 True 0 (plain_world [] []) = (SQLITE_OK, n, qs', w', t)"
    and len: "length (walFile t) = 568"
    using commit1 [of page1] by (auto simp: page1_def)
  let ?w = "wal_zero\<lparr>writeLock := True\<rparr>" and ?s = "plain_world (walFile t) []"
  note env = plain_vfs_quiet plain_vfs_files plain_vfs_random plain_vfs_truncate
  obtain rs ps' where W: "log_inv w' (walFile t) ps'" "iReCksum w' = 0" "indexed w' t ps'" "ps' \<noteq> []"
    using walFrames_OK [OF env r [unfolded sqlite3WalFrames_def] conn1_ok] by (auto simp: log_step_def)
  have hd: "log_header_ok (take 32 (walFile t))" "log_sz (take 32 (walFile t)) = szPage w'"
    "sqlite3Get4byte (drop 4 (take 32 (walFile t))) = WAL_MAX_VERSION"
    "walFrameOffset (length ps' + 1) (szPage w') \<le> 568"
    using W(1) len unfolding log_inv_def log_hd_def Let_def by auto
  have sz: "szPage w' = 512" "length ps' = 1"
  proof -
    have ge: "512 \<le> szPage w'" using hd(1,2) by (simp add: log_header_ok_def)
    have le: "length ps' * (szPage w' + 24) \<le> 536" using hd(4) by (simp add: walFrameOffset_def)
    have "length ps' * 536 \<le> length ps' * (szPage w' + 24)" using ge by (intro mult_le_mono2) simp
    then have "length ps' * 536 \<le> 1 * 536" using le by linarith
    then have "length ps' \<le> 1" by (simp only: mult_le_cancel2)
    then show 1: "length ps' = 1" using W(4) by (cases ps') simp_all
    show "szPage w' = 512" using ge le 1 by simp
  qed
  have "length (log_scan (walFile t)) \<le> 1"
    using scan_length [of 1] hd(1,2) sz len by (simp add: log_scan_def Let_def del: scan.simps)
  moreover have "1 \<le> length (log_scan (walFile t))"
    using log_inv_scan(1,3) [OF W(1,2,4)] sz(2) by auto
  ultimately have sc: "drop (mxFrame (hdr w')) (log_scan (walFile t)) = []"
    using W(3) sz(2) by (simp add: indexed_def)
  obtain rc w3 t2 where v: "walIndexRecover plain_vfs ?w ?s = (rc, w3, t2)" by (cases "walIndexRecover plain_vfs ?w ?s")
  have m5: "length (aReadMark (walCkptInfo ?w ?s)) = 5"
    by (simp add: walCkptInfo_def mem_def plain_world_def wshm_zero_def)
  have ok: "rc = SQLITE_OK"
    using walIndexRecover_spec [OF plain_vfs_quiet plain_vfs_files _ m5 v] hd(3) plain_vfs_works
    by (simp add: plain_world_def)
  have "walFile ?s = walFile t" by (simp add: plain_world_def)
  from sqlite3WalFrames_recover [OF env r _ conn1_ok plain_vfs_quiet plain_vfs_files _ m5 this v [unfolded ok]]
  show ?thesis using r v ok unfolding sc by simp
qed

end
