(* ===== verification/WalCkpt.thy ===== *)
theory WalCkpt
  imports WalCommit "HOL-Library.Monad_Syntax"
begin

unbundle bit_operations_syntax

text \<open>
  Checkpoints: copying frames of the log into the database file while readers and writers go on
  (\<^verbatim>\<open>walCheckpoint\<close>, \<^verbatim>\<open>sqlite3WalCheckpoint\<close> and \<^verbatim>\<open>sqlite3WalClose\<close> in \<^verbatim>\<open>wal.c\<close>), and that
  no reader can tell.
\<close>

section \<open>Waiting for a lock\<close>

text \<open>A busy handler decides whether to try again; waiting for it may take forever, which is
  the value \<open>None\<close> of the operations below.\<close>

type_synonym 'x busy = "('x world \<Rightarrow> bool \<times> 'x world) option"

partial_function (option) walBusyLock ::
  "'x vfs \<Rightarrow> Wal \<Rightarrow> 'x busy \<Rightarrow> nat \<Rightarrow> nat \<Rightarrow> 'x world \<Rightarrow> (rc \<times> 'x world) option" where
  "walBusyLock V w xBusy lockIdx n s =
    (let (rc, s) = walLockExclusive V w lockIdx n s
     in case xBusy of
          None \<Rightarrow> Some (rc, s)
        | Some b \<Rightarrow>
            if rc = SQLITE_BUSY then
              let (again, s) = b s
              in if again then walBusyLock V w xBusy lockIdx n s else Some (rc, s)
            else Some (rc, s))"

declare walBusyLock.simps [code]

section \<open>The checkpoint\<close>

abbreviation (input) SQLITE_CHECKPOINT_PASSIVE :: nat where "SQLITE_CHECKPOINT_PASSIVE \<equiv> 0"
abbreviation (input) SQLITE_CHECKPOINT_RESTART :: nat where "SQLITE_CHECKPOINT_RESTART \<equiv> 2"
abbreviation (input) SQLITE_CHECKPOINT_TRUNCATE :: nat where "SQLITE_CHECKPOINT_TRUNCATE \<equiv> 3"
abbreviation (input) SQLITE_INTERRUPT :: rc where "SQLITE_INTERRUPT \<equiv> 9"

text \<open>The model is the build without \<^verbatim>\<open>LIBSQL_CHECKPOINT_ONLY_FULL\<close> and
  \<^verbatim>\<open>LIBSQL_DISABLE_CHECKPOINT_DOWNGRADE\<close>. The callback: safe frame, page (\<open>None\<close> in the last call), its size, page and frame number.\<close>

type_synonym 'x ckpt_cb = "(nat \<Rightarrow> bytes option \<Rightarrow> nat \<Rightarrow> u32 \<Rightarrow> nat \<Rightarrow> 'x world \<Rightarrow> rc \<times> 'x world) option"

text \<open>The loop over the read marks \<open>i, \<dots>\<close> (\<open>k\<close> of them). The first result is true for the
  \<^verbatim>\<open>goto walcheckpoint_out\<close>.\<close>

primrec ckpt_marks ::
  "nat \<Rightarrow> 'x vfs \<Rightarrow> Wal \<Rightarrow> nat \<Rightarrow> nat \<Rightarrow> 'x busy \<Rightarrow> rc \<Rightarrow> 'x world
    \<Rightarrow> (bool \<times> rc \<times> nat \<times> 'x busy \<times> 'x world) option" where
  "ckpt_marks 0 V w i mxSafeFrame xBusy rc s = Some (False, rc, mxSafeFrame, xBusy, s)"
| "ckpt_marks (Suc k) V w i mxSafeFrame xBusy rc s =
    (let y = aReadMark (walCkptInfo w s) ! i
     in if mxSafeFrame > y then
          do {
            (rc, s) \<leftarrow> walBusyLock V w xBusy (WAL_READ_LOCK i) 1 s;
            if rc = SQLITE_OK then
              let iMark = (if i = 1 then mxSafeFrame else READMARK_NOT_USED);
                  c = walCkptInfo w s;
                  s = set_ckptInfo w (c\<lparr>aReadMark := (aReadMark c)[i := iMark]\<rparr>) s;
                  s = walUnlockExclusive V w (WAL_READ_LOCK i) 1 s
              in ckpt_marks k V w (i + 1) mxSafeFrame xBusy rc s
            else if rc = SQLITE_BUSY then ckpt_marks k V w (i + 1) y None rc s
            else Some (True, rc, mxSafeFrame, xBusy, s)
          }
        else ckpt_marks k V w (i + 1) mxSafeFrame xBusy rc s)"

text \<open>The loop that copies pages.\<close>

function ckpt_copy ::
  "'x vfs \<Rightarrow> 'x ckpt_cb \<Rightarrow> nat \<Rightarrow> nat \<Rightarrow> nat \<Rightarrow> u32 \<Rightarrow> WalIteratorRev \<Rightarrow> 'x world \<Rightarrow> rc \<times> 'x world" where
  "ckpt_copy V xCb sz nB mxSafeFrame mxPage it s =
    (case walIteratorRevNext it of (fin, iDbpage, iFrame, it) \<Rightarrow>
       if fin then (SQLITE_OK, s)
       else if isInterrupted V s then (if mallocFailed V s then SQLITE_NOMEM else SQLITE_INTERRUPT, s)
       else if iFrame \<le> nB \<or> iFrame > mxSafeFrame \<or> iDbpage > mxPage
       then ckpt_copy V xCb sz nB mxSafeFrame mxPage it s
       else
         (case xRead V WalFd sz (walFrameOffset iFrame sz + WAL_FRAME_HDRSIZE) s of (rc, zBuf, s) \<Rightarrow>
            if rc \<noteq> SQLITE_OK then (rc, s)
            else
              (case xWrite V DbFd zBuf (unat (iDbpage - 1) * sz) s of (rc, s) \<Rightarrow>
                 if rc \<noteq> SQLITE_OK then (rc, s)
                 else
                   (case (case xCb of Some cb \<Rightarrow> cb mxSafeFrame (Some zBuf) sz iDbpage iFrame s
                          | None \<Rightarrow> (rc, s)) of (rc, s) \<Rightarrow>
                      if rc \<noteq> SQLITE_OK then (rc, s)
                      else ckpt_copy V xCb sz nB mxSafeFrame mxPage it s))))"
  by pat_completeness auto
termination
  by (relation "measure (\<lambda>(V, cb, sz, n, m, p, it, s). current it)") (auto dest: walIteratorRevNext_less)

declare ckpt_copy.simps [simp del]

text \<open>Syncing the log and announcing the size of the database, before copying.\<close>

definition ckpt_prepare ::
  "'x vfs \<Rightarrow> Wal \<Rightarrow> nat \<Rightarrow> u32 \<Rightarrow> nat \<Rightarrow> 'x world \<Rightarrow> rc \<times> 'x world" where
  "ckpt_prepare V w sz mxPage sync_flags s =
    (let (rc, s) = sqlite3OsSync V WalFd (CKPT_SYNC_FLAGS sync_flags) s
     in if rc = SQLITE_OK then
          let nReq = unat mxPage * sz;
              s = xFileControl V DbFd FCNTL_CKPT_START s;
              (rc, nSize, s) = xFileSize V DbFd s
          in if rc = SQLITE_OK \<and> nSize < nReq then
               if nSize + 65536 + mxFrame (hdr w) * sz < nReq then (SQLITE_CORRUPT, s)
               else (rc, xFileControl V DbFd (FCNTL_SIZE_HINT nReq) s)
             else (rc, s)
        else (rc, s))"

text \<open>After copying: when all of the log was copied the database is cut to size and synced; then
  \<^verbatim>\<open>nBackfill\<close> moves.\<close>

definition ckpt_finish ::
  "'x vfs \<Rightarrow> Wal \<Rightarrow> 'x ckpt_cb \<Rightarrow> nat \<Rightarrow> nat \<Rightarrow> nat \<Rightarrow> 'x world \<Rightarrow> rc \<times> 'x world" where
  "ckpt_finish V w xCb sz mxSafeFrame sync_flags s =
    (let (rc, s) =
       (if mxSafeFrame = mxFrame (walIndexHdr w s) then
          let (rc, s) = (case xCb of Some cb \<Rightarrow> cb mxSafeFrame None 0 0 0 s | None \<Rightarrow> (SQLITE_OK, s));
              (rc, s) = (if rc = SQLITE_OK then xTruncate V DbFd (unat (nPage (hdr w)) * sz) s else (rc, s))
          in if rc = SQLITE_OK then sqlite3OsSync V DbFd (CKPT_SYNC_FLAGS sync_flags) s else (rc, s)
        else (SQLITE_OK, s))
     in if rc = SQLITE_OK then (rc, set_ckptInfo w ((walCkptInfo w s)\<lparr>nBackfill := mxSafeFrame\<rparr>) s)
        else (rc, s))"

text \<open>The part under the exclusive lock on read mark 0.\<close>

definition ckpt_backfill ::
  "'x vfs \<Rightarrow> Wal \<Rightarrow> 'x ckpt_cb \<Rightarrow> nat \<Rightarrow> nat \<Rightarrow> nat \<Rightarrow> WalIteratorRev \<Rightarrow> 'x world \<Rightarrow> rc \<times> 'x world" where
  "ckpt_backfill V w xCb sz mxSafeFrame sync_flags it s =
    (let nB = nBackfill (walCkptInfo w s);
         mxPage = nPage (hdr w);
         s = set_ckptInfo w ((walCkptInfo w s)\<lparr>nBackfillAttempted := mxSafeFrame\<rparr>) s;
         (rc, s) = ckpt_prepare V w sz mxPage sync_flags s;
         (rc, s) = (if rc = SQLITE_OK then ckpt_copy V xCb sz nB mxSafeFrame mxPage it s else (rc, s));
         s = xFileControl V DbFd FCNTL_CKPT_DONE s;
         (rc, s) = (if rc = SQLITE_OK then ckpt_finish V w xCb sz mxSafeFrame sync_flags s else (rc, s))
     in (rc, walUnlockExclusive V w (WAL_READ_LOCK 0) 1 s))"

text \<open>The first half of \<^verbatim>\<open>walCheckpoint\<close>: whatever can be copied is. The first result is the jump to the
  end, the fourth the busy handler that is left.\<close>

definition ckpt_copying ::
  "'x vfs \<Rightarrow> Wal \<Rightarrow> 'x busy \<Rightarrow> 'x ckpt_cb \<Rightarrow> nat \<Rightarrow> 'x world \<Rightarrow> (bool \<times> rc \<times> Wal \<times> 'x busy \<times> 'x world) option" where
  "ckpt_copying V w xBusy xCb sync_flags s =
    (let sz = walPagesize w
     in if nBackfill (walCkptInfo w s) < mxFrame (hdr w) then
          do {
            (out, rc, mxSafeFrame, xBusy, s) \<leftarrow> ckpt_marks (WAL_NREADER - 1) V w 1 (mxFrame (hdr w)) xBusy SQLITE_OK s;
            if out then Some (True, rc, w, xBusy, s)
            else do {
              let (rc, it, w) =
                (if nBackfill (walCkptInfo w s) < mxSafeFrame
                 then walIteratorRevInit V (pages w s) w (nBackfill (walCkptInfo w s)) mxSafeFrame (Option.is_none xCb)
                 else (rc, None, w));
              (rc, s) \<leftarrow> (case it of
                 Some it \<Rightarrow> do {
                   (rc, s) \<leftarrow> walBusyLock V w xBusy (WAL_READ_LOCK 0) 1 s;
                   Some (if rc = SQLITE_OK then ckpt_backfill V w xCb sz mxSafeFrame sync_flags it s else (rc, s))
                 }
               | None \<Rightarrow> Some (rc, s));
              Some (False, if rc = SQLITE_BUSY then SQLITE_OK else rc, w, xBusy, s)
            }
          }
        else Some (False, SQLITE_OK, w, xBusy, s))"

text \<open>The second half: waiting for readers to leave the log, and emptying it.\<close>

definition ckpt_restart ::
  "'x vfs \<Rightarrow> Wal \<Rightarrow> nat \<Rightarrow> 'x busy \<Rightarrow> 'x world \<Rightarrow> (rc \<times> Wal \<times> 'x world) option" where
  "ckpt_restart V w eMode xBusy s =
    (if nBackfill (walCkptInfo w s) < mxFrame (hdr w) then Some (SQLITE_BUSY, w, s)
     else if eMode \<ge> SQLITE_CHECKPOINT_RESTART then
       do {
         let (salt1, s) = sqlite3_randomness V 4 s;
         (rc, s) \<leftarrow> walBusyLock V w xBusy (WAL_READ_LOCK 1) (WAL_NREADER - 1) s;
         if rc = SQLITE_OK then
           let (rc, w, s) =
             (if eMode = SQLITE_CHECKPOINT_TRUNCATE then
                let (w, s) = walRestartHdr V w salt1 s;
                    (rc, s) = xTruncate V WalFd 0 s
                in (rc, w, s)
              else (rc, w, s))
           in Some (rc, w, walUnlockExclusive V w (WAL_READ_LOCK 1) (WAL_NREADER - 1) s)
         else Some (rc, w, s)
       }
     else Some (SQLITE_OK, w, s))"

definition walCheckpoint ::
  "'x vfs \<Rightarrow> Wal \<Rightarrow> nat \<Rightarrow> 'x busy \<Rightarrow> nat \<Rightarrow> 'x ckpt_cb \<Rightarrow> 'x world \<Rightarrow> (rc \<times> Wal \<times> 'x world) option" where
  "walCheckpoint V w eMode xBusy sync_flags xCb s =
    do {
      (out, rc, w, xBusy, s) \<leftarrow> ckpt_copying V w xBusy xCb sync_flags s;
      if \<not> out \<and> rc = SQLITE_OK \<and> eMode \<noteq> SQLITE_CHECKPOINT_PASSIVE
      then ckpt_restart V w eMode xBusy s
      else Some (rc, w, s)
    }"

section \<open>The public operations\<close>

text \<open>\<^verbatim>\<open>sqlite3WalCheckpoint\<close>: the locks before the header is read. The results are the code, the
  mode and busy handler to go on with, the connection and the world.\<close>

definition ckpt_lock ::
  "'x vfs \<Rightarrow> Wal \<Rightarrow> nat \<Rightarrow> 'x busy \<Rightarrow> 'x world \<Rightarrow> (rc \<times> nat \<times> 'x busy \<times> Wal \<times> 'x world) option" where
  "ckpt_lock V w eMode xBusy s =
    (let (rc, s) = walLockExclusive V w WAL_CKPT_LOCK 1 s
     in if rc \<noteq> SQLITE_OK then Some (rc, eMode, xBusy, w, s)
        else
          let w = w\<lparr>ckptLock := True\<rparr>
          in if eMode = SQLITE_CHECKPOINT_PASSIVE then Some (rc, eMode, xBusy, w, s)
             else do {
               (rc, s) \<leftarrow> walBusyLock V w xBusy WAL_WRITE_LOCK 1 s;
               Some (if rc = SQLITE_OK then (rc, eMode, xBusy, w\<lparr>writeLock := True\<rparr>, s)
                     else if rc = SQLITE_BUSY then (SQLITE_OK, SQLITE_CHECKPOINT_PASSIVE, None, w, s)
                     else (rc, eMode, xBusy, w, s))
             })"

text \<open>The results after the code are \<^verbatim>\<open>*pnLog\<close> and \<^verbatim>\<open>*pnCkpt\<close>, when they are set.\<close>

definition sqlite3WalCheckpoint ::
  "'x vfs \<Rightarrow> Wal \<Rightarrow> nat \<Rightarrow> 'x busy \<Rightarrow> nat \<Rightarrow> nat \<Rightarrow> 'x ckpt_cb \<Rightarrow> 'x world
    \<Rightarrow> (rc \<times> (nat \<times> nat) option \<times> Wal \<times> 'x world) option" where
  "sqlite3WalCheckpoint V w eMode xBusy sync_flags nBuf xCb s =
    (if readOnly w \<noteq> 0 then Some (SQLITE_READONLY, None, w, s)
     else do {
       (rc, eMode2, xBusy2, w, s) \<leftarrow> ckpt_lock V w eMode xBusy s;
       let (rc, isChanged, w, s) = (if rc = SQLITE_OK then walIndexReadHdr V w s False else (rc, False, w, s));
       let s = (case xUnfetch V of Some u \<Rightarrow> if isChanged then u s else s | None \<Rightarrow> s);
       (rc, outs, w, s) \<leftarrow>
         (if rc \<noteq> SQLITE_OK then Some (rc, None, w, s)
          else do {
            (rc, w, s) \<leftarrow>
              (if mxFrame (hdr w) \<noteq> 0 \<and> walPagesize w \<noteq> nBuf then Some (SQLITE_CORRUPT, w, s)
               else walCheckpoint V w eMode2 xBusy2 sync_flags xCb s);
            Some (rc, if rc = SQLITE_OK \<or> rc = SQLITE_BUSY
                      then Some (mxFrame (hdr w), nBackfill (walCkptInfo w s)) else None, w, s)
          });
       let w = (if isChanged then w\<lparr>hdr := hdr_zero\<rparr> else w);
       let (_, w, s) = sqlite3WalEndWriteTransaction V w s;
       let (w, s) = (if ckptLock w then (w\<lparr>ckptLock := False\<rparr>, walUnlockExclusive V w WAL_CKPT_LOCK 1 s)
                     else (w, s));
       Some (if rc = SQLITE_OK \<and> eMode \<noteq> eMode2 then SQLITE_BUSY else rc, outs, w, s)
     })"

text \<open>\<^verbatim>\<open>sqlite3WalClose\<close> with a buffer given (\<open>zBuf\<close> true) or not.\<close>

definition close_checkpoint ::
  "'x vfs \<Rightarrow> Wal \<Rightarrow> bool \<Rightarrow> nat \<Rightarrow> nat \<Rightarrow> 'x world \<Rightarrow> (rc \<times> bool \<times> Wal \<times> 'x world) option" where
  "close_checkpoint V w disabled sync_flags nBuf s =
    (let w = (if exclusiveMode w = WAL_NORMAL_MODE then w\<lparr>exclusiveMode := WAL_EXCLUSIVE_MODE\<rparr> else w)
     in do {
       (rc, w, s) \<leftarrow>
         (if disabled then Some (SQLITE_ERROR, w, s)
          else do {
            (rc, outs, w, s) \<leftarrow> sqlite3WalCheckpoint V w SQLITE_CHECKPOINT_PASSIVE None sync_flags nBuf None s;
            Some (rc, w, s)
          });
       Some (if rc = SQLITE_OK then
               let (bPersist, s) = xPersistWal V s
               in if bPersist \<noteq> 1 then (rc, True, w, s)
                  else (rc, False, w, if mxWalSize w \<ge> 0 then walLimitSize V 0 s else s)
             else (rc, False, w, s))
     })"

definition sqlite3WalClose ::
  "'x vfs \<Rightarrow> Wal \<Rightarrow> bool \<Rightarrow> nat \<Rightarrow> nat \<Rightarrow> bool \<Rightarrow> 'x world \<Rightarrow> (rc \<times> 'x world) option" where
  "sqlite3WalClose V w disabled sync_flags nBuf zBuf s =
    do {
      let (rc, s) = (if zBuf then xLockExclusive V s else (SQLITE_OK, s));
      (rc, isDelete, w, s) \<leftarrow>
        (if zBuf \<and> rc = SQLITE_OK then close_checkpoint V w disabled sync_flags nBuf s
         else Some (rc, False, w, s));
      let (w, s) = walIndexClose V w isDelete s;
      let s = xClose V WalFd s;
      Some (rc, if isDelete then xDelete V s else s)
    }"

section \<open>Pages of the database file\<close>

text \<open>A page as the pager reads it: bytes beyond the end of the file are zero.\<close>

definition db_page :: "bytes \<Rightarrow> nat \<Rightarrow> u32 \<Rightarrow> bytes" where
  "db_page db sz pg = map (\<lambda>j. at db (unat (pg - 1) * sz + j)) [0..<sz]"

lemma at_overwrite: "at (overwrite f off b) j = (if off \<le> j \<and> j < off + length b then b ! (j - off) else at f j)"
proof -
  consider "j < off" | "off \<le> j" "j < off + length b" | "off + length b \<le> j" by linarith
  then show ?thesis
  proof cases
    case 1
    then show ?thesis by (auto simp: at_def overwrite_def nth_append)
  next
    case 2
    then show ?thesis by (auto simp: at_def overwrite_def nth_append min_def)
  next
    case 3
    then have "drop (off + length b) f ! (j - (off + length b)) = f ! j" if "j < length f" using that by simp
    then show ?thesis using 3 by (auto simp: at_def overwrite_def nth_append min_def)
  qed
qed

lemma at_cut: "at (take n f @ replicate (n - length f) 0) j = (if j < n then at f j else 0)"
  by (auto simp: at_def nth_append)

lemma length_db_page [simp]: "length (db_page db sz pg) = sz"
  by (simp add: db_page_def)

lemma db_page_written: "length b = sz \<Longrightarrow> db_page (overwrite db (unat (pg - 1) * sz) b) sz pg = b"
  by (rule nth_equalityI) (simp_all add: db_page_def at_overwrite)

lemma page_ranges:
  fixes a b i j sz :: nat
  assumes "a \<noteq> b" "i < sz" "j < sz"
  shows "a * sz + i \<noteq> b * sz + j"
proof
  assume *: "a * sz + i = b * sz + j"
  have "(a * sz + i) div sz = a" "(b * sz + j) div sz = b" using assms(2,3) by simp_all
  then show False using * assms(1) by metis
qed

lemma page_minus_one: "p \<noteq> 0 \<Longrightarrow> q \<noteq> 0 \<Longrightarrow> p \<noteq> q \<Longrightarrow> unat (p - 1) \<noteq> unat (q - 1)" for p q :: u32
  by (metis diff_add_cancel word_unat_eq_iff)

lemma db_page_other:
  assumes "pg \<noteq> 0" "q \<noteq> 0" "pg \<noteq> q" "length b \<le> sz"
  shows "db_page (overwrite db (unat (q - 1) * sz) b) sz pg = db_page db sz pg"
proof -
  have "at (overwrite db (unat (q - 1) * sz) b) (unat (pg - 1) * sz + j) = at db (unat (pg - 1) * sz + j)"
    if "j < sz" for j
  proof (rule ccontr)
    assume "\<not> ?thesis"
    then have r: "unat (q - 1) * sz \<le> unat (pg - 1) * sz + j" "unat (pg - 1) * sz + j < unat (q - 1) * sz + length b"
      by (auto simp: at_overwrite split: if_splits)
    define i where "i = unat (pg - 1) * sz + j - unat (q - 1) * sz"
    have "i < sz" "unat (pg - 1) * sz + j = unat (q - 1) * sz + i" using r assms(4) by (auto simp: i_def)
    then show False using page_ranges [OF page_minus_one [OF assms(1-3)] that] by blast
  qed
  then show ?thesis by (simp add: db_page_def)
qed

lemma db_page_cut:
  assumes "pg \<noteq> 0" "unat pg \<le> n"
  shows "db_page (take (n * sz) db @ replicate (n * sz - length db) 0) sz pg = db_page db sz pg"
proof -
  have "unat (pg - 1) * sz + j < n * sz" if "j < sz" for j
  proof -
    have "unat (pg - 1) = unat pg - 1" using assms(1) by (simp add: unat_minus_one)
    then have "unat (pg - 1) + 1 \<le> n" using assms by (simp add: unat_gt_0 Suc_leI)
    then have "(unat (pg - 1) + 1) * sz \<le> n * sz" by (rule mult_le_mono1)
    then show ?thesis using that by simp
  qed
  then show ?thesis by (simp add: db_page_def at_cut)
qed

section \<open>What a reader sees\<close>

text \<open>A reader that may use the frames from \<open>minF\<close> to \<open>R\<close> of the log \<open>ps\<close> takes the newest one of
  a page, and the database file if there is none.\<close>

definition reader_view :: "log_page list \<Rightarrow> nat \<Rightarrow> nat \<Rightarrow> bytes \<Rightarrow> nat \<Rightarrow> u32 \<Rightarrow> bytes" where
  "reader_view ps minF R db sz pg =
    (let i = find_linear (map fst ps) pg minF R
     in if i = 0 then db_page db sz pg else snd (snd (ps ! (i - 1))))"

lemma find_linear_0:
  "find_linear log pg minF R = 0 \<longleftrightarrow> (\<forall>f. 0 < f \<and> minF \<le> f \<and> f \<le> R \<longrightarrow> log ! (f - 1) \<noteq> pg)"
  using find_linear_newest [of log pg minF R] by (auto simp: newest_def answers_def)

text \<open>Only pages with a frame that the reader can use have changed.\<close>

lemma reader_view_unchanged:
  assumes "db_page db' sz pg = db_page db sz pg \<or> (\<exists>f. a < f \<and> f \<le> b \<and> map fst ps ! (f - 1) = pg)"
    and "minF \<le> a + 1" "b \<le> R"
  shows "reader_view ps minF R db' sz pg = reader_view ps minF R db sz pg"
proof (cases "find_linear (map fst ps) pg minF R = 0")
  case True
  have "map fst ps ! (f - 1) \<noteq> pg" if "a < f" "f \<le> b" for f
    using True that assms(2,3) by (auto simp: find_linear_0)
  then show ?thesis using assms(1) by (auto simp: reader_view_def Let_def)
qed (simp add: reader_view_def Let_def)

text \<open>A reader that starts later looks at fewer frames and finds the rest in the database.\<close>

lemma reader_view_later:
  assumes "a \<le> b" "b \<le> R" "R \<le> length ps"
    and copied: "\<And>f. a < f \<Longrightarrow> f \<le> b \<Longrightarrow> page_frame (map fst ps) a R pg f \<Longrightarrow> db_page db' sz pg = snd (snd (ps ! (f - 1)))"
    and same: "(\<forall>f. a < f \<and> f \<le> R \<longrightarrow> map fst ps ! (f - 1) \<noteq> pg) \<Longrightarrow> db_page db' sz pg = db_page db sz pg"
  shows "reader_view ps (b + 1) R db' sz pg = reader_view ps (a + 1) R db sz pg"
proof -
  let ?log = "map fst ps"
  let ?i = "find_linear ?log pg (b + 1) R" and ?j = "find_linear ?log pg (a + 1) R"
  have N: "newest (answers ?log pg (b + 1) R) ?i" "newest (answers ?log pg (a + 1) R) ?j"
    by (rule find_linear_newest)+
  show ?thesis
  proof (cases "?i = 0")
    case False
    have mono: "answers ?log pg (b + 1) R = {f \<in> answers ?log pg (a + 1) R. b + 1 \<le> f}"
      using assms(1) by (auto simp: answers_def)
    have i: "?i \<in> answers ?log pg (b + 1) R" "\<forall>f\<in>answers ?log pg (b + 1) R. f \<le> ?i"
      using N(1) False by (auto simp: newest_def)
    then have "newest (answers ?log pg (a + 1) R) ?i"
      unfolding newest_def mono by (auto simp: not_less_eq_eq)
    then have "?j = ?i" using N(2) newest_unique by blast
    then show ?thesis using False by (simp add: reader_view_def)
  next
    case True
    then have none: "?log ! (f - 1) \<noteq> pg" if "b < f" "f \<le> R" for f using that by (auto simp: find_linear_0)
    show ?thesis
    proof (cases "?j = 0")
      case j: True
      then have "\<forall>f. a < f \<and> f \<le> R \<longrightarrow> ?log ! (f - 1) \<noteq> pg" by (auto simp: find_linear_0)
      then show ?thesis using True j same by (simp add: reader_view_def)
    next
      case False
      then have j: "?j \<in> answers ?log pg (a + 1) R" "\<forall>f\<in>answers ?log pg (a + 1) R. f \<le> ?j"
        using N(2) by (auto simp: newest_def)
      then have "a < ?j" "?j \<le> R" "?log ! (?j - 1) = pg" by (auto simp: answers_def)
      moreover from this none have "?j \<le> b" by (meson not_le)
      moreover have "page_frame ?log a R pg ?j" using j by (auto simp: page_frame_def answers_def)
      ultimately show ?thesis using copied True False by (simp add: reader_view_def)
    qed
  qed
qed

section \<open>Copying\<close>

text \<open>A write that fails may have written part of what it was given; handlers and callbacks do not touch
  the files or the wal-index.\<close>

definition vfs_partial :: "'x vfs \<Rightarrow> bool" where
  "vfs_partial V \<longleftrightarrow> (\<forall>f b off s. fst (xWrite V f b off s) \<noteq> SQLITE_OK \<longrightarrow>
     (\<exists>c. length c \<le> length b \<and> same_store (set_file f (overwrite (fileOf f s) off c) s) (snd (xWrite V f b off s))) \<or>
     same_store s (snd (xWrite V f b off s)))"

definition busy_quiet :: "'x busy \<Rightarrow> bool" where
  "busy_quiet xBusy \<longleftrightarrow> (\<forall>b s. xBusy = Some b \<longrightarrow> same_store s (snd (b s)))"

definition cb_quiet :: "'x ckpt_cb \<Rightarrow> bool" where
  "cb_quiet xCb \<longleftrightarrow> (\<forall>cb m z n p f s. xCb = Some cb \<longrightarrow> same_store s (snd (cb m z n p f s)))"

definition only_db :: "'x world \<Rightarrow> 'x world \<Rightarrow> bool" where
  "only_db s t \<longleftrightarrow> same_store (s\<lparr>dbFile := dbFile t\<rparr>) t"

lemma only_db_refl [simp]: "only_db s s"
  by (simp add: only_db_def same_store_def)

lemma only_db_trans: "only_db a b \<Longrightarrow> only_db b c \<Longrightarrow> only_db a c"
  by (simp add: only_db_def same_store_def)

lemma only_db_store: "same_store s t \<Longrightarrow> only_db s t"
  by (simp add: only_db_def same_store_def)

lemma only_db_eqs:
  "only_db s t \<Longrightarrow> walFile t = walFile s" "only_db s t \<Longrightarrow> mem w t = mem w s" "only_db s t \<Longrightarrow> pages w t = pages w s"
  "only_db s t \<Longrightarrow> walCkptInfo w t = walCkptInfo w s" "only_db s t \<Longrightarrow> walIndexHdr w t = walIndexHdr w s"
  by (simp_all add: only_db_def same_store_def mem_def pages_def walCkptInfo_def walIndexHdr_def)

lemma xWrite_db:
  assumes F: "vfs_files V" and P: "vfs_partial V" and x: "xWrite V DbFd b (unat (q - 1) * sz) s = (rc, t)"
    and l: "length b = sz"
  shows "only_db s t" "pg \<noteq> 0 \<Longrightarrow> q \<noteq> 0 \<Longrightarrow> pg \<noteq> q \<Longrightarrow> db_page (dbFile t) sz pg = db_page (dbFile s) sz pg"
    "rc = SQLITE_OK \<Longrightarrow> db_page (dbFile t) sz q = b"
proof -
  let ?off = "unat (q - 1) * sz"
  have *: "(\<exists>c. length c \<le> sz \<and> same_store (s\<lparr>dbFile := overwrite (dbFile s) ?off c\<rparr>) t) \<or> same_store s t"
  proof (cases "rc = SQLITE_OK")
    case True
    then show ?thesis using vfs_files_D(3) [OF F, of DbFd] x l by auto
  next
    case False
    then have "fst (xWrite V DbFd b ?off s) \<noteq> SQLITE_OK" using x by simp
    then show ?thesis using P x l unfolding vfs_partial_def by fastforce
  qed
  show "only_db s t" using * by (auto simp: only_db_def same_store_def)
  show "db_page (dbFile t) sz pg = db_page (dbFile s) sz pg" if "pg \<noteq> 0" "q \<noteq> 0" "pg \<noteq> q"
    using * db_page_other [OF that] by (auto simp: same_store_def)
  show "db_page (dbFile t) sz q = b" if "rc = SQLITE_OK"
    using vfs_files_D(3) [OF F, of DbFd] x that l by (auto simp: same_store_def db_page_written)
qed

text \<open>What an iterator over the frames of the log \<open>ps\<close> offers: no page twice.\<close>

definition iter_ok :: "log_page list \<Rightarrow> (nat \<Rightarrow> u32) \<Rightarrow> bool" where
  "iter_ok ps fs \<longleftrightarrow> (\<forall>f. fs f \<noteq> 0 \<longrightarrow> 0 < f \<and> f \<le> length ps \<and> fst (ps ! (f - 1)) = fs f) \<and>
     (\<forall>f g. fs f \<noteq> 0 \<longrightarrow> fs f = fs g \<longrightarrow> f = g)"

lemma frame_data:
  assumes F: "vfs_files V" and L: "log_raw (walFile s) sz (length ps) = ps" and f: "0 < f" "f \<le> length ps"
    and r: "xRead V WalFd sz (walFrameOffset f sz + 24) s = (SQLITE_OK, b, t)"
  shows "b = snd (snd (ps ! (f - 1)))" "length b = sz"
proof -
  have b: "b = take sz (drop (walFrameOffset f sz + 24) (walFile s))" "walFrameOffset f sz + 24 + sz \<le> length (walFile s)"
    using vfs_files_D(1) [OF F r] by simp_all
  show "length b = sz" using b by simp
  have "ps ! (f - 1) = raw_at (walFile s) sz f"
    using log_raw_nth [of "f - 1" "length ps" "walFile s" sz] f L by simp
  then show "b = snd (snd (ps ! (f - 1)))"
    using b by (simp add: raw_at_def Let_def frame_at_def drop_take add.commute)
qed

lemma rev_skip_spec:
  "rev_skip fs c \<le> c" "\<And>f. rev_skip fs c < f \<Longrightarrow> f \<le> c \<Longrightarrow> fs f = 0" "rev_skip fs c \<noteq> 0 \<Longrightarrow> fs (rev_skip fs c) \<noteq> 0"
  by (induction fs c rule: rev_skip.induct) (auto simp: le_Suc_eq split: if_splits)

text \<open>What copying has done: only pages with a frame between the bounds changed, and in the end each page
  of the iterator has its data.\<close>

definition copied ::
  "nat \<Rightarrow> log_page list \<Rightarrow> nat \<Rightarrow> nat \<Rightarrow> u32 \<Rightarrow> (nat \<Rightarrow> u32) \<Rightarrow> nat \<Rightarrow> rc \<Rightarrow> 'x world \<Rightarrow> 'x world \<Rightarrow> bool" where
  "copied sz ps nB mxSafe mxPage fs c rc s t \<longleftrightarrow> only_db s t \<and>
    (\<forall>pg. pg \<noteq> 0 \<longrightarrow> db_page (dbFile t) sz pg = db_page (dbFile s) sz pg \<or>
       (\<exists>f. nB < f \<and> f \<le> mxSafe \<and> f \<le> c \<and> fs f = pg)) \<and>
    (rc = SQLITE_OK \<longrightarrow> (\<forall>f. nB < f \<and> f \<le> mxSafe \<and> f \<le> c \<and> fs f \<noteq> 0 \<and> fs f \<le> mxPage \<longrightarrow>
       db_page (dbFile t) sz (fs f) = snd (snd (ps ! (f - 1)))))"

lemma copied_none:
  assumes "same_store s t" "rc \<noteq> SQLITE_OK \<or> (\<forall>f. f \<le> c \<longrightarrow> fs f = 0)"
  shows "copied sz ps nB mxSafe mxPage fs c rc s t"
  using assms by (auto simp: copied_def only_db_store same_store_eqs)

lemma copied_skip:
  assumes C: "copied sz ps nB mxSafe mxPage fs (c - 1) rc s t"
    and c: "c \<le> c'" "\<And>f. c < f \<Longrightarrow> f \<le> c' \<Longrightarrow> fs f = 0" "c \<le> nB \<or> c > mxSafe \<or> fs c > mxPage"
  shows "copied sz ps nB mxSafe mxPage fs c' rc s t"
proof -
  have f: "f \<le> c - 1" if "f \<le> c'" "fs f \<noteq> 0" "nB < f" "f \<le> mxSafe" "fs f \<le> mxPage" for f
  proof (rule ccontr)
    assume "\<not> f \<le> c - 1"
    then have "f = c" using c(2) [of f] that by (cases "c < f") auto
    then show False using c(3) that by auto
  qed
  have "f \<le> c - 1 \<Longrightarrow> f \<le> c'" for f using c(1) by simp
  then show ?thesis using C f unfolding copied_def by blast
qed

lemma copied_step:
  assumes C: "copied sz ps nB mxSafe mxPage fs (c - 1) rc s1 t" and od: "only_db s s1"
    and w: "db_page (dbFile s1) sz (fs c) = snd (snd (ps ! (c - 1)))"
      "\<And>pg. pg \<noteq> 0 \<Longrightarrow> pg \<noteq> fs c \<Longrightarrow> db_page (dbFile s1) sz pg = db_page (dbFile s) sz pg"
    and c: "c \<le> c'" "\<And>f. c < f \<Longrightarrow> f \<le> c' \<Longrightarrow> fs f = 0" "nB < c" "c \<le> mxSafe" "fs c \<noteq> 0"
    and inj: "\<And>f g. fs f \<noteq> 0 \<Longrightarrow> fs f = fs g \<Longrightarrow> f = g"
  shows "copied sz ps nB mxSafe mxPage fs c' rc s t"
proof -
  have C1: "only_db s1 t" and C2: "\<And>pg. pg \<noteq> 0 \<Longrightarrow> db_page (dbFile t) sz pg = db_page (dbFile s1) sz pg \<or>
       (\<exists>f. nB < f \<and> f \<le> mxSafe \<and> f \<le> c - 1 \<and> fs f = pg)"
    and C3: "\<And>f. rc = SQLITE_OK \<Longrightarrow> nB < f \<Longrightarrow> f \<le> mxSafe \<Longrightarrow> f \<le> c - 1 \<Longrightarrow> fs f \<noteq> 0 \<Longrightarrow> fs f \<le> mxPage \<Longrightarrow>
       db_page (dbFile t) sz (fs f) = snd (snd (ps ! (f - 1)))"
    using C by (simp_all add: copied_def)
  have keep: "db_page (dbFile t) sz (fs c) = db_page (dbFile s1) sz (fs c)"
  proof (rule ccontr)
    assume "\<not> ?thesis"
    then obtain f where f: "f \<le> c - 1" "fs f = fs c" using C2 [OF c(5)] by blast
    then have "f = c" using inj [of f c] c(5) by simp
    then show False using f(1) c(3) by simp
  qed
  have f: "f \<le> c - 1 \<or> f = c" if "f \<le> c'" "fs f \<noteq> 0" for f
    using c(2) [of f] that by (cases "c < f") auto
  have 1: "db_page (dbFile t) sz pg = db_page (dbFile s) sz pg \<or> (\<exists>f. nB < f \<and> f \<le> mxSafe \<and> f \<le> c' \<and> fs f = pg)"
    if "pg \<noteq> 0" for pg
  proof (cases "pg = fs c")
    case True
    then show ?thesis using c by blast
  next
    case False
    have "f \<le> c - 1 \<Longrightarrow> f \<le> c'" for f using c(1) by simp
    then show ?thesis using C2 [OF that] unfolding w(2) [OF that False] by blast
  qed
  have 2: "db_page (dbFile t) sz (fs f) = snd (snd (ps ! (f - 1)))"
    if "rc = SQLITE_OK" "nB < f" "f \<le> mxSafe" "f \<le> c'" "fs f \<noteq> 0" "fs f \<le> mxPage" for f
  proof (cases "f = c")
    case True
    then show ?thesis using keep w(1) by simp
  next
    case False
    then show ?thesis using C3 f [OF that(4,5)] that by blast
  qed
  show ?thesis unfolding copied_def using 1 2 only_db_trans [OF od C1] by blast
qed

lemma copied_fail:
  assumes "only_db s t" "\<And>pg. pg \<noteq> 0 \<Longrightarrow> pg \<noteq> fs c \<Longrightarrow> db_page (dbFile t) sz pg = db_page (dbFile s) sz pg"
    and "nB < c" "c \<le> mxSafe" "c \<le> c'" "rc \<noteq> SQLITE_OK"
  shows "copied sz ps nB mxSafe mxPage fs c' rc s t"
  using assms unfolding copied_def by metis

lemma ckpt_copy_spec:
  assumes Q: "vfs_quiet V" and F: "vfs_files V" and P: "vfs_partial V" and B: "cb_quiet xCb"
  shows "ckpt_copy V xCb sz nB mxSafe mxPage it s = (rc, t) \<Longrightarrow> iter_ok ps (frames it) \<Longrightarrow>
    log_raw (walFile s) sz (length ps) = ps \<Longrightarrow>
    copied sz ps nB mxSafe mxPage (frames it) (current it) rc s t"
proof (induction "current it" arbitrary: it s rule: less_induct)
  case less
  define c where "c = rev_skip (frames it) (current it)"
  define it' where "it' = it\<lparr>current := c - 1\<rparr>"
  let ?fs = "frames it"
  have sk: "c \<le> current it" "\<And>f. c < f \<Longrightarrow> f \<le> current it \<Longrightarrow> ?fs f = 0" "c \<noteq> 0 \<Longrightarrow> ?fs c \<noteq> 0"
    using rev_skip_spec [of ?fs "current it"] by (simp_all add: c_def)
  have io: "\<And>f. ?fs f \<noteq> 0 \<Longrightarrow> 0 < f \<and> f \<le> length ps" "\<And>f g. ?fs f \<noteq> 0 \<Longrightarrow> ?fs f = ?fs g \<Longrightarrow> f = g"
    using less.prems(2) by (simp_all add: iter_ok_def)
  have it': "frames it' = ?fs" "current it' = c - 1" by (simp_all add: it'_def)
  show ?case
  proof (cases "c = 0")
    case True
    then have nx: "walIteratorRevNext it = (True, 0, 0, it\<lparr>current := 0\<rparr>)"
      by (simp add: walIteratorRevNext_def Let_def c_def)
    have "?fs f = 0" if "f \<le> current it" for f
      using sk(2) [of f] that io(1) [of f] True by (cases "f = 0") auto
    then show ?thesis using less.prems(1) nx by (subst (asm) ckpt_copy.simps) (auto intro: copied_none)
  next
    case False
    then have nx: "walIteratorRevNext it = (False, ?fs c, c, it')"
      by (simp add: walIteratorRevNext_def Let_def c_def [symmetric] it'_def)
    have lt: "current it' < current it" using it'(2) sk(1) False by linarith
    note IH = less.hyps [OF lt, unfolded it', OF _ less.prems(2)]
    define rest where "rest = ckpt_copy V xCb sz nB mxSafe mxPage it'"
    let ?r = "xRead V WalFd sz (walFrameOffset c sz + 24) s"
    obtain rc1 b s1 where r: "?r = (rc1, b, s1)" by (cases ?r)
    obtain rc2 s2 where x: "xWrite V DbFd b (unat (?fs c - 1) * sz) s1 = (rc2, s2)"
      by (cases "xWrite V DbFd b (unat (?fs c - 1) * sz) s1")
    let ?cb = "case xCb of Some cb \<Rightarrow> cb mxSafe (Some b) sz (?fs c) c s2 | None \<Rightarrow> (rc2, s2)"
    obtain rc3 s3 where k: "?cb = (rc3, s3)" by (cases ?cb)
    have run: "(rc, t) = (if isInterrupted V s then (if mallocFailed V s then SQLITE_NOMEM else SQLITE_INTERRUPT, s)
       else if c \<le> nB \<or> c > mxSafe \<or> ?fs c > mxPage then rest s
       else if rc1 \<noteq> SQLITE_OK then (rc1, s1) else if rc2 \<noteq> SQLITE_OK then (rc2, s2)
       else if rc3 \<noteq> SQLITE_OK then (rc3, s3) else rest s3)"
      using less.prems(1) nx r x k by (subst (asm) ckpt_copy.simps) (auto simp: rest_def split: if_splits)
    note st1 = quiet_same_store(3) [OF Q r]
    have st3: "same_store s2 s3" using k B by (auto simp: cb_quiet_def split: option.splits) (metis snd_conv)
    consider "isInterrupted V s" | "\<not> isInterrupted V s" "c \<le> nB \<or> c > mxSafe \<or> ?fs c > mxPage"
      | "\<not> isInterrupted V s" "nB < c" "c \<le> mxSafe" "\<not> ?fs c > mxPage" by linarith
    then show ?thesis
    proof cases
      case 1
      then show ?thesis using run by (auto intro!: copied_none split: if_splits)
    next
      case 2
      then have "ckpt_copy V xCb sz nB mxSafe mxPage it' s = (rc, t)" using run by (simp add: rest_def)
      from copied_skip [OF IH [OF this less.prems(3)] sk(1,2) 2(2)] show ?thesis .
    next
      case 3
      show ?thesis
      proof (cases "rc1 = SQLITE_OK")
        case False
        then show ?thesis using run 3 st1 by (auto intro!: copied_none)
      next
        case True
        note D = frame_data [OF F less.prems(3) _ _ r [unfolded True]]
        have d: "b = snd (snd (ps ! (c - 1)))" "length b = sz" using D io(1) [OF sk(3) [OF False]] by simp_all
        note W = xWrite_db [OF F P x d(2)]
        have o2: "only_db s s2" by (rule only_db_trans [OF only_db_store [OF st1] W(1)])
        have o3: "only_db s s3" by (rule only_db_trans [OF o2 only_db_store [OF st3]])
        have oth: "db_page (dbFile s2) sz pg = db_page (dbFile s) sz pg" "db_page (dbFile s3) sz pg = db_page (dbFile s) sz pg"
          if "pg \<noteq> 0" "pg \<noteq> ?fs c" for pg
          using W(2) [OF that(1) sk(3) [OF False] that(2)] st1 st3 by (simp_all add: same_store_eqs)
        show ?thesis
        proof (cases "rc2 = SQLITE_OK \<and> rc3 = SQLITE_OK")
          case ok: True
          then have "ckpt_copy V xCb sz nB mxSafe mxPage it' s3 = (rc, t)" using run 3 True by (simp add: rest_def)
          moreover have "log_raw (walFile s3) sz (length ps) = ps" using less.prems(3) only_db_eqs(1) [OF o3] by simp
          ultimately have C: "copied sz ps nB mxSafe mxPage ?fs (c - 1) rc s3 t" by (rule IH)
          have "db_page (dbFile s3) sz (?fs c) = snd (snd (ps ! (c - 1)))"
            using W(3) ok d(1) st3 by (simp add: same_store_eqs)
          from copied_step [OF C o3 this oth(2) sk(1,2) 3(2,3) sk(3) [OF False] io(2)] show ?thesis by blast
        next
          case fail: False
          then have rt: "rc \<noteq> SQLITE_OK" "t = s2 \<or> t = s3" using run 3 True by (auto split: if_splits)
          have ot: "only_db s t" "\<And>pg. pg \<noteq> 0 \<Longrightarrow> pg \<noteq> ?fs c \<Longrightarrow> db_page (dbFile t) sz pg = db_page (dbFile s) sz pg"
            using rt(2) o2 o3 oth by auto
          show ?thesis by (rule copied_fail [OF ot 3(2,3) sk(1) rt(1)])
        qed
      qed
    qed
  qed
qed

section \<open>Locks and read marks\<close>

text \<open>A reader holds read mark \<open>j\<close>: no exclusive lock that covers it is granted.\<close>

definition slot_held :: "'x vfs \<Rightarrow> nat \<Rightarrow> bool" where
  "slot_held V j \<longleftrightarrow> (\<forall>i n s. i \<le> WAL_READ_LOCK j \<and> WAL_READ_LOCK j < i + n \<longrightarrow>
     fst (xShmLock V i n ShmLockExclusive s) = SQLITE_BUSY)"

definition busy_lock_post :: "'x vfs \<Rightarrow> Wal \<Rightarrow> 'x busy \<Rightarrow> nat \<Rightarrow> nat \<Rightarrow> 'x world \<Rightarrow> rc \<times> 'x world \<Rightarrow> bool" where
  "busy_lock_post V w xBusy i n s r \<longleftrightarrow> (vfs_quiet V \<longrightarrow> busy_quiet xBusy \<longrightarrow> same_store s (snd r) \<and>
     (\<forall>j. exclusiveMode w = WAL_NORMAL_MODE \<and> slot_held V j \<and> i \<le> 3 + j \<and> 3 + j < i + n \<longrightarrow> fst r = SQLITE_BUSY))"

lemma walBusyLock_post: "walBusyLock V w xBusy i n s = Some r \<Longrightarrow> busy_lock_post V w xBusy i n s r"
proof (rule walBusyLock.raw_induct [where P = busy_lock_post])
  fix lock and V :: "'a vfs" and w xBusy i n s r
  assume IH: "\<And>V w xBusy i n s r. lock V w xBusy i n s = Some r \<Longrightarrow> busy_lock_post V w xBusy i n s r"
    and body: "(let (rc, s) = walLockExclusive V w i n s
     in case xBusy of
          None \<Rightarrow> Some (rc, s)
        | Some b \<Rightarrow>
            if rc = SQLITE_BUSY then
              let (again, s) = b s in if again then lock V w xBusy i n s else Some (rc, s)
            else Some (rc, s)) = Some r"
  obtain rc1 s1 where l: "walLockExclusive V w i n s = (rc1, s1)" by (cases "walLockExclusive V w i n s")
  have h: "rc1 = SQLITE_BUSY" if "exclusiveMode w = WAL_NORMAL_MODE" "slot_held V j" "i \<le> 3 + j" "3 + j < i + n" for j
  proof -
    have "fst (xShmLock V i n ShmLockExclusive s) = SQLITE_BUSY" using that by (simp add: slot_held_def)
    then show ?thesis using l that(1) by (simp add: walLockExclusive_def)
  qed
  show "busy_lock_post V w xBusy i n s r"
  proof (cases "\<exists>b. xBusy = Some b \<and> rc1 = SQLITE_BUSY")
    case False
    then have "r = (rc1, s1)" using body l by (auto split: option.splits if_splits)
    then show ?thesis using quiet_locks(3) [OF _ l] h unfolding busy_lock_post_def by auto
  next
    case True
    then obtain b where b: "xBusy = Some b" "rc1 = SQLITE_BUSY" by blast
    obtain again s2 where a: "b s1 = (again, s2)" by (cases "b s1")
    have s2: "same_store s s2" if "vfs_quiet V" "busy_quiet xBusy"
    proof -
      have "same_store s1 (snd (b s1))" using that(2) b(1) by (simp add: busy_quiet_def)
      then show ?thesis using same_store_trans [OF quiet_locks(3) [OF that(1) l]] a by simp
    qed
    show ?thesis
    proof (cases again)
      case False
      then have "r = (rc1, s2)" using body l b a by simp
      then show ?thesis using s2 b unfolding busy_lock_post_def by auto
    next
      case True
      then have "lock V w xBusy i n s2 = Some r" using body l b a by simp
      from IH [OF this] show ?thesis using same_store_trans [OF s2] unfolding busy_lock_post_def by blast
    qed
  qed
qed

lemma walBusyLock_spec:
  assumes "walBusyLock V w xBusy i n s = Some (rc, t)" "vfs_quiet V" "busy_quiet xBusy"
  shows "same_store s t" "exclusiveMode w = WAL_NORMAL_MODE \<Longrightarrow> slot_held V j \<Longrightarrow> i \<le> 3 + j \<Longrightarrow> 3 + j < i + n \<Longrightarrow> rc = SQLITE_BUSY"
  using walBusyLock_post [OF assms(1)] assms(2,3) unfolding busy_lock_post_def by auto

text \<open>A lock attempt without a busy handler always returns.\<close>

lemma walBusyLock_None [simp]: "walBusyLock V w None i n s = Some (walLockExclusive V w i n s)"
  by (subst walBusyLock.simps) (simp split: prod.splits)

lemma ckpt_marks_spec:
  assumes Q: "vfs_quiet V" and N: "exclusiveMode w = WAL_NORMAL_MODE"
  shows "ckpt_marks k V w i m xB rc s = Some (out, rc', m', xB', t) \<Longrightarrow> busy_quiet xB \<Longrightarrow>
    marks_moved w s t \<and> m' \<le> m \<and> busy_quiet xB' \<and> (out \<longrightarrow> rc' \<noteq> SQLITE_OK \<and> rc' \<noteq> SQLITE_BUSY) \<and>
    (\<not> out \<longrightarrow> (\<forall>j. i \<le> j \<and> j < i + k \<and> slot_held V j \<longrightarrow> m' \<le> aReadMark (walCkptInfo w s) ! j))"
proof (induction k arbitrary: i m xB rc s)
  case 0
  then show ?case by (auto simp: marks_moved_store)
next
  case (Suc k)
  let ?y = "aReadMark (walCkptInfo w s) ! i"
  have split: "(\<forall>j. i \<le> j \<and> j < i + Suc k \<and> slot_held V j \<longrightarrow> m' \<le> mk j)"
    if "slot_held V i \<longrightarrow> m' \<le> mk i" "\<forall>j. i + 1 \<le> j \<and> j < i + 1 + k \<and> slot_held V j \<longrightarrow> m' \<le> mk j" for mk
  proof (intro allI impI)
    fix j
    assume "i \<le> j \<and> j < i + Suc k \<and> slot_held V j"
    then show "m' \<le> mk j" using that by (cases "j = i") auto
  qed
  show ?case
  proof (cases "m > ?y")
    case False
    then have "ckpt_marks k V w (i + 1) m xB rc s = Some (out, rc', m', xB', t)" using Suc.prems(1) by simp
    note IH = Suc.IH [OF this Suc.prems(2)]
    then have "m' \<le> ?y" using False by simp
    then show ?thesis using IH split [of "\<lambda>j. aReadMark (walCkptInfo w s) ! j"] by blast
  next
    case True
    obtain rc1 s1 where l: "walBusyLock V w xB (3 + i) 1 s = Some (rc1, s1)"
      using Suc.prems(1) True by (cases "walBusyLock V w xB (3 + i) 1 s") auto
    note L = walBusyLock_spec [OF l Q Suc.prems(2)]
    have c1: "walCkptInfo w s1 = walCkptInfo w s" using same_store_eqs(5) [OF L(1)] by (simp add: walCkptInfo_def)
    consider "rc1 = SQLITE_OK" | "rc1 = SQLITE_BUSY" | "rc1 \<noteq> SQLITE_OK" "rc1 \<noteq> SQLITE_BUSY" by blast
    then show ?thesis
    proof cases
      case 1
      define s2 where "s2 = set_ckptInfo w ((walCkptInfo w s1)\<lparr>aReadMark := (aReadMark (walCkptInfo w s1))[i := if i = 1 then m else READMARK_NOT_USED]\<rparr>) s1"
      define s3 where "s3 = walUnlockExclusive V w (3 + i) 1 s2"
      have "ckpt_marks k V w (i + 1) m xB rc1 s3 = Some (out, rc', m', xB', t)"
        using Suc.prems(1) True l 1 by (simp add: s2_def s3_def Let_def)
      note IH = Suc.IH [OF this Suc.prems(2)]
      have st3: "same_store s2 s3" unfolding s3_def by (rule quiet_locks(4) [OF Q])
      have mm: "marks_moved w s s3"
        using marks_moved_trans [OF marks_moved_store [OF L(1)] marks_moved_trans [OF _ marks_moved_store [OF st3]]]
          marks_moved_set [of w s1] by (simp add: s2_def)
      have "walCkptInfo w s3 = walCkptInfo w s2" using same_store_eqs(5) [OF st3] by (simp add: walCkptInfo_def)
      then have mk: "aReadMark (walCkptInfo w s3) ! j = aReadMark (walCkptInfo w s) ! j" if "i + 1 \<le> j" for j
        using that c1 by (simp add: s2_def)
      have free: "\<not> slot_held V i"
      proof
        assume "slot_held V i"
        from L(2) [OF N this] 1 show False by simp
      qed
      have "m' \<le> aReadMark (walCkptInfo w s) ! j" if "\<not> out" "i + 1 \<le> j" "j < i + 1 + k" "slot_held V j" for j
        using IH that unfolding mk [OF that(2), symmetric] by blast
      then show ?thesis
        using IH marks_moved_trans [OF mm] free split [of "\<lambda>j. aReadMark (walCkptInfo w s) ! j"] by blast
    next
      case 2
      then have "ckpt_marks k V w (i + 1) ?y None rc1 s1 = Some (out, rc', m', xB', t)"
        using Suc.prems(1) True l by simp
      note IH = Suc.IH [OF this]
      have "busy_quiet None" by (simp add: busy_quiet_def)
      note IH = IH [OF this, unfolded c1]
      then have "m' \<le> ?y" "m' \<le> m" using True by auto
      then show ?thesis
        using IH marks_moved_trans [OF marks_moved_store [OF L(1)]] split [of "\<lambda>j. aReadMark (walCkptInfo w s) ! j"] by blast
    next
      case 3
      then have r: "out" "rc' = rc1" "m' = m" "xB' = xB" "t = s1" using Suc.prems(1) True l by auto
      then show ?thesis using 3 Suc.prems(2) marks_moved_store [OF L(1)] by simp
    qed
  qed
qed

section \<open>The phases of a checkpoint\<close>

text \<open>The iterator of a checkpoint offers no page twice, and every newest frame that is safe.\<close>

lemma page_frame_cong:
  assumes "\<And>f. 0 < f \<Longrightarrow> f \<le> mx \<Longrightarrow> log ! (f - 1) = log' ! (f - 1)"
  shows "page_frame log a mx pg f \<longleftrightarrow> page_frame log' a mx pg f"
  using assms unfolding page_frame_def by (metis gr_zeroI not_less0)

lemma rev_init_iter:
  assumes W: "wi_repr W lg" "proper lg" "take (length ps) lg = map fst ps" and mx: "0 < mxFrame (hdr w)" "mxFrame (hdr w) \<le> length ps"
    and safe: "mxSafe \<le> length ps"
    and r: "walIteratorRevInit E W w nB mxSafe ignore = (rc, Some it, w')"
  shows "same_conn w w'" "iter_ok ps (frames it)" "current it = mxFrame (hdr w)"
    "nB < f \<Longrightarrow> f \<le> mxSafe \<Longrightarrow> page_frame (map fst ps) nB (mxFrame (hdr w)) pg f \<Longrightarrow> frames it f = pg"
proof -
  let ?log = lg and ?mx = "mxFrame (hdr w)"
  have l: "length ps \<le> length lg" using arg_cong [OF W(3), of length] by simp
  have lg: "lg ! (f - 1) = fst (ps ! (f - 1))" if "0 < f" "f \<le> length ps" for f
    using arg_cong [OF W(3), of "\<lambda>l. l ! (f - 1)"] that by simp
  note S = walIteratorRevInit_spec [OF W(1,2) mx(1) le_trans [OF mx(2) l] le_trans [OF safe l] r]
  have ok: "rc = SQLITE_OK"
    using r by (auto simp: walIteratorRevInit_def split: if_splits option.splits prod.splits)
  show "same_conn w w'" "current it = ?mx" using S ok by auto
  have fr: "frames it f = (if rev_visits ?log nB w mxSafe ignore f then ?log ! (f - 1) else 0)" for f
    using S ok by simp
  have fnd: "found ?log w n k \<le> n" for n k
    using find_linear_newest [of ?log k "minFrame w" n] by (auto simp: found_def newest_def answers_def)
  have vis: "0 < g \<and> g \<le> length ps" if v: "rev_visits ?log nB w mxSafe ignore g" for g
  proof -
    obtain k h where h: "page_frame ?log (iter_base nB) ?mx k h"
        "if h \<le> mxSafe \<or> ignore then g = h else g \<noteq> 0 \<and> g = found ?log w mxSafe k"
      using v by (auto simp: rev_visits_def rev_target_def)
    then show ?thesis using mx safe fnd [of mxSafe k] by (auto simp: page_frame_def split: if_splits)
  qed
  have inj: "f = g" if v: "rev_visits ?log nB w mxSafe ignore f" "rev_visits ?log nB w mxSafe ignore g"
      and eq: "?log ! (f - 1) = ?log ! (g - 1)" for f g
  proof -
    obtain k where k: "rev_target ?log (iter_base nB) ?mx w mxSafe ignore k f"
        "rev_target ?log (iter_base nB) ?mx w mxSafe ignore k g"
    proof -
      obtain k1 k2 where k: "rev_target ?log (iter_base nB) ?mx w mxSafe ignore k1 f"
          "rev_target ?log (iter_base nB) ?mx w mxSafe ignore k2 g"
        using v unfolding rev_visits_def by blast
      then have "k1 = k2" using rev_target_page [OF k(1)] rev_target_page [OF k(2)] eq by simp
      then show thesis using k that by simp
    qed
    then obtain h where h: "page_frame ?log (iter_base nB) ?mx k h" by (auto simp: rev_target_def)
    show ?thesis using k unfolding rev_target_next [OF h] by (auto split: if_splits)
  qed
  have nz: "frames it f \<noteq> 0 \<Longrightarrow> rev_visits ?log nB w mxSafe ignore f \<and> frames it f = ?log ! (f - 1)" for f
    unfolding fr by (auto split: if_splits)
  have "fst (ps ! (f - 1)) = frames it f" if "frames it f \<noteq> 0" for f
    using nz [OF that] vis [of f] lg [of f] by simp
  moreover have "f = g" if "frames it f \<noteq> 0" "frames it f = frames it g" for f g
    using nz [of f] nz [of g] that inj [of f g] by metis
  ultimately show "iter_ok ps (frames it)" using nz vis unfolding iter_ok_def by blast
  show "frames it f = pg" if a: "nB < f" "f \<le> mxSafe" "page_frame (map fst ps) nB ?mx pg f"
  proof -
    have "page_frame lg nB ?mx pg f"
      using a(3) page_frame_cong [of ?mx lg "map fst ps" nB pg f] lg mx(2) by simp
    note f = a(1,2) this
    have "page_frame ?log (iter_base nB) ?mx pg f"
    proof -
      have "g \<le> f" if "g \<le> ?mx" "?log ! (g - 1) = pg" for g
        using f that by (cases "nB < g") (auto simp: page_frame_def)
      then show ?thesis using f iter_base_le [of nB] unfolding page_frame_def by auto
    qed
    then have "rev_visits ?log nB w mxSafe ignore f"
      unfolding rev_visits_def by (intro exI [of _ pg]) (simp add: rev_target_next f(2))
    then show ?thesis using fr f(3) by (simp add: page_frame_def)
  qed
qed

text \<open>What no phase of the copying touches.\<close>

definition kept :: "Wal \<Rightarrow> 'x world \<Rightarrow> 'x world \<Rightarrow> bool" where
  "kept w s t \<longleftrightarrow> walFile t = walFile s \<and> pages w t = pages w s \<and> walIndexHdr w t = walIndexHdr w s"

lemma kept_refl [simp]: "kept w s s"
  by (simp add: kept_def)

lemma kept_trans: "kept w a b \<Longrightarrow> kept w b c \<Longrightarrow> kept w a c"
  by (simp add: kept_def)

lemma kept_store: "same_store s t \<Longrightarrow> kept w s t"
  by (simp add: kept_def same_store_eqs pages_def walIndexHdr_def)

lemma kept_db: "only_db s t \<Longrightarrow> kept w s t"
  by (simp add: kept_def only_db_eqs)

lemma kept_info [simp]: "kept w s (set_ckptInfo w c s)"
  by (simp add: kept_def set_ckptInfo_def pages_def walIndexHdr_def)

lemma kept_marks: "marks_moved w s t \<Longrightarrow> kept w s t"
  using marks_moved_eqs [of w s t] by (simp add: kept_def)

lemma kept_cong: "uses_heap w' = uses_heap w \<Longrightarrow> kept w' s t = kept w s t"
  by (simp add: kept_def pages_def walIndexHdr_def mem_def)

lemma info_store: "same_store s t \<Longrightarrow> walCkptInfo w t = walCkptInfo w s"
  by (simp add: walCkptInfo_def same_store_eqs)

lemma info_set: "walCkptInfo w (set_ckptInfo w c s) = c" "dbFile (set_ckptInfo w c s) = dbFile s"
  by (simp_all add: walCkptInfo_def set_ckptInfo_def)

lemma OsSync_store: "vfs_quiet V \<Longrightarrow> sqlite3OsSync V f n s = (rc, t) \<Longrightarrow> same_store s t"
  using quiet_same_store(4) by (auto simp: sqlite3OsSync_def split: if_splits)

lemma ckpt_prepare_store:
  assumes Q: "vfs_quiet V" and r: "ckpt_prepare V w sz mxPage fl s = (rc, t)"
  shows "same_store s t"
proof -
  obtain rc1 s1 where y: "sqlite3OsSync V WalFd (CKPT_SYNC_FLAGS fl) s = (rc1, s1)"
    by (cases "sqlite3OsSync V WalFd (CKPT_SYNC_FLAGS fl) s")
  let ?s2 = "xFileControl V DbFd FCNTL_CKPT_START s1"
  obtain rc3 n s3 where z: "xFileSize V DbFd ?s2 = (rc3, n, s3)" by (cases "xFileSize V DbFd ?s2")
  note st1 = OsSync_store [OF Q y]
  note st3 = same_store_trans [OF same_store_trans [OF st1 quiet_same_store(6) [OF Q]] quiet_same_store(5) [OF Q z]]
  have "t = s1 \<or> t = s3 \<or> t = xFileControl V DbFd (FCNTL_SIZE_HINT (unat mxPage * sz)) s3"
    using r y z by (auto simp: ckpt_prepare_def Let_def split: if_splits)
  then show ?thesis using st1 st3 same_store_trans [OF st3 quiet_same_store(6) [OF Q]] by auto
qed

lemma ckpt_finish_spec:
  assumes Q: "vfs_quiet V" and F: "vfs_files V" and U: "vfs_truncate V" and B: "cb_quiet xCb"
    and r: "ckpt_finish V w xCb sz mxSafe fl s = (rc, t)"
  shows "kept w s t" "nBackfill (walCkptInfo w t) = (if rc = SQLITE_OK then mxSafe else nBackfill (walCkptInfo w s))"
    "pg \<noteq> 0 \<Longrightarrow> pg \<le> nPage (hdr w) \<or> mxSafe \<noteq> mxFrame (walIndexHdr w s) \<Longrightarrow>
       db_page (dbFile t) sz pg = db_page (dbFile s) sz pg"
proof -
  let ?n = "unat (nPage (hdr w)) * sz"
  define r1 where "r1 = (case xCb of Some cb \<Rightarrow> cb mxSafe None 0 0 0 s | None \<Rightarrow> (SQLITE_OK, s))"
  obtain rc1 s1 where r1: "r1 = (rc1, s1)" by (cases r1)
  define r2 where "r2 = (if rc1 = SQLITE_OK then xTruncate V DbFd ?n s1 else (rc1, s1))"
  obtain rc2 s2 where r2: "r2 = (rc2, s2)" by (cases r2)
  define r3 where "r3 = (if rc2 = SQLITE_OK then sqlite3OsSync V DbFd (CKPT_SYNC_FLAGS fl) s2 else (rc2, s2))"
  obtain rc3 s3 where r3: "r3 = (rc3, s3)" by (cases r3)
  define full where "full = (mxSafe = mxFrame (walIndexHdr w s))"
  define u where "u = (if full then s3 else s)"
  have run: "rc = (if full then rc3 else SQLITE_OK)"
      "t = (if rc = SQLITE_OK then set_ckptInfo w ((walCkptInfo w u)\<lparr>nBackfill := mxSafe\<rparr>) u else u)"
    using r r1 r2 r3 unfolding ckpt_finish_def r1_def [symmetric] Let_def
    by (auto simp: u_def full_def r1_def r2_def r3_def split: if_splits)
  have st1: "same_store s s1" using r1 B by (auto simp: r1_def cb_quiet_def split: option.splits) (metis snd_conv)
  have st3: "same_store s2 s3" using r3 OsSync_store [OF Q] by (auto simp: r3_def split: if_splits)
  have st2: "same_store s1 s2 \<or> same_store (s1\<lparr>dbFile := take ?n (dbFile s1) @ replicate (?n - length (dbFile s1)) 0\<rparr>) s2"
  proof (cases "rc1 = SQLITE_OK \<and> rc2 = SQLITE_OK")
    case True
    then show ?thesis using r2 vfs_files_D(4) [OF F, of DbFd ?n s1 s2] by (simp add: r2_def)
  next
    case False
    then show ?thesis using r2 U by (auto simp: r2_def vfs_truncate_def split: if_splits) (metis fst_conv snd_conv)
  qed
  have od: "only_db s s3"
    using only_db_trans [OF only_db_store [OF st1] only_db_trans [OF _ only_db_store [OF st3]]] st2
    by (auto simp: only_db_def same_store_def)
  then have ou: "only_db s u" by (simp add: u_def)
  show "kept w s t" using run(2) kept_db [OF ou, of w] kept_trans [OF _ kept_info] by (auto split: if_splits)
  show "nBackfill (walCkptInfo w t) = (if rc = SQLITE_OK then mxSafe else nBackfill (walCkptInfo w s))"
    using run(2) only_db_eqs(4) [OF ou] by (simp add: info_set)
  have du: "dbFile t = dbFile u" using run(2) by (simp add: info_set)
  show "db_page (dbFile t) sz pg = db_page (dbFile s) sz pg"
    if "pg \<noteq> 0" "pg \<le> nPage (hdr w) \<or> mxSafe \<noteq> mxFrame (walIndexHdr w s)"
  proof (cases full)
    case True
    then have "unat pg \<le> unat (nPage (hdr w))" using that by (simp add: full_def word_le_nat_alt)
    then have "db_page (dbFile s3) sz pg = db_page (dbFile s) sz pg"
      using st1 st2 st3 db_page_cut [OF that(1)] by (auto simp: same_store_def)
    then show ?thesis using du True by (simp add: u_def)
  next
    case False
    then show ?thesis using du by (simp add: u_def)
  qed
qed

text \<open>The result of copying up to frame \<open>mxSafe\<close>: \<open>nBackfill\<close> moves only as far as every newest frame
  has been copied, and other pages of the database are as they were.\<close>

definition backfilled :: "Wal \<Rightarrow> nat \<Rightarrow> log_page list \<Rightarrow> nat \<Rightarrow> 'x world \<Rightarrow> 'x world \<Rightarrow> bool" where
  "backfilled w sz ps mxSafe s t \<longleftrightarrow>
     (let nB = nBackfill (walCkptInfo w s); nB' = nBackfill (walCkptInfo w t); log = map fst ps in
      kept w s t \<and> (nB' = nB \<or> nB < nB' \<and> nB' = mxSafe) \<and>
      (\<forall>pg. pg \<noteq> 0 \<and> (pg \<le> nPage (hdr w) \<or> mxSafe \<noteq> mxFrame (walIndexHdr w s)) \<longrightarrow>
         db_page (dbFile t) sz pg = db_page (dbFile s) sz pg \<or> (\<exists>f. nB < f \<and> f \<le> mxSafe \<and> log ! (f - 1) = pg)) \<and>
      (\<forall>f pg. nB < f \<and> f \<le> nB' \<and> page_frame log nB (mxFrame (hdr w)) pg f \<and> pg \<noteq> 0 \<and> pg \<le> nPage (hdr w) \<longrightarrow>
         db_page (dbFile t) sz pg = snd (snd (ps ! (f - 1)))))"

lemma backfilled_none:
  assumes "kept w s t" "dbFile t = dbFile s" "nBackfill (walCkptInfo w t) = nBackfill (walCkptInfo w s)"
  shows "backfilled w sz ps mxSafe s t"
  using assms by (auto simp: backfilled_def Let_def)

lemma ckpt_backfill_spec:
  assumes Q: "vfs_quiet V" and F: "vfs_files V" and P: "vfs_partial V" and U: "vfs_truncate V" and B: "cb_quiet xCb"
    and r: "ckpt_backfill V w xCb sz mxSafe fl it s = (rc, t)"
    and it: "iter_ok ps (frames it)" "current it = mxFrame (hdr w)" "mxSafe \<le> mxFrame (hdr w)"
      "\<And>f pg. nBackfill (walCkptInfo w s) < f \<Longrightarrow> f \<le> mxSafe \<Longrightarrow>
         page_frame (map fst ps) (nBackfill (walCkptInfo w s)) (mxFrame (hdr w)) pg f \<Longrightarrow> frames it f = pg"
    and L: "log_raw (walFile s) sz (length ps) = ps" and nB: "nBackfill (walCkptInfo w s) < mxSafe"
  shows "backfilled w sz ps mxSafe s t"
proof -
  define nb where "nb = nBackfill (walCkptInfo w s)"
  define s1 where "s1 = set_ckptInfo w ((walCkptInfo w s)\<lparr>nBackfillAttempted := mxSafe\<rparr>) s"
  obtain rc2 s2 where p: "ckpt_prepare V w sz (nPage (hdr w)) fl s1 = (rc2, s2)"
    by (cases "ckpt_prepare V w sz (nPage (hdr w)) fl s1")
  define r3 where "r3 = (if rc2 = SQLITE_OK then ckpt_copy V xCb sz nb mxSafe (nPage (hdr w)) it s2 else (rc2, s2))"
  obtain rc3 s3 where r3: "r3 = (rc3, s3)" by (cases r3)
  define s4 where "s4 = xFileControl V DbFd FCNTL_CKPT_DONE s3"
  define r5 where "r5 = (if rc3 = SQLITE_OK then ckpt_finish V w xCb sz mxSafe fl s4 else (rc3, s4))"
  obtain rc5 s5 where r5: "r5 = (rc5, s5)" by (cases r5)
  have t: "t = walUnlockExclusive V w 3 1 s5"
    using r p r3 r5 unfolding ckpt_backfill_def nb_def [symmetric] Let_def s1_def [symmetric]
    by (simp add: r3_def s4_def r5_def cong: if_cong)
  have st2: "same_store s1 s2" by (rule ckpt_prepare_store [OF Q p])
  have k2: "kept w s s2" using kept_trans [OF _ kept_store [OF st2]] by (simp add: s1_def)
  have i2: "nBackfill (walCkptInfo w s2) = nb" "dbFile s2 = dbFile s"
    using info_store [OF st2, of w] st2 by (simp_all add: s1_def info_set nb_def same_store_eqs)
  have C: "copied sz ps nb mxSafe (nPage (hdr w)) (frames it) (mxFrame (hdr w)) rc3 s2 s3"
  proof (cases "rc2 = SQLITE_OK")
    case True
    then have "ckpt_copy V xCb sz nb mxSafe (nPage (hdr w)) it s2 = (rc3, s3)" using r3 by (simp add: r3_def)
    from ckpt_copy_spec [OF Q F P B this it(1)] show ?thesis using L k2 it(2) by (simp add: kept_def)
  next
    case False
    then show ?thesis using r3 by (auto simp: r3_def intro: copied_none)
  qed
  have od: "only_db s2 s3" using C by (simp add: copied_def)
  have st4: "same_store s3 s4" unfolding s4_def by (rule quiet_same_store(6) [OF Q])
  have k4: "kept w s s4" using kept_trans [OF k2 kept_trans [OF kept_db [OF od] kept_store [OF st4]]] .
  have i4: "nBackfill (walCkptInfo w s4) = nb" using info_store [OF st4, of w] only_db_eqs(4) [OF od, of w] i2 by simp
  have d4: "dbFile s4 = dbFile s3" using st4 by (simp add: same_store_eqs)
  have st6: "same_store s5 t" unfolding t by (rule quiet_locks(4) [OF Q])
  have fin: "kept w s4 s5" "nBackfill (walCkptInfo w s5) = (if rc3 = SQLITE_OK \<and> rc5 = SQLITE_OK then mxSafe else nb)"
    "\<And>pg. pg \<noteq> 0 \<Longrightarrow> pg \<le> nPage (hdr w) \<or> mxSafe \<noteq> mxFrame (walIndexHdr w s) \<Longrightarrow>
       db_page (dbFile s5) sz pg = db_page (dbFile s3) sz pg"
  proof -
    have "kept w s4 s5 \<and> nBackfill (walCkptInfo w s5) = (if rc3 = SQLITE_OK \<and> rc5 = SQLITE_OK then mxSafe else nb) \<and>
      (\<forall>pg. pg \<noteq> 0 \<and> (pg \<le> nPage (hdr w) \<or> mxSafe \<noteq> mxFrame (walIndexHdr w s)) \<longrightarrow>
         db_page (dbFile s5) sz pg = db_page (dbFile s3) sz pg)"
    proof (cases "rc3 = SQLITE_OK")
      case True
      then have "ckpt_finish V w xCb sz mxSafe fl s4 = (rc5, s5)" using r5 by (simp add: r5_def)
      from ckpt_finish_spec [OF Q F U B this] show ?thesis using True i4 d4 k4 by (simp add: kept_def)
    next
      case False
      then show ?thesis using r5 i4 d4 by (simp add: r5_def)
    qed
    then show "kept w s4 s5" "nBackfill (walCkptInfo w s5) = (if rc3 = SQLITE_OK \<and> rc5 = SQLITE_OK then mxSafe else nb)"
      "\<And>pg. pg \<noteq> 0 \<Longrightarrow> pg \<le> nPage (hdr w) \<or> mxSafe \<noteq> mxFrame (walIndexHdr w s) \<Longrightarrow>
         db_page (dbFile s5) sz pg = db_page (dbFile s3) sz pg"
      by blast+
  qed
  have k: "kept w s t" by (rule kept_trans [OF k4 kept_trans [OF fin(1) kept_store [OF st6]]])
  have i: "nBackfill (walCkptInfo w t) = (if rc3 = SQLITE_OK \<and> rc5 = SQLITE_OK then mxSafe else nb)"
    using fin(2) info_store [OF st6, of w] by simp
  have d: "db_page (dbFile t) sz pg = db_page (dbFile s3) sz pg"
    if "pg \<noteq> 0" "pg \<le> nPage (hdr w) \<or> mxSafe \<noteq> mxFrame (walIndexHdr w s)" for pg
    using fin(3) [OF that] st6 by (simp add: same_store_eqs)
  have log: "map fst ps ! (f - 1) = frames it f" if "frames it f \<noteq> 0" for f
  proof -
    have "0 < f \<and> f \<le> length ps \<and> fst (ps ! (f - 1)) = frames it f" using it(1) that by (simp add: iter_ok_def)
    then show ?thesis by (subst nth_map) auto
  qed
  have ch: "db_page (dbFile t) sz pg = db_page (dbFile s) sz pg \<or> (\<exists>f. nb < f \<and> f \<le> mxSafe \<and> map fst ps ! (f - 1) = pg)"
    if "pg \<noteq> 0" "pg \<le> nPage (hdr w) \<or> mxSafe \<noteq> mxFrame (walIndexHdr w s)" for pg
  proof -
    have "db_page (dbFile s3) sz pg = db_page (dbFile s2) sz pg \<or> (\<exists>f. nb < f \<and> f \<le> mxSafe \<and> frames it f = pg)"
      using C that(1) unfolding copied_def by blast
    then show ?thesis using d [OF that] i2(2) log that(1) by metis
  qed
  have cp: "db_page (dbFile t) sz pg = snd (snd (ps ! (f - 1)))"
    if "nb < f" "f \<le> nBackfill (walCkptInfo w t)" "page_frame (map fst ps) nb (mxFrame (hdr w)) pg f"
       "pg \<noteq> 0" "pg \<le> nPage (hdr w)" for f pg
  proof -
    have ok: "rc3 = SQLITE_OK" and f: "f \<le> mxSafe" using i that(1,2) by (auto split: if_splits)
    have "frames it f = pg" using it(4) f that(1,3) by (simp add: nb_def)
    moreover have "f \<le> mxFrame (hdr w)" using f it(3) by simp
    ultimately show ?thesis using C ok f that d [of pg] unfolding copied_def by auto
  qed
  show ?thesis
    unfolding backfilled_def Let_def nb_def [symmetric] using k i nB ch cp by (auto simp: nb_def)
qed

lemma backfilled_moved:
  assumes "backfilled w sz ps mxSafe s1 t" "marks_moved w s s1"
  shows "backfilled w sz ps mxSafe s t"
  using assms marks_moved_eqs [OF assms(2)] kept_trans [OF kept_marks [OF assms(2)]]
  by (simp add: backfilled_def Let_def)

lemma conn_mem:
  assumes "same_conn w w'"
  shows "uses_heap w' = uses_heap w" "walPagesize w' = walPagesize w" "mem w' s = mem w s"
    "walCkptInfo w' s = walCkptInfo w s" "pages w' s = pages w s" "walIndexHdr w' s = walIndexHdr w s"
  using same_conn_fields [OF assms]
  by (simp_all add: uses_heap_def mem_def walPagesize_def walCkptInfo_def pages_def walIndexHdr_def)

lemma backfilled_conn: "same_conn w w' \<Longrightarrow> backfilled w' sz ps m s t \<longleftrightarrow> backfilled w sz ps m s t"
  by (simp add: backfilled_def kept_def conn_mem same_conn_fields)

text \<open>The environment of a checkpoint: the log \<open>ps\<close> with its index, and the header read from it.\<close>

definition ckpt_pre :: "Wal \<Rightarrow> 'x world \<Rightarrow> log_page list \<Rightarrow> bool" where
  "ckpt_pre w s ps \<longleftrightarrow> (\<exists>lg. wi_repr (pages w s) lg \<and> proper lg \<and> take (length ps) lg = map fst ps) \<and>
     log_raw (walFile s) (walPagesize w) (length ps) = ps \<and> mxFrame (hdr w) \<le> length ps \<and>
     mxFrame (hdr w) \<le> mxFrame (walIndexHdr w s) \<and> mxFrame (walIndexHdr w s) \<le> length ps \<and>
     exclusiveMode w = WAL_NORMAL_MODE"

lemma ckpt_copying_spec:
  assumes Q: "vfs_quiet V" and F: "vfs_files V" and P: "vfs_partial V" and U: "vfs_truncate V"
    and B: "cb_quiet xCb" "busy_quiet xB"
    and r: "ckpt_copying V w xB xCb fl s = Some (out, rc, w', xB', t)" and I: "ckpt_pre w s ps"
  shows "\<exists>mxSafe. mxSafe \<le> mxFrame (hdr w) \<and> backfilled w (walPagesize w) ps mxSafe s t \<and>
      (\<forall>j. 1 \<le> j \<and> j < 5 \<and> slot_held V j \<longrightarrow>
         mxSafe \<le> aReadMark (walCkptInfo w s) ! j)"
    "slot_held V 0 \<Longrightarrow> dbFile t = dbFile s" "same_conn w w'" "busy_quiet xB'"
proof -
  let ?mx = "mxFrame (hdr w)" and ?sz = "walPagesize w" and ?nB = "nBackfill (walCkptInfo w s)"
  obtain lg where lg: "wi_repr (pages w s) lg" "proper lg" "take (length ps) lg = map fst ps"
    using I unfolding ckpt_pre_def by blast
  have lgl: "length ps \<le> length lg" using arg_cong [OF lg(3), of length] by simp
  have I': "log_raw (walFile s) ?sz (length ps) = ps" "?mx \<le> length ps" "exclusiveMode w = WAL_NORMAL_MODE"
    using I by (simp_all add: ckpt_pre_def)
  have *: "(\<exists>mxSafe. mxSafe \<le> ?mx \<and> backfilled w ?sz ps mxSafe s t \<and>
      (\<forall>j. 1 \<le> j \<and> j < 5 \<and> slot_held V j \<longrightarrow>
         mxSafe \<le> aReadMark (walCkptInfo w s) ! j)) \<and>
    (slot_held V 0 \<longrightarrow> dbFile t = dbFile s) \<and> same_conn w w' \<and> busy_quiet xB'"
  proof (cases "?nB < ?mx")
    case False
    then have "t = s" "w' = w" "xB' = xB" using r by (auto simp: ckpt_copying_def)
    then show ?thesis using B(2) backfilled_none [of w s s ?sz ps 0] by auto
  next
    case True
    obtain out1 rc1 m xB1 s1 where mk: "ckpt_marks 4 V w 1 ?mx xB SQLITE_OK s = Some (out1, rc1, m, xB1, s1)"
      using r True by (cases "ckpt_marks 4 V w 1 ?mx xB SQLITE_OK s") (auto simp: ckpt_copying_def Let_def)
    note M = ckpt_marks_spec [OF Q I'(3) mk B(2)]
    note E = marks_moved_eqs [OF conjunct1 [OF M]]
    have none: "backfilled w ?sz ps n s t'" if "same_store s1 t'" for n t'
    proof -
      have "backfilled w ?sz ps n s1 t'"
        using backfilled_none [OF kept_store [OF that]] info_store [OF that] that by (simp add: same_store_eqs)
      then show ?thesis using backfilled_moved M by blast
    qed
    show ?thesis
    proof (cases out1)
      case True
      then have "t = s1" "w' = w" "xB' = xB1" using r mk \<open>?nB < ?mx\<close> by (auto simp: ckpt_copying_def Let_def)
      then show ?thesis using none [OF same_store_refl, of 0] E M by (intro conjI exI [of _ 0]) auto
    next
      case out: False
      have marks: "\<forall>j. 1 \<le> j \<and> j < 5 \<and> slot_held V j \<longrightarrow> m \<le> aReadMark (walCkptInfo w s) ! j" using M out by auto
      define ini where "ini = (if ?nB < m then walIteratorRevInit V (pages w s1) w ?nB m (Option.is_none xCb)
         else (rc1, None, w))"
      obtain rc2 it w2 where ini: "ini = (rc2, it, w2)" by (cases ini)
      have m: "m \<le> ?mx" "0 < ?mx" "m \<le> length ps" using M True I'(2) by auto
      have c2: "same_conn w w2"
        using ini walIteratorRevInit_spec [OF lg(1,2) m(2), of m V ?nB "Option.is_none xCb" rc2 it w2] m I'(2) lgl E
        by (auto simp: ini_def split: if_splits)
      note e2 = same_conn_fields [OF c2]
      show ?thesis
      proof (cases it)
        case None
        then have "t = s1" "w' = w2" "xB' = xB1"
          using r mk out ini E \<open>?nB < ?mx\<close> by (auto simp: ckpt_copying_def Let_def ini_def split: if_splits)
        then show ?thesis using none [OF same_store_refl, of 0] E M c2 by (intro conjI exI [of _ 0]) auto
      next
        case (Some i)
        obtain rc3 s3 where l: "walBusyLock V w2 xB1 3 1 s1 = Some (rc3, s3)"
          using r mk out ini E Some \<open>?nB < ?mx\<close>
          by (cases "walBusyLock V w2 xB1 3 1 s1") (auto simp: ckpt_copying_def Let_def ini_def split: if_splits)
        note L = walBusyLock_spec [OF l Q]
        have st: "same_store s1 s3" using L M by simp
        have w': "w' = w2" "xB' = xB1"
          and t: "t = (if rc3 = SQLITE_OK then snd (ckpt_backfill V w2 xCb ?sz m fl i s3) else s3)"
          using r mk out ini E l Some \<open>?nB < ?mx\<close>
          by (auto simp: ckpt_copying_def Let_def ini_def split: if_splits prod.splits)
        show ?thesis
        proof (cases "rc3 = SQLITE_OK")
          case False
          then show ?thesis using none [OF st, of 0] st E M c2 w' t by (intro conjI exI [of _ 0]) (auto simp: same_store_eqs)
        next
          case True
          have nB: "?nB < m" and rev: "walIteratorRevInit V (pages w s) w ?nB m (Option.is_none xCb) = (rc2, Some i, w2)"
            using ini Some E by (auto simp: ini_def split: if_splits)
          note it = rev_init_iter [OF lg m(2) I'(2) m(3) rev]
          have i3: "nBackfill (walCkptInfo w2 s3) = ?nB" "log_raw (walFile s3) ?sz (length ps) = ps"
            using info_store [OF st, of w] E st I'(1) conn_mem(4) [OF c2, of s3] by (simp_all add: same_store_eqs)
          obtain rc4 where "ckpt_backfill V w2 xCb ?sz m fl i s3 = (rc4, t)" using t True by (cases "ckpt_backfill V w2 xCb ?sz m fl i s3") auto
          from ckpt_backfill_spec [OF Q F P U B(1) this it(2) _ _ _ i3(2)]
          have "backfilled w2 ?sz ps m s3 t" using it(3,4) m(1) nB e2(1) i3(1) by simp
          then have "backfilled w ?sz ps m s1 t" using backfilled_conn [OF c2] backfilled_moved marks_moved_store [OF st] by blast
          then have "backfilled w ?sz ps m s t" using backfilled_moved M by blast
          moreover have "dbFile t = dbFile s" if "slot_held V 0"
            using L(2) [OF _ _ that] M True e2 I'(3) by simp
          ultimately show ?thesis using m(1) marks c2 w' M by (intro conjI exI [of _ m]) auto
        qed
      qed
    qed
  qed
  then show "\<exists>mxSafe. mxSafe \<le> mxFrame (hdr w) \<and> backfilled w (walPagesize w) ps mxSafe s t \<and>
      (\<forall>j. 1 \<le> j \<and> j < 5 \<and> slot_held V j \<longrightarrow>
         mxSafe \<le> aReadMark (walCkptInfo w s) ! j)"
    "slot_held V 0 \<Longrightarrow> dbFile t = dbFile s" "same_conn w w'" "busy_quiet xB'"
    by simp_all
qed

text \<open>The second half leaves the database alone. It empties the log only when all of it has been copied, no
  reader uses it, and it is to be truncated.\<close>

definition emptied :: "Wal \<Rightarrow> nat \<Rightarrow> 'x world \<Rightarrow> 'x world \<Rightarrow> bool" where
  "emptied w eMode s t \<longleftrightarrow> eMode = SQLITE_CHECKPOINT_TRUNCATE \<and> mxFrame (hdr w) \<le> nBackfill (walCkptInfo w s) \<and>
     mxFrame (walIndexHdr w t) = 0 \<and> nBackfill (walCkptInfo w t) = 0 \<and> nPage (walIndexHdr w t) = nPage (hdr w)"

lemma ckpt_restart_spec:
  assumes Q: "vfs_quiet V" and F: "vfs_files V" and U: "vfs_truncate V" and B: "busy_quiet xB"
    and r: "ckpt_restart V w eMode xB s = Some (rc, w', t)" and N: "exclusiveMode w = WAL_NORMAL_MODE"
  shows "dbFile t = dbFile s \<and> (same_store s t \<or> emptied w eMode s t \<and> (\<forall>j. 1 \<le> j \<and> j < 5 \<longrightarrow> \<not> slot_held V j))"
proof (cases "nBackfill (walCkptInfo w s) < mxFrame (hdr w) \<or> eMode < SQLITE_CHECKPOINT_RESTART")
  case True
  then have "t = s" using r by (auto simp: ckpt_restart_def split: if_splits)
  then show ?thesis by simp
next
  case False
  obtain salt1 s1 where rn: "sqlite3_randomness V 4 s = (salt1, s1)" by (cases "sqlite3_randomness V 4 s")
  obtain rc2 s2 where l: "walBusyLock V w xB 4 4 s1 = Some (rc2, s2)"
    using r rn False by (cases "walBusyLock V w xB 4 4 s1") (auto simp: ckpt_restart_def Let_def split: if_splits)
  note L = walBusyLock_spec [OF l Q B]
  have st: "same_store s s2" by (rule same_store_trans [OF quiet_same_store(8) [OF Q rn] L(1)])
  show ?thesis
  proof (cases "rc2 = SQLITE_OK \<and> eMode = SQLITE_CHECKPOINT_TRUNCATE")
    case tr: True
    obtain w3 s3 where rh: "walRestartHdr V w salt1 s2 = (w3, s3)" by (cases "walRestartHdr V w salt1 s2")
    obtain rc4 s4 where x: "xTruncate V WalFd 0 s3 = (rc4, s4)" by (cases "xTruncate V WalFd 0 s3")
    have t: "t = walUnlockExclusive V w3 4 4 s4"
      using r rn l False tr rh x by (auto simp: ckpt_restart_def Let_def split: if_splits)
    note H = walRestartHdr_spec [OF Q rh]
    have "only_log s3 s4"
      using vfs_files_D(4) [OF F, of WalFd 0 s3 s4] U x
      by (cases "rc4 = SQLITE_OK") (auto simp: vfs_truncate_def only_log_def same_store_def, (metis fst_conv snd_conv)+)
    then have o: "only_log s3 t" using only_log_trans [OF _ only_log_store [OF quiet_locks(4) [OF Q]]] t by blast
    have "\<not> slot_held V j" if "1 \<le> j" "j < 5" for j using L(2) [OF N, of j] that tr by auto
    moreover have "emptied w eMode s t"
      using False tr H(5,6) only_log_eqs(4) [OF o, of w]
      by (simp add: emptied_def walIndexHdr_def walCkptInfo_def restarted_hdr_def)
    ultimately show ?thesis using only_log_eqs(1) [OF o] H(3) st by (simp add: same_store_eqs)
  next
    case no: False
    then have "t = s2 \<or> t = walUnlockExclusive V w 4 4 s2"
      using r rn l False by (auto simp: ckpt_restart_def Let_def split: if_splits)
    then have "same_store s t" using st same_store_trans [OF st quiet_locks(4) [OF Q]] by auto
    then show ?thesis by (simp add: same_store_eqs)
  qed
qed

lemma walCheckpoint_spec:
  assumes Q: "vfs_quiet V" and F: "vfs_files V" and P: "vfs_partial V" and U: "vfs_truncate V"
    and B: "cb_quiet xCb" "busy_quiet xB"
    and r: "walCheckpoint V w eMode xB fl xCb s = Some (rc, w', t)" and I: "ckpt_pre w s ps"
  shows "\<exists>u mxSafe. mxSafe \<le> mxFrame (hdr w) \<and> backfilled w (walPagesize w) ps mxSafe s u \<and>
      (\<forall>j. 1 \<le> j \<and> j < 5 \<and> slot_held V j \<longrightarrow> mxSafe \<le> aReadMark (walCkptInfo w s) ! j) \<and>
      (slot_held V 0 \<longrightarrow> dbFile t = dbFile s) \<and> dbFile t = dbFile u \<and>
      (same_store u t \<or> emptied w eMode u t \<and> (\<forall>j. 1 \<le> j \<and> j < 5 \<longrightarrow> \<not> slot_held V j))"
proof -
  obtain out rc1 w1 xB1 u where c: "ckpt_copying V w xB xCb fl s = Some (out, rc1, w1, xB1, u)"
    using r by (cases "ckpt_copying V w xB xCb fl s") (auto simp: walCheckpoint_def)
  note C = ckpt_copying_spec [OF Q F P U B c I]
  have N: "exclusiveMode w1 = WAL_NORMAL_MODE" using I same_conn_fields [OF C(3)] by (simp add: ckpt_pre_def)
  have "t = u \<or> ckpt_restart V w1 eMode xB1 u = Some (rc, w', t)"
    using r c by (auto simp: walCheckpoint_def split: if_splits)
  then have "dbFile t = dbFile u \<and> (same_store u t \<or> emptied w1 eMode u t \<and> (\<forall>j. 1 \<le> j \<and> j < 5 \<longrightarrow> \<not> slot_held V j))"
    using ckpt_restart_spec [OF Q F U C(4) _ N, of eMode u rc w' t] by (elim disjE) simp_all
  moreover have "emptied w1 eMode u t = emptied w eMode u t"
    by (simp add: emptied_def same_conn_fields [OF C(3)] conn_mem [OF C(3)])
  ultimately show ?thesis using C(1,2) by auto
qed

section \<open>A checkpoint without contention\<close>

text \<open>When neither a method nor the callback fails, nobody holds a lock and the checkpoint is not interrupted, everything
  the header covers is copied, and the log is emptied where that is asked for.\<close>

definition cb_works :: "'x ckpt_cb \<Rightarrow> bool" where
  "cb_works xCb \<longleftrightarrow> (\<forall>cb m z n p f s. xCb = Some cb \<longrightarrow> fst (cb m z n p f s) = SQLITE_OK)"

lemma cb_runs:
  assumes "cb_quiet xCb" "cb_works xCb"
  shows "\<exists>t. (case xCb of Some cb \<Rightarrow> cb m z n p f s | None \<Rightarrow> (SQLITE_OK, s)) = (SQLITE_OK, t) \<and> same_store s t"
proof (cases xCb)
  case (Some cb)
  obtain rc t where c: "cb m z n p f s = (rc, t)" by (cases "cb m z n p f s")
  have "rc = SQLITE_OK" "same_store s t"
    using assms Some c unfolding cb_quiet_def cb_works_def by (metis fst_conv, metis snd_conv)
  then show ?thesis using Some c by simp
qed simp

definition uninterrupted :: "'x vfs \<Rightarrow> bool" where
  "uninterrupted V \<longleftrightarrow> (\<forall>s. \<not> isInterrupted V s)"

lemma works_OK:
  assumes "vfs_works V"
  shows "xWrite V f b off s = (rc, t) \<Longrightarrow> rc = SQLITE_OK" "xTruncate V f n s = (rc, t) \<Longrightarrow> rc = SQLITE_OK"
    "sqlite3OsSync V f n s = (rc, t) \<Longrightarrow> rc = SQLITE_OK" "xFileSize V f s = (rc, k, t) \<Longrightarrow> rc = SQLITE_OK"
    "off + n \<le> length (fileOf f s) \<Longrightarrow> xRead V f n off s = (rc, b, t) \<Longrightarrow> rc = SQLITE_OK"
    "walLockExclusive V w i n s = (rc, t) \<Longrightarrow> rc = SQLITE_OK"
proof -
  have *: "fst (xWrite V f b off s) = SQLITE_OK" "fst (xTruncate V f n s) = SQLITE_OK" "fst (xSync V f n s) = SQLITE_OK"
    "fst (xFileSize V f s) = SQLITE_OK" "fst (xShmLock V i n ShmLockExclusive s) = SQLITE_OK"
    "off + n \<le> length (fileOf f s) \<Longrightarrow> fst (xRead V f n off s) = SQLITE_OK"
    using assms by (simp_all add: vfs_works_def)
  show "xWrite V f b off s = (rc, t) \<Longrightarrow> rc = SQLITE_OK" "xTruncate V f n s = (rc, t) \<Longrightarrow> rc = SQLITE_OK"
    "sqlite3OsSync V f n s = (rc, t) \<Longrightarrow> rc = SQLITE_OK" "xFileSize V f s = (rc, k, t) \<Longrightarrow> rc = SQLITE_OK"
    "off + n \<le> length (fileOf f s) \<Longrightarrow> xRead V f n off s = (rc, b, t) \<Longrightarrow> rc = SQLITE_OK"
    "walLockExclusive V w i n s = (rc, t) \<Longrightarrow> rc = SQLITE_OK"
    using * by (auto simp: sqlite3OsSync_def walLockExclusive_def split: if_splits)
qed

lemma walBusyLock_works:
  assumes "vfs_works V" "vfs_quiet V"
  shows "\<exists>t. walBusyLock V w xBusy i n s = Some (SQLITE_OK, t) \<and> same_store s t"
proof -
  obtain rc t where l: "walLockExclusive V w i n s = (rc, t)" by (cases "walLockExclusive V w i n s")
  then show ?thesis
    using works_OK(6) [OF assms(1) l] quiet_locks(3) [OF assms(2) l]
    by (subst walBusyLock.simps) (auto split: option.splits)
qed

lemma ckpt_marks_works:
  assumes "vfs_works V" "vfs_quiet V"
  shows "\<exists>t. ckpt_marks k V w i m xB SQLITE_OK s = Some (False, SQLITE_OK, m, xB, t)"
proof (induction k arbitrary: i s)
  case (Suc k)
  obtain t where t: "walBusyLock V w xB (3 + i) 1 s = Some (SQLITE_OK, t)" using walBusyLock_works [OF assms] by blast
  show ?case
  proof (cases "aReadMark (walCkptInfo w s) ! i < m")
    case True
    show ?thesis using Suc.IH by (simp only: ckpt_marks.simps Let_def True if_True t) simp
  next
    case False
    show ?thesis using Suc.IH by (simp only: ckpt_marks.simps Let_def False if_False)
  qed
qed simp

lemma ckpt_copy_works:
  assumes W: "vfs_works V" "vfs_quiet V" "vfs_files V" "uninterrupted V" and C: "cb_quiet xCb" "cb_works xCb"
  shows "iter_ok ps (frames it) \<Longrightarrow> walFrameOffset (length ps + 1) sz \<le> length (walFile s) \<Longrightarrow>
    fst (ckpt_copy V xCb sz nB mxSafe mxPage it s) = SQLITE_OK"
proof (induction "current it" arbitrary: it s rule: less_induct)
  case less
  obtain fin pg f it' where n: "walIteratorRevNext it = (fin, pg, f, it')" by (cases "walIteratorRevNext it")
  show ?case
  proof (cases fin)
    case True
    then show ?thesis using n by (subst ckpt_copy.simps) simp
  next
    case False
    have lt: "current it' < current it" using walIteratorRevNext_less [of pg f it' it] n False by simp
    have fr: "frames it' = frames it" "pg = frames it f" "frames it f \<noteq> 0"
      using n False rev_skip_spec(3) [of "frames it" "current it"] by (auto simp: walIteratorRevNext_def Let_def split: if_splits)
    have f: "0 < f" "f \<le> length ps" using less.prems(1) fr(3) by (simp_all add: iter_ok_def)
    have IH: "fst (ckpt_copy V xCb sz nB mxSafe mxPage it' u) = SQLITE_OK"
      if "walFile u = walFile s" for u
      using less.hyps [OF lt] less.prems fr(1) that by simp
    obtain rc b s1 where r: "xRead V WalFd sz (walFrameOffset f sz + 24) s = (rc, b, s1)"
      by (cases "xRead V WalFd sz (walFrameOffset f sz + 24) s")
    have "f * (sz + 24) \<le> length ps * (sz + 24)" using f(2) by (rule mult_le_mono1)
    then have "walFrameOffset f sz + 24 + sz \<le> length (walFile s)"
      using less.prems(2) f(1) by (cases f) (simp_all add: walFrameOffset_def)
    then have ok: "rc = SQLITE_OK" using works_OK(5) [OF W(1) _ r] by simp
    obtain rc2 s2 where x: "xWrite V DbFd b (unat (pg - 1) * sz) s1 = (rc2, s2)" by (cases "xWrite V DbFd b (unat (pg - 1) * sz) s1")
    note ok2 = works_OK(1) [OF W(1) x]
    have s1: "same_store s s1" using quiet_same_store(3) [OF W(2) r] .
    obtain s3 where cb: "(case xCb of Some cb \<Rightarrow> cb mxSafe (Some b) sz pg f s2 | None \<Rightarrow> (SQLITE_OK, s2)) = (SQLITE_OK, s3)"
        "same_store s2 s3"
      using cb_runs [OF C] by blast
    have "walFile s3 = walFile s"
      using vfs_files_D(3) [OF W(3) x [unfolded ok2]] s1 cb(2) by (simp add: same_store_def)
    then show ?thesis
      using n False r ok x ok2 IH W(4) cb(1) by (subst ckpt_copy.simps) (simp add: uninterrupted_def)
  qed
qed

lemma ckpt_prepare_works:
  assumes W: "vfs_works V" "vfs_quiet V" "vfs_files V" and sz: "unat mxPage * sz \<le> length (dbFile s) + 65536 + mxFrame (hdr w) * sz"
  shows "fst (ckpt_prepare V w sz mxPage fl s) = SQLITE_OK"
proof -
  obtain rc1 s1 where y: "sqlite3OsSync V WalFd (CKPT_SYNC_FLAGS fl) s = (rc1, s1)"
    by (cases "sqlite3OsSync V WalFd (CKPT_SYNC_FLAGS fl) s")
  let ?s2 = "xFileControl V DbFd FCNTL_CKPT_START s1"
  obtain rc3 n s3 where z: "xFileSize V DbFd ?s2 = (rc3, n, s3)" by (cases "xFileSize V DbFd ?s2")
  note ok = works_OK(3) [OF W(1) y] works_OK(4) [OF W(1) z]
  have "same_store s ?s2" by (rule same_store_trans [OF OsSync_store [OF W(2) y] quiet_same_store(6) [OF W(2)]])
  then have "n = length (dbFile s)" using vfs_files_D(2) [OF W(3) z [unfolded ok]] by (simp add: same_store_eqs)
  then show ?thesis using y z ok sz by (simp add: ckpt_prepare_def Let_def)
qed

lemma ckpt_finish_works:
  assumes W: "vfs_works V" and C: "cb_quiet xCb" "cb_works xCb"
  shows "fst (ckpt_finish V w xCb sz mxSafe fl s) = SQLITE_OK"
proof -
  obtain s0 where cb: "(case xCb of Some cb \<Rightarrow> cb mxSafe None 0 0 0 s | None \<Rightarrow> (SQLITE_OK, s)) = (SQLITE_OK, s0)"
    using cb_runs [OF C] by blast
  obtain rc1 s1 where x: "xTruncate V DbFd (unat (nPage (hdr w)) * sz) s0 = (rc1, s1)"
    by (cases "xTruncate V DbFd (unat (nPage (hdr w)) * sz) s0")
  obtain rc2 s2 where y: "sqlite3OsSync V DbFd (CKPT_SYNC_FLAGS fl) s1 = (rc2, s2)"
    by (cases "sqlite3OsSync V DbFd (CKPT_SYNC_FLAGS fl) s1")
  show ?thesis using cb x y works_OK(2) [OF W x] works_OK(3) [OF W y] by (simp add: ckpt_finish_def Let_def)
qed

lemma vfs_works_laws: "vfs_works V \<Longrightarrow> vfs_truncate V" "vfs_works V \<Longrightarrow> vfs_partial V"
  by (simp_all add: vfs_works_def vfs_truncate_def vfs_partial_def)

lemma ckpt_backfill_works:
  assumes W: "vfs_works V" "vfs_quiet V" "vfs_files V" "uninterrupted V" and C: "cb_quiet xCb" "cb_works xCb" and it: "iter_ok ps (frames it)"
    and sz: "walFrameOffset (length ps + 1) sz \<le> length (walFile s)"
      "unat (nPage (hdr w)) * sz \<le> length (dbFile s) + 65536 + mxFrame (hdr w) * sz"
  shows "\<exists>t. ckpt_backfill V w xCb sz m fl it s = (SQLITE_OK, t) \<and> nBackfill (walCkptInfo w t) = m"
proof -
  define nb where "nb = nBackfill (walCkptInfo w s)"
  define s1 where "s1 = set_ckptInfo w ((walCkptInfo w s)\<lparr>nBackfillAttempted := m\<rparr>) s"
  have f1: "dbFile s1 = dbFile s" "walFile s1 = walFile s" by (simp_all add: s1_def set_ckptInfo_def)
  obtain rc2 s2 where p: "ckpt_prepare V w sz (nPage (hdr w)) fl s1 = (rc2, s2)"
    by (cases "ckpt_prepare V w sz (nPage (hdr w)) fl s1")
  have ok2: "rc2 = SQLITE_OK" using ckpt_prepare_works [OF W(1-3), of "nPage (hdr w)" sz s1 w fl] sz(2) f1 p by simp
  have "walFile s2 = walFile s" using ckpt_prepare_store [OF W(2) p] f1(2) by (simp add: same_store_eqs)
  moreover obtain rc3 s3 where c: "ckpt_copy V xCb sz nb m (nPage (hdr w)) it s2 = (rc3, s3)"
    by (cases "ckpt_copy V xCb sz nb m (nPage (hdr w)) it s2")
  ultimately have ok3: "rc3 = SQLITE_OK" using ckpt_copy_works [OF W C it, of sz s2] sz(1) by (metis fst_conv)
  define s4 where "s4 = xFileControl V DbFd FCNTL_CKPT_DONE s3"
  obtain rc5 s5 where n: "ckpt_finish V w xCb sz m fl s4 = (rc5, s5)" by (cases "ckpt_finish V w xCb sz m fl s4")
  have ok5: "rc5 = SQLITE_OK" using ckpt_finish_works [OF W(1) C] n by (metis fst_conv)
  let ?t = "walUnlockExclusive V w 3 1 s5"
  have "nBackfill (walCkptInfo w s5) = m"
    using ckpt_finish_spec(2) [OF W(2,3) vfs_works_laws(1) [OF W(1)] C(1) n] ok5 by simp
  moreover have "walCkptInfo w ?t = walCkptInfo w s5" by (rule info_store [OF quiet_locks(4) [OF W(2)]])
  moreover have "ckpt_backfill V w xCb sz m fl it s = (SQLITE_OK, ?t)"
    using p c n ok2 ok3 ok5 unfolding ckpt_backfill_def nb_def [symmetric] Let_def s1_def [symmetric]
    by (simp add: s4_def)
  ultimately show ?thesis by auto
qed

lemma ckpt_copying_works:
  assumes W: "vfs_works V" "vfs_quiet V" "vfs_files V" "uninterrupted V" and C: "cb_quiet xCb" "cb_works xCb" and I: "ckpt_pre w s ps"
    and sz: "walFrameOffset (length ps + 1) (walPagesize w) \<le> length (walFile s)"
      "unat (nPage (hdr w)) * walPagesize w \<le> length (dbFile s) + 65536 + mxFrame (hdr w) * walPagesize w"
    and B: "busy_quiet xB"
  shows "\<exists>w' t. ckpt_copying V w xB xCb fl s = Some (False, SQLITE_OK, w', xB, t) \<and> same_conn w w' \<and>
    nBackfill (walCkptInfo w t) = max (nBackfill (walCkptInfo w s)) (mxFrame (hdr w))"
proof (cases "nBackfill (walCkptInfo w s) < mxFrame (hdr w)")
  case False
  then show ?thesis by (auto simp: ckpt_copying_def)
next
  case True
  let ?mx = "mxFrame (hdr w)" and ?sz = "walPagesize w" and ?nB = "nBackfill (walCkptInfo w s)"
  obtain lg where lg: "wi_repr (pages w s) lg" "proper lg" "take (length ps) lg = map fst ps" and mx: "?mx \<le> length ps"
      and N: "exclusiveMode w = WAL_NORMAL_MODE"
    using I by (auto simp: ckpt_pre_def)
  have lgl: "length ps \<le> length lg" using arg_cong [OF lg(3), of length] by simp
  obtain s1 where mk: "ckpt_marks 4 V w 1 ?mx xB SQLITE_OK s = Some (False, SQLITE_OK, ?mx, xB, s1)"
    using ckpt_marks_works [OF W(1,2)] by blast
  have E: "nBackfill (walCkptInfo w s1) = ?nB" "pages w s1 = pages w s" "walFile s1 = walFile s" "dbFile s1 = dbFile s"
    using marks_moved_eqs [OF conjunct1 [OF ckpt_marks_spec [OF W(2) N mk B]]] by simp_all
  obtain rc2 it w2 where ini: "walIteratorRevInit V (pages w s) w ?nB ?mx (Option.is_none xCb) = (rc2, it, w2)"
    by (cases "walIteratorRevInit V (pages w s) w ?nB ?mx (Option.is_none xCb)")
  note S = walIteratorRevInit_spec [OF lg(1,2) _ _ _ ini]
  have "rc2 = SQLITE_OK" using S W(1) mx lgl True by (auto simp: vfs_works_def)
  then obtain i where it: "it = Some i" using S mx lgl True by auto
  note R = rev_init_iter [OF lg _ mx mx ini [unfolded it]]
  have c2: "same_conn w w2" "iter_ok ps (frames i)" using R True by auto
  obtain s3 where l: "walBusyLock V w2 xB 3 1 s1 = Some (SQLITE_OK, s3)" "same_store s1 s3"
    using walBusyLock_works [OF W(1,2)] by blast
  have "walPagesize w2 = ?sz" "nPage (hdr w2) = nPage (hdr w)" "mxFrame (hdr w2) = ?mx"
    using conn_mem(2) [OF c2(1)] same_conn_fields(1) [OF c2(1)] by simp_all
  then obtain t where b: "ckpt_backfill V w2 xCb ?sz ?mx fl i s3 = (SQLITE_OK, t)" "nBackfill (walCkptInfo w2 t) = ?mx"
    using ckpt_backfill_works [OF W C c2(2), of ?sz s3 w2 ?mx fl] sz E l(2) by (auto simp: same_store_eqs)
  have "ckpt_copying V w xB xCb fl s = Some (False, SQLITE_OK, w2, xB, t)"
    using True mk ini it l(1) b(1) E(1,2) by (simp add: ckpt_copying_def Let_def)
  then show ?thesis using b(2) True c2(1) by (simp add: conn_mem(4) [OF c2(1)])
qed

lemma ckpt_restart_works:
  assumes W: "vfs_works V" "vfs_quiet V" "vfs_files V" and n: "mxFrame (hdr w) \<le> nBackfill (walCkptInfo w s)"
  shows "\<exists>w' t. ckpt_restart V w eMode xB s = Some (SQLITE_OK, w', t) \<and> dbFile t = dbFile s \<and>
    (if eMode = SQLITE_CHECKPOINT_TRUNCATE then emptied w eMode s t \<and> walFile t = [] else same_store s t)"
proof (cases "SQLITE_CHECKPOINT_RESTART \<le> eMode")
  case False
  then show ?thesis using n by (simp add: ckpt_restart_def)
next
  case True
  obtain salt1 s1 where rn: "sqlite3_randomness V 4 s = (salt1, s1)" by (cases "sqlite3_randomness V 4 s")
  obtain s2 where l: "walBusyLock V w xB 4 4 s1 = Some (SQLITE_OK, s2)" "same_store s1 s2"
    using walBusyLock_works [OF W(1,2)] by blast
  have st: "same_store s s2" by (rule same_store_trans [OF quiet_same_store(8) [OF W(2) rn] l(2)])
  show ?thesis
  proof (cases "eMode = SQLITE_CHECKPOINT_TRUNCATE")
    case no: False
    have "ckpt_restart V w eMode xB s = Some (SQLITE_OK, w, walUnlockExclusive V w 4 4 s2)"
      using True no n rn l(1) by (simp add: ckpt_restart_def)
    moreover have "same_store s (walUnlockExclusive V w 4 4 s2)" by (rule same_store_trans [OF st quiet_locks(4) [OF W(2)]])
    ultimately show ?thesis using no by (simp add: same_store_eqs)
  next
    case tr: True
    obtain w3 s3 where rh: "walRestartHdr V w salt1 s2 = (w3, s3)" by (cases "walRestartHdr V w salt1 s2")
    obtain rc4 s4 where x: "xTruncate V WalFd 0 s3 = (rc4, s4)" by (cases "xTruncate V WalFd 0 s3")
    note ok = works_OK(2) [OF W(1) x]
    let ?t = "walUnlockExclusive V w3 4 4 s4"
    note H = walRestartHdr_spec [OF W(2) rh]
    have "same_store (set_file WalFd [] s3) s4" using vfs_files_D(4) [OF W(3) x [unfolded ok]] by simp
    then have st4: "same_store (set_file WalFd [] s3) ?t" using same_store_trans quiet_locks(4) [OF W(2)] by blast
    have "mem w ?t = mem w s3" "walFile ?t = []" "dbFile ?t = dbFile s3"
      using st4 by (simp_all add: same_store_def mem_def)
    moreover have "ckpt_restart V w eMode xB s = Some (SQLITE_OK, w3, ?t)"
      using True tr n rn l(1) rh x ok by (simp add: ckpt_restart_def)
    ultimately show ?thesis
      using tr n H(3,5,6) st by (simp add: emptied_def walIndexHdr_def walCkptInfo_def restarted_hdr_def same_store_eqs)
  qed
qed

text \<open>Without a busy handler a checkpoint always returns.\<close>

lemma ckpt_marks_returns: "\<exists>b rc m t. ckpt_marks k V w i n None rc0 s = Some (b, rc, m, None, t)"
proof (induction k arbitrary: i n rc0 s)
  case (Suc k)
  then show ?case by (auto simp: Let_def split: prod.splits)
qed auto

lemma walCheckpoint_returns: "\<exists>r. walCheckpoint V w eMode None fl xCb s = Some r"
proof -
  obtain b rc m t where m: "ckpt_marks 4 V w 1 (mxFrame (hdr w)) None SQLITE_OK s = Some (b, rc, m, None, t)"
    using ckpt_marks_returns by blast
  have "\<exists>b rc w' t. ckpt_copying V w None xCb fl s = Some (b, rc, w', None, t)"
    using m by (auto simp: ckpt_copying_def Let_def split: prod.splits option.splits)
  moreover have "\<exists>r. ckpt_restart V w' eMode None t = Some r" for w' t
    by (auto simp: ckpt_restart_def Let_def split: prod.splits)
  ultimately show ?thesis by (auto simp: walCheckpoint_def)
qed

end
