(* ===== verification/PagerWal.thy ===== *)
theory PagerWal
  imports WalCkpt
begin

unbundle bit_operations_syntax

text \<open>
  The pager on top of a write-ahead log (\<^verbatim>\<open>readDbPage\<close>, \<^verbatim>\<open>pagerWalFrames\<close> and
  \<^verbatim>\<open>pagerPagecount\<close> in \<^verbatim>\<open>pager.c\<close>): how a page is read, from the log or from the database file, and how
  commits and checkpoints look to those who read.
\<close>

section \<open>Definitions\<close>

text \<open>The fields of \<^verbatim>\<open>Pager\<close> that the routines use. The log is the default implementation of
  \<^verbatim>\<open>libsql_wal\<close>, that of \<^verbatim>\<open>wal.c\<close>; no backup is running.\<close>

record Pager =
  wal :: "Wal option"
  pageSize :: nat
  dbFileVers :: bytes
  walSyncFlags :: nat
  mxPgno :: Pgno
  stat_write :: u32

definition pagerUseWal :: "Pager \<Rightarrow> bool" where
  "pagerUseWal pPager \<longleftrightarrow> wal pPager \<noteq> None"

text \<open>Reading puts the bytes read over the start of the page's buffer.\<close>

definition readDbPage :: "'x vfs \<Rightarrow> Pager \<Rightarrow> PgHdr \<Rightarrow> 'x world \<Rightarrow> rc \<times> PgHdr \<times> Pager \<times> 'x world" where
  "readDbPage V pPager pPg s =
    (let (rc, iFrame, pPager) =
       (case wal pPager of
          Some w \<Rightarrow> (case sqlite3WalFindFrame V (pages w s) w (pgno pPg) of
             (rc, iFrame, w) \<Rightarrow> (rc, iFrame, pPager\<lparr>wal := Some w\<rparr>))
        | None \<Rightarrow> (SQLITE_OK, 0, pPager))
     in if rc \<noteq> SQLITE_OK then (rc, pPg, pPager, s)
        else
          let (rc, b, s) =
            (case (wal pPager, iFrame \<noteq> 0) of
               (Some w, True) \<Rightarrow> sqlite3WalReadFrame V w iFrame (pageSize pPager) s
             | _ \<Rightarrow>
                 let iOffset = unat (pgno pPg - 1) * pageSize pPager;
                     (rc, b, s) = xRead V DbFd (pageSize pPager) iOffset s
                 in (if rc = SQLITE_IOERR_SHORT_READ then SQLITE_OK else rc, b, s));
              pPg = pPg\<lparr>pData := overwrite (pData pPg) 0 b\<rparr>;
              pPager =
                (if pgno pPg = 1 then
                   pPager\<lparr>dbFileVers := if rc \<noteq> SQLITE_OK then replicate 16 0xff
                                        else take 16 (drop 24 (pData pPg))\<rparr>
                 else pPager)
          in (rc, pPg, pPager, s))"

text \<open>\<^verbatim>\<open>SQLITE_VERSION_NUMBER\<close> comes from a header that the build generates.\<close>

definition pager_write_changecounter :: "u32 \<Rightarrow> Pager \<Rightarrow> PgHdr \<Rightarrow> PgHdr" where
  "pager_write_changecounter version pPager pPg =
    (let change_counter = sqlite3Get4byte (dbFileVers pPager) + 1;
         d = overwrite (pData pPg) 24 (sqlite3Put4byte change_counter);
         d = overwrite d 92 (sqlite3Put4byte change_counter);
         d = overwrite d 96 (sqlite3Put4byte version)
     in pPg\<lparr>pData := d\<rparr>)"

text \<open>The pages written, in the order of their numbers. In a commit those beyond the new end of the
  database are left out; one is always left.\<close>

definition commit_list :: "u32 \<Rightarrow> Pager \<Rightarrow> PgHdr list \<Rightarrow> Pgno \<Rightarrow> bool \<Rightarrow> PgHdr list" where
  "commit_list version pPager pList nTruncate isCommit =
    (case (if isCommit then filter (\<lambda>p. pgno p \<le> nTruncate) pList else pList) of
       p # ps \<Rightarrow> if pgno p = 1 then pager_write_changecounter version pPager p # ps else p # ps
     | [] \<Rightarrow> [])"

text \<open>Called only with a log.\<close>

definition pagerWalFrames ::
  "'x vfs \<Rightarrow> u32 \<Rightarrow> Pager \<Rightarrow> PgHdr list \<Rightarrow> Pgno \<Rightarrow> bool \<Rightarrow> 'x world \<Rightarrow> rc \<times> PgHdr list \<times> Pager \<times> 'x world" where
  "pagerWalFrames V version pPager pList nTruncate isCommit s =
    (case wal pPager of
       None \<Rightarrow> (SQLITE_OK, pList, pPager, s)
     | Some w \<Rightarrow>
         let pList = commit_list version pPager pList nTruncate isCommit;
             nList = (if isCommit then length pList else 1);
             pPager = pPager\<lparr>stat_write := stat_write pPager + of_nat nList\<rparr>;
             (rc, n, pList, w, s) =
               sqlite3WalFrames V w (pageSize pPager) pList nTruncate isCommit (walSyncFlags pPager) s
         in (rc, pList, pPager\<lparr>wal := Some w\<rparr>, s))"

definition pagerPagecount :: "'x vfs \<Rightarrow> Pager \<Rightarrow> 'x world \<Rightarrow> rc \<times> Pgno option \<times> Pager \<times> 'x world" where
  "pagerPagecount V pPager s =
    (let nPage = (if pagerUseWal pPager then sqlite3WalDbsize (wal pPager) else 0);
         (rc, nPage, s) =
           (if nPage = 0 then
              case xFileSize V DbFd s of (rc, n, s) \<Rightarrow>
                (rc, of_nat ((n + pageSize pPager - 1) div pageSize pPager), s)
            else (SQLITE_OK, nPage, s))
     in if rc \<noteq> SQLITE_OK then (rc, None, pPager, s)
        else (SQLITE_OK, Some nPage, if nPage > mxPgno pPager then pPager\<lparr>mxPgno := nPage\<rparr> else pPager, s))"

section \<open>Reading\<close>

text \<open>A read that hits the end of the file fills the rest of the buffer with zeros.\<close>

definition vfs_short :: "'x vfs \<Rightarrow> bool" where
  "vfs_short V \<longleftrightarrow> (\<forall>f n off s b t. xRead V f n off s = (SQLITE_IOERR_SHORT_READ, b, t) \<longrightarrow>
     b = map (at (fileOf f s)) [off..<off + n])"

lemma plain_vfs_short: "vfs_short plain_vfs"
  by (simp add: vfs_short_def plain_vfs_def)

lemma overwrite_all: "length b = length d \<Longrightarrow> overwrite d 0 b = b"
  by (simp add: overwrite_def)

lemma take_drop_at: "off + n \<le> length f \<Longrightarrow> take n (drop off f) = map (at f) [off..<off + n]"
  by (rule nth_equalityI) (simp_all add: at_def)

text \<open>A connection that holds read mark 0 reads the database file only.\<close>

definition bypasses :: "Wal \<Rightarrow> bool" where
  "bypasses rd \<longleftrightarrow> readLock rd = 0 \<and> \<not> bShmUnreliable rd"

text \<open>What a connection in a read transaction is to see of the log \<open>ps\<close> and the database file.\<close>

definition conn_view :: "Wal \<Rightarrow> log_page list \<Rightarrow> bytes \<Rightarrow> u32 \<Rightarrow> bytes" where
  "conn_view rd ps db pg =
    (if bypasses rd then db_page db (walPagesize rd) pg
     else reader_view ps (minFrame rd) (mxFrame (hdr rd)) db (walPagesize rd) pg)"

text \<open>The log and its index as a connection finds them.\<close>

definition log_at :: "Wal \<Rightarrow> 'x world \<Rightarrow> log_page list \<Rightarrow> bool" where
  "log_at w s ps \<longleftrightarrow> (\<exists>lg. wi_repr (pages w s) lg \<and> take (length ps) lg = map fst ps) \<and>
     log_raw (walFile s) (walPagesize w) (length ps) = ps"

lemma log_at_find:
  assumes "bypasses w \<or> log_at w s ps \<and> mxFrame (hdr w) \<le> length ps"
    and "sqlite3WalFindFrame V (pages w s) w pg = (SQLITE_OK, i, w')"
  shows "same_conn w w' \<and> i = (if bypasses w then 0 else find_linear (map fst ps) pg (minFrame w) (mxFrame (hdr w)))"
proof (cases "bypasses w")
  case True
  then show ?thesis using assms(2) by (simp add: sqlite3WalFindFrame_def walFindFrame_def bypasses_def)
next
  case False
  then have L: "log_at w s ps" "mxFrame (hdr w) \<le> length ps" using assms(1) by simp_all
  obtain lg where lg: "wi_repr (pages w s) lg" "take (length ps) lg = map fst ps" using L(1) by (auto simp: log_at_def)
  have l: "length ps \<le> length lg" using arg_cong [OF lg(2), of length] by simp
  have r: "walFindFrame V (pages w s) w pg (mxFrame (hdr w)) = (SQLITE_OK, i, w')"
    using assms(2) by (simp add: sqlite3WalFindFrame_def)
  have "lg = map fst ps @ drop (length ps) lg" using append_take_drop_id [of "length ps" lg] lg(2) by simp
  then have "find_linear lg pg m n = find_linear (map fst ps) pg m n" if "n \<le> length ps" for m n
    using wix.find_linear_append [of n "map fst ps" "drop (length ps) lg" pg m] that by simp
  then show ?thesis using find_repr [OF lg(1) _ _ r] False L(2) l by (auto simp: bypasses_def)
qed

lemma readDbPage_found:
  assumes F: "vfs_files V" "vfs_short V" and P: "wal P = Some rd" "pageSize P = walPagesize rd" "length (pData p) = pageSize P"
    and f: "sqlite3WalFindFrame V (pages rd s) rd (pgno p) = (rc1, i, w1)" "same_conn rd w1"
    and r: "readDbPage V P p s = (SQLITE_OK, p', P', t)"
  shows "rc1 = SQLITE_OK" "i = 0 \<Longrightarrow> p' = p\<lparr>pData := db_page (dbFile s) (walPagesize rd) (pgno p)\<rparr>"
    "i \<noteq> 0 \<Longrightarrow> \<exists>b t. xRead V WalFd (walPagesize rd) (walFrameOffset i (walPagesize rd) + 24) s = (SQLITE_OK, b, t) \<and>
       p' = p\<lparr>pData := b\<rparr>"
proof -
  let ?sz = "walPagesize rd" and ?off = "unat (pgno p - 1) * walPagesize rd"
  show ok: "rc1 = SQLITE_OK" using r P f(1) by (auto simp: readDbPage_def split: if_splits)
  show "p' = p\<lparr>pData := db_page (dbFile s) ?sz (pgno p)\<rparr>" if "i = 0"
  proof -
    obtain rc2 b t2 where x: "xRead V DbFd ?sz ?off s = (rc2, b, t2)" by (cases "xRead V DbFd ?sz ?off s")
    have p': "p' = p\<lparr>pData := overwrite (pData p) 0 b\<rparr>" "rc2 = SQLITE_OK \<or> rc2 = SQLITE_IOERR_SHORT_READ"
      using r P f(1) ok that x by (auto simp: readDbPage_def Let_def split: if_splits)
    have "b = map (at (dbFile s)) [?off..<?off + ?sz]"
      using p'(2) vfs_files_D(1) [OF F(1), of DbFd] F(2) x take_drop_at unfolding vfs_short_def by fastforce
    then have "b = db_page (dbFile s) ?sz (pgno p)" unfolding db_page_def by (intro nth_equalityI) simp_all
    then show ?thesis using p'(1) overwrite_all [of b "pData p"] P by simp
  qed
  show "\<exists>b t. xRead V WalFd ?sz (walFrameOffset i ?sz + 24) s = (SQLITE_OK, b, t) \<and> p' = p\<lparr>pData := b\<rparr>" if "i \<noteq> 0"
  proof -
    obtain rc2 b t2 where x: "sqlite3WalReadFrame V w1 i ?sz s = (rc2, b, t2)" by (cases "sqlite3WalReadFrame V w1 i ?sz s")
    have p': "p' = p\<lparr>pData := overwrite (pData p) 0 b\<rparr>" "rc2 = SQLITE_OK"
      using r P f(1) ok that x by (auto simp: readDbPage_def Let_def split: if_splits)
    have y: "xRead V WalFd ?sz (walFrameOffset i ?sz + 24) s = (SQLITE_OK, b, t2)"
      using x p'(2) conn_mem(2) [OF f(2)] by (simp add: sqlite3WalReadFrame_def Let_def walPagesize_def)
    have "length b = ?sz" using vfs_files_D(1) [OF F(1) y] by auto
    then show ?thesis using y p'(1) overwrite_all [of b "pData p"] P by auto
  qed
qed

lemma readDbPage_view:
  assumes F: "vfs_files V" "vfs_short V" and P: "wal P = Some rd" "pageSize P = walPagesize rd" "length (pData p) = pageSize P"
    and L: "bypasses rd \<or> log_at rd s ps \<and> mxFrame (hdr rd) \<le> length ps"
    and r: "readDbPage V P p s = (SQLITE_OK, p', P', t)"
  shows "p' = p\<lparr>pData := conn_view rd ps (dbFile s) (pgno p)\<rparr>"
proof -
  obtain rc1 i w1 where f: "sqlite3WalFindFrame V (pages rd s) rd (pgno p) = (rc1, i, w1)"
    by (cases "sqlite3WalFindFrame V (pages rd s) rd (pgno p)")
  have "rc1 = SQLITE_OK" using r P f by (auto simp: readDbPage_def split: if_splits)
  note G = log_at_find [OF L f [unfolded this]]
  note R = readDbPage_found [OF F P f conjunct1 [OF G] r]
  show ?thesis
  proof (cases "i = 0")
    case True
    then show ?thesis using R(2) G by (auto simp: conn_view_def reader_view_def)
  next
    case False
    then have n: "\<not> bypasses rd" and i: "i = find_linear (map fst ps) (pgno p) (minFrame rd) (mxFrame (hdr rd))"
      using G by (auto split: if_splits)
    have "i \<in> answers (map fst ps) (pgno p) (minFrame rd) (mxFrame (hdr rd))"
      using find_linear_newest [of "map fst ps" "pgno p" "minFrame rd" "mxFrame (hdr rd)"] False i
      by (auto simp: newest_def)
    then have b: "0 < i" "i \<le> length ps" using False L n by (auto simp: answers_def)
    obtain b t where x: "xRead V WalFd (walPagesize rd) (walFrameOffset i (walPagesize rd) + 24) s = (SQLITE_OK, b, t)"
        "p' = p\<lparr>pData := b\<rparr>"
      using R(3) [OF False] by blast
    have "b = snd (snd (ps ! (i - 1)))" using frame_data(1) [OF F(1) _ \<open>0 < i\<close> b(2) x(1)] L n by (simp add: log_at_def)
    then show ?thesis using x(2) n i False by (auto simp: conn_view_def reader_view_def)
  qed
qed

section \<open>Snapshots\<close>

text \<open>A connection that has just opened a read transaction, as
  \<^verbatim>\<open>sqlite3WalBeginReadTransaction\<close> leaves it.\<close>

definition fresh :: "Wal \<Rightarrow> 'x world \<Rightarrow> bool" where
  "fresh rd s \<longleftrightarrow> snapshot_open rd s \<and> \<not> bShmUnreliable rd \<and>
     (if readLock rd = 0 then nBackfill (walCkptInfo rd s) = mxFrame (hdr rd)
      else minFrame rd = nBackfill (walCkptInfo rd s) + 1)"

lemma BeginRead_fresh:
  assumes "sqlite3WalBeginReadTransaction V w s ch = (SQLITE_OK, ch', rd, t)" "vfs_quiet V" "\<not> bShmUnreliable rd"
  shows "fresh rd t"
proof -
  have r: "try_begin_read V w s ch False 0 = (SQLITE_OK, ch', rd, t)"
    using assms(1) by (simp add: sqlite3WalBeginReadTransaction_def)
  obtain w0 s0 ch0 c0 c1 where "walTryBeginRead V w0 s0 ch0 False c0 = (SQLITE_OK, ch', c1, rd, t)"
    using try_begin_read_last [OF r] by blast
  then show ?thesis using walTryBeginRead_OK assms(2,3) unfolding fresh_def by blast
qed

text \<open>The latest snapshot: what such a connection sees.\<close>

definition latest_view :: "Wal \<Rightarrow> log_page list \<Rightarrow> 'x world \<Rightarrow> nat \<Rightarrow> u32 \<Rightarrow> bytes" where
  "latest_view w ps s sz pg =
     reader_view ps (nBackfill (walCkptInfo w s) + 1) (mxFrame (walIndexHdr w s)) (dbFile s) sz pg"

lemma reader_view_beyond: "R < minF \<Longrightarrow> reader_view ps minF R db sz pg = db_page db sz pg"
proof -
  assume "R < minF"
  then have "find_linear (map fst ps) pg minF R = 0" unfolding find_linear_0 by auto
  then show ?thesis by (simp add: reader_view_def)
qed

lemma fresh_view: "fresh rd s \<Longrightarrow> conn_view rd ps (dbFile s) pg = latest_view rd ps s (walPagesize rd) pg"
  by (auto simp: fresh_def snapshot_open_def conn_view_def bypasses_def latest_view_def reader_view_beyond)

lemma latest_view_cong:
  "uses_heap w' = uses_heap w \<Longrightarrow> latest_view w' ps s sz pg = latest_view w ps s sz pg"
  by (simp add: latest_view_def walCkptInfo_def walIndexHdr_def mem_def)

text \<open>The frames after the first \<open>a\<close> decide, the newest first.\<close>

lemma reader_view_log:
  "n \<le> length ps \<Longrightarrow> reader_view ps (a + 1) n db sz pg =
     (case log_view (drop a (take n ps)) pg of Some d \<Rightarrow> d | None \<Rightarrow> db_page db sz pg)"
proof (induction n)
  case 0
  then show ?case by (simp add: reader_view_def find_linear.simps)
next
  case (Suc n)
  show ?case
  proof (cases "Suc n \<le> a")
    case True
    then show ?thesis using reader_view_beyond [of "Suc n" "a + 1"] by simp
  next
    case False
    have t: "drop a (take (Suc n) ps) = drop a (take n ps) @ [ps ! n]"
      using Suc.prems False by (simp add: take_Suc_conv_app_nth)
    obtain q c d where x: "ps ! n = (q, c, d)" by (cases "ps ! n")
    show ?thesis
      using Suc False x unfolding t reader_view_def log_view_append
      by (subst find_linear.simps) (auto simp: log_view_Cons map_add_def Let_def)
  qed
qed

lemma page_size_field:
  assumes "page_size_ok sz"
  shows "page_size (size_field sz) = sz"
proof (cases "sz = 65536")
  case True
  then show ?thesis by (simp add: size_field_def page_size_def)
next
  case False
  have sz: "512 \<le> sz" "sz < 65536" "sz AND (sz - 1) = 0" using assms False by (simp_all add: page_size_ok_def)
  have "sz mod 512 = 0"
  proof (rule ccontr)
    assume "sz mod 512 \<noteq> 0"
    then have "sz - 1 = 512 * (sz div 512) + (sz mod 512 - 1)" using mult_div_mod_eq [of 512 sz] by linarith
    moreover have "sz mod 512 - 1 < 512" using mod_less_divisor [of 512 sz] by linarith
    ultimately have "drop_bit 9 (sz - 1) = drop_bit 9 sz" by (simp add: drop_bit_eq_div)
    then have "drop_bit 9 (sz AND (sz - 1)) = drop_bit 9 sz" unfolding drop_bit_and by simp
    then show False using sz by (simp add: drop_bit_eq_div)
  qed
  then have t: "take_bit 9 sz = 0" "take_bit 16 sz = sz" using sz by (simp_all add: take_bit_eq_mod)
  have b: "9 \<le> n \<and> n < 16" if "bit sz n" for n
    using that arg_cong [OF t(1), of "\<lambda>x. bit x n"] arg_cong [OF t(2), of "\<lambda>x. bit x n"]
    by (auto simp: bit_take_bit_iff)
  have m: "(0xfe00 :: nat) = push_bit 9 (mask 7)" "(0xff00 :: nat) = push_bit 8 (mask 8)"
    by (simp_all add: mask_eq_exp_minus_1 push_bit_eq_mult)
  have "sz AND 0xff00 = sz" "sz AND 0xfe00 = sz"
    unfolding m by (intro bit_eqI; use b in \<open>force simp: bit_and_iff bit_push_bit_iff bit_mask_iff less_diff_conv2\<close>)+
  moreover have "sz AND 1 = 0" using b [of 0] by (simp add: and_one_eq bit_0 even_iff_mod_2_eq_zero [symmetric]) blast
  moreover have "drop_bit 16 sz = 0" using sz(2) by (simp add: drop_bit_eq_div)
  ultimately show ?thesis
    using sz(2) by (simp add: size_field_def page_size_def unat_of_nat)
qed

section \<open>Checkpoints and views\<close>

lemma conn_pages:
  "uses_heap w' = uses_heap w \<Longrightarrow> walPagesize w' = walPagesize w \<Longrightarrow> log_at w' s ps \<longleftrightarrow> log_at w s ps"
  by (simp add: log_at_def pages_def mem_def)

lemma commit_list_ok:
  assumes "\<forall>q\<in>set qs. page_ok sz q" "distinct (map pgno qs)" "100 \<le> sz" "\<exists>q\<in>set qs. pgno q \<le> nT"
  shows "\<forall>q\<in>set (commit_list v P qs nT True). page_ok sz q" "distinct (map pgno (commit_list v P qs nT True))"
    "commit_list v P qs nT True \<noteq> []"
proof -
  define qf where "qf = filter (\<lambda>p. pgno p \<le> nT) qs"
  have q: "\<forall>q\<in>set qf. page_ok sz q" "distinct (map pgno qf)" "qf \<noteq> []"
    using assms by (auto simp: qf_def distinct_map_filter filter_empty_conv)
  then obtain p ps where qf: "qf = p # ps" by (cases qf) auto
  have l: "page_ok sz (pager_write_changecounter v P p)" "pgno (pager_write_changecounter v P p) = pgno p"
    using q(1) qf assms(3) by (auto simp: page_ok_def pager_write_changecounter_def Let_def length_overwrite)
  show "\<forall>q\<in>set (commit_list v P qs nT True). page_ok sz q" "distinct (map pgno (commit_list v P qs nT True))"
    "commit_list v P qs nT True \<noteq> []"
    using q l qf by (auto simp: commit_list_def qf_def [symmetric])
qed

lemma ckpt_pre_log:
  "ckpt_pre w s ps \<Longrightarrow> uses_heap rd = uses_heap w \<Longrightarrow> walPagesize rd = walPagesize w \<Longrightarrow> log_at rd s ps"
  by (auto simp: ckpt_pre_def log_at_def pages_def mem_def)

lemma kept_log: "kept w s t \<Longrightarrow> uses_heap rd = uses_heap w \<Longrightarrow> log_at rd s ps \<Longrightarrow> log_at rd t ps"
  by (auto simp: kept_def log_at_def pages_def mem_def)

text \<open>Copying frames into the database changes what no reader sees: neither one that may use the frames that
  were copied, nor one that starts afterwards.\<close>

lemma backfilled_reader:
  assumes B: "backfilled w sz ps mxSafe s t" and R: "mxSafe \<le> R" "minF \<le> nBackfill (walCkptInfo w s) + 1"
    and pg: "pg \<noteq> 0" "pg \<le> nPage (hdr w) \<or> mxSafe \<noteq> mxFrame (walIndexHdr w s)"
  shows "reader_view ps minF R (dbFile t) sz pg = reader_view ps minF R (dbFile s) sz pg"
proof -
  have "db_page (dbFile t) sz pg = db_page (dbFile s) sz pg \<or>
      (\<exists>f. nBackfill (walCkptInfo w s) < f \<and> f \<le> mxSafe \<and> map fst ps ! (f - 1) = pg)"
    using B pg unfolding backfilled_def Let_def by blast
  from reader_view_unchanged [OF this R(2,1)] show ?thesis .
qed

lemma backfilled_later:
  assumes B: "backfilled w sz ps mxSafe s t" and mx: "mxSafe \<le> mxFrame (hdr w)" "mxFrame (hdr w) \<le> R" "R \<le> length ps"
    and pg: "pg \<noteq> 0" "pg \<le> nPage (hdr w)"
  shows "reader_view ps (nBackfill (walCkptInfo w t) + 1) R (dbFile t) sz pg =
    reader_view ps (nBackfill (walCkptInfo w s) + 1) R (dbFile s) sz pg"
proof -
  let ?a = "nBackfill (walCkptInfo w s)" and ?b = "nBackfill (walCkptInfo w t)"
  show ?thesis
  proof (cases "?b = ?a")
    case True
    then show ?thesis using backfilled_reader [OF B, of R "?a + 1" pg] mx pg by simp
  next
    case False
    then have b: "?a < ?b" "?b = mxSafe" using B by (auto simp: backfilled_def Let_def)
    have fr: "page_frame (map fst ps) ?a (mxFrame (hdr w)) pg f"
      if "page_frame (map fst ps) ?a R pg f" "f \<le> ?b" for f
      using that mx b(2) by (auto simp: page_frame_def)
    show ?thesis
    proof (rule reader_view_later)
      show "db_page (dbFile t) sz pg = snd (snd (ps ! (f - 1)))"
        if "?a < f" "f \<le> ?b" "page_frame (map fst ps) ?a R pg f" for f
        using B that pg fr [of f] unfolding backfilled_def Let_def by blast
      show "db_page (dbFile t) sz pg = db_page (dbFile s) sz pg" if n: "\<forall>f. ?a < f \<and> f \<le> R \<longrightarrow> map fst ps ! (f - 1) \<noteq> pg"
      proof -
        have "db_page (dbFile t) sz pg = db_page (dbFile s) sz pg \<or> (\<exists>f. ?a < f \<and> f \<le> mxSafe \<and> map fst ps ! (f - 1) = pg)"
          using B pg unfolding backfilled_def Let_def by blast
        moreover have "\<not> (?a < f \<and> f \<le> mxSafe \<and> map fst ps ! (f - 1) = pg)" for f using n mx by (auto dest: spec [of _ f])
        ultimately show ?thesis by blast
      qed
    qed (use b mx in simp_all)
  qed
qed

lemma backfilled_latest:
  assumes B: "backfilled w sz ps mxSafe s t" and mx: "mxSafe \<le> mxFrame (hdr w)" "mxFrame (hdr w) \<le> mxFrame (walIndexHdr w s)"
      "mxFrame (walIndexHdr w s) \<le> length ps"
    and pg: "pg \<noteq> 0" "pg \<le> nPage (hdr w)"
  shows "latest_view w ps t sz pg = latest_view w ps s sz pg"
proof -
  have "walIndexHdr w t = walIndexHdr w s" using B by (simp add: backfilled_def kept_def Let_def)
  then show ?thesis using backfilled_later [OF assms] by (simp add: latest_view_def)
qed

lemma walCheckpoint_works:
  assumes W: "vfs_works V" "vfs_quiet V" "vfs_files V" "uninterrupted V" and C: "cb_quiet xCb" "cb_works xCb"
    and I: "ckpt_pre w s ps"
    and sz: "walFrameOffset (length ps + 1) (walPagesize w) \<le> length (walFile s)"
      "unat (nPage (hdr w)) * walPagesize w \<le> length (dbFile s) + 65536 + mxFrame (hdr w) * walPagesize w"
    and B: "busy_quiet xB"
  shows "\<exists>w' t. walCheckpoint V w eMode xB fl xCb s = Some (SQLITE_OK, w', t) \<and>
    (if eMode = SQLITE_CHECKPOINT_TRUNCATE
     then mxFrame (walIndexHdr w t) = 0 \<and> nPage (walIndexHdr w t) = nPage (hdr w) \<and>
       nBackfill (walCkptInfo w t) = 0 \<and> walFile t = []
     else nBackfill (walCkptInfo w t) = max (nBackfill (walCkptInfo w s)) (mxFrame (hdr w)) \<and> kept w s t) \<and>
    (\<forall>pg. pg \<noteq> 0 \<and> pg \<le> nPage (hdr w) \<longrightarrow> db_page (dbFile t) (walPagesize w) pg =
       reader_view ps (nBackfill (walCkptInfo w s) + 1) (mxFrame (hdr w)) (dbFile s) (walPagesize w) pg)"
proof -
  obtain w1 u where c: "ckpt_copying V w xB xCb fl s = Some (False, SQLITE_OK, w1, xB, u)" "same_conn w w1"
      "nBackfill (walCkptInfo w u) = max (nBackfill (walCkptInfo w s)) (mxFrame (hdr w))"
    using ckpt_copying_works [OF W C I sz B] by blast
  obtain m where m: "m \<le> mxFrame (hdr w)" "backfilled w (walPagesize w) ps m s u"
    using ckpt_copying_spec(1) [OF W(2,3) vfs_works_laws(2,1) [OF W(1)] C(1) B c(1) I] by blast
  have pg: "db_page (dbFile u) (walPagesize w) pg =
      reader_view ps (nBackfill (walCkptInfo w s) + 1) (mxFrame (hdr w)) (dbFile s) (walPagesize w) pg"
    if "pg \<noteq> 0" "pg \<le> nPage (hdr w)" for pg
    using backfilled_later [OF m(2,1) order_refl _ that] I c(3) reader_view_beyond [of "mxFrame (hdr w)" "nBackfill (walCkptInfo w u) + 1"]
    by (simp add: ckpt_pre_def)
  have k: "kept w s u" using m(2) by (simp add: backfilled_def Let_def)
  have "mxFrame (hdr w1) \<le> nBackfill (walCkptInfo w1 u)" using c(3) by (simp add: same_conn_fields [OF c(2)] conn_mem [OF c(2)])
  from ckpt_restart_works [OF W(1-3) this, of eMode xB] obtain w' t where
    r: "ckpt_restart V w1 eMode xB u = Some (SQLITE_OK, w', t)" "dbFile t = dbFile u"
      "if eMode = SQLITE_CHECKPOINT_TRUNCATE then emptied w1 eMode u t \<and> walFile t = [] else same_store u t" by blast
  show ?thesis
  proof (cases "eMode = SQLITE_CHECKPOINT_PASSIVE")
    case True
    then have "walCheckpoint V w eMode xB fl xCb s = Some (SQLITE_OK, w1, u)" using c(1) by (simp add: walCheckpoint_def)
    then show ?thesis using True c(3) k pg by simp
  next
    case False
    then have "walCheckpoint V w eMode xB fl xCb s = Some (SQLITE_OK, w', t)" using c(1) r(1) by (simp add: walCheckpoint_def)
    moreover have "emptied w1 eMode u t = emptied w eMode u t"
      by (simp add: emptied_def same_conn_fields [OF c(2)] conn_mem [OF c(2)])
    moreover have "nBackfill (walCkptInfo w t) = nBackfill (walCkptInfo w u) \<and> kept w s t" if "same_store u t"
      using kept_trans [OF k kept_store [OF that]] info_store [OF that, of w] by simp
    ultimately show ?thesis using r(2,3) c(3) pg
      by (intro exI [of _ w'] exI [of _ t]) (auto simp: emptied_def split: if_splits)
  qed
qed

lemma cb_works_None: "cb_works None"
  by (simp add: cb_works_def)

section \<open>Commits and views\<close>

text \<open>Sorted by their numbers, the pages of a commit start with page 1, if it is one of them.\<close>

lemma changecounter_data:
  "pData p = pData q \<Longrightarrow> pData (pager_write_changecounter v P p) = pData (pager_write_changecounter v P q)"
  by (simp add: pager_write_changecounter_def Let_def)

lemma page_map_filter: "Q pg \<Longrightarrow> page_map (filter (\<lambda>p. Q (pgno p)) qs) pg = page_map qs pg"
  by (induction qs) (auto simp: page_map_def)

lemma commit_list_map:
  assumes "sorted (map pgno qs)" "\<forall>q\<in>set qs. page_ok sz q" "pg \<le> nT"
  shows "page_map (commit_list v P qs nT True) pg = map_option (\<lambda>d. if pg = 1
    then pData (pager_write_changecounter v P (p\<lparr>pData := d\<rparr>)) else d) (page_map qs pg)"
proof -
  define qf where "qf = filter (\<lambda>p. pgno p \<le> nT) qs"
  have m: "page_map qs pg = page_map qf pg" using page_map_filter [of "\<lambda>n. n \<le> nT" pg qs] assms(3) by (simp add: qf_def)
  have sd: "sorted (map pgno qf)" "\<forall>q\<in>set qf. pgno q \<noteq> 0"
    using assms(1,2) by (auto simp: qf_def page_ok_def sorted_wrt_map sorted_wrt_filter)
  show ?thesis
  proof (cases qf)
    case Nil
    then show ?thesis using m by (simp add: commit_list_def qf_def [symmetric])
  next
    case (Cons q rest)
    have c: "commit_list v P qs nT True = (if pgno q = 1 then pager_write_changecounter v P q # rest else q # rest)"
      using Cons by (simp add: commit_list_def qf_def [symmetric])
    have n: "page_map qf 1 = None" if "pgno q \<noteq> 1"
    proof -
      have "1 < pgno q" using sd(2) Cons that by (simp add: word_less_nat_alt word_unat_eq_iff)
      then have "\<forall>x\<in>set qf. 1 < pgno x" using sd(1) Cons by auto
      then show ?thesis by (auto simp: page_map_def map_of_eq_None_iff)
    qed
    have h: "pgno (pager_write_changecounter v P q) = pgno q" by (simp add: pager_write_changecounter_def Let_def)
    show ?thesis
      using n changecounter_data [of q "p\<lparr>pData := pData q\<rparr>"] unfolding m c
      by (cases "pg = 1") (auto simp: page_map_def Cons h option.map_ident)
  qed
qed

text \<open>The log a commit leaves, as a connection sees it that opens a read transaction afterwards.\<close>

lemma pagerWalFrames_view:
  assumes "vfs_quiet V" "vfs_files V" "vfs_random V" "vfs_truncate V"
    and "wal P = Some w" "pagerWalFrames V v P qs nT True s = (SQLITE_OK, qs', P', t)"
    and "writer_inv w s ps" "mxFrame (walIndexHdr w s) \<le> length ps" "nBackfill (walCkptInfo w s) \<le> mxFrame (walIndexHdr w s)"
    and "readLock w = 0 \<Longrightarrow> hdr w = walIndexHdr w s \<and> iReCksum w = 0 \<and> nBackfill (walCkptInfo w s) = mxFrame (hdr w)"
    and "page_size_ok (pageSize P)" "\<forall>q\<in>set qs. page_ok (pageSize P) q" "distinct (map pgno qs)"
    and "\<exists>q\<in>set qs. pgno q \<le> nT"
    and "walIndexHdr rd t = hdr rd" "uses_heap rd = uses_heap w"
  shows "\<exists>ps'. log_at rd t ps' \<and> mxFrame (hdr rd) = length ps' \<and> walPagesize rd = pageSize P \<and>
    walFrameOffset (length ps' + 1) (pageSize P) \<le> length (walFile t) \<and>
    latest_view rd ps' t (pageSize P) pg =
      (case (log_view (drop (mxFrame (walIndexHdr w s)) ps) ++ page_map (commit_list v P qs nT True)) pg of
         Some d \<Rightarrow> d | None \<Rightarrow> latest_view w ps s (pageSize P) pg)"
proof -
  let ?m = "mxFrame (walIndexHdr w s)" and ?sz = "pageSize P" and ?nB = "nBackfill (walCkptInfo w s)"
  define cs where "cs = commit_list v P qs nT True"
  obtain rc n l w' u where c: "sqlite3WalFrames V w ?sz cs nT True (walSyncFlags P) s = (rc, n, l, w', u)"
    by (cases "sqlite3WalFrames V w ?sz cs nT True (walSyncFlags P) s")
  have r: "walFrames V w ?sz cs nT True (walSyncFlags P) s = (SQLITE_OK, n, l, w', t)"
    using assms(5,6) c unfolding sqlite3WalFrames_def [symmetric]
    by (auto simp: pagerWalFrames_def Let_def cs_def)
  have "100 \<le> ?sz" using assms(11) by (simp add: page_size_ok_def)
  note K = commit_list_ok [OF assms(12,13) this assms(14), of v P, folded cs_def]
  obtain rs ps' where W: "rs \<longrightarrow> readLock w = 0" "log_step (if rs then 0 else ?m) (if rs then [] else ps) cs nT True ps'"
      "indexed w' t ps'" "log_inv w' (walFile t) ps'" "dbFile t = dbFile s" "walIndexHdr w' t = hdr w'"
      "nBackfill (walCkptInfo w' t) = (if rs then 0 else ?nB)" "hdr_szPage (hdr w') = size_field ?sz" "uses_heap w' = uses_heap w"
      "szPage w' = ?sz"
    using walFrames_OK [OF assms(1-4) r assms(7,8) _ assms(11) K] assms(10) by blast
  have u: "uses_heap rd = uses_heap w'" using assms(16) W(9) by simp
  have h: "hdr rd = hdr w'" using assms(15) W(6) u by (simp add: walIndexHdr_def mem_def)
  have sz: "walPagesize rd = ?sz" "mxFrame (hdr rd) = length ps'"
    using h W(3,8) page_size_field [OF assms(11)] by (simp_all add: walPagesize_def indexed_def)
  have la: "log_at rd t ps'"
    using W(3,4,10) u sz(1) by (auto simp: log_at_def indexed_def log_inv_def pages_def mem_def)
  have "latest_view rd ps' t ?sz pg = reader_view ps' (nBackfill (walCkptInfo w' t) + 1) (length ps') (dbFile s) ?sz pg"
    using W(3,5,6) unfolding latest_view_cong [OF u] by (simp add: latest_view_def indexed_def)
  also have "\<dots> = (case log_view (drop (nBackfill (walCkptInfo w' t)) ps') pg of Some d \<Rightarrow> d | None \<Rightarrow> db_page (dbFile s) ?sz pg)"
    by (subst reader_view_log) simp_all
  also have "\<dots> = (case (log_view (drop ?m ps) ++ page_map cs) pg of Some d \<Rightarrow> d | None \<Rightarrow> latest_view w ps s ?sz pg)"
  proof (cases rs)
    case True
    then have "hdr w = walIndexHdr w s" "?nB = ?m" using W(1) assms(10) by auto
    moreover from this have "drop ?m ps = []" using assms(7) by (simp add: writer_inv_def indexed_def)
    ultimately show ?thesis
      using True W(2,7) by (simp add: log_step_def latest_view_def reader_view_beyond split: option.splits)
  next
    case False
    then have s: "take ?m ps' = take ?m ps" "log_view (drop ?m ps') = log_view (drop ?m ps) ++ page_map cs"
      using W(2) by (simp_all add: log_step_def)
    have "drop ?nB ps' = drop ?nB (take ?m ps) @ drop ?m ps'"
      using assms(9) s(1) append_take_drop_id [of ?m ps'] drop_append [of ?nB "take ?m ps'" "drop ?m ps'"] assms(8) by auto
    then have "log_view (drop ?nB ps') = log_view (drop ?nB (take ?m ps)) ++ (log_view (drop ?m ps) ++ page_map cs)"
      using s(2) by (simp add: log_view_append)
    then show ?thesis
      using False W(7) unfolding latest_view_def reader_view_log [OF assms(8)]
      by (auto simp: map_add_def split: option.splits)
  qed
  finally have "latest_view rd ps' t ?sz pg = (case (log_view (drop ?m ps) ++ page_map cs) pg of
      Some d \<Rightarrow> d | None \<Rightarrow> latest_view w ps s ?sz pg)" .
  then show ?thesis using la sz W(4,10) by (intro exI [of _ ps']) (simp add: cs_def log_inv_def)
qed

section \<open>Properties\<close>

text \<open>C1. A commit is what later readers see. After \<^verbatim>\<open>pagerWalFrames\<close> has committed a list of pages, sorted
  by their numbers, any connection that opens a read transaction reads, through
  \<^verbatim>\<open>readDbPage\<close>, for the pages of the new database the new data of every page of the list (page 1
  with its new change counter), else what the same transaction had spilled to the log before, and of
  every other page what readers saw before the commit; also when the commit restarted
  the log from its beginning.\<close>

theorem pagerWalFrames_visible:
  assumes "vfs_quiet V" "vfs_files V" "vfs_random V" "vfs_truncate V"
    and "wal P = Some w" "pagerWalFrames V v P qs nT True s = (SQLITE_OK, qs', P', t)"
    and "writer_inv w s ps" "mxFrame (walIndexHdr w s) \<le> length ps" "nBackfill (walCkptInfo w s) \<le> mxFrame (walIndexHdr w s)"
    and "readLock w = 0 \<Longrightarrow> hdr w = walIndexHdr w s \<and> iReCksum w = 0 \<and> nBackfill (walCkptInfo w s) = mxFrame (hdr w)"
    and "page_size_ok (pageSize P)" "\<forall>q\<in>set qs. page_ok (pageSize P) q" "distinct (map pgno qs)"
    and "\<exists>q\<in>set qs. pgno q \<le> nT"
    and "vfs_files V2" "vfs_short V2" "wal R = Some rd" "fresh rd t" "uses_heap rd = uses_heap w"
    and "pageSize R = pageSize P" "length (pData p) = pageSize R" "readDbPage V2 R p t = (SQLITE_OK, p', R', t')"
    and "sorted (map pgno qs)" "pgno p \<le> nT"
  shows "pData p' =
    (case page_map qs (pgno p) of
       Some d \<Rightarrow> if pgno p = 1 then pData (pager_write_changecounter v P (p\<lparr>pData := d\<rparr>)) else d
     | None \<Rightarrow> (case log_view (drop (mxFrame (walIndexHdr w s)) ps) (pgno p) of
         Some d \<Rightarrow> d | None \<Rightarrow> latest_view w ps s (pageSize P) (pgno p)))"
proof -
  have "walIndexHdr rd t = hdr rd" using assms(18) by (simp add: fresh_def snapshot_open_def)
  then obtain ps' where L: "log_at rd t ps'" "mxFrame (hdr rd) = length ps'" "walPagesize rd = pageSize P"
      "latest_view rd ps' t (pageSize P) (pgno p) = (case (log_view (drop (mxFrame (walIndexHdr w s)) ps) ++
         page_map (commit_list v P qs nT True)) (pgno p) of Some d \<Rightarrow> d | None \<Rightarrow> latest_view w ps s (pageSize P) (pgno p))"
    using pagerWalFrames_view [OF assms(1-14) _ assms(19)] by blast
  moreover have "page_map (commit_list v P qs nT True) (pgno p) = map_option (\<lambda>d. if pgno p = 1
      then pData (pager_write_changecounter v P (p\<lparr>pData := d\<rparr>)) else d) (page_map qs (pgno p))"
    by (rule commit_list_map [OF assms(23,12,24)])
  ultimately show ?thesis
    using readDbPage_view [OF assms(15-17) _ assms(21) _ assms(22), of ps'] fresh_view [OF assms(18)] assms(20)
    by (simp add: map_add_def split: option.splits)
qed

text \<open>C3. A checkpoint is invisible to those who read while it runs. Whatever its mode, and whether it
  succeeds, fails half-way in the middle of a write, or runs out of anything,
  \<^verbatim>\<open>readDbPage\<close> of a connection that holds its read mark returns afterwards what it returned
  before, for every page of its snapshot.\<close>

theorem walCheckpoint_readers:
  assumes "vfs_quiet V" "vfs_files V" "vfs_partial V" "vfs_truncate V" "cb_quiet xCb" "busy_quiet xB"
    and "walCheckpoint V w eMode xB fl xCb s = Some (rc, w', t)" "ckpt_pre w s ps"
    and "wal R = Some rd" "readLock rd = int j" "j < 5" "slot_held V j" "\<not> bShmUnreliable rd"
    and "0 < j \<Longrightarrow> aReadMark (walCkptInfo w s) ! j \<le> mxFrame (hdr rd)" "mxFrame (hdr rd) \<le> length ps"
    and "minFrame rd \<le> nBackfill (walCkptInfo w s) + 1" "uses_heap rd = uses_heap w" "walPagesize rd = walPagesize w"
    and "vfs_files V2" "vfs_short V2" "pageSize R = walPagesize rd" "length (pData p) = pageSize R" "pgno p \<noteq> 0"
    and "pgno p \<le> nPage (hdr w) \<or> mxFrame (hdr rd) < mxFrame (walIndexHdr w s) \<or> mxFrame (hdr w) < mxFrame (walIndexHdr w s)"
    and "readDbPage V2 R p s = (SQLITE_OK, p1, R1, s1)" "readDbPage V2 R p t = (SQLITE_OK, p2, R2, t2)"
  shows "p2 = p1"
proof -
  let ?sz = "walPagesize w"
  obtain u mxSafe where S: "mxSafe \<le> mxFrame (hdr w)" "backfilled w ?sz ps mxSafe s u"
      "0 < j \<longrightarrow> mxSafe \<le> aReadMark (walCkptInfo w s) ! j" "slot_held V 0 \<longrightarrow> dbFile t = dbFile s" "dbFile t = dbFile u"
      "0 < j \<longrightarrow> same_store u t"
    using walCheckpoint_spec [OF assms(1-8)] assms(11,12) by (metis One_nat_def Suc_leI)
  note view = readDbPage_view [OF assms(19,20,9,21,22)]
  show ?thesis
  proof (cases "j = 0")
    case True
    then have "bypasses rd" using assms(10,13) by (simp add: bypasses_def)
    then show ?thesis using view [OF _ assms(25)] view [OF _ assms(26)] S(4) True assms(12) by simp
  next
    case False
    then have k: "kept w s t"
      using S(2,6) kept_trans [OF _ kept_store] by (auto simp: backfilled_def Let_def)
    note L = ckpt_pre_log [OF assms(8,17,18)]
    note L' = kept_log [OF k assms(17) L]
    have "mxSafe \<le> mxFrame (hdr rd)" using S(3) False assms(14) by auto
    then have "reader_view ps (minFrame rd) (mxFrame (hdr rd)) (dbFile u) ?sz (pgno p) =
        reader_view ps (minFrame rd) (mxFrame (hdr rd)) (dbFile s) ?sz (pgno p)"
      using backfilled_reader [OF S(2) _ assms(16,23)] assms(24) S(1) by auto
    then have "conn_view rd ps (dbFile t) (pgno p) = conn_view rd ps (dbFile s) (pgno p)"
      using False assms(10,18) S(5) by (simp add: conn_view_def bypasses_def)
    then show ?thesis using view [OF _ assms(25), of ps] view [OF _ assms(26), of ps] L L' assms(15) by simp
  qed
qed

text \<open>C5. Nor does a checkpoint change what later readers see: a connection that opens its read transaction after
  the checkpoint, in whatever way that ended, reads the pages that one that opened it
  before reads; also when the log was truncated, by a checkpoint that holds the
  current header.\<close>

theorem walCheckpoint_latest:
  assumes "vfs_quiet V" "vfs_files V" "vfs_partial V" "vfs_truncate V" "cb_quiet xCb" "busy_quiet xB"
    and "walCheckpoint V w eMode xB fl xCb s = Some (rc, w', t)" "ckpt_pre w s ps"
    and "eMode = SQLITE_CHECKPOINT_TRUNCATE \<Longrightarrow> mxFrame (hdr w) = mxFrame (walIndexHdr w s)"
    and "wal R1 = Some r1" "fresh r1 s" "uses_heap r1 = uses_heap w" "walPagesize r1 = walPagesize w"
    and "wal R2 = Some r2" "fresh r2 t" "uses_heap r2 = uses_heap w" "walPagesize r2 = walPagesize w"
    and "vfs_files V2" "vfs_short V2" "pageSize R1 = walPagesize w" "pageSize R2 = walPagesize w"
    and "length (pData p) = walPagesize w" "pgno p \<noteq> 0" "pgno p \<le> nPage (hdr w)"
    and "readDbPage V2 R1 p s = (SQLITE_OK, p1, R1', s1)" "readDbPage V2 R2 p t = (SQLITE_OK, p2, R2', t2)"
  shows "p2 = p1"
proof -
  let ?sz = "walPagesize w" and ?R = "mxFrame (walIndexHdr w s)"
  obtain u mxSafe where S: "mxSafe \<le> mxFrame (hdr w)" "backfilled w ?sz ps mxSafe s u" "dbFile t = dbFile u"
      "same_store u t \<or> emptied w eMode u t"
    using walCheckpoint_spec [OF assms(1-8)] by blast
  have C: "mxFrame (hdr w) \<le> ?R" "?R \<le> length ps" using assms(8) by (simp_all add: ckpt_pre_def)
  have U: "latest_view w ps u ?sz (pgno p) = latest_view w ps s ?sz (pgno p)"
    by (rule backfilled_latest [OF S(2,1) C assms(23,24)])
  have h: "hdr r1 = walIndexHdr w s" "hdr r2 = walIndexHdr w t"
    using assms(11,12,15,16) by (simp_all add: fresh_def snapshot_open_def walIndexHdr_def mem_def)
  have L: "log_at r1 s ps" by (rule ckpt_pre_log [OF assms(8,12,13)])
  have v1: "pData p1 = latest_view w ps s ?sz (pgno p)" "p1 = p\<lparr>pData := pData p1\<rparr>"
    using readDbPage_view [OF assms(18,19,10) _ _ _ assms(25), of ps] assms(13,20,22) L h(1) C
      fresh_view [OF assms(11)] latest_view_cong [OF assms(12)] by simp_all
  have k: "kept w s u" using S(2) by (simp add: backfilled_def Let_def)
  have v2: "p2 = p\<lparr>pData := latest_view w ps u ?sz (pgno p)\<rparr>"
    using S(4)
  proof
    assume st: "same_store u t"
    have e: "walIndexHdr w t = walIndexHdr w s" "kept w s t" "latest_view w ps t ?sz (pgno p) = latest_view w ps u ?sz (pgno p)"
      using kept_trans [OF k kept_store [OF st]] info_store [OF st, of w] st
      by (auto simp: kept_def latest_view_def same_store_eqs walIndexHdr_def)
    have "log_at r2 t ps"
      using kept_log [OF e(2) assms(16)] ckpt_pre_log [OF assms(8,16,17)] by blast
    then show ?thesis
      using readDbPage_view [OF assms(18,19,14) _ _ _ assms(26), of ps] assms(17,21,22) h(2) e C
        fresh_view [OF assms(15)] by (simp add: latest_view_cong [OF assms(16)])
  next
    assume E: "emptied w eMode u t"
    then have z: "mxFrame (hdr r2) = 0" "nBackfill (walCkptInfo w t) = 0" "?R \<le> nBackfill (walCkptInfo w u)"
      using h(2) assms(9) by (auto simp: emptied_def)
    have "walIndexHdr w u = walIndexHdr w s" using k by (simp add: kept_def)
    then have "latest_view w ps u ?sz (pgno p) = db_page (dbFile u) ?sz (pgno p)"
      using z(3) by (simp add: latest_view_def reader_view_beyond)
    moreover have "conn_view r2 [] (dbFile t) (pgno p) = db_page (dbFile u) ?sz (pgno p)"
      using z(1) S(3) assms(17) by (simp add: conn_view_def reader_view_def find_linear.simps)
    moreover have "log_at r2 t []" by (auto simp: log_at_def log_raw_def intro: exI [of _ "[]"])
    ultimately show ?thesis
      using readDbPage_view [OF assms(18,19,14) _ _ _ assms(26), of "[]"] assms(17,21,22) z(1) by simp
  qed
  then show ?thesis using v1 U by simp
qed

text \<open>C11. Without contention or failure a checkpoint in any mode, with or without a callback and a busy
  handler, ends, reports success and has moved the whole log to the database: every page of
  the database file is what a reader of the snapshot saw. \<^verbatim>\<open>nBackfill\<close> reaches
  \<^verbatim>\<open>mxFrame\<close> and the log stays as it was, except that \<^verbatim>\<open>SQLITE_CHECKPOINT_TRUNCATE\<close> then starts an empty log of
  the same database size and leaves an empty log file.\<close>

theorem walCheckpoint_completes:
  assumes "vfs_works V" "vfs_quiet V" "vfs_files V" "uninterrupted V" "busy_quiet xB" "cb_quiet xCb" "cb_works xCb"
    and "ckpt_pre w s ps"
    and "walFrameOffset (length ps + 1) (walPagesize w) \<le> length (walFile s)"
    and "unat (nPage (hdr w)) * walPagesize w \<le> length (dbFile s) + 65536 + mxFrame (hdr w) * walPagesize w"
  shows "\<exists>w' t. walCheckpoint V w eMode xB fl xCb s = Some (SQLITE_OK, w', t) \<and>
    (if eMode = SQLITE_CHECKPOINT_TRUNCATE
     then mxFrame (walIndexHdr w t) = 0 \<and> nPage (walIndexHdr w t) = nPage (hdr w) \<and>
       nBackfill (walCkptInfo w t) = 0 \<and> walFile t = []
     else nBackfill (walCkptInfo w t) = max (nBackfill (walCkptInfo w s)) (mxFrame (hdr w)) \<and> kept w s t) \<and>
    (\<forall>pg. pg \<noteq> 0 \<and> pg \<le> nPage (hdr w) \<longrightarrow> db_page (dbFile t) (walPagesize w) pg =
       reader_view ps (nBackfill (walCkptInfo w s) + 1) (mxFrame (hdr w)) (dbFile s) (walPagesize w) pg)"
  by (rule walCheckpoint_works [OF assms(1-4,6-10,5)])

section \<open>Witnesses\<close>

text \<open>A log of one frame that holds page 7, a checkpointer and a reader.\<close>

definition log7 :: bytes where
  "log7 = replicate 32 0 @ sqlite3Put4byte 7 @ sqlite3Put4byte 7 @ replicate 16 0 @ replicate 512 9"

definition hdr7 :: WalIndexHdr where
  "hdr7 = hdr_zero\<lparr>mxFrame := 1, nPage := 7, hdr_szPage := 512\<rparr>"

definition conn7 :: Wal where
  "conn7 = wal_zero\<lparr>hdr := hdr7\<rparr>"

definition reader7 :: Wal where
  "reader7 = wal_zero\<lparr>hdr := hdr7, readLock := 1, minFrame := 1\<rparr>"

definition world7 :: "unit world" where
  "world7 = (plain_world log7 [])\<lparr>shm := \<lparr>aHdr0 = hdr7, aHdr1 = hdr7, ckptInfo = \<lparr>nBackfill = 0,
     aReadMark = [0, 1, READMARK_NOT_USED, READMARK_NOT_USED, READMARK_NOT_USED], nBackfillAttempted = 0\<rparr>,
     wiPages = index1\<rparr>\<rparr>"

definition ps7 :: "log_page list" where
  "ps7 = [(7, 7, replicate 512 9)]"

definition pager_of :: "Wal \<Rightarrow> Pager" where
  "pager_of w = \<lparr>wal = Some w, pageSize = 512, dbFileVers = replicate 16 0, walSyncFlags = 0, mxPgno = 100, stat_write = 0\<rparr>"

definition page7 :: PgHdr where
  "page7 = \<lparr>pgno = 7, pData = replicate 512 0, wal_append = False\<rparr>"

text \<open>The plain VFS when somebody else holds read mark 1.\<close>

definition held_vfs :: "unit vfs" where
  "held_vfs = plain_vfs\<lparr>xShmLock := (\<lambda>i n op s. (if op = ShmLockExclusive \<and> i \<le> 4 \<and> 4 < i + n then SQLITE_BUSY else SQLITE_OK, s))\<rparr>"

lemma held_vfs_ok: "vfs_quiet held_vfs" "vfs_files held_vfs" "vfs_partial held_vfs" "vfs_truncate held_vfs" "slot_held held_vfs 1"
  by (auto simp: held_vfs_def plain_vfs_def vfs_quiet_def vfs_files_def vfs_partial_def vfs_truncate_def slot_held_def)

lemma page7_size: "walPagesize conn7 = 512" "walPagesize reader7 = 512"
  by (simp_all add: walPagesize_def conn7_def reader7_def hdr7_def page_size_def)

lemma world7_ok: "ckpt_pre conn7 world7 ps7" "walFrameOffset (length ps7 + 1) 512 \<le> length (walFile world7)"
proof -
  have "raw_at log7 512 1 = (7, 7, replicate 512 9)"
    by (simp add: raw_at_def frame_at_def walFrameOffset_def log7_def Let_def)
  then have "log_raw log7 512 1 = ps7" by (simp add: log_raw_def ps7_def)
  then show "ckpt_pre conn7 world7 ps7"
    using index1_repr page7_size(1)
    by (auto simp: ckpt_pre_def world7_def plain_world_def pages_def mem_def uses_heap_def walIndexHdr_def conn7_def hdr7_def
        wal_zero_def ps7_def proper_def intro!: exI [of _ "[7]"])
  show "walFrameOffset (length ps7 + 1) 512 \<le> length (walFile world7)"
    by (simp add: walFrameOffset_def ps7_def world7_def plain_world_def log7_def)
qed

lemma readDbPage_plain:
  assumes P: "wal P = Some rd" "pageSize P = walPagesize rd"
    and L: "bypasses rd \<or> log_at rd s ps \<and> mxFrame (hdr rd) \<le> length ps \<and>
      walFrameOffset (length ps + 1) (walPagesize rd) \<le> length (walFile s)"
  shows "\<exists>p' P' t. readDbPage plain_vfs P p s = (SQLITE_OK, p', P', t)"
proof -
  obtain rc1 i w1 where f: "sqlite3WalFindFrame plain_vfs (pages rd s) rd (pgno p) = (rc1, i, w1)"
    by (cases "sqlite3WalFindFrame plain_vfs (pages rd s) rd (pgno p)")
  have ok: "rc1 = SQLITE_OK"
  proof (cases "bypasses rd")
    case True
    then show ?thesis using f by (simp add: sqlite3WalFindFrame_def walFindFrame_def bypasses_def)
  next
    case False
    then obtain lg where "wi_repr (pages rd s) lg" "take (length ps) lg = map fst ps" "mxFrame (hdr rd) \<le> length ps"
      using L by (auto simp: log_at_def)
    moreover from this(2) have "length ps \<le> length lg" by (metis length_map length_take min.cobounded1)
    ultimately show ?thesis
      using find_repr [of "pages rd s" lg _ rd, OF _ _ _ f [unfolded sqlite3WalFindFrame_def]] False plain_vfs_works
      by (auto simp: bypasses_def vfs_works_def)
  qed
  have L': "bypasses rd \<or> log_at rd s ps \<and> mxFrame (hdr rd) \<le> length ps" using L by blast
  note G = log_at_find [OF L' f [unfolded ok]]
  have "fst (sqlite3WalReadFrame plain_vfs w1 i (pageSize P) s) = SQLITE_OK" if "i \<noteq> 0"
  proof -
    have n: "\<not> bypasses rd" and i: "i = find_linear (map fst ps) (pgno p) (minFrame rd) (mxFrame (hdr rd))"
      using G that by (auto split: if_splits)
    then have "i \<in> answers (map fst ps) (pgno p) (minFrame rd) (mxFrame (hdr rd))"
      using find_linear_newest [of "map fst ps" "pgno p" "minFrame rd" "mxFrame (hdr rd)"] that by (auto simp: newest_def)
    then have b: "0 < i" "i \<le> length ps" using that L n by (auto simp: answers_def)
    have "i * (walPagesize rd + 24) \<le> length ps * (walPagesize rd + 24)" using b(2) by (rule mult_le_mono1)
    then have "walFrameOffset i (walPagesize rd) + 24 + walPagesize rd \<le> length (walFile s)"
      using L n b(1) by (cases i) (simp_all add: walFrameOffset_def)
    then show ?thesis
      using conn_mem(2) [OF conjunct1 [OF G]] P(2)
      by (simp add: sqlite3WalReadFrame_def Let_def walPagesize_def plain_vfs_def)
  qed
  moreover have "fst (xRead plain_vfs DbFd n off s) = SQLITE_OK \<or> fst (xRead plain_vfs DbFd n off s) = SQLITE_IOERR_SHORT_READ" for n off
    by (simp add: plain_vfs_def)
  ultimately show ?thesis
    using P f ok by (cases "i = 0") (auto simp: readDbPage_def Let_def split: prod.splits, (metis fst_conv)+)
qed

lemma world7_readers:
  "fresh reader7 world7" "log_at reader7 world7 ps7" "mxFrame (hdr reader7) = 1" "walIndexHdr conn7 world7 = hdr7"
  "nBackfill (walCkptInfo conn7 world7) = 0" "aReadMark (walCkptInfo conn7 world7) ! 1 = 1"
  "uses_heap reader7 = uses_heap conn7" "readLock reader7 = int 1" "\<not> bShmUnreliable reader7" "minFrame reader7 = 1"
proof -
  show u: "uses_heap reader7 = uses_heap conn7" by (simp add: uses_heap_def reader7_def conn7_def)
  show "log_at reader7 world7 ps7" using ckpt_pre_log [OF world7_ok(1) u] page7_size by simp
  show "fresh reader7 world7"
    by (simp add: fresh_def snapshot_open_def reader7_def world7_def walIndexHdr_def walCkptInfo_def mem_def uses_heap_def
        wal_zero_def hdr7_def plain_world_def)
qed (simp_all add: reader7_def conn7_def world7_def walIndexHdr_def walCkptInfo_def mem_def uses_heap_def wal_zero_def hdr7_def)

theorem walCheckpoint_readers_witness:
  "\<exists>rc w' t p1 R1 s1 p2 R2 t2. walCheckpoint held_vfs conn7 SQLITE_CHECKPOINT_TRUNCATE None 0 None world7 = Some (rc, w', t) \<and>
     readDbPage plain_vfs (pager_of reader7) page7 world7 = (SQLITE_OK, p1, R1, s1) \<and>
     readDbPage plain_vfs (pager_of reader7) page7 t = (SQLITE_OK, p2, R2, t2) \<and> p2 = p1"
proof -
  let ?R = "pager_of reader7"
  have q: "cb_quiet (None :: unit ckpt_cb)" "busy_quiet (None :: unit busy)" by (simp_all add: cb_quiet_def busy_quiet_def)
  obtain rc w' t where c: "walCheckpoint held_vfs conn7 SQLITE_CHECKPOINT_TRUNCATE None 0 None world7 = Some (rc, w', t)"
    using walCheckpoint_returns [of held_vfs conn7 SQLITE_CHECKPOINT_TRUNCATE 0 None world7] by (metis prod_cases3)
  obtain u m where u: "backfilled conn7 (walPagesize conn7) ps7 m world7 u" "same_store u t"
    using walCheckpoint_spec [OF held_vfs_ok(1-4) q c world7_ok(1)] held_vfs_ok(5) by (metis le_refl one_less_numeral_iff semiring_norm(77))
  have k: "kept conn7 world7 t"
    using u kept_trans [OF _ kept_store [OF u(2)]] by (simp add: backfilled_def Let_def)
  have P: "wal ?R = Some reader7" "pageSize ?R = walPagesize reader7" "length (pData page7) = pageSize ?R"
    by (simp_all add: pager_of_def page7_def page7_size)
  have "walFile t = walFile world7" using k by (simp add: kept_def)
  then obtain p1 R1 s1 p2 R2 t2 where r: "readDbPage plain_vfs ?R page7 world7 = (SQLITE_OK, p1, R1, s1)"
      "readDbPage plain_vfs ?R page7 t = (SQLITE_OK, p2, R2, t2)"
    using readDbPage_plain [OF P(1,2), of world7 ps7 page7] readDbPage_plain [OF P(1,2), of t ps7 page7]
      kept_log [OF k world7_readers(7,2)] world7_readers(2,3) world7_ok(2) page7_size by (auto simp: ps7_def)
  have "p2 = p1"
    using walCheckpoint_readers [OF held_vfs_ok(1-4) q c world7_ok(1) P(1) world7_readers(8) _ held_vfs_ok(5) world7_readers(9)
        _ _ _ world7_readers(7) _ plain_vfs_files plain_vfs_short P(2,3) _ _ r]
      world7_readers page7_size by (simp add: ps7_def page7_def conn7_def hdr7_def)
  then show ?thesis using c r by blast
qed

text \<open>With a callback that does nothing, and in two modes.\<close>

definition cb_noop :: "unit ckpt_cb" where
  "cb_noop = Some (\<lambda>m z n p f s. (SQLITE_OK, s))"

theorem walCheckpoint_completes_witness:
  "(\<exists>w' t. walCheckpoint plain_vfs conn7 SQLITE_CHECKPOINT_RESTART None 0 cb_noop world7 = Some (SQLITE_OK, w', t) \<and>
     nBackfill (walCkptInfo conn7 t) = 1 \<and> db_page (dbFile t) 512 7 = replicate 512 9) \<and>
   (\<exists>w' t. walCheckpoint plain_vfs conn7 SQLITE_CHECKPOINT_TRUNCATE None 0 cb_noop world7 = Some (SQLITE_OK, w', t) \<and>
     walFile t = [] \<and> db_page (dbFile t) 512 7 = replicate 512 9)"
proof -
  have "busy_quiet (None :: unit busy)" "uninterrupted plain_vfs" "cb_quiet cb_noop" "cb_works cb_noop"
    by (simp_all add: busy_quiet_def uninterrupted_def plain_vfs_def cb_quiet_def cb_works_def cb_noop_def)
  note q = plain_vfs_works plain_vfs_quiet plain_vfs_files this(2,1,3,4) world7_ok(1)
  have "reader_view ps7 (nBackfill (walCkptInfo conn7 world7) + 1) (mxFrame (hdr conn7)) (dbFile world7) 512 7 = replicate 512 9"
    using world7_readers(5) by (simp add: conn7_def hdr7_def reader_view_def find_linear.simps ps7_def)
  moreover have "(7 :: u32) \<noteq> 0 \<and> 7 \<le> nPage (hdr conn7)" "max (nBackfill (walCkptInfo conn7 world7)) (mxFrame (hdr conn7)) = 1"
    using world7_readers(5) by (simp_all add: conn7_def hdr7_def)
  moreover have "walFrameOffset (length ps7 + 1) (walPagesize conn7) \<le> length (walFile world7)"
    "unat (nPage (hdr conn7)) * walPagesize conn7 \<le> length (dbFile world7) + 65536 + mxFrame (hdr conn7) * walPagesize conn7"
    using world7_ok(2) page7_size by (simp_all add: conn7_def hdr7_def)
  note z = walCheckpoint_completes [OF q this, where fl = 0]
  ultimately show ?thesis
    using z [of SQLITE_CHECKPOINT_RESTART] z [of SQLITE_CHECKPOINT_TRUNCATE] unfolding page7_size
    by (auto dest!: spec [of _ 7])
qed

theorem walCheckpoint_latest_witness:
  "\<exists>rc w' t p1 R1 s1 p2 R2 t2. walCheckpoint plain_vfs conn7 SQLITE_CHECKPOINT_PASSIVE None 0 None world7 = Some (rc, w', t) \<and>
     readDbPage plain_vfs (pager_of reader7) page7 world7 = (SQLITE_OK, p1, R1, s1) \<and>
     readDbPage plain_vfs (pager_of conn7) page7 t = (SQLITE_OK, p2, R2, t2) \<and> p2 = p1 \<and> pData p1 = replicate 512 9"
proof -
  have q: "cb_quiet (None :: unit ckpt_cb)" "busy_quiet (None :: unit busy)" "uninterrupted plain_vfs"
    by (simp_all add: cb_quiet_def busy_quiet_def uninterrupted_def plain_vfs_def)
  obtain w' t where c: "walCheckpoint plain_vfs conn7 SQLITE_CHECKPOINT_PASSIVE None 0 None world7 = Some (SQLITE_OK, w', t)"
      "nBackfill (walCkptInfo conn7 t) = 1" "kept conn7 world7 t"
    using walCheckpoint_works [OF plain_vfs_works plain_vfs_quiet plain_vfs_files q(3,1) _ world7_ok(1) _ _ q(2), of SQLITE_CHECKPOINT_PASSIVE 0]
      cb_works_None world7_ok(2) world7_readers(5) page7_size by (auto simp: conn7_def hdr7_def)
  let ?R1 = "pager_of reader7" and ?R2 = "pager_of conn7"
  have P: "wal ?R1 = Some reader7" "wal ?R2 = Some conn7" "pageSize ?R1 = walPagesize reader7" "pageSize ?R2 = walPagesize conn7"
    "length (pData page7) = pageSize ?R1"
    by (simp_all add: pager_of_def page7_def page7_size)
  have b: "bypasses conn7" by (simp add: bypasses_def conn7_def wal_zero_def)
  have f2: "fresh conn7 t"
    using c(2,3) world7_readers(4)
    by (simp add: fresh_def snapshot_open_def kept_def conn7_def wal_zero_def hdr7_def)
  obtain p1 R1 s1 p2 R2 t2 where r: "readDbPage plain_vfs ?R1 page7 world7 = (SQLITE_OK, p1, R1, s1)"
      "readDbPage plain_vfs ?R2 page7 t = (SQLITE_OK, p2, R2, t2)"
    using readDbPage_plain [OF P(1,3), of world7 ps7 page7] readDbPage_plain [OF P(2,4), of t ps7 page7] b
      world7_readers(2,3) world7_ok(2) page7_size by (auto simp: ps7_def)
  have "p2 = p1"
    using walCheckpoint_latest [OF plain_vfs_quiet plain_vfs_files vfs_works_laws(2) [OF plain_vfs_works] plain_vfs_truncate
        q(1,2) c(1) world7_ok(1) _ P(1) world7_readers(1,7) _ P(2) f2 refl refl plain_vfs_files plain_vfs_short _ P(4) _ _ _ r]
      page7_size P by (simp add: page7_def conn7_def hdr7_def)
  moreover have "pData p1 = replicate 512 9"
    using readDbPage_view [OF plain_vfs_files plain_vfs_short P(1,3,5) _ r(1), of ps7] world7_readers(2,3,8,10)
    by (simp add: ps7_def conn_view_def bypasses_def reader_view_def find_linear.simps page7_def)
  ultimately show ?thesis using c(1) r by blast
qed

theorem pagerWalFrames_visible_witness:
  "\<exists>qs' P' t rd p' R' t'. pagerWalFrames plain_vfs 3045001 (pager_of conn1) [page1] 1 True (plain_world [] []) = (SQLITE_OK, qs', P', t) \<and>
     fresh rd t \<and> readDbPage plain_vfs (pager_of rd) page1 t = (SQLITE_OK, p', R', t') \<and>
     pData p' = pData (pager_write_changecounter 3045001 (pager_of conn1) page1)"
proof -
  let ?s = "plain_world [] []" and ?P = "pager_of conn1" and ?q = "pager_write_changecounter 3045001 (pager_of conn1) page1"
  have q: "pgno ?q = 1" "length (pData ?q) = 512"
    by (simp_all add: pager_write_changecounter_def Let_def page1_def)
  have cl: "commit_list 3045001 ?P [page1] 1 True = [?q]" by (simp add: commit_list_def page1_def)
  obtain n qs' w' t where c: "sqlite3WalFrames plain_vfs conn1 512 [?q] 1 True 0 ?s = (SQLITE_OK, n, qs', w', t)"
      "walCkptInfo conn1 t = walCkptInfo conn1 ?s"
    using commit1 [OF q] by blast
  have r: "pagerWalFrames plain_vfs 3045001 ?P [page1] 1 True ?s = (SQLITE_OK, qs', ?P\<lparr>wal := Some w', stat_write := 1\<rparr>, t)"
    using c(1) cl by (simp add: pagerWalFrames_def pager_of_def)
  define rd where "rd = conn1\<lparr>hdr := walIndexHdr conn1 t, minFrame := 1\<rparr>"
  have ck: "nBackfill (walCkptInfo conn1 ?s) = 0" "aReadMark (walCkptInfo conn1 ?s) ! 1 = 0"
    by (simp_all add: walCkptInfo_def mem_def plain_world_def wshm_zero_def)
  have u: "uses_heap rd = uses_heap conn1" by (simp add: rd_def uses_heap_def)
  have h: "walIndexHdr rd t = hdr rd" using u by (simp add: rd_def walIndexHdr_def mem_def)
  have e: "walCkptInfo rd t = walCkptInfo conn1 ?s" using c(2) u by (simp add: walCkptInfo_def mem_def)
  have f: "fresh rd t"
    using h e ck by (simp add: fresh_def snapshot_open_def rd_def conn1_def wal_zero_def)
  have W: "wal ?P = Some conn1" "pageSize ?P = 512" by (simp_all add: pager_of_def)
  have z: "nBackfill (walCkptInfo conn1 ?s) \<le> mxFrame (walIndexHdr conn1 ?s)" "readLock conn1 \<noteq> 0" using ck(1) by (simp_all add: conn1_def)
  note env = plain_vfs_quiet plain_vfs_files plain_vfs_random plain_vfs_truncate
  note pre = env W(1) r conn1_ok(1,2) z(1) _ conn1_ok(4-6) [folded W(2)]
  obtain ps' where L: "log_at rd t ps'" "mxFrame (hdr rd) = length ps'" "walPagesize rd = 512"
      "walFrameOffset (length ps' + 1) 512 \<le> length (walFile t)"
    using pagerWalFrames_view [OF pre _ h u] z(2) W(2) by (auto simp: page1_def)
  have R: "wal (pager_of rd) = Some rd" "pageSize (pager_of rd) = walPagesize rd" "length (pData page1) = pageSize (pager_of rd)"
    using L(3) by (simp_all add: pager_of_def page1_def)
  obtain p' R' t' where rr: "readDbPage plain_vfs (pager_of rd) page1 t = (SQLITE_OK, p', R', t')"
    using readDbPage_plain [OF R(1,2), of t ps' page1] L by auto
  have "pData p' = pData ?q"
    using pagerWalFrames_visible [OF pre _ plain_vfs_files plain_vfs_short R(1) f u _ R(3) rr] z(2) cl q W(2) R(2) L(3)
    by (simp add: page_map_def page1_def)
  then show ?thesis using r f rr by blast
qed

end
