(* ===== verification/UnixShm.thy ===== *)
theory UnixShm
  imports WalConn
begin

unbundle bit_operations_syntax

text \<open>
  The shared-memory methods of \<^verbatim>\<open>os_unix.c\<close>, on which the wal-index lives: attaching to the shared
  memory and the dead-man switch (\<^verbatim>\<open>unixOpenSharedMemory\<close>, \<^verbatim>\<open>unixLockSharedMemory\<close>), the locks
  (\<^verbatim>\<open>unixShmLock\<close>, \<^verbatim>\<open>unixShmSystemLock\<close>) and detaching (\<^verbatim>\<open>unixShmUnmap\<close>, \<^verbatim>\<open>unixShmPurge\<close>).
  Connections of one process share a table of counters, processes exclude each other by advisory
  locks of the operating system. Shown here: mutual exclusion over all connections of all processes,
  that the consistency check \<^verbatim>\<open>assertLockingArrayOk\<close> never fails, and that no process truncates the
  shared memory another one uses. The build is the one without \<^verbatim>\<open>SQLITE_ENABLE_SETLK_TIMEOUT\<close>.
\<close>

section \<open>Definitions\<close>

abbreviation (input) SQLITE_SHM_NLOCK :: nat where "SQLITE_SHM_NLOCK \<equiv> 8"
abbreviation (input) UNIX_SHM_BASE :: nat where "UNIX_SHM_BASE \<equiv> 120"
abbreviation (input) UNIX_SHM_DMS :: nat where "UNIX_SHM_DMS \<equiv> 128"
abbreviation (input) SQLITE_IOERR_SHMLOCK :: rc where "SQLITE_IOERR_SHMLOCK \<equiv> 5130"
abbreviation (input) SQLITE_IOERR_FSTAT :: rc where "SQLITE_IOERR_FSTAT \<equiv> 1802"
abbreviation (input) SQLITE_IOERR_LOCK :: rc where "SQLITE_IOERR_LOCK \<equiv> 3850"
abbreviation (input) SQLITE_IOERR_SHMOPEN :: rc where "SQLITE_IOERR_SHMOPEN \<equiv> 4618"
abbreviation (input) SQLITE_IOERR_SHMSIZE :: rc where "SQLITE_IOERR_SHMSIZE \<equiv> 4874"
abbreviation (input) SQLITE_IOERR_SHMMAP :: rc where "SQLITE_IOERR_SHMMAP \<equiv> 5386"
abbreviation (input) SQLITE_IOERR_NOMEM :: rc where "SQLITE_IOERR_NOMEM \<equiv> 3082"

datatype lock_type = F_UNLCK | F_RDLCK | F_WRLCK

record unixShm =
  sharedMask :: u16
  exclMask :: u16

text \<open>The node of a database file in a process: its file descriptor, the addresses of the regions mapped
  so far (\<^verbatim>\<open>nRegion\<close> of them), the connections on it, each under the number of the file handle whose
  \<^verbatim>\<open>pShm\<close> it is, and the counters.\<close>

record unixShmNode =
  hShm :: int
  szRegion :: nat
  apRegion :: "nat list"
  isReadonly :: bool
  isUnlocked :: bool
  nRef :: int
  pFirst :: "(nat \<times> unixShm) list"
  aLock :: "int list"

text \<open>What the operating system keeps has a type \<open>'k\<close> of its choice. Its calls are made by a process:
  \<open>osSetPosixAdvisoryLock pid type ofst n\<close> tells whether it succeeded, \<open>osGetlk pid ofst n\<close> is
  \<^verbatim>\<open>F_GETLK\<close> for a write lock on \<open>n\<close> bytes and yields the type of a lock in the way (\<open>None\<close> on failure),
  \<open>robust_open\<close> yields a descriptor or a negative number, \<open>osFstatShm\<close> the size of the \<^verbatim>\<open>-shm\<close> file,
  \<open>osMmap\<close> and the allocator an address. \<open>seekAndWriteFd\<close> writes one zero byte.\<close>

record 'k os =
  osGetpagesize :: nat
  sqlite3_malloc :: "nat \<Rightarrow> 'k \<Rightarrow> nat option \<times> 'k"
  osFstat :: "nat \<Rightarrow> 'k \<Rightarrow> bool \<times> 'k"
  osFstatShm :: "nat \<Rightarrow> 'k \<Rightarrow> nat option \<times> 'k"
  robust_open :: "nat \<Rightarrow> bool \<Rightarrow> 'k \<Rightarrow> int \<times> 'k"
  robustFchown :: "nat \<Rightarrow> 'k \<Rightarrow> 'k"
  osSetPosixAdvisoryLock :: "nat \<Rightarrow> lock_type \<Rightarrow> nat \<Rightarrow> nat \<Rightarrow> 'k \<Rightarrow> bool \<times> 'k"
  osGetlk :: "nat \<Rightarrow> nat \<Rightarrow> nat \<Rightarrow> 'k \<Rightarrow> lock_type option"
  robust_ftruncate :: "nat \<Rightarrow> nat \<Rightarrow> 'k \<Rightarrow> bool \<times> 'k"
  robust_close :: "nat \<Rightarrow> 'k \<Rightarrow> 'k"
  osUnlink :: "nat \<Rightarrow> 'k \<Rightarrow> 'k"
  seekAndWriteFd :: "nat \<Rightarrow> nat \<Rightarrow> 'k \<Rightarrow> bool \<times> 'k"
  osMmap :: "nat \<Rightarrow> bool \<Rightarrow> nat \<Rightarrow> nat \<Rightarrow> 'k \<Rightarrow> nat option \<times> 'k"
  osMunmap :: "nat \<Rightarrow> nat \<Rightarrow> 'k \<Rightarrow> 'k"
  sqlite3_free :: "nat \<Rightarrow> nat \<Rightarrow> 'k \<Rightarrow> 'k"

text \<open>\<^verbatim>\<open>unixFcntlExternalReader\<close>: whether other processes have read transactions, given the node of this
  one if the file handle has a connection.\<close>

definition unixFcntlExternalReader :: "'k os \<Rightarrow> nat \<Rightarrow> unixShmNode option \<Rightarrow> 'k \<Rightarrow> rc \<times> bool" where
  "unixFcntlExternalReader E pid pShmNode k =
    (case pShmNode of
       None \<Rightarrow> (SQLITE_OK, False)
     | Some nd \<Rightarrow>
         (case osGetlk E pid (UNIX_SHM_BASE + 3) (SQLITE_SHM_NLOCK - 3) k of
            None \<Rightarrow> (SQLITE_IOERR_LOCK, False)
          | Some t \<Rightarrow> (SQLITE_OK, t \<noteq> F_UNLCK)))"

definition unixShmSystemLock ::
  "'k os \<Rightarrow> nat \<Rightarrow> unixShmNode \<Rightarrow> lock_type \<Rightarrow> nat \<Rightarrow> nat \<Rightarrow> 'k \<Rightarrow> rc \<times> 'k" where
  "unixShmSystemLock E pid pShmNode lockType ofst n k =
    (if hShm pShmNode \<ge> 0 then
       case osSetPosixAdvisoryLock E pid lockType ofst n k of (ok, k) \<Rightarrow> (if ok then SQLITE_OK else SQLITE_BUSY, k)
     else (SQLITE_OK, k))"

definition unixShmRegionPerMap :: "'k os \<Rightarrow> nat" where
  "unixShmRegionPerMap E =
    (let shmsz = 32 * 1024; pgsz = osGetpagesize E in if pgsz < shmsz then 1 else pgsz div shmsz)"

text \<open>The node goes away with the last reference to it.\<close>

definition unixShmPurge :: "'k os \<Rightarrow> nat \<Rightarrow> unixShmNode \<Rightarrow> 'k \<Rightarrow> unixShmNode option \<times> 'k" where
  "unixShmPurge E pid p k =
    (if nRef p = 0 then
       let nShmPerMap = unixShmRegionPerMap E;
           k = fold (\<lambda>i k. if hShm p \<ge> 0 then osMunmap E pid (apRegion p ! i) k else sqlite3_free E pid (apRegion p ! i) k)
                 (filter (\<lambda>i. i mod nShmPerMap = 0) [0..<length (apRegion p)]) k
       in (None, if hShm p \<ge> 0 then robust_close E pid k else k)
     else (Some p, k))"

text \<open>The dead-man switch: the first process takes it exclusively, truncates the file and then shares
  it with the others.\<close>

definition unixLockSharedMemory :: "'k os \<Rightarrow> nat \<Rightarrow> unixShmNode \<Rightarrow> 'k \<Rightarrow> rc \<times> unixShmNode \<times> 'k" where
  "unixLockSharedMemory E pid pShmNode k =
    (let (rc, pShmNode, k) =
       (case osGetlk E pid UNIX_SHM_DMS 1 k of
          None \<Rightarrow> (SQLITE_IOERR_LOCK, pShmNode, k)
        | Some F_UNLCK \<Rightarrow>
            if isReadonly pShmNode then (SQLITE_READONLY_CANTINIT, pShmNode\<lparr>isUnlocked := True\<rparr>, k)
            else
              (case unixShmSystemLock E pid pShmNode F_WRLCK UNIX_SHM_DMS 1 k of (rc, k) \<Rightarrow>
                 if rc = SQLITE_OK then
                   (case robust_ftruncate E pid 3 k of (ok, k) \<Rightarrow>
                      (if ok then SQLITE_OK else SQLITE_IOERR_SHMOPEN, pShmNode, k))
                 else (rc, pShmNode, k))
        | Some F_WRLCK \<Rightarrow> (SQLITE_BUSY, pShmNode, k)
        | Some F_RDLCK \<Rightarrow> (SQLITE_OK, pShmNode, k))
     in if rc = SQLITE_OK then
          (case unixShmSystemLock E pid pShmNode F_RDLCK UNIX_SHM_DMS 1 k of (rc, k) \<Rightarrow> (rc, pShmNode, k))
        else (rc, pShmNode, k))"

text \<open>A new node: opening the file, if processes share it at all (\<^verbatim>\<open>bProcessLock\<close> is false), and
  taking the switch. The node is purged on errors.\<close>

definition open_shm_file :: "'k os \<Rightarrow> bool \<Rightarrow> nat \<Rightarrow> 'k \<Rightarrow> int \<times> bool \<times> 'k" where
  "open_shm_file E readonly_shm pid k =
    (case (if readonly_shm then (- 1, k) else robust_open E pid False k) of (h, k) \<Rightarrow>
     if h < 0 then (case robust_open E pid True k of (h, k) \<Rightarrow> (h, True, k)) else (h, False, k))"

definition new_shm_node :: "'k os \<Rightarrow> bool \<Rightarrow> bool \<Rightarrow> nat \<Rightarrow> 'k \<Rightarrow> rc \<times> unixShmNode option \<times> 'k" where
  "new_shm_node E bProcessLock readonly_shm pid k =
    (case osFstat E pid k of (ok, k) \<Rightarrow>
     if \<not> ok then (SQLITE_IOERR_FSTAT, None, k)
     else
       (case sqlite3_malloc E pid k of (p, k) \<Rightarrow>
        if p = None then (SQLITE_NOMEM, None, k)
        else
          let nd = \<lparr>hShm = - 1, szRegion = 0, apRegion = [], isReadonly = False, isUnlocked = False, nRef = 0, pFirst = [],
                    aLock = replicate SQLITE_SHM_NLOCK 0\<rparr>
          in (case sqlite3_malloc E pid k of (p, k) \<Rightarrow>
              if p = None then (case unixShmPurge E pid nd k of (nd, k) \<Rightarrow> (SQLITE_NOMEM, nd, k))
              else if bProcessLock then (SQLITE_OK, Some nd, k)
              else
                (case open_shm_file E readonly_shm pid k of
                   (h, ro, k) \<Rightarrow>
                     if h < 0 then (case unixShmPurge E pid nd k of (nd, k) \<Rightarrow> (SQLITE_CANTOPEN, nd, k))
                     else
                       (case unixLockSharedMemory E pid (nd\<lparr>hShm := h, isReadonly := ro\<rparr>) (robustFchown E pid k) of
                          (rc, nd, k) \<Rightarrow>
                            if rc \<noteq> SQLITE_OK \<and> rc \<noteq> SQLITE_READONLY_CANTINIT
                            then (case unixShmPurge E pid nd k of (nd, k) \<Rightarrow> (rc, nd, k))
                            else (rc, Some nd, k))))))"

text \<open>File handle \<open>c\<close> of a process gets a connection to the shared memory; \<open>pShmNode\<close> is the node of
  the process, if there is one.\<close>

definition unixOpenSharedMemory ::
  "'k os \<Rightarrow> bool \<Rightarrow> bool \<Rightarrow> nat \<Rightarrow> nat \<Rightarrow> unixShmNode option \<Rightarrow> 'k \<Rightarrow> rc \<times> unixShmNode option \<times> 'k" where
  "unixOpenSharedMemory E bProcessLock readonly_shm pid c pShmNode k =
    (case sqlite3_malloc E pid k of (p, k) \<Rightarrow>
     if p = None then (SQLITE_NOMEM, pShmNode, k)
     else
       (case (case pShmNode of None \<Rightarrow> new_shm_node E bProcessLock readonly_shm pid k
                             | Some nd \<Rightarrow> (SQLITE_OK, Some nd, k)) of
          (rc, None, k) \<Rightarrow> (rc, None, k)
        | (rc, Some nd, k) \<Rightarrow>
            (rc, Some (nd\<lparr>nRef := nRef nd + 1, pFirst := (c, \<lparr>sharedMask = 0, exclMask = 0\<rparr>) # pFirst nd\<rparr>), k)))"

text \<open>\<^verbatim>\<open>unixShmMap\<close>: first the file is made long enough, by a byte at the end of every page of 4096
  bytes, then regions are mapped until there are enough. The size \<^verbatim>\<open>nByte\<close> is an \<^verbatim>\<open>int\<close> and the number
  of regions a \<^verbatim>\<open>u16\<close> in the code; neither can overflow before the other while regions have 32768
  bytes and \<^verbatim>\<open>nByte\<close> stays below \<open>2 ^ 31\<close>.\<close>

fun extend_shm :: "'k os \<Rightarrow> nat \<Rightarrow> nat list \<Rightarrow> 'k \<Rightarrow> rc \<times> 'k" where
  "extend_shm E pid [] k = (SQLITE_OK, k)"
| "extend_shm E pid (iPg # is) k =
    (case seekAndWriteFd E pid (iPg * 4096 + 4096 - 1) k of (ok, k) \<Rightarrow>
       if \<not> ok then (SQLITE_IOERR_SHMSIZE, k) else extend_shm E pid is k)"

definition map_region :: "'k os \<Rightarrow> nat \<Rightarrow> unixShmNode \<Rightarrow> 'k \<Rightarrow> rc \<times> unixShmNode \<times> 'k" where
  "map_region E pid nd k =
    (let nShmPerMap = unixShmRegionPerMap E; nMap = szRegion nd * nShmPerMap
     in case (if hShm nd \<ge> 0 then osMmap E pid (isReadonly nd) nMap (szRegion nd * length (apRegion nd)) k
              else sqlite3_malloc E pid k) of
          (None, k) \<Rightarrow> (if hShm nd \<ge> 0 then SQLITE_IOERR_SHMMAP else SQLITE_NOMEM, nd, k)
        | (Some pMem, k) \<Rightarrow>
            (SQLITE_OK, nd\<lparr>apRegion := apRegion nd @ map (\<lambda>i. pMem + szRegion nd * i) [0..<nShmPerMap]\<rparr>, k))"

lemma unixShmRegionPerMap_pos: "0 < unixShmRegionPerMap E"
  by (simp add: unixShmRegionPerMap_def Let_def div_greater_zero_iff)

lemma map_region_grows:
  "map_region E pid nd k = (SQLITE_OK, nd', k') \<Longrightarrow> length (apRegion nd') = length (apRegion nd) + unixShmRegionPerMap E"
  by (auto simp: map_region_def Let_def split: prod.splits option.splits if_splits)

function map_regions :: "'k os \<Rightarrow> nat \<Rightarrow> nat \<Rightarrow> unixShmNode \<Rightarrow> 'k \<Rightarrow> rc \<times> unixShmNode \<times> 'k" where
  "map_regions E pid nReqRegion nd k =
    (if length (apRegion nd) < nReqRegion then
       (let (rc, nd', k') = map_region E pid nd k
        in if rc \<noteq> SQLITE_OK then (rc, nd', k') else map_regions E pid nReqRegion nd' k')
     else (SQLITE_OK, nd, k))"
  by auto
termination
  by (relation "measure (\<lambda>(E, pid, nReq, nd, k). nReq - length (apRegion nd))")
    (auto dest!: sym [THEN map_region_grows] intro!: diff_less_mono2 simp: unixShmRegionPerMap_pos)

declare map_regions.simps [simp del]

definition map_alloc :: "'k os \<Rightarrow> nat \<Rightarrow> nat \<Rightarrow> unixShmNode \<Rightarrow> 'k \<Rightarrow> rc \<times> unixShmNode \<times> 'k" where
  "map_alloc E pid nReqRegion nd k =
    (case sqlite3_malloc E pid k of (apNew, k) \<Rightarrow>
       if apNew = None then (SQLITE_IOERR_NOMEM, nd, k) else map_regions E pid nReqRegion nd k)"

definition map_upto ::
  "'k os \<Rightarrow> nat \<Rightarrow> nat \<Rightarrow> nat \<Rightarrow> bool \<Rightarrow> unixShmNode \<Rightarrow> 'k \<Rightarrow> rc \<times> unixShmNode \<times> 'k" where
  "map_upto E pid nReqRegion sz bExtend nd k =
    (let nByte = nReqRegion * sz; nd = nd\<lparr>szRegion := sz\<rparr>
     in if hShm nd \<ge> 0 then
          (case osFstatShm E pid k of
             (None, k) \<Rightarrow> (SQLITE_IOERR_SHMSIZE, nd, k)
           | (Some st_size, k) \<Rightarrow>
               if st_size < nByte then
                 if \<not> bExtend then (SQLITE_OK, nd, k)
                 else
                   (case extend_shm E pid [st_size div 4096..<nByte div 4096] k of (rc, k) \<Rightarrow>
                      if rc \<noteq> SQLITE_OK then (rc, nd, k) else map_alloc E pid nReqRegion nd k)
               else map_alloc E pid nReqRegion nd k)
        else map_alloc E pid nReqRegion nd k)"

definition shm_connect ::
  "'k os \<Rightarrow> bool \<Rightarrow> bool \<Rightarrow> nat \<Rightarrow> nat \<Rightarrow> unixShmNode option \<Rightarrow> 'k \<Rightarrow> rc \<times> unixShmNode option \<times> 'k" where
  "shm_connect E bProcessLock readonly_shm pid c pShmNode k =
    (if \<exists>nd\<in>set_option pShmNode. map_of (pFirst nd) c \<noteq> None then (SQLITE_OK, pShmNode, k)
     else unixOpenSharedMemory E bProcessLock readonly_shm pid c pShmNode k)"

definition shm_relock :: "'k os \<Rightarrow> nat \<Rightarrow> unixShmNode \<Rightarrow> 'k \<Rightarrow> rc \<times> unixShmNode \<times> 'k" where
  "shm_relock E pid nd k =
    (if isUnlocked nd then
       (case unixLockSharedMemory E pid nd k of (rc, nd, k) \<Rightarrow>
          (rc, if rc = SQLITE_OK then nd\<lparr>isUnlocked := False\<rparr> else nd, k))
     else (SQLITE_OK, nd, k))"

text \<open>The second component of the result is what is stored in \<^verbatim>\<open>*pp\<close>: \<open>None\<close> nothing, \<open>Some None\<close> a
  null pointer.\<close>

definition unixShmMap ::
  "'k os \<Rightarrow> bool \<Rightarrow> bool \<Rightarrow> nat \<Rightarrow> nat \<Rightarrow> nat \<Rightarrow> nat \<Rightarrow> bool \<Rightarrow> unixShmNode option \<Rightarrow> 'k \<Rightarrow>
   rc \<times> nat option option \<times> unixShmNode option \<times> 'k" where
  "unixShmMap E bProcessLock readonly_shm pid c iRegion sz bExtend pShmNode k =
    (case shm_connect E bProcessLock readonly_shm pid c pShmNode k of
       (rc, None, k) \<Rightarrow> (rc, None, None, k)
     | (rc, Some nd, k) \<Rightarrow>
         if rc \<noteq> SQLITE_OK then (rc, None, Some nd, k)
         else
           (case shm_relock E pid nd k of (rc, nd, k) \<Rightarrow>
            case (if rc \<noteq> SQLITE_OK then (rc, nd, k)
                  else
                    let nShmPerMap = unixShmRegionPerMap E;
                        nReqRegion = (iRegion + nShmPerMap) div nShmPerMap * nShmPerMap
                    in if length (apRegion nd) < nReqRegion then map_upto E pid nReqRegion sz bExtend nd k
                       else (SQLITE_OK, nd, k)) of
              (rc, nd, k) \<Rightarrow>
                (if isReadonly nd \<and> rc = SQLITE_OK then SQLITE_READONLY else rc,
                 Some (if length (apRegion nd) > iRegion then Some (apRegion nd ! iRegion) else None),
                 Some nd, k)))"

definition lock_mask :: "nat \<Rightarrow> nat \<Rightarrow> u16" where
  "lock_mask ofst n = push_bit (ofst + n) 1 - push_bit ofst 1"

text \<open>\<^verbatim>\<open>assertLockingArrayOk\<close>: the counters recomputed from the masks; \<open>None\<close> when one of the
  assertions inside fails.\<close>

fun count_locks :: "unixShm \<Rightarrow> nat list \<Rightarrow> int list \<Rightarrow> int list option" where
  "count_locks pX [] a = Some a"
| "count_locks pX (i # is) a =
    (if bit (exclMask pX) i then
       (if a ! i = 0 then count_locks pX is (a[i := - 1]) else None)
     else if bit (sharedMask pX) i then
       (if a ! i \<ge> 0 then count_locks pX is (a[i := a ! i + 1]) else None)
     else count_locks pX is a)"

fun count_all :: "(nat \<times> unixShm) list \<Rightarrow> int list \<Rightarrow> int list option" where
  "count_all [] a = Some a"
| "count_all ((c, pX) # xs) a =
    (case count_locks pX [0..<SQLITE_SHM_NLOCK] a of None \<Rightarrow> None | Some a \<Rightarrow> count_all xs a)"

definition assertLockingArrayOk :: "unixShmNode \<Rightarrow> bool" where
  "assertLockingArrayOk pShmNode \<longleftrightarrow>
     count_all (pFirst pShmNode) (replicate SQLITE_SHM_NLOCK 0) = Some (aLock pShmNode)"

definition set_conn :: "nat \<Rightarrow> unixShm \<Rightarrow> (nat \<times> unixShm) list \<Rightarrow> (nat \<times> unixShm) list" where
  "set_conn c p = map (\<lambda>(d, q). if d = c then (d, p) else (d, q))"

text \<open>The range of counters from \<open>ofst\<close> on set to a value.\<close>

definition set_range :: "nat \<Rightarrow> nat \<Rightarrow> int \<Rightarrow> int list \<Rightarrow> int list" where
  "set_range ofst n v a = foldl (\<lambda>a ii. a[ii := v]) a [ofst..<ofst + n]"

text \<open>The three cases of \<^verbatim>\<open>unixShmLock\<close>.\<close>

definition shm_unlock ::
  "'k os \<Rightarrow> nat \<Rightarrow> unixShmNode \<Rightarrow> nat \<Rightarrow> unixShm \<Rightarrow> nat \<Rightarrow> nat \<Rightarrow> bool \<Rightarrow> 'k \<Rightarrow> rc \<times> unixShmNode \<times> 'k" where
  "shm_unlock E pid nd c p ofst n shared k =
    (let m = lock_mask ofst n
     in if shared \<and> aLock nd ! ofst > 1 then
          (SQLITE_OK, nd\<lparr>aLock := (aLock nd)[ofst := aLock nd ! ofst - 1],
             pFirst := set_conn c (p\<lparr>sharedMask := sharedMask p AND NOT m\<rparr>) (pFirst nd)\<rparr>, k)
        else
          (case unixShmSystemLock E pid nd F_UNLCK (ofst + UNIX_SHM_BASE) n k of (rc, k) \<Rightarrow>
             if rc = SQLITE_OK then
               (rc, nd\<lparr>aLock := set_range ofst n 0 (aLock nd),
                  pFirst := set_conn c (p\<lparr>sharedMask := sharedMask p AND NOT m,
                                          exclMask := exclMask p AND NOT m\<rparr>) (pFirst nd)\<rparr>, k)
             else (rc, nd, k)))"

definition shm_shared ::
  "'k os \<Rightarrow> nat \<Rightarrow> unixShmNode \<Rightarrow> nat \<Rightarrow> unixShm \<Rightarrow> nat \<Rightarrow> nat \<Rightarrow> 'k \<Rightarrow> rc \<times> unixShmNode \<times> 'k" where
  "shm_shared E pid nd c p ofst n k =
    (case (if aLock nd ! ofst < 0 then (SQLITE_BUSY, k)
           else if aLock nd ! ofst = 0 then unixShmSystemLock E pid nd F_RDLCK (ofst + UNIX_SHM_BASE) n k
           else (SQLITE_OK, k)) of (rc, k) \<Rightarrow>
       if rc = SQLITE_OK then
         (rc, nd\<lparr>aLock := (aLock nd)[ofst := aLock nd ! ofst + 1],
            pFirst := set_conn c (p\<lparr>sharedMask := sharedMask p OR lock_mask ofst n\<rparr>) (pFirst nd)\<rparr>, k)
       else (rc, nd, k))"

definition shm_exclusive ::
  "'k os \<Rightarrow> nat \<Rightarrow> unixShmNode \<Rightarrow> nat \<Rightarrow> unixShm \<Rightarrow> nat \<Rightarrow> nat \<Rightarrow> 'k \<Rightarrow> rc \<times> unixShmNode \<times> 'k" where
  "shm_exclusive E pid nd c p ofst n k =
    (if list_ex (\<lambda>ii. aLock nd ! ii \<noteq> 0) [ofst..<ofst + n] then (SQLITE_BUSY, nd, k)
     else
       (case unixShmSystemLock E pid nd F_WRLCK (ofst + UNIX_SHM_BASE) n k of (rc, k) \<Rightarrow>
          if rc = SQLITE_OK then
            (rc, nd\<lparr>aLock := set_range ofst n (- 1) (aLock nd),
               pFirst := set_conn c (p\<lparr>exclMask := exclMask p OR lock_mask ofst n\<rparr>) (pFirst nd)\<rparr>, k)
          else (rc, nd, k)))"

text \<open>Connection \<open>c\<close> of process \<open>pid\<close>, whose node is \<open>nd\<close>.\<close>

definition unixShmLock ::
  "'k os \<Rightarrow> nat \<Rightarrow> unixShmNode \<Rightarrow> nat \<Rightarrow> nat \<Rightarrow> nat \<Rightarrow> shm_op \<Rightarrow> 'k \<Rightarrow> rc \<times> unixShmNode \<times> 'k" where
  "unixShmLock E pid nd c ofst n flags k =
    (case map_of (pFirst nd) c of
       None \<Rightarrow> (SQLITE_IOERR_SHMLOCK, nd, k)
     | Some p \<Rightarrow>
         let m = lock_mask ofst n
         in case flags of
              ShmLockShared \<Rightarrow>
                if sharedMask p AND m = 0 then shm_shared E pid nd c p ofst n k else (SQLITE_OK, nd, k)
            | ShmLockExclusive \<Rightarrow> shm_exclusive E pid nd c p ofst n k
            | _ \<Rightarrow>
                if (exclMask p OR sharedMask p) AND m \<noteq> 0
                then shm_unlock E pid nd c p ofst n (flags = ShmUnlockShared) k
                else (SQLITE_OK, nd, k))"

text \<open>Handle \<open>c\<close> gives up its connection, if it has one.\<close>

definition unixShmUnmap ::
  "'k os \<Rightarrow> nat \<Rightarrow> nat \<Rightarrow> bool \<Rightarrow> unixShmNode \<Rightarrow> 'k \<Rightarrow> rc \<times> unixShmNode option \<times> 'k" where
  "unixShmUnmap E pid c deleteFlag nd k =
    (case map_of (pFirst nd) c of
       None \<Rightarrow> (SQLITE_OK, Some nd, k)
     | Some p \<Rightarrow>
         let nd = nd\<lparr>pFirst := filter (\<lambda>(d, q). d \<noteq> c) (pFirst nd), nRef := nRef nd - 1\<rparr>
         in if nRef nd = 0 then
              (case unixShmPurge E pid nd (if deleteFlag \<and> hShm nd \<ge> 0 then osUnlink E pid k else k) of
                 (nd, k) \<Rightarrow> (SQLITE_OK, nd, k))
            else (SQLITE_OK, Some nd, k))"

section \<open>Masks and ranges\<close>

lemma bit_lock_mask:
  assumes "ofst + n \<le> 16"
  shows "bit (lock_mask ofst n) i \<longleftrightarrow> ofst \<le> i \<and> i < ofst + n"
proof -
  have "lock_mask ofst n = push_bit ofst (mask n)"
    by (simp add: lock_mask_def push_bit_eq_mult mask_eq_exp_minus_1 power_add algebra_simps)
  then show ?thesis using assms by (auto simp: bit_push_bit_iff bit_mask_iff)
qed

lemma mask_disjoint: "m AND lock_mask ofst n = 0 \<Longrightarrow> ofst + n \<le> 16 \<Longrightarrow> ofst \<le> i \<Longrightarrow> i < ofst + n \<Longrightarrow> \<not> bit m i" for m :: u16
proof -
  assume a: "m AND lock_mask ofst n = 0" "ofst + n \<le> 16" "ofst \<le> i" "i < ofst + n"
  have "bit (m AND lock_mask ofst n) i \<longleftrightarrow> bit m i" using a(2-4) by (simp only: bit_and_iff bit_lock_mask) simp
  then show ?thesis using a(1) by simp
qed

lemma mask_meets: "m AND lock_mask ofst n \<noteq> 0 \<Longrightarrow> ofst + n \<le> 16 \<Longrightarrow> \<exists>i. ofst \<le> i \<and> i < ofst + n \<and> bit m i" for m :: u16
proof (rule ccontr)
  assume a: "m AND lock_mask ofst n \<noteq> 0" "ofst + n \<le> 16" and "\<nexists>i. ofst \<le> i \<and> i < ofst + n \<and> bit m i"
  then have "m AND lock_mask ofst n = 0" by (intro bit_eqI) (auto simp: bit_and_iff bit_lock_mask)
  then show False using a(1) by simp
qed

lemma length_set_range [simp]: "length (set_range ofst n v a) = length a"
proof (induction n)
  case (Suc n)
  then show ?case by (simp add: set_range_def)
qed (simp add: set_range_def)

lemma nth_set_range: "i < length a \<Longrightarrow> set_range ofst n v a ! i = (if ofst \<le> i \<and> i < ofst + n then v else a ! i)"
proof (induction n)
  case (Suc n)
  have e: "set_range ofst (Suc n) v a = (set_range ofst n v a)[ofst + n := v]" by (simp add: set_range_def)
  show ?case using Suc unfolding e by (cases "i = ofst + n") auto
qed (simp add: set_range_def)

section \<open>Who holds what\<close>

type_synonym conns = "nat \<rightharpoonup> unixShm"

definition excl_on :: "conns \<Rightarrow> nat \<Rightarrow> nat set" where
  "excl_on M i = {c. \<exists>p. M c = Some p \<and> bit (exclMask p) i}"

definition shared_on :: "conns \<Rightarrow> nat \<Rightarrow> nat set" where
  "shared_on M i = {c. \<exists>p. M c = Some p \<and> bit (sharedMask p) i}"

text \<open>What a counter means.\<close>

definition slot_ok :: "conns \<Rightarrow> nat \<Rightarrow> int \<Rightarrow> bool" where
  "slot_ok M i u \<longleftrightarrow> (excl_on M i = {} \<and> u = int (card (shared_on M i))) \<or>
     (\<exists>c. excl_on M i = {c} \<and> shared_on M i = {} \<and> u = - 1)"

definition masks_ok :: "unixShm \<Rightarrow> bool" where
  "masks_ok p \<longleftrightarrow> (\<forall>i. \<not> (bit (exclMask p) i \<and> bit (sharedMask p) i))"

definition node_ok :: "unixShmNode \<Rightarrow> bool" where
  "node_ok nd \<longleftrightarrow> distinct (map fst (pFirst nd)) \<and> length (aLock nd) = SQLITE_SHM_NLOCK \<and>
     (\<forall>c p. map_of (pFirst nd) c = Some p \<longrightarrow> masks_ok p) \<and> (\<forall>i<SQLITE_SHM_NLOCK. slot_ok (map_of (pFirst nd)) i (aLock nd ! i))"

lemma map_of_set_conn: "map_of (set_conn c p L) = (if c \<in> fst ` set L then (map_of L)(c \<mapsto> p) else map_of L)"
  by (induction L) (auto simp: set_conn_def fun_eq_iff split: if_splits)

lemma fst_set_conn [simp]: "map fst (set_conn c p L) = map fst L"
  by (induction L) (auto simp: set_conn_def)

text \<open>The check, slot by slot.\<close>

fun slot_all :: "(nat \<times> unixShm) list \<Rightarrow> nat \<Rightarrow> int \<Rightarrow> int option" where
  "slot_all [] i v = Some v"
| "slot_all ((c, p) # xs) i v =
    (if bit (exclMask p) i then if v = 0 then slot_all xs i (- 1) else None
     else if bit (sharedMask p) i then if v \<ge> 0 then slot_all xs i (v + 1) else None
     else slot_all xs i v)"

definition slot_one :: "unixShm \<Rightarrow> nat \<Rightarrow> int \<Rightarrow> int option" where
  "slot_one p i v = slot_all [(0, p)] i v"

lemma slot_all_Cons: "slot_all ((c, p) # xs) i v = Option.bind (slot_one p i v) (slot_all xs i)"
  by (simp add: slot_one_def)

lemma count_locks_slots:
  "distinct is \<Longrightarrow> set is \<subseteq> {..<length a} \<Longrightarrow> \<forall>i\<in>set is. slot_one p i (a ! i) \<noteq> None \<Longrightarrow>
   \<exists>b. count_locks p is a = Some b \<and> length b = length a \<and>
     (\<forall>i<length a. Some (b ! i) = (if i \<in> set is then slot_one p i (a ! i) else Some (a ! i)))"
proof (induction "is" arbitrary: a)
  case (Cons j "is")
  define v where "v = the (slot_one p j (a ! j))"
  have v: "slot_one p j (a ! j) = Some v" using Cons.prems(3) by (auto simp: v_def)
  have j: "j < length a" "j \<notin> set is" using Cons.prems by auto
  have step: "count_locks p (j # is) a = count_locks p is (a[j := v])"
  proof (cases "bit (exclMask p) j \<or> bit (sharedMask p) j")
    case True
    then show ?thesis using v by (auto simp: slot_one_def split: if_splits)
  next
    case False
    then have "v = a ! j" using v by (simp add: slot_one_def)
    then have "a[j := v] = a" by simp
    then show ?thesis using False by simp
  qed
  have "\<forall>i\<in>set is. slot_one p i (a[j := v] ! i) \<noteq> None" 
    using Cons.prems(3) j(2) by (metis list.set_intros(2) nth_list_update_neq)
  from Cons.IH [OF _ _ this] Cons.prems obtain b where b: "count_locks p is (a[j := v]) = Some b" "length b = length a"
      "\<forall>i<length a. Some (b ! i) = (if i \<in> set is then slot_one p i (a[j := v] ! i) else Some (a[j := v] ! i))"
    by auto
  have "Some (b ! i) = (if i \<in> set (j # is) then slot_one p i (a ! i) else Some (a ! i))" if "i < length a" for i
    using b(3) that j v by (auto simp: nth_list_update)
  then show ?case using step b by auto
qed simp

lemma count_all_slots:
  "\<forall>i<length a. slot_all L i (a ! i) = Some (b ! i) \<Longrightarrow> length a = SQLITE_SHM_NLOCK \<Longrightarrow> length b = length a \<Longrightarrow>
   count_all L a = Some b"
proof (induction L arbitrary: a)
  case Nil
  then show ?case by (auto intro: nth_equalityI)
next
  case (Cons x L)
  obtain c p where x: "x = (c, p)" by (cases x)
  have s: "slot_one p i (a ! i) \<noteq> None" if "i < 8" for i
    using Cons.prems that unfolding x slot_all_Cons by (cases "slot_one p i (a ! i)") auto
  then obtain a' where a': "count_locks p [0..<8] a = Some a'" "length a' = length a"
      "\<forall>i<length a. Some (a' ! i) = slot_one p i (a ! i)"
    using count_locks_slots [of "[0..<8]" a p] Cons.prems(2) by (auto simp: lessThan_atLeast0)
  have "\<forall>i<length a'. slot_all L i (a' ! i) = Some (b ! i)"
  proof (intro allI impI)
    fix i
    assume "i < length a'"
    then have "slot_one p i (a ! i) = Some (a' ! i)" "slot_all ((c, p) # L) i (a ! i) = Some (b ! i)"
      using a'(2,3) Cons.prems(1) x by auto
    then show "slot_all L i (a' ! i) = Some (b ! i)" unfolding slot_all_Cons by simp
  qed
  then show ?case using Cons.IH [of a'] Cons.prems a' x by (simp del: upt_Suc)
qed

lemma on_Cons:
  assumes "c \<notin> fst ` set L"
  shows "excl_on (map_of ((c, p) # L)) i = (if bit (exclMask p) i then insert c (excl_on (map_of L) i) else excl_on (map_of L) i)"
    "shared_on (map_of ((c, p) # L)) i = (if bit (sharedMask p) i then insert c (shared_on (map_of L) i) else shared_on (map_of L) i)"
  using assms by (auto simp: excl_on_def shared_on_def map_of_eq_None_iff [symmetric])

lemma not_on: "c \<notin> fst ` set L \<Longrightarrow> c \<notin> excl_on (map_of L) i" "c \<notin> fst ` set L \<Longrightarrow> c \<notin> shared_on (map_of L) i"
  by (auto simp: excl_on_def shared_on_def map_of_eq_None_iff [symmetric])

lemma finite_on: "finite (excl_on (map_of L) i)" "finite (shared_on (map_of L) i)"
  using finite_dom_map_of [of L] by (auto simp: excl_on_def shared_on_def dom_def elim!: rev_finite_subset)

lemma slot_all_free:
  "distinct (map fst L) \<Longrightarrow> excl_on (map_of L) i = {} \<Longrightarrow> v \<ge> 0 \<or> shared_on (map_of L) i = {} \<Longrightarrow>
   slot_all L i v = Some (v + int (card (shared_on (map_of L) i)))"
proof (induction L arbitrary: v)
  case (Cons x L)
  obtain c p where x: "x = (c, p)" by (cases x)
  have c: "c \<notin> fst ` set L" using Cons.prems(1) x by simp
  note on = on_Cons [OF c, of p i]
  have e: "\<not> bit (exclMask p) i" "excl_on (map_of L) i = {}" using Cons.prems(2) unfolding x on(1) by (auto split: if_splits)
  show ?case
  proof (cases "bit (sharedMask p) i")
    case True
    then have sh: "shared_on (map_of (x # L)) i = insert c (shared_on (map_of L) i)" using on(2) x by simp
    then have "card (shared_on (map_of (x # L)) i) = Suc (card (shared_on (map_of L) i))" using not_on(2) [OF c] finite_on by simp
    moreover have "v \<ge> 0" using Cons.prems(3) unfolding sh by simp
    moreover have "slot_all (x # L) i v = Some (v + 1 + int (card (shared_on (map_of L) i)))"
      using True e Cons.IH [of "v + 1"] Cons.prems(1) x \<open>v \<ge> 0\<close> by simp
    ultimately show ?thesis by (simp only: of_nat_Suc) simp
  next
    case False
    then have sh: "shared_on (map_of (x # L)) i = shared_on (map_of L) i" using on(2) x by simp
    have "slot_all (x # L) i v = slot_all L i v" using False e x by simp
    then show ?thesis using e(2) Cons.IH [of v] Cons.prems(1,3) unfolding sh by simp
  qed
qed (simp add: shared_on_def)

lemma slot_all_taken:
  "distinct (map fst L) \<Longrightarrow> excl_on (map_of L) i = {d} \<Longrightarrow> shared_on (map_of L) i = {} \<Longrightarrow>
   slot_all L i 0 = Some (- 1)"
proof (induction L)
  case (Cons x L)
  obtain c p where x: "x = (c, p)" by (cases x)
  have c: "c \<notin> fst ` set L" using Cons.prems(1) x by simp
  note on = on_Cons [OF c, of p i]
  have sh: "\<not> bit (sharedMask p) i" "shared_on (map_of L) i = {}" using Cons.prems(3) unfolding x on(2) by (auto split: if_splits)
  show ?case
  proof (cases "bit (exclMask p) i")
    case True
    then have "excl_on (map_of L) i = {}" using Cons.prems(2) not_on(1) [OF c, of i] unfolding x on(1) by auto
    then show ?thesis using slot_all_free [of L i "- 1"] Cons.prems(1) sh True x by simp
  next
    case False
    then have "excl_on (map_of L) i = {d}" using Cons.prems(2) unfolding x on(1) by simp
    then show ?thesis using False Cons.IH Cons.prems(1) sh x by simp
  qed
qed (simp add: excl_on_def)

lemma node_ok_check:
  assumes "node_ok nd"
  shows "assertLockingArrayOk nd"
proof -
  have "slot_all (pFirst nd) i 0 = Some (aLock nd ! i)" if "i < 8" for i
    using assms that slot_all_free [of "pFirst nd" i 0] slot_all_taken [of "pFirst nd" i]
    by (auto simp: node_ok_def slot_ok_def)
  then show ?thesis
    using count_all_slots [of "replicate 8 0" "pFirst nd" "aLock nd"] assms
    by (simp add: assertLockingArrayOk_def node_ok_def)
qed

section \<open>Connections change their masks\<close>

lemma on_upd:
  "excl_on (M(c \<mapsto> p')) i = (if bit (exclMask p') i then insert c (excl_on M i - {c}) else excl_on M i - {c})"
  "shared_on (M(c \<mapsto> p')) i = (if bit (sharedMask p') i then insert c (shared_on M i - {c}) else shared_on M i - {c})"
  by (auto simp: excl_on_def shared_on_def)

lemma on_mem:
  "M c = Some p \<Longrightarrow> c \<in> excl_on M i \<longleftrightarrow> bit (exclMask p) i"
  "M c = Some p \<Longrightarrow> c \<in> shared_on M i \<longleftrightarrow> bit (sharedMask p) i"
  by (auto simp: excl_on_def shared_on_def)

lemma slot_same:
  "slot_ok M i u \<Longrightarrow> M c = Some p \<Longrightarrow> bit (exclMask p') i = bit (exclMask p) i \<Longrightarrow> bit (sharedMask p') i = bit (sharedMask p) i \<Longrightarrow>
   slot_ok (M(c \<mapsto> p')) i u"
  using on_mem [of M c p i] by (auto simp: slot_ok_def on_upd insert_absorb)

lemma slot_take_shared:
  assumes "slot_ok M i u" "M c = Some p" "u \<ge> 0" "\<not> bit (sharedMask p) i" "finite (shared_on M i)"
    "bit (sharedMask p') i" "\<not> bit (exclMask p') i"
  shows "slot_ok (M(c \<mapsto> p')) i (u + 1)"
  using assms on_mem [of M c p i] by (auto simp: slot_ok_def on_upd)

lemma slot_take_excl:
  assumes "slot_ok M i 0" "M c = Some p" "finite (shared_on M i)" "bit (exclMask p') i" "\<not> bit (sharedMask p') i"
  shows "slot_ok (M(c \<mapsto> p')) i (- 1)"
  using assms by (auto simp: slot_ok_def on_upd)

lemma slot_release:
  assumes "slot_ok M i u" "M c = Some p" "bit (sharedMask p) i" "finite (shared_on M i)"
    "\<not> bit (sharedMask p') i" "\<not> bit (exclMask p') i"
  shows "slot_ok (M(c \<mapsto> p')) i (u - 1)"
proof -
  have c: "c \<in> shared_on M i" using assms(2,3) on_mem(2) by simp
  then have "excl_on M i = {}" "u = int (card (shared_on M i))" using assms(1) by (auto simp: slot_ok_def)
  moreover have "int (card (shared_on M i)) - 1 = int (card (shared_on M i - {c}))"
    using c assms(4) card_gt_0_iff [of "shared_on M i"] by (auto simp: of_nat_diff)
  ultimately show ?thesis using assms(5,6) by (simp add: slot_ok_def on_upd)
qed

lemma slot_free_excl:
  assumes "slot_ok M i u" "M c = Some p" "bit (exclMask p) i" "\<not> bit (sharedMask p') i" "\<not> bit (exclMask p') i"
  shows "slot_ok (M(c \<mapsto> p')) i 0"
proof -
  have "c \<in> excl_on M i" using assms(2,3) on_mem(1) by simp
  then have "excl_on M i = {c}" "shared_on M i = {}" using assms(1) by (auto simp: slot_ok_def)
  then show ?thesis using assms(4,5) by (simp add: slot_ok_def on_upd)
qed

lemma node_ok_upd:
  assumes "node_ok nd" "map_of (pFirst nd) c = Some p" "masks_ok p'" "length a = SQLITE_SHM_NLOCK"
    "\<And>i. i < SQLITE_SHM_NLOCK \<Longrightarrow> slot_ok ((map_of (pFirst nd))(c \<mapsto> p')) i (a ! i)"
  shows "node_ok (nd\<lparr>aLock := a, pFirst := set_conn c p' (pFirst nd)\<rparr>)"
proof -
  have "c \<in> fst ` set (pFirst nd)" using assms(2) by (metis map_of_eq_None_iff option.distinct(1))
  then have m: "map_of (set_conn c p' (pFirst nd)) = (map_of (pFirst nd))(c \<mapsto> p')" by (simp add: map_of_set_conn)
  have "\<forall>d q. ((map_of (pFirst nd))(c \<mapsto> p')) d = Some q \<longrightarrow> masks_ok q" using assms(1,3) by (simp add: node_ok_def)
  then show ?thesis using assms unfolding node_ok_def by (simp add: m del: fun_upd_apply)
qed

lemma node_slot: "node_ok nd \<Longrightarrow> i < SQLITE_SHM_NLOCK \<Longrightarrow> slot_ok (map_of (pFirst nd)) i (aLock nd ! i)"
  by (simp add: node_ok_def)

lemma node_masks: "node_ok nd \<Longrightarrow> map_of (pFirst nd) c = Some p \<Longrightarrow> masks_ok p"
  unfolding node_ok_def by blast

section \<open>The locks of the operating system\<close>

text \<open>\<open>held k pid\<close> are the locks of a process on the bytes of the \<^verbatim>\<open>-shm\<close> file. A request that
  succeeds conflicts with no other process and changes exactly what it says, one that fails changes
  nothing; closing a descriptor of the file drops the locks of the process; no other call changes them.\<close>

definition conflicts :: "lock_type \<Rightarrow> lock_type \<Rightarrow> bool" where
  "conflicts a b \<longleftrightarrow> a \<noteq> F_UNLCK \<and> b \<noteq> F_UNLCK \<and> (a = F_WRLCK \<or> b = F_WRLCK)"

definition lock_law :: "'k os \<Rightarrow> ('k \<Rightarrow> nat \<Rightarrow> nat \<Rightarrow> lock_type) \<Rightarrow> bool" where
  "lock_law E held \<longleftrightarrow> (\<forall>pid t ofst n k ok k'. osSetPosixAdvisoryLock E pid t ofst n k = (ok, k') \<longrightarrow>
     (if ok then
        (\<forall>q b. q \<noteq> pid \<and> ofst \<le> b \<and> b < ofst + n \<longrightarrow> \<not> conflicts t (held k q b)) \<and>
        (\<forall>q b. held k' q b = (if q = pid \<and> ofst \<le> b \<and> b < ofst + n then t else held k q b))
      else held k' = held k))"

definition getlk_law :: "'k os \<Rightarrow> ('k \<Rightarrow> nat \<Rightarrow> nat \<Rightarrow> lock_type) \<Rightarrow> bool" where
  "getlk_law E held \<longleftrightarrow> (\<forall>pid ofst n k. osGetlk E pid ofst n k = Some F_UNLCK \<longrightarrow>
     (\<forall>q b. q \<noteq> pid \<and> ofst \<le> b \<and> b < ofst + n \<longrightarrow> held k q b = F_UNLCK))"

text \<open>The calls that leave something of the operating system's state alone.\<close>

definition plain_calls :: "'k os \<Rightarrow> ('k \<Rightarrow> 'a) \<Rightarrow> bool" where
  "plain_calls E f \<longleftrightarrow> (\<forall>pid k.
     f (snd (sqlite3_malloc E pid k)) = f k \<and> f (snd (osFstat E pid k)) = f k \<and> f (snd (osFstatShm E pid k)) = f k \<and>
     (\<forall>ro. f (snd (robust_open E pid ro k)) = f k) \<and> f (robustFchown E pid k) = f k \<and>
     (\<forall>ro n off. f (snd (osMmap E pid ro n off k)) = f k) \<and> (\<forall>a. f (osMunmap E pid a k) = f k) \<and>
     (\<forall>a. f (sqlite3_free E pid a k) = f k))"

definition posix_locks :: "'k os \<Rightarrow> ('k \<Rightarrow> nat \<Rightarrow> nat \<Rightarrow> lock_type) \<Rightarrow> bool" where
  "posix_locks E held \<longleftrightarrow> lock_law E held \<and> getlk_law E held \<and> plain_calls E held \<and>
     (\<forall>pid k. held (robust_close E pid k) = (held k)(pid := \<lambda>_. F_UNLCK)) \<and>
     (\<forall>pid k. held (osUnlink E pid k) = held k) \<and>
     (\<forall>pid n k. held (snd (robust_ftruncate E pid n k)) = held k) \<and>
     (\<forall>pid off k. held (snd (seekAndWriteFd E pid off k)) = held k)"

definition lock_of :: "int \<Rightarrow> lock_type" where
  "lock_of u = (if u < 0 then F_WRLCK else if u = 0 then F_UNLCK else F_RDLCK)"

text \<open>The process holds the locks its counters say.\<close>

definition kern_ok :: "('k \<Rightarrow> nat \<Rightarrow> nat \<Rightarrow> lock_type) \<Rightarrow> nat \<Rightarrow> unixShmNode \<Rightarrow> 'k \<Rightarrow> bool" where
  "kern_ok held pid nd k \<longleftrightarrow> (\<forall>i<SQLITE_SHM_NLOCK. held k pid (i + UNIX_SHM_BASE) = lock_of (aLock nd ! i))"

definition kern_excl :: "(nat \<Rightarrow> nat \<Rightarrow> lock_type) \<Rightarrow> bool" where
  "kern_excl h \<longleftrightarrow> (\<forall>p q b. p \<noteq> q \<longrightarrow> \<not> conflicts (h p b) (h q b))"

text \<open>What one process does to the locks.\<close>

definition by_pid :: "nat \<Rightarrow> (nat \<Rightarrow> nat \<Rightarrow> lock_type) \<Rightarrow> (nat \<Rightarrow> nat \<Rightarrow> lock_type) \<Rightarrow> bool" where
  "by_pid pid h h' \<longleftrightarrow> (\<forall>q. q \<noteq> pid \<longrightarrow> h' q = h q) \<and> (kern_excl h \<longrightarrow> kern_excl h')"

lemma by_pid_refl [simp]: "by_pid pid h h"
  by (simp add: by_pid_def)

lemma by_pid_trans: "by_pid pid h h1 \<Longrightarrow> by_pid pid h1 h2 \<Longrightarrow> by_pid pid h h2"
  by (simp add: by_pid_def)

lemma conflicts_sym: "conflicts a b = conflicts b a"
  by (auto simp: conflicts_def)

lemma by_pid_set:
  assumes "\<forall>q b. h' q b = (if q = pid \<and> ofst \<le> b \<and> b < ofst + n then t else h q b)"
    "\<forall>q b. q \<noteq> pid \<and> ofst \<le> b \<and> b < ofst + n \<longrightarrow> \<not> conflicts t (h q b)"
  shows "by_pid pid h h'"
proof -
  have "\<not> conflicts (h' p b) (h' q b)" if "p \<noteq> q" "kern_excl h" for p q b
    using assms that conflicts_sym [of t] by (auto simp: kern_excl_def)
  then show ?thesis using assms(1) by (auto simp: by_pid_def kern_excl_def fun_eq_iff)
qed

lemma by_pid_drop: "by_pid pid h (h(pid := \<lambda>_. F_UNLCK))"
  by (auto simp: by_pid_def kern_excl_def conflicts_def)

lemma system_lock:
  assumes "unixShmSystemLock E pid nd t ofst n k = (rc, k')" "lock_law E held" "hShm nd \<ge> 0"
  shows "by_pid pid (held k) (held k')" "rc = SQLITE_OK \<or> rc = SQLITE_BUSY"
    "held k' pid b = (if rc = SQLITE_OK \<and> ofst \<le> b \<and> b < ofst + n then t else held k pid b)"
    "rc = SQLITE_OK \<Longrightarrow> q \<noteq> pid \<Longrightarrow> ofst \<le> b \<Longrightarrow> b < ofst + n \<Longrightarrow> \<not> conflicts t (held k q b)"
proof -
  obtain ok k1 where l: "osSetPosixAdvisoryLock E pid t ofst n k = (ok, k1)" by (cases "osSetPosixAdvisoryLock E pid t ofst n k")
  then have r: "k' = k1" "rc = (if ok then SQLITE_OK else SQLITE_BUSY)" using assms(1,3) by (auto simp: unixShmSystemLock_def)
  have law: "if ok then
        (\<forall>q b. q \<noteq> pid \<and> ofst \<le> b \<and> b < ofst + n \<longrightarrow> \<not> conflicts t (held k q b)) \<and>
        (\<forall>q b. held k' q b = (if q = pid \<and> ofst \<le> b \<and> b < ofst + n then t else held k q b))
      else held k' = held k"
    using assms(2) l r(1) unfolding lock_law_def by blast
  show "by_pid pid (held k) (held k')" using law by_pid_set by (cases ok) auto
  show "rc = SQLITE_OK \<or> rc = SQLITE_BUSY" using r by auto
  show "held k' pid b = (if rc = SQLITE_OK \<and> ofst \<le> b \<and> b < ofst + n then t else held k pid b)"
    using law r(2) by (cases ok) auto
  show "rc = SQLITE_OK \<Longrightarrow> q \<noteq> pid \<Longrightarrow> ofst \<le> b \<Longrightarrow> b < ofst + n \<Longrightarrow> \<not> conflicts t (held k q b)"
    using law r(2) by (cases ok) auto
qed

section \<open>Taking and dropping locks\<close>

text \<open>What the callers have to respect, asserted by the code.\<close>

definition lock_request :: "unixShm \<Rightarrow> nat \<Rightarrow> nat \<Rightarrow> shm_op \<Rightarrow> bool" where
  "lock_request p ofst n flags \<longleftrightarrow> 1 \<le> n \<and> ofst + n \<le> SQLITE_SHM_NLOCK \<and>
     (let m = lock_mask ofst n; held = (exclMask p OR sharedMask p) AND m \<noteq> 0 in
      case flags of
        ShmLockShared \<Rightarrow> n = 1
      | ShmLockExclusive \<Rightarrow> sharedMask p AND m = 0 \<and> exclMask p AND m = 0
      | ShmUnlockShared \<Rightarrow> n = 1 \<and> (held \<longrightarrow> sharedMask p AND m = m)
      | ShmUnlockExclusive \<Rightarrow> held \<longrightarrow> exclMask p AND m = m)"

definition lock_post :: "('k \<Rightarrow> nat \<Rightarrow> nat \<Rightarrow> lock_type) \<Rightarrow> nat \<Rightarrow> unixShmNode \<Rightarrow> 'k \<Rightarrow> unixShmNode \<Rightarrow> 'k \<Rightarrow> bool" where
  "lock_post held pid nd k nd' k' \<longleftrightarrow> node_ok nd' \<and> kern_ok held pid nd' k' \<and> by_pid pid (held k) (held k') \<and>
     held k' pid UNIX_SHM_DMS = held k pid UNIX_SHM_DMS \<and> (\<exists>a L. nd' = nd\<lparr>aLock := a, pFirst := L\<rparr>) \<and>
     map fst (pFirst nd') = map fst (pFirst nd)"

lemma lock_post_same:
  assumes "node_ok nd" "kern_ok held pid nd k" "held k' pid = held k pid" "by_pid pid (held k) (held k')"
  shows "lock_post held pid nd k nd k'"
proof -
  have "\<exists>a L. nd = nd\<lparr>aLock := a, pFirst := L\<rparr>" by (intro exI [of _ "aLock nd"] exI [of _ "pFirst nd"]) simp
  then show ?thesis using assms by (simp add: lock_post_def kern_ok_def)
qed

lemma lock_post_set:
  assumes "node_ok nd" "map_of (pFirst nd) c = Some p" "masks_ok p'" "length a = SQLITE_SHM_NLOCK"
    "\<And>i. i < SQLITE_SHM_NLOCK \<Longrightarrow> slot_ok ((map_of (pFirst nd))(c \<mapsto> p')) i (a ! i)"
    "\<And>i. i < SQLITE_SHM_NLOCK \<Longrightarrow> held k' pid (i + UNIX_SHM_BASE) = lock_of (a ! i)"
    "by_pid pid (held k) (held k')" "held k' pid UNIX_SHM_DMS = held k pid UNIX_SHM_DMS"
  shows "lock_post held pid nd k (nd\<lparr>aLock := a, pFirst := set_conn c p' (pFirst nd)\<rparr>) k'"
  using node_ok_upd [OF assms(1-5)] assms(6-8) unfolding lock_post_def kern_ok_def by auto

lemma kern_slot: "kern_ok held pid nd k \<Longrightarrow> i < SQLITE_SHM_NLOCK \<Longrightarrow> held k pid (i + UNIX_SHM_BASE) = lock_of (aLock nd ! i)"
  by (simp add: kern_ok_def)

lemma node_length: "node_ok nd \<Longrightarrow> length (aLock nd) = SQLITE_SHM_NLOCK"
  by (simp add: node_ok_def)

text \<open>The masks after an operation.\<close>

lemma bit_or_mask: "ofst + n \<le> SQLITE_SHM_NLOCK \<Longrightarrow> bit (m OR lock_mask ofst n) i \<longleftrightarrow> bit m i \<or> ofst \<le> i \<and> i < ofst + n" for m :: u16
  by (simp add: bit_or_iff bit_lock_mask)

lemma bit_drop_mask: "ofst + n \<le> SQLITE_SHM_NLOCK \<Longrightarrow> bit (m AND NOT (lock_mask ofst n)) i \<longleftrightarrow> bit m i \<and> \<not> (ofst \<le> i \<and> i < ofst + n)" for m :: u16
  using bit_imp_le_length [of m i] by (auto simp: bit_and_iff bit_not_iff bit_lock_mask)

lemma full_mask: "m AND lock_mask ofst n = lock_mask ofst n \<Longrightarrow> ofst + n \<le> SQLITE_SHM_NLOCK \<Longrightarrow> ofst \<le> i \<Longrightarrow> i < ofst + n \<Longrightarrow> bit m i" for m :: u16
  using bit_and_iff [of m "lock_mask ofst n" i] bit_lock_mask [of ofst n i] by simp

lemma shm_shared_post:
  assumes "shm_shared E pid nd c p ofst 1 k = (rc, nd', k')" "lock_law E held" "hShm nd \<ge> 0"
    "node_ok nd" "kern_ok held pid nd k" "map_of (pFirst nd) c = Some p" "ofst < SQLITE_SHM_NLOCK" "sharedMask p AND lock_mask ofst 1 = 0"
  shows "lock_post held pid nd k nd' k'"
proof -
  let ?u = "aLock nd ! ofst" and ?p = "p\<lparr>sharedMask := sharedMask p OR lock_mask ofst 1\<rparr>"
  define r where "r = (if ?u < 0 then (SQLITE_BUSY, k) else if ?u = 0 then unixShmSystemLock E pid nd F_RDLCK (ofst + UNIX_SHM_BASE) 1 k else (SQLITE_OK, k))"
  have k': "k' = snd r" and rc: "rc = fst r" and nd': "nd' = (if rc = SQLITE_OK then nd\<lparr>aLock := (aLock nd)[ofst := ?u + 1], pFirst := set_conn c ?p (pFirst nd)\<rparr> else nd)"
    using assms(1) unfolding shm_shared_def r_def by (auto split: prod.splits if_splits)
  have sys: "by_pid pid (held k) (held k')" "\<And>b. held k' pid b = (if rc = SQLITE_OK \<and> b = ofst + UNIX_SHM_BASE then F_RDLCK else held k pid b)"
  proof -
    have "by_pid pid (held k) (held k') \<and> (\<forall>b. held k' pid b = (if rc = SQLITE_OK \<and> b = ofst + UNIX_SHM_BASE then F_RDLCK else held k pid b))"
    proof (cases "?u = 0")
      case True
      then have "unixShmSystemLock E pid nd F_RDLCK (ofst + UNIX_SHM_BASE) 1 k = (rc, k')" using k' rc by (simp add: r_def)
      from system_lock [OF this assms(2,3)] show ?thesis by (auto simp: less_Suc_eq_le)
    next
      case False
      then show ?thesis using k' rc kern_slot [OF assms(5,7)] by (auto simp: r_def lock_of_def split: if_splits)
    qed
    then show "by_pid pid (held k) (held k')" "\<And>b. held k' pid b = (if rc = SQLITE_OK \<and> b = ofst + UNIX_SHM_BASE then F_RDLCK else held k pid b)" by auto
  qed
  show ?thesis
  proof (cases "rc = SQLITE_OK")
    case False
    then show ?thesis using nd' lock_post_same [OF assms(4,5) _ sys(1)] sys(2) by (simp add: fun_eq_iff)
  next
    case True
    have u: "?u \<ge> 0" using True rc by (auto simp: r_def split: if_splits)
    have b: "bit (sharedMask ?p) i \<longleftrightarrow> bit (sharedMask p) i \<or> i = ofst" for i
      using bit_or_mask [of ofst 1] assms(7) by auto
    have ns: "\<not> bit (sharedMask p) ofst" using mask_disjoint [OF assms(8)] assms(7) by simp
    have ne: "\<not> bit (exclMask p) ofst"
      using node_slot [OF assms(4,7)] u on_mem(1) [of "map_of (pFirst nd)", OF assms(6)] by (auto simp: slot_ok_def)
    have "slot_ok ((map_of (pFirst nd))(c \<mapsto> ?p)) i ((aLock nd)[ofst := ?u + 1] ! i)" if i: "i < 8" for i
    proof (cases "i = ofst")
      case True
      then show ?thesis using slot_take_shared [OF node_slot [OF assms(4,7)] assms(6) u ns finite_on(2), of ?p] b ne node_length [OF assms(4)] i by simp
    next
      case False
      then show ?thesis using slot_same [OF node_slot [OF assms(4) i] assms(6), of ?p] b by simp
    qed
    moreover have "masks_ok ?p" using node_masks [OF assms(4,6)] b ne by (auto simp: masks_ok_def)
    moreover have "held k' pid (i + UNIX_SHM_BASE) = lock_of ((aLock nd)[ofst := ?u + 1] ! i)" if "i < 8" for i
      using sys(2) True kern_slot [OF assms(5) that] u node_length [OF assms(4)] that by (cases "i = ofst") (auto simp: lock_of_def)
    ultimately show ?thesis using lock_post_set [OF assms(4,6) _ _ _ _ sys(1)] sys(2) True nd' node_length [OF assms(4)] assms(7) by simp
  qed
qed

lemma shm_exclusive_post:
  assumes "shm_exclusive E pid nd c p ofst n k = (rc, nd', k')" "lock_law E held" "hShm nd \<ge> 0"
    "node_ok nd" "kern_ok held pid nd k" "map_of (pFirst nd) c = Some p" "ofst + n \<le> SQLITE_SHM_NLOCK"
    "sharedMask p AND lock_mask ofst n = 0"
  shows "lock_post held pid nd k nd' k'"
proof (cases "\<exists>i. ofst \<le> i \<and> i < ofst + n \<and> aLock nd ! i \<noteq> 0")
  case True
  then have "list_ex (\<lambda>ii. aLock nd ! ii \<noteq> 0) [ofst..<ofst + n]" by (auto simp: list_ex_iff)
  then have "nd' = nd" "k' = k" using assms(1) by (auto simp: shm_exclusive_def)
  then show ?thesis using lock_post_same [OF assms(4,5)] by simp
next
  case False
  let ?a = "set_range ofst n (- 1) (aLock nd)" and ?p = "p\<lparr>exclMask := exclMask p OR lock_mask ofst n\<rparr>"
  have l: "unixShmSystemLock E pid nd F_WRLCK (ofst + UNIX_SHM_BASE) n k = (rc, k')"
    and nd': "nd' = (if rc = SQLITE_OK then nd\<lparr>aLock := ?a, pFirst := set_conn c ?p (pFirst nd)\<rparr> else nd)"
    using False assms(1) by (auto simp: shm_exclusive_def list_ex_iff split: prod.splits if_splits)
  note sys = system_lock [OF l assms(2,3)]
  show ?thesis
  proof (cases "rc = SQLITE_OK")
    case False
    then show ?thesis using nd' lock_post_same [OF assms(4,5) _ sys(1)] sys(3) by (simp add: fun_eq_iff)
  next
    case True
    note ns = mask_disjoint [OF assms(8)]
    have a: "?a ! i = (if ofst \<le> i \<and> i < ofst + n then - 1 else aLock nd ! i)" if "i < 8" for i
      using nth_set_range node_length [OF assms(4)] that by simp
    have "slot_ok ((map_of (pFirst nd))(c \<mapsto> ?p)) i (?a ! i)" if i: "i < 8" for i
    proof (cases "ofst \<le> i \<and> i < ofst + n")
      case True
      then have "slot_ok (map_of (pFirst nd)) i 0" using node_slot [OF assms(4) i] False by simp
      from slot_take_excl [OF this assms(6) finite_on(2), of ?p] show ?thesis
        using True ns assms(7) a [OF i] by (simp add: bit_or_mask)
    next
      case False
      then show ?thesis using slot_same [OF node_slot [OF assms(4) i] assms(6), of ?p] a [OF i] assms(7) by (auto simp: bit_or_mask)
    qed
    moreover have "masks_ok ?p" using node_masks [OF assms(4,6)] ns assms(7) by (auto simp: masks_ok_def bit_or_mask)
    moreover have "held k' pid (i + UNIX_SHM_BASE) = lock_of (?a ! i)" if "i < 8" for i
      using sys(3) True kern_slot [OF assms(5) that] a [OF that] by (simp add: lock_of_def)
    ultimately show ?thesis using lock_post_set [OF assms(4,6) _ _ _ _ sys(1)] sys(3) True nd' node_length [OF assms(4)] assms(7) by simp
  qed
qed

text \<open>Dropping a range that is held, as one lock or as part of a shared one.\<close>

lemma shm_unlock_last:
  assumes "unixShmSystemLock E pid nd F_UNLCK (ofst + UNIX_SHM_BASE) n k = (rc, k')" "lock_law E held" "hShm nd \<ge> 0"
    "node_ok nd" "kern_ok held pid nd k" "map_of (pFirst nd) c = Some p" "ofst + n \<le> SQLITE_SHM_NLOCK"
    "\<And>i. ofst \<le> i \<Longrightarrow> i < ofst + n \<Longrightarrow> bit (exclMask p) i \<or> bit (sharedMask p) i \<and> aLock nd ! i \<le> 1"
    "p' = p\<lparr>sharedMask := sharedMask p AND NOT (lock_mask ofst n), exclMask := exclMask p AND NOT (lock_mask ofst n)\<rparr>"
    "nd' = (if rc = SQLITE_OK then nd\<lparr>aLock := set_range ofst n 0 (aLock nd), pFirst := set_conn c p' (pFirst nd)\<rparr> else nd)"
  shows "lock_post held pid nd k nd' k'"
proof (cases "rc = SQLITE_OK")
  case False
  then show ?thesis using assms(10) lock_post_same [OF assms(4,5) _ system_lock(1) [OF assms(1-3)]] system_lock(3) [OF assms(1-3)]
    by (simp add: fun_eq_iff)
next
  case True
  note sys = system_lock [OF assms(1-3)]
  let ?a = "set_range ofst n 0 (aLock nd)"
  have a: "?a ! i = (if ofst \<le> i \<and> i < ofst + n then 0 else aLock nd ! i)" if "i < 8" for i
    using nth_set_range node_length [OF assms(4)] that by simp
  have b: "bit (sharedMask p') i \<longleftrightarrow> bit (sharedMask p) i \<and> \<not> (ofst \<le> i \<and> i < ofst + n)"
    "bit (exclMask p') i \<longleftrightarrow> bit (exclMask p) i \<and> \<not> (ofst \<le> i \<and> i < ofst + n)" for i
    using assms(7,9) by (simp_all add: bit_drop_mask)
  have "slot_ok ((map_of (pFirst nd))(c \<mapsto> p')) i (?a ! i)" if i: "i < 8" for i
  proof (cases "ofst \<le> i \<and> i < ofst + n")
    case r: True
    note ok = node_slot [OF assms(4) i]
    show ?thesis
    proof (cases "bit (exclMask p) i")
      case True
      then show ?thesis using slot_free_excl [OF ok assms(6), of p'] b r a [OF i] by simp
    next
      case False
      then have s: "bit (sharedMask p) i" "aLock nd ! i \<le> 1" using assms(8) r by auto
      then have "c \<in> shared_on (map_of (pFirst nd)) i" using on_mem(2) [of "map_of (pFirst nd)", OF assms(6)] by simp
      then have "card (shared_on (map_of (pFirst nd)) i) \<noteq> 0" using finite_on(2) by auto
      then have "aLock nd ! i = 1" using ok s(2) \<open>c \<in> shared_on _ i\<close> by (auto simp: slot_ok_def)
      then show ?thesis using slot_release [OF ok assms(6) s(1) finite_on(2), of p'] b r a [OF i] by simp
    qed
  next
    case False
    then show ?thesis using slot_same [OF node_slot [OF assms(4) i] assms(6), of p'] a [OF i] b by auto
  qed
  moreover have "masks_ok p'" using node_masks [OF assms(4,6)] b by (auto simp: masks_ok_def)
  moreover have "held k' pid (i + UNIX_SHM_BASE) = lock_of (?a ! i)" if "i < 8" for i
    using sys(3) True kern_slot [OF assms(5) that] a [OF that] by (simp add: lock_of_def)
  ultimately show ?thesis using lock_post_set [OF assms(4,6) _ _ _ _ sys(1)] sys(3) True assms(7,10) node_length [OF assms(4)] by simp
qed

lemma shm_unlock_shared:
  assumes "lock_law E held" "node_ok nd" "kern_ok held pid nd k" "map_of (pFirst nd) c = Some p" "ofst < SQLITE_SHM_NLOCK"
    "bit (sharedMask p) ofst" "aLock nd ! ofst > 1" "p' = p\<lparr>sharedMask := sharedMask p AND NOT (lock_mask ofst 1)\<rparr>"
  shows "lock_post held pid nd k (nd\<lparr>aLock := (aLock nd)[ofst := aLock nd ! ofst - 1], pFirst := set_conn c p' (pFirst nd)\<rparr>) k"
proof -
  have b: "bit (sharedMask p') i \<longleftrightarrow> bit (sharedMask p) i \<and> i \<noteq> ofst" "exclMask p' = exclMask p" for i
    using assms(5,8) bit_drop_mask [of ofst 1] by auto
  have m: "masks_ok p'" "\<not> bit (exclMask p') ofst"
    using node_masks [OF assms(2,4)] assms(6) b by (auto simp: masks_ok_def)
  have "slot_ok ((map_of (pFirst nd))(c \<mapsto> p')) i ((aLock nd)[ofst := aLock nd ! ofst - 1] ! i)" if i: "i < 8" for i
  proof (cases "i = ofst")
    case True
    then show ?thesis using slot_release [OF node_slot [OF assms(2) i] assms(4) _ finite_on(2), of p'] assms(6) b m node_length [OF assms(2)] i by simp
  next
    case False
    then show ?thesis using slot_same [OF node_slot [OF assms(2) i] assms(4), of p'] b by simp
  qed
  moreover have "held k pid (i + UNIX_SHM_BASE) = lock_of ((aLock nd)[ofst := aLock nd ! ofst - 1] ! i)" if "i < 8" for i
    using kern_slot [OF assms(3) that] assms(7) node_length [OF assms(2)] that by (cases "i = ofst") (auto simp: lock_of_def)
  ultimately show ?thesis using lock_post_set [OF assms(2,4) m(1), of "(aLock nd)[ofst := aLock nd ! ofst - 1]" held k pid k] node_length [OF assms(2)] by simp
qed

lemma shm_unlock_post:
  assumes "shm_unlock E pid nd c p ofst n shared k = (rc, nd', k')" "lock_law E held" "hShm nd \<ge> 0"
    "node_ok nd" "kern_ok held pid nd k" "map_of (pFirst nd) c = Some p" "1 \<le> n" "ofst + n \<le> SQLITE_SHM_NLOCK"
    "if shared then n = 1 \<and> sharedMask p AND lock_mask ofst n = lock_mask ofst n else exclMask p AND lock_mask ofst n = lock_mask ofst n"
  shows "lock_post held pid nd k nd' k'"
proof (cases "shared \<and> aLock nd ! ofst > 1")
  case True
  then have "bit (sharedMask p) ofst" using full_mask [of "sharedMask p" ofst n ofst] assms(7-9) by auto
  moreover have "nd' = nd\<lparr>aLock := (aLock nd)[ofst := aLock nd ! ofst - 1],
      pFirst := set_conn c (p\<lparr>sharedMask := sharedMask p AND NOT (lock_mask ofst 1)\<rparr>) (pFirst nd)\<rparr>" "k' = k"
    using assms(1,9) True by (auto simp: shm_unlock_def)
  ultimately show ?thesis using shm_unlock_shared [OF assms(2,4-6)] True assms(7,8) by simp
next
  case False
  obtain rc1 k1 where l: "unixShmSystemLock E pid nd F_UNLCK (ofst + UNIX_SHM_BASE) n k = (rc1, k1)"
    by (cases "unixShmSystemLock E pid nd F_UNLCK (ofst + UNIX_SHM_BASE) n k")
  have "bit (exclMask p) i \<or> bit (sharedMask p) i \<and> aLock nd ! i \<le> 1" if "ofst \<le> i" "i < ofst + n" for i
  proof (cases shared)
    case True
    then have "n = 1" "sharedMask p AND lock_mask ofst n = lock_mask ofst n" using assms(9) by auto
    moreover from this(1) have "i = ofst" using that by linarith
    then have "aLock nd ! i \<le> 1" using False True by simp
    ultimately show ?thesis using full_mask [of "sharedMask p" ofst n i] that assms(8) by blast
  next
    case ns: False
    then show ?thesis using full_mask [of "exclMask p" ofst n i] that assms(8,9) by auto
  qed
  note post = shm_unlock_last [OF l assms(2-6,8) this refl]
  show ?thesis using post assms(1) l False by (auto simp: shm_unlock_def Let_def split: if_splits)
qed

text \<open>A lock or unlock request keeps the counters, the masks and the locks of the operating system in step.\<close>

lemma unixShmLock_post:
  assumes "unixShmLock E pid nd c ofst n flags k = (rc, nd', k')" "lock_law E held" "hShm nd \<ge> 0"
    "node_ok nd" "kern_ok held pid nd k" "\<And>p. map_of (pFirst nd) c = Some p \<Longrightarrow> lock_request p ofst n flags"
  shows "lock_post held pid nd k nd' k'"
proof (cases "map_of (pFirst nd) c")
  case None
  then show ?thesis using assms(1) lock_post_same [OF assms(4,5)] by (simp add: unixShmLock_def)
next
  case (Some p)
  have r: "lock_request p ofst n flags" by (rule assms(6) [OF Some])
  then have n: "1 \<le> n" "ofst + n \<le> 8" by (simp_all add: lock_request_def)
  note same = lock_post_same [OF assms(4,5), of k]
  show ?thesis
  proof (cases flags)
    case ShmLockShared
    then show ?thesis using assms(1) Some r n same shm_shared_post [OF _ assms(2-5) Some]
      by (auto simp: unixShmLock_def lock_request_def Let_def split: if_splits)
  next
    case ShmLockExclusive
    then show ?thesis using assms(1) Some r n shm_exclusive_post [OF _ assms(2-5) Some]
      by (simp add: unixShmLock_def lock_request_def Let_def)
  next
    case ShmUnlockShared
    then show ?thesis using assms(1) Some r n same shm_unlock_post [OF _ assms(2-5) Some]
      by (auto simp: unixShmLock_def lock_request_def Let_def split: if_splits)
  next
    case ShmUnlockExclusive
    then show ?thesis using assms(1) Some r n same shm_unlock_post [OF _ assms(2-5) Some]
      by (auto simp: unixShmLock_def lock_request_def Let_def split: if_splits)
  qed
qed

section \<open>Attaching and detaching\<close>

text \<open>An observation that only truncating or unlinking the \<^verbatim>\<open>-shm\<close> file can change, such as how often
  that happened.\<close>

definition truncation_only :: "'k os \<Rightarrow> ('k \<Rightarrow> 'a) \<Rightarrow> bool" where
  "truncation_only E f \<longleftrightarrow> plain_calls E f \<and> (\<forall>pid t ofst n k. f (snd (osSetPosixAdvisoryLock E pid t ofst n k)) = f k) \<and>
     (\<forall>pid k. f (robust_close E pid k) = f k) \<and> (\<forall>pid off k. f (snd (seekAndWriteFd E pid off k)) = f k)"

lemma posix_D:
  "posix_locks E held \<Longrightarrow> lock_law E held" "posix_locks E held \<Longrightarrow> getlk_law E held" "posix_locks E held \<Longrightarrow> plain_calls E held"
  "posix_locks E held \<Longrightarrow> held (robust_close E pid k) = (held k)(pid := \<lambda>_. F_UNLCK)"
  "posix_locks E held \<Longrightarrow> held (osUnlink E pid k) = held k"
  "posix_locks E held \<Longrightarrow> held (snd (robust_ftruncate E pid n k)) = held k"
  "posix_locks E held \<Longrightarrow> held (snd (seekAndWriteFd E pid off k)) = held k"
  by (simp_all add: posix_locks_def)

lemma plain_D:
  "plain_calls E f \<Longrightarrow> f (snd (sqlite3_malloc E pid k)) = f k"
  "plain_calls E f \<Longrightarrow> f (snd (osFstat E pid k)) = f k"
  "plain_calls E f \<Longrightarrow> f (snd (osFstatShm E pid k)) = f k"
  "plain_calls E f \<Longrightarrow> f (snd (robust_open E pid ro k)) = f k"
  "plain_calls E f \<Longrightarrow> f (robustFchown E pid k) = f k"
  "plain_calls E f \<Longrightarrow> f (snd (osMmap E pid ro n off k)) = f k"
  "plain_calls E f \<Longrightarrow> f (osMunmap E pid a k) = f k"
  "plain_calls E f \<Longrightarrow> f (sqlite3_free E pid a k) = f k"
  by (simp_all add: plain_calls_def)

lemma plain_E:
  "plain_calls E f \<Longrightarrow> sqlite3_malloc E pid k = (r, k') \<Longrightarrow> f k' = f k"
  "plain_calls E f \<Longrightarrow> osFstat E pid k = (b, k') \<Longrightarrow> f k' = f k"
  "plain_calls E f \<Longrightarrow> osFstatShm E pid k = (s, k') \<Longrightarrow> f k' = f k"
  "plain_calls E f \<Longrightarrow> robust_open E pid ro k = (h, k') \<Longrightarrow> f k' = f k"
  "plain_calls E f \<Longrightarrow> osMmap E pid ro n off k = (r, k') \<Longrightarrow> f k' = f k"
  using plain_D(1) [of E f pid k] plain_D(2) [of E f pid k] plain_D(3) [of E f pid k] plain_D(4) [of E f pid ro k]
    plain_D(6) [of E f pid ro n off k] by simp_all

lemma truncation_D:
  "truncation_only E f \<Longrightarrow> plain_calls E f"
  "truncation_only E f \<Longrightarrow> f (snd (osSetPosixAdvisoryLock E pid t ofst n k)) = f k"
  "truncation_only E f \<Longrightarrow> f (robust_close E pid k) = f k"
  "truncation_only E f \<Longrightarrow> f (snd (seekAndWriteFd E pid off k)) = f k"
  by (simp_all add: truncation_only_def)

lemma truncation_lock: "truncation_only E f \<Longrightarrow> unixShmSystemLock E pid nd t ofst n k = (rc, k') \<Longrightarrow> f k' = f k"
  using truncation_D(2) [of E f pid t ofst n k] by (auto simp: unixShmSystemLock_def split: prod.splits if_splits)

lemma unmap_fold:
  "plain_calls E f \<Longrightarrow> f (fold (\<lambda>i. osMunmap E pid (a i)) is k) = f k"
  "plain_calls E f \<Longrightarrow> f (fold (\<lambda>i. sqlite3_free E pid (a i)) is k) = f k"
  by (induction "is" arbitrary: k) (simp_all add: plain_D)

lemma unixShmPurge_last:
  assumes "unixShmPurge E pid p k = (r, k')" "nRef p = 0"
  shows "r = None" "posix_locks E held \<Longrightarrow> held k' = (if hShm p \<ge> 0 then (held k)(pid := \<lambda>_. F_UNLCK) else held k)"
    "truncation_only E f \<Longrightarrow> f k' = f k"
proof -
  define js where "js = filter (\<lambda>i. i mod unixShmRegionPerMap E = 0) [0..<length (apRegion p)]"
  have r: "r = None" "k' = (if hShm p \<ge> 0 then robust_close E pid (fold (\<lambda>i. osMunmap E pid (apRegion p ! i)) js k)
      else fold (\<lambda>i. sqlite3_free E pid (apRegion p ! i)) js k)"
    using assms by (auto simp: unixShmPurge_def Let_def js_def)
  show "r = None" by (rule r)
  show "held k' = (if hShm p \<ge> 0 then (held k)(pid := \<lambda>_. F_UNLCK) else held k)" if "posix_locks E held"
    using posix_D(4) [OF that] unmap_fold [OF posix_D(3) [OF that], of pid "\<lambda>i. apRegion p ! i"] unfolding r(2) by (auto split: if_splits)
  show "f k' = f k" if "truncation_only E f"
    using truncation_D(3) [OF that] unmap_fold [OF truncation_D(1) [OF that], of pid "\<lambda>i. apRegion p ! i"] unfolding r(2) by (auto split: if_splits)
qed

text \<open>The first part of \<^verbatim>\<open>unixLockSharedMemory\<close> decides what to do about the switch.\<close>

definition dms_probe :: "'k os \<Rightarrow> nat \<Rightarrow> unixShmNode \<Rightarrow> 'k \<Rightarrow> rc \<times> unixShmNode \<times> 'k" where
  "dms_probe E pid nd k =
     (case osGetlk E pid UNIX_SHM_DMS 1 k of
        None \<Rightarrow> (SQLITE_IOERR_LOCK, nd, k)
      | Some F_UNLCK \<Rightarrow>
          if isReadonly nd then (SQLITE_READONLY_CANTINIT, nd\<lparr>isUnlocked := True\<rparr>, k)
          else
            (case unixShmSystemLock E pid nd F_WRLCK UNIX_SHM_DMS 1 k of (rc, k) \<Rightarrow>
               if rc = SQLITE_OK then
                 (case robust_ftruncate E pid 3 k of (ok, k) \<Rightarrow> (if ok then SQLITE_OK else SQLITE_IOERR_SHMOPEN, nd, k))
               else (rc, nd, k))
      | Some F_WRLCK \<Rightarrow> (SQLITE_BUSY, nd, k)
      | Some F_RDLCK \<Rightarrow> (SQLITE_OK, nd, k))"

lemma unixLockSharedMemory_probe:
  "unixLockSharedMemory E pid nd k =
    (case dms_probe E pid nd k of (rc, nd, k) \<Rightarrow>
       if rc = SQLITE_OK then
         (case unixShmSystemLock E pid nd F_RDLCK UNIX_SHM_DMS 1 k of (rc, k) \<Rightarrow> (rc, nd, k))
       else (rc, nd, k))"
  by (simp add: unixLockSharedMemory_def dms_probe_def)

definition dms_post :: "('k \<Rightarrow> nat \<Rightarrow> nat \<Rightarrow> lock_type) \<Rightarrow> nat \<Rightarrow> unixShmNode \<Rightarrow> 'k \<Rightarrow> rc \<Rightarrow> unixShmNode \<Rightarrow> 'k \<Rightarrow> bool" where
  "dms_post held pid nd k rc nd' k' \<longleftrightarrow> by_pid pid (held k) (held k') \<and>
     (\<forall>b. b \<noteq> UNIX_SHM_DMS \<longrightarrow> held k' pid b = held k pid b) \<and>
     (isReadonly nd \<and> rc \<noteq> SQLITE_OK \<longrightarrow> held k' pid = held k pid) \<and>
     nd' = (if rc = SQLITE_READONLY_CANTINIT then nd\<lparr>isUnlocked := True\<rparr> else nd) \<and>
     (rc = SQLITE_READONLY_CANTINIT \<longrightarrow> isReadonly nd)"

lemma dms_probe_post:
  assumes "dms_probe E pid nd k = (rc, nd', k')" "posix_locks E held" "hShm nd \<ge> 0"
  shows "dms_post held pid nd k rc nd' k' \<and> (isReadonly nd \<longrightarrow> held k' = held k)"
    "truncation_only E f \<Longrightarrow> q \<noteq> pid \<Longrightarrow> held k q UNIX_SHM_DMS \<noteq> F_UNLCK \<Longrightarrow> f k' = f k"
proof -
  show "dms_post held pid nd k rc nd' k' \<and> (isReadonly nd \<longrightarrow> held k' = held k)"
  proof (cases "osGetlk E pid UNIX_SHM_DMS 1 k = Some F_UNLCK \<and> \<not> isReadonly nd")
    case False
    then show ?thesis using assms(1) by (auto simp: dms_probe_def dms_post_def split: option.splits lock_type.splits if_splits)
  next
    case True
    obtain rc1 k1 where l: "unixShmSystemLock E pid nd F_WRLCK UNIX_SHM_DMS 1 k = (rc1, k1)"
      by (cases "unixShmSystemLock E pid nd F_WRLCK UNIX_SHM_DMS 1 k")
    note sys = system_lock [OF l posix_D(1) [OF assms(2)] assms(3)]
    have "held k' = held k1 \<and> nd' = nd \<and> rc \<noteq> SQLITE_READONLY_CANTINIT"
      using assms(1) True l sys(2) posix_D(6) [OF assms(2), of pid 3 k1] by (auto simp: dms_probe_def split: if_splits prod.splits)
    then show ?thesis using sys(1,3) True by (auto simp: dms_post_def split: if_splits)
  qed
  assume f: "truncation_only E f" "q \<noteq> pid" "held k q UNIX_SHM_DMS \<noteq> F_UNLCK"
  then have "osGetlk E pid UNIX_SHM_DMS 1 k \<noteq> Some F_UNLCK" using posix_D(2) [OF assms(2)] unfolding getlk_law_def by fastforce
  then show "f k' = f k" using assms(1) by (auto simp: dms_probe_def split: option.splits lock_type.splits)
qed

lemma unixLockSharedMemory_post:
  assumes "unixLockSharedMemory E pid nd k = (rc, nd', k')" "posix_locks E held" "hShm nd \<ge> 0"
  shows "dms_post held pid nd k rc nd' k' \<and> (rc = SQLITE_OK \<longrightarrow> held k' pid UNIX_SHM_DMS = F_RDLCK)"
    "truncation_only E f \<Longrightarrow> q \<noteq> pid \<Longrightarrow> held k q UNIX_SHM_DMS \<noteq> F_UNLCK \<Longrightarrow> f k' = f k"
proof -
  obtain rc1 nd1 k1 where l: "dms_probe E pid nd k = (rc1, nd1, k1)" by (cases "dms_probe E pid nd k")
  note pr = dms_probe_post(1) [OF l assms(2,3)]
  have "(dms_post held pid nd k rc nd' k' \<and> (rc = SQLITE_OK \<longrightarrow> held k' pid UNIX_SHM_DMS = F_RDLCK)) \<and>
    (truncation_only E f \<longrightarrow> f k' = f k1)"
  proof (cases "rc1 = SQLITE_OK")
    case False
    then have "rc = rc1" "nd' = nd1" "k' = k1" using assms(1) l by (simp_all add: unixLockSharedMemory_probe)
    then show ?thesis using pr False by simp
  next
    case True
    then have nd1: "nd1 = nd" using pr by (simp add: dms_post_def)
    then have m: "unixShmSystemLock E pid nd F_RDLCK UNIX_SHM_DMS 1 k1 = (rc, k')" "nd' = nd"
      using assms(1) l True by (auto simp: unixLockSharedMemory_probe split: prod.splits)
    note sys = system_lock [OF m(1) posix_D(1) [OF assms(2)] assms(3)]
    have "by_pid pid (held k) (held k')" using pr by_pid_trans [OF _ sys(1)] by (auto simp: dms_post_def)
    moreover have "held k' pid b = held k pid b" if "b \<noteq> UNIX_SHM_DMS" for b using pr sys(3) [of b] that by (auto simp: dms_post_def)
    moreover have "held k' pid = held k pid" if "isReadonly nd" "rc \<noteq> SQLITE_OK" using pr sys(3) that by (auto simp: fun_eq_iff)
    ultimately show ?thesis using sys(2,3) m(2) truncation_lock [OF _ m(1), of f] by (auto simp: dms_post_def)
  qed
  moreover have "f k1 = f k" if "truncation_only E f" "q \<noteq> pid" "held k q UNIX_SHM_DMS \<noteq> F_UNLCK"
    by (rule dms_probe_post(2) [OF l assms(2,3) that])
  ultimately show "dms_post held pid nd k rc nd' k' \<and> (rc = SQLITE_OK \<longrightarrow> held k' pid UNIX_SHM_DMS = F_RDLCK)"
    "truncation_only E f \<Longrightarrow> q \<noteq> pid \<Longrightarrow> held k q UNIX_SHM_DMS \<noteq> F_UNLCK \<Longrightarrow> f k' = f k"
    by auto
qed

text \<open>What a process has when its node is right, with or without connections on it.\<close>

definition attach_ok :: "('k \<Rightarrow> nat \<Rightarrow> nat \<Rightarrow> lock_type) \<Rightarrow> nat \<Rightarrow> unixShmNode \<Rightarrow> 'k \<Rightarrow> bool" where
  "attach_ok held pid nd k \<longleftrightarrow> node_ok nd \<and> hShm nd \<ge> 0 \<and> nRef nd = int (length (pFirst nd)) \<and> kern_ok held pid nd k \<and>
     (isUnlocked nd \<longrightarrow> isReadonly nd) \<and> (\<not> isUnlocked nd \<longrightarrow> held k pid UNIX_SHM_DMS = F_RDLCK)"

definition proc_ok :: "('k \<Rightarrow> nat \<Rightarrow> nat \<Rightarrow> lock_type) \<Rightarrow> nat \<Rightarrow> unixShmNode option \<Rightarrow> 'k \<Rightarrow> bool" where
  "proc_ok held pid r k \<longleftrightarrow>
     (case r of None \<Rightarrow> held k pid = (\<lambda>_. F_UNLCK) | Some nd \<Rightarrow> attach_ok held pid nd k \<and> pFirst nd \<noteq> [])"

lemma open_shm_file_keeps:
  assumes "plain_calls E f" "open_shm_file E ro pid k = (h, ro', k')"
  shows "f k' = f k"
  using assms(2) by (auto simp: open_shm_file_def dest!: plain_E(4) [OF assms(1)] split: prod.splits if_splits)

lemma node_ok_fresh: "pFirst nd = [] \<Longrightarrow> aLock nd = replicate SQLITE_SHM_NLOCK 0 \<Longrightarrow> node_ok nd"
  by (simp add: node_ok_def slot_ok_def excl_on_def shared_on_def)

lemma fresh_node_attached:
  assumes "unixLockSharedMemory E pid nd k = (rc, nd', k')" "posix_locks E held" "held k pid = (\<lambda>_. F_UNLCK)"
    "hShm nd \<ge> 0" "pFirst nd = []" "aLock nd = replicate SQLITE_SHM_NLOCK 0" "nRef nd = 0" "\<not> isUnlocked nd"
  shows "nRef nd' = 0" "hShm nd' \<ge> 0" "pFirst nd' = []" "rc = SQLITE_OK \<or> rc = SQLITE_READONLY_CANTINIT \<Longrightarrow> attach_ok held pid nd' k'"
proof -
  note pst = unixLockSharedMemory_post(1) [OF assms(1,2,4)]
  then have nd': "nd' = (if rc = SQLITE_READONLY_CANTINIT then nd\<lparr>isUnlocked := True\<rparr> else nd)" by (simp add: dms_post_def)
  then show "nRef nd' = 0" "hShm nd' \<ge> 0" "pFirst nd' = []" using assms(4,5,7) by auto
  have "kern_ok held pid nd' k'" using pst nd' assms(3,6) by (auto simp: kern_ok_def dms_post_def lock_of_def)
  moreover have "node_ok nd'" using node_ok_fresh nd' assms(5,6) by auto
  ultimately show "attach_ok held pid nd' k'" if "rc = SQLITE_OK \<or> rc = SQLITE_READONLY_CANTINIT"
    using that pst nd' assms(4,5,7,8) by (auto simp: attach_ok_def dms_post_def)
qed

lemma new_shm_node_post:
  assumes "new_shm_node E False ro pid k = (rc, r, k')" "posix_locks E held" "held k pid = (\<lambda>_. F_UNLCK)"
  shows "by_pid pid (held k) (held k')"
    "case r of None \<Rightarrow> held k' pid = (\<lambda>_. F_UNLCK) | Some nd \<Rightarrow> attach_ok held pid nd k' \<and> pFirst nd = []"
    "truncation_only E f \<Longrightarrow> q \<noteq> pid \<Longrightarrow> held k q UNIX_SHM_DMS \<noteq> F_UNLCK \<Longrightarrow> f k' = f k"
proof -
  let ?nd = "\<lparr>hShm = - 1, szRegion = 0, apRegion = [], isReadonly = False, isUnlocked = False, nRef = 0, pFirst = [], aLock = replicate 8 0\<rparr>"
  obtain ok k1 where k1: "osFstat E pid k = (ok, k1)" by (cases "osFstat E pid k")
  obtain p1 k2 where k2: "sqlite3_malloc E pid k1 = (p1, k2)" by (cases "sqlite3_malloc E pid k1")
  obtain p2 k3 where k3: "sqlite3_malloc E pid k2 = (p2, k3)" by (cases "sqlite3_malloc E pid k2")
  obtain h ro' k4 where k4: "open_shm_file E ro pid k3 = (h, ro', k4)" by (cases "open_shm_file E ro pid k3")
  let ?nd1 = "?nd\<lparr>hShm := h, isReadonly := ro'\<rparr>"
  obtain rc1 nd1 k5 where k5: "unixLockSharedMemory E pid ?nd1 (robustFchown E pid k4) = (rc1, nd1, k5)"
    by (cases "unixLockSharedMemory E pid ?nd1 (robustFchown E pid k4)")
  have keep: "g k1 = g k" "g k2 = g k" "g k3 = g k" "g (robustFchown E pid k4) = g k" "g k4 = g k" if "plain_calls E g" for g :: "'a \<Rightarrow> 'z"
    using plain_E(2) [OF that k1] plain_E(1) [OF that k2] plain_E(1) [OF that k3] open_shm_file_keeps [OF that k4] plain_D(5) [OF that] by auto
  note kh = keep [OF posix_D(3) [OF assms(2)]]
  consider (early) "r = None" "k' \<in> {k1, k2, k3, k4}"
    | (failed) "h \<ge> 0" "rc1 \<noteq> SQLITE_OK" "rc1 \<noteq> SQLITE_READONLY_CANTINIT" "unixShmPurge E pid nd1 k5 = (r, k')"
    | (opened) "h \<ge> 0" "rc1 = SQLITE_OK \<or> rc1 = SQLITE_READONLY_CANTINIT" "r = Some nd1" "k' = k5"
    using assms(1) k1 k2 k3 k4 k5 unfolding new_shm_node_def
    by (auto simp: unixShmPurge_def [of E pid ?nd] Let_def split: if_splits prod.splits)
  note cases = this
  have lock: "by_pid pid (held k) (held k5)" "nRef nd1 = 0" "hShm nd1 \<ge> 0" "pFirst nd1 = []"
    "rc1 = SQLITE_OK \<or> rc1 = SQLITE_READONLY_CANTINIT \<Longrightarrow> attach_ok held pid nd1 k5"
    "truncation_only E f \<Longrightarrow> q \<noteq> pid \<Longrightarrow> held k q UNIX_SHM_DMS \<noteq> F_UNLCK \<Longrightarrow> f k5 = f k" if h: "h \<ge> 0"
  proof -
    have l: "hShm ?nd1 \<ge> 0" "held (robustFchown E pid k4) pid = (\<lambda>_. F_UNLCK)" using h assms(3) kh by auto
    show "by_pid pid (held k) (held k5)" using unixLockSharedMemory_post(1) [OF k5 assms(2) l(1)] kh by (simp add: dms_post_def)
    show "nRef nd1 = 0" "hShm nd1 \<ge> 0" "pFirst nd1 = []"
      "rc1 = SQLITE_OK \<or> rc1 = SQLITE_READONLY_CANTINIT \<Longrightarrow> attach_ok held pid nd1 k5"
      using fresh_node_attached [OF k5 assms(2) l(2,1)] by auto
    show "f k5 = f k" if "truncation_only E f" "q \<noteq> pid" "held k q UNIX_SHM_DMS \<noteq> F_UNLCK"
      using unixLockSharedMemory_post(2) [OF k5 assms(2) l(1) that(1,2)] that(3) kh keep(4) [OF truncation_D(1) [OF that(1)]] by simp
  qed
  from cases show "by_pid pid (held k) (held k')"
  proof cases
    case failed
    then show ?thesis using lock(1-3) unixShmPurge_last(2) [OF failed(4) _ assms(2)] by_pid_trans [OF _ by_pid_drop] by auto
  qed (use kh lock in auto)
  from cases show "case r of None \<Rightarrow> held k' pid = (\<lambda>_. F_UNLCK) | Some nd \<Rightarrow> attach_ok held pid nd k' \<and> pFirst nd = []"
  proof cases
    case failed
    then show ?thesis using lock(1-3) unixShmPurge_last(2) [OF failed(4) _ assms(2)] unixShmPurge_last(1) [OF failed(4)] by simp
  qed (use kh lock assms(3) in auto)
  assume f: "truncation_only E f" "q \<noteq> pid" "held k q UNIX_SHM_DMS \<noteq> F_UNLCK"
  from cases show "f k' = f k"
  proof cases
    case failed
    then show ?thesis using lock(2,6) f unixShmPurge_last(3) [OF failed(4) _ f(1)] by simp
  qed (use keep [OF truncation_D(1) [OF f(1)]] lock(6) f in auto)
qed

lemma node_ok_link:
  assumes "node_ok nd" "map_of (pFirst nd) c = None" "pFirst nd' = (c, \<lparr>sharedMask = 0, exclMask = 0\<rparr>) # pFirst nd" "aLock nd' = aLock nd"
  shows "node_ok nd'"
proof -
  have c: "c \<notin> fst ` set (pFirst nd)" using assms(2) by (simp add: map_of_eq_None_iff)
  have "slot_ok (map_of (pFirst nd')) i (aLock nd ! i)" if "i < 8" for i
    using node_slot [OF assms(1) that] unfolding slot_ok_def assms(3) on_Cons [OF c] by simp
  moreover have "masks_ok \<lparr>sharedMask = 0, exclMask = 0\<rparr>" by (simp add: masks_ok_def)
  ultimately show ?thesis using assms(1) c unfolding node_ok_def assms(4) by (simp add: assms(3))
qed

lemma unixOpenSharedMemory_post:
  assumes "unixOpenSharedMemory E False ro pid c r k = (rc, r', k')" "posix_locks E held" "proc_ok held pid r k"
    "\<And>nd. r = Some nd \<Longrightarrow> map_of (pFirst nd) c = None"
  shows "proc_ok held pid r' k'" "by_pid pid (held k) (held k')"
    "truncation_only E f \<Longrightarrow> q \<noteq> pid \<Longrightarrow> held k q UNIX_SHM_DMS \<noteq> F_UNLCK \<Longrightarrow> f k' = f k"
proof -
  let ?link = "\<lambda>nd. nd\<lparr>nRef := nRef nd + 1, pFirst := (c, \<lparr>sharedMask = 0, exclMask = 0\<rparr>) # pFirst nd\<rparr>"
  obtain p1 k1 where k1: "sqlite3_malloc E pid k = (p1, k1)" by (cases "sqlite3_malloc E pid k")
  have h1: "held k1 = held k" by (rule plain_E(1) [OF posix_D(3) [OF assms(2)] k1])
  have link: "proc_ok held pid (Some (?link nd)) j" if "attach_ok held pid nd j" "map_of (pFirst nd) c = None" for nd j
    using node_ok_link [of nd c "?link nd"] that by (simp add: proc_ok_def attach_ok_def kern_ok_def)
  consider (nomem) "r' = r" "k' = k1" | (new) r1 rc1 where "r = None" "new_shm_node E False ro pid k1 = (rc1, r1, k')" "r' = map_option ?link r1"
    | (old) nd where "r = Some nd" "r' = Some (?link nd)" "k' = k1"
    using assms(1) k1 unfolding unixOpenSharedMemory_def by (auto split: if_splits option.splits prod.splits)
  note cases = this
  have fresh: "by_pid pid (held k) (held k')" "case r1 of None \<Rightarrow> held k' pid = (\<lambda>_. F_UNLCK) | Some nd \<Rightarrow> attach_ok held pid nd k' \<and> pFirst nd = []"
    "truncation_only E f \<Longrightarrow> q \<noteq> pid \<Longrightarrow> held k q UNIX_SHM_DMS \<noteq> F_UNLCK \<Longrightarrow> f k' = f k1" if "new_shm_node E False ro pid k1 = (rc1, r1, k')" "r = None" for rc1 r1
    using new_shm_node_post [OF that(1) assms(2)] assms(3) that(2) h1 by (simp_all add: proc_ok_def)
  from cases show "proc_ok held pid r' k'"
  proof cases
    case (new r1 rc1)
    have "case r1 of None \<Rightarrow> held k' pid = (\<lambda>_. F_UNLCK) | Some nd \<Rightarrow> attach_ok held pid nd k' \<and> pFirst nd = []"
      by (rule fresh(2) [OF new(2,1)])
    then show ?thesis using link [of "the r1" k'] new(3) by (cases r1) (auto simp: proc_ok_def)
  qed (use link assms(3,4) h1 in \<open>auto simp: proc_ok_def attach_ok_def kern_ok_def split: option.splits\<close>)
  from cases show "by_pid pid (held k) (held k')" by cases (use h1 fresh(1) in auto)
  assume f: "truncation_only E f" "q \<noteq> pid" "held k q UNIX_SHM_DMS \<noteq> F_UNLCK"
  have "f k1 = f k" by (rule plain_E(1) [OF truncation_D(1) [OF f(1)] k1])
  with cases show "f k' = f k" by cases (use fresh(3) f in auto)
qed

text \<open>Mapping regions concerns no locks.\<close>

definition region_post :: "unixShmNode \<Rightarrow> unixShmNode \<Rightarrow> bool" where
  "region_post nd nd' \<longleftrightarrow> (\<exists>ap. apRegion nd' = apRegion nd @ ap) \<and> hShm nd' = hShm nd \<and> isReadonly nd' = isReadonly nd \<and>
     isUnlocked nd' = isUnlocked nd \<and> nRef nd' = nRef nd \<and> pFirst nd' = pFirst nd \<and> aLock nd' = aLock nd"

lemma region_post_refl [simp]: "region_post nd nd"
  by (simp add: region_post_def)

lemma region_post_trans: "region_post nd nd1 \<Longrightarrow> region_post nd1 nd2 \<Longrightarrow> region_post nd nd2"
  unfolding region_post_def by auto

lemma map_region_post:
  assumes "map_region E pid nd k = (rc, nd', k')"
  shows "region_post nd nd'" "plain_calls E f \<Longrightarrow> f k' = f k"
proof -
  show "region_post nd nd'"
    using assms by (auto simp: map_region_def region_post_def Let_def split: prod.splits option.splits if_splits)
  show "f k' = f k" if "plain_calls E f"
    using assms by (auto simp: map_region_def Let_def split: prod.splits option.splits if_splits dest!: plain_E(1) [OF that] plain_E(5) [OF that])
qed

lemma map_regions_rc: "map_regions E pid n nd k = (rc, nd', k') \<Longrightarrow> rc \<noteq> SQLITE_READONLY"
proof (induction E pid n nd k arbitrary: rc nd' k' rule: map_regions.induct)
  case (1 E pid n nd k)
  obtain rc1 nd1 k1 where m: "map_region E pid nd k = (rc1, nd1, k1)" by (cases "map_region E pid nd k")
  then have "rc1 \<noteq> SQLITE_READONLY" by (auto simp: map_region_def Let_def split: prod.splits option.splits if_splits)
  moreover have "map_regions E pid n nd k = (if length (apRegion nd) < n then if rc1 \<noteq> SQLITE_OK then (rc1, nd1, k1) else map_regions E pid n nd1 k1 else (SQLITE_OK, nd, k))"
    using m by (subst map_regions.simps) simp
  ultimately show ?case using 1(2) 1(1) [OF _ m [symmetric] refl refl] by (auto dest: sym split: if_splits)
qed

lemma extend_shm_rc: "extend_shm E pid is k = (rc, k') \<Longrightarrow> rc = SQLITE_OK \<or> rc = SQLITE_IOERR_SHMSIZE"
  by (induction "is" arbitrary: k) (auto split: prod.splits if_splits)

lemma map_regions_post:
  "map_regions E pid n nd k = (rc, nd', k') \<Longrightarrow>
   region_post nd nd' \<and> (plain_calls E f \<longrightarrow> f k' = f k) \<and> (rc = SQLITE_OK \<longrightarrow> n \<le> length (apRegion nd'))"
proof (induction E pid n nd k arbitrary: rc nd' k' rule: map_regions.induct)
  case (1 E pid n nd k)
  obtain rc1 nd1 k1 where m: "map_region E pid nd k = (rc1, nd1, k1)" by (cases "map_region E pid nd k")
  note one = map_region_post(1) [OF m] map_region_post(2) [OF m, of f]
  show ?case
  proof (cases "length (apRegion nd) < n \<and> rc1 = SQLITE_OK")
    case True
    then have "map_regions E pid n nd1 k1 = (rc, nd', k')" using 1(2) m by (subst (asm) map_regions.simps) simp
    from 1(1) [OF _ m [symmetric] refl refl _ this] True one show ?thesis using region_post_trans by auto
  next
    case False
    then show ?thesis using 1(2) m one by (subst (asm) map_regions.simps) (auto split: if_splits)
  qed
qed

lemma extend_shm_keeps:
  assumes "\<And>off k. f (snd (seekAndWriteFd E pid off k)) = f k"
  shows "f (snd (extend_shm E pid is k)) = f k"
proof (induction "is" arbitrary: k)
  case (Cons i "is")
  show ?case using Cons assms [of "i * 4096 + 4096 - 1" k] by (auto split: prod.splits)
qed simp

lemma map_upto_post:
  assumes "map_upto E pid n sz ext nd k = (rc, nd', k')"
  shows "region_post nd nd'" "plain_calls E f \<Longrightarrow> (\<And>off k. f (snd (seekAndWriteFd E pid off k)) = f k) \<Longrightarrow> f k' = f k"
    "rc = SQLITE_OK \<Longrightarrow> ext \<or> hShm nd < 0 \<Longrightarrow> n \<le> length (apRegion nd')"
proof -
  let ?nd = "nd\<lparr>szRegion := sz\<rparr>"
  have al: "region_post nd nd1 \<and> (plain_calls E f \<longrightarrow> f k2 = f k1) \<and> (rc1 = SQLITE_OK \<longrightarrow> n \<le> length (apRegion nd1))"
    if "map_alloc E pid n ?nd k1 = (rc1, nd1, k2)" for k1 rc1 nd1 k2
  proof -
    obtain p k3 where m: "sqlite3_malloc E pid k1 = (p, k3)" by (cases "sqlite3_malloc E pid k1")
    have "region_post nd nd1" if "region_post ?nd nd1" for nd1 using that by (simp add: region_post_def)
    then show ?thesis
      using that m plain_E(1) [OF _ m, of f] map_regions_post [of E pid n ?nd k3 rc1 nd1 k2 f] by (auto simp: map_alloc_def split: if_splits)
  qed
  obtain st k1 where k1: "osFstatShm E pid k = (st, k1)" by (cases "osFstatShm E pid k")
  obtain rc2 k2 where k2: "extend_shm E pid [the st div 4096..<n * sz div 4096] k1 = (rc2, k2)"
    by (cases "extend_shm E pid [the st div 4096..<n * sz div 4096] k1")
  consider (early) "region_post nd nd'" "k' \<in> {k1, k2}" "rc \<noteq> SQLITE_OK \<or> \<not> ext \<and> hShm nd \<ge> 0" | (alloc) j where "j \<in> {k, k1, k2}" "map_alloc E pid n ?nd j = (rc, nd', k')"
    using assms k1 k2 unfolding map_upto_def
    by (auto simp: Let_def region_post_def split: if_splits option.splits prod.splits)
  note cases = this
  from cases show "region_post nd nd'" by cases (use al in auto)
  from cases show "n \<le> length (apRegion nd')" if "rc = SQLITE_OK" "ext \<or> hShm nd < 0" by cases (use that al in auto)
  assume f: "plain_calls E f" "\<And>off k. f (snd (seekAndWriteFd E pid off k)) = f k"
  have f1: "f k1 = f k" by (rule plain_E(3) [OF f(1) k1])
  have f2: "f k2 = f k1" using extend_shm_keeps [where f = f, OF f(2), of "[the st div 4096..<n * sz div 4096]" k1] k2 by simp
  from cases show "f k' = f k"
  proof cases
    case (alloc j)
    then show ?thesis using al [OF alloc(2)] f(1) f1 f2 by auto
  qed (use f1 f2 in auto)
qed

lemma map_upto_rc: "map_upto E pid n sz ext nd k = (rc, nd', k') \<Longrightarrow> rc \<noteq> SQLITE_READONLY"
  by (auto simp: map_upto_def map_alloc_def Let_def dest: extend_shm_rc map_regions_rc split: if_splits option.splits prod.splits)

lemma proc_ok_region: "proc_ok held pid (Some nd) k \<Longrightarrow> region_post nd nd' \<Longrightarrow> held k' = held k \<Longrightarrow> proc_ok held pid (Some nd') k'"
  by (simp add: proc_ok_def attach_ok_def kern_ok_def region_post_def node_ok_def)

text \<open>The switch taken late, by a connection that could not before.\<close>

lemma shm_relock_post:
  assumes "shm_relock E pid nd k = (rc, nd', k')" "posix_locks E held" "proc_ok held pid (Some nd) k"
  shows "proc_ok held pid (Some nd') k'" "by_pid pid (held k) (held k')"
    "truncation_only E f \<Longrightarrow> q \<noteq> pid \<Longrightarrow> held k q UNIX_SHM_DMS \<noteq> F_UNLCK \<Longrightarrow> f k' = f k"
proof -
  have a: "attach_ok held pid nd k" "pFirst nd \<noteq> []" using assms(3) by (simp_all add: proc_ok_def)
  have "proc_ok held pid (Some nd') k' \<and> by_pid pid (held k) (held k') \<and>
    (truncation_only E f \<longrightarrow> q \<noteq> pid \<longrightarrow> held k q UNIX_SHM_DMS \<noteq> F_UNLCK \<longrightarrow> f k' = f k)"
  proof (cases "isUnlocked nd")
    case False
    then show ?thesis using assms(1,3) by (simp add: shm_relock_def)
  next
    case True
    then obtain nd1 where l: "unixLockSharedMemory E pid nd k = (rc, nd1, k')" "nd' = (if rc = SQLITE_OK then nd1\<lparr>isUnlocked := False\<rparr> else nd1)"
      using assms(1) by (auto simp: shm_relock_def split: prod.splits)
    have h: "hShm nd \<ge> 0" using a by (simp add: attach_ok_def)
    note pst = unixLockSharedMemory_post(1) [OF l(1) assms(2) h]
    have "kern_ok held pid nd k'" using a pst by (auto simp: attach_ok_def kern_ok_def dms_post_def)
    then have "proc_ok held pid (Some nd') k'"
      using a pst l(2) True by (auto simp: proc_ok_def attach_ok_def dms_post_def kern_ok_def node_ok_def)
    then show ?thesis using pst unixLockSharedMemory_post(2) [OF l(1) assms(2) h] by (auto simp: dms_post_def)
  qed
  then show "proc_ok held pid (Some nd') k'" "by_pid pid (held k) (held k')"
    "truncation_only E f \<Longrightarrow> q \<noteq> pid \<Longrightarrow> held k q UNIX_SHM_DMS \<noteq> F_UNLCK \<Longrightarrow> f k' = f k" by auto
qed

lemma shm_connect_post:
  assumes "shm_connect E False ro pid c r k = (rc, r', k')" "posix_locks E held" "proc_ok held pid r k"
  shows "proc_ok held pid r' k'" "by_pid pid (held k) (held k')"
    "truncation_only E f \<Longrightarrow> q \<noteq> pid \<Longrightarrow> held k q UNIX_SHM_DMS \<noteq> F_UNLCK \<Longrightarrow> f k' = f k"
  using assms unixOpenSharedMemory_post [of E ro pid c r k rc r' k' held] by (auto simp: shm_connect_def split: if_splits)

lemma by_pid_other: "by_pid pid h h' \<Longrightarrow> q \<noteq> pid \<Longrightarrow> h' q = h q"
  by (simp add: by_pid_def)

lemma unixShmMap_post:
  assumes "unixShmMap E False ro pid c iRegion sz ext r k = (rc, pp, r', k')" "posix_locks E held" "proc_ok held pid r k"
  shows "proc_ok held pid r' k'" "by_pid pid (held k) (held k')"
    "truncation_only E f \<Longrightarrow> q \<noteq> pid \<Longrightarrow> held k q UNIX_SHM_DMS \<noteq> F_UNLCK \<Longrightarrow> f k' = f k"
proof -
  obtain rc1 r1 k1 where c: "shm_connect E False ro pid c r k = (rc1, r1, k1)" by (cases "shm_connect E False ro pid c r k")
  obtain rc2 nd2 k2 where l: "shm_relock E pid (the r1) k1 = (rc2, nd2, k2)" by (cases "shm_relock E pid (the r1) k1")
  consider (early) "r' = r1" "k' = k1" | (locked) nd where "r1 \<noteq> None" "r' = Some nd2" "k' = k2"
    | (mapped) n nd3 rc3 where "r1 \<noteq> None" "map_upto E pid n sz ext nd2 k2 = (rc3, nd3, k')" "r' = Some nd3"
    using assms(1) c l by (auto simp: unixShmMap_def Let_def split: if_splits option.splits prod.splits)
  note cases = this
  note c' = shm_connect_post [OF c assms(2,3)]
  have l': "proc_ok held pid (Some nd2) k2" "by_pid pid (held k1) (held k2)" "by_pid pid (held k) (held k2)"
    "truncation_only E f \<Longrightarrow> q \<noteq> pid \<Longrightarrow> held k q UNIX_SHM_DMS \<noteq> F_UNLCK \<Longrightarrow> f k2 = f k1" if "r1 \<noteq> None"
    using shm_relock_post [OF l assms(2)] c'(1) that by_pid_trans [OF c'(2)] by_pid_other [OF c'(2)] by auto
  have m: "held k' = held k2" "region_post nd2 nd3" "truncation_only E f \<Longrightarrow> f k' = f k2" if "map_upto E pid n sz ext nd2 k2 = (rc3, nd3, k')" for n rc3 nd3
  proof -
    show "held k' = held k2" by (rule map_upto_post(2) [OF that posix_D(3) [OF assms(2)]]) (simp add: posix_D(7) [OF assms(2)])
    show "region_post nd2 nd3" by (rule map_upto_post(1) [OF that])
    show "f k' = f k2" if t: "truncation_only E f"
      by (rule map_upto_post(2) [OF \<open>map_upto _ _ _ _ _ _ _ = _\<close> truncation_D(1) [OF t]]) (simp add: truncation_D(4) [OF t])
  qed
  from cases show "proc_ok held pid r' k'"
  proof cases
    case (mapped n nd3 rc3)
    then show ?thesis using proc_ok_region [OF l'(1) m(2,1) [OF mapped(2)]] by simp
  qed (use c' l' in auto)
  from cases show "by_pid pid (held k) (held k')" by cases (use c' l' m in auto)
  assume f: "truncation_only E f" "q \<noteq> pid" "held k q UNIX_SHM_DMS \<noteq> F_UNLCK"
  from cases show "f k' = f k" by cases (use c'(3) [OF f] l'(4) m(3) f in auto)
qed

lemma map_of_without: "map_of (filter (\<lambda>(d, q). d \<noteq> c) L) = (map_of L)(c := None)"
  by (induction L) (auto simp: fun_eq_iff)

lemma filter_without: "c \<notin> fst ` set L \<Longrightarrow> filter (\<lambda>(d, q). d \<noteq> c) L = L"
  by (force simp: filter_id_conv)

lemma length_without: "distinct (map fst L) \<Longrightarrow> map_of L c \<noteq> None \<Longrightarrow> length L = Suc (length (filter (\<lambda>(d, q). d \<noteq> c) L))"
proof (induction L)
  case (Cons x L)
  then show ?case using filter_without [of c L] by (cases x) (auto split: if_splits)
qed simp

lemma node_ok_unlink:
  assumes "node_ok nd" "map_of (pFirst nd) c = Some p" "sharedMask p = 0" "exclMask p = 0"
    "pFirst nd' = filter (\<lambda>(d, q). d \<noteq> c) (pFirst nd)" "aLock nd' = aLock nd"
  shows "node_ok nd'"
proof -
  let ?M = "map_of (pFirst nd)"
  have d: "distinct (map fst (pFirst nd))" using assms(1) by (simp add: node_ok_def)
  have w: "map_of (filter (\<lambda>(d, q). d \<noteq> c) (pFirst nd)) = ?M(c := None)" "distinct (map fst (filter (\<lambda>(d, q). d \<noteq> c) (pFirst nd)))"
    using map_of_without distinct_map_filter [OF d] by auto
  have "excl_on (?M(c := None)) i = excl_on ?M i" "shared_on (?M(c := None)) i = shared_on ?M i" for i
    using assms(2-4) by (auto simp: excl_on_def shared_on_def)
  then have "slot_ok (?M(c := None)) i (aLock nd ! i)" if "i < 8" for i
    using node_slot [OF assms(1) that] by (simp add: slot_ok_def)
  moreover have "masks_ok q" if "(?M(c := None)) d = Some q" for d q
    using assms(1) that by (auto simp: node_ok_def split: if_splits)
  ultimately show ?thesis using assms(1) w unfolding node_ok_def assms(5,6) by (metis (no_types, lifting))
qed

lemma unixShmUnmap_post:
  assumes "unixShmUnmap E pid c del nd k = (rc, r', k')" "posix_locks E held" "proc_ok held pid (Some nd) k"
    "\<And>p. map_of (pFirst nd) c = Some p \<Longrightarrow> sharedMask p = 0 \<and> exclMask p = 0"
  shows "proc_ok held pid r' k'" "by_pid pid (held k) (held k')" "truncation_only E f \<Longrightarrow> \<not> del \<Longrightarrow> f k' = f k"
proof -
  have a: "attach_ok held pid nd k" using assms(3) by (simp add: proc_ok_def)
  let ?nd = "nd\<lparr>pFirst := filter (\<lambda>(d, q). d \<noteq> c) (pFirst nd), nRef := nRef nd - 1\<rparr>"
  have "proc_ok held pid r' k' \<and> by_pid pid (held k) (held k') \<and> (truncation_only E f \<longrightarrow> \<not> del \<longrightarrow> f k' = f k)"
  proof (cases "map_of (pFirst nd) c")
    case None
    then show ?thesis using assms(1,3) by (simp add: unixShmUnmap_def)
  next
    case (Some p)
    have "length (pFirst nd) = Suc (length (pFirst ?nd))" using length_without [of "pFirst nd" c] Some a by (simp add: attach_ok_def node_ok_def)
    then have n: "nRef ?nd = int (length (pFirst ?nd))" using a by (simp add: attach_ok_def)
    show ?thesis
    proof (cases "nRef ?nd = 0")
      case True
      define k1 where "k1 = (if del \<and> hShm nd \<ge> 0 then osUnlink E pid k else k)"
      have h1: "held k1 = held k" "truncation_only E f \<longrightarrow> \<not> del \<longrightarrow> f k1 = f k" using posix_D(5) [OF assms(2)] by (simp_all add: k1_def)
      obtain r1 k2 where p: "unixShmPurge E pid ?nd k1 = (r1, k2)" by (cases "unixShmPurge E pid ?nd k1")
      then have "r' = r1" "k' = k2" using assms(1) Some True by (auto simp: unixShmUnmap_def k1_def)
      then show ?thesis
        using unixShmPurge_last(1) [OF p True] unixShmPurge_last(2) [OF p True assms(2)] unixShmPurge_last(3) [OF p True, of f] h1 a by_pid_drop
        by (auto simp: proc_ok_def attach_ok_def)
    next
      case False
      then have r: "r' = Some ?nd" "k' = k" using assms(1) Some by (auto simp: unixShmUnmap_def)
      moreover have "pFirst ?nd \<noteq> []" using n False by auto
      moreover have "node_ok ?nd" using node_ok_unlink [of nd c p ?nd] a Some assms(4) by (simp add: attach_ok_def)
      ultimately show ?thesis using a n by (simp add: proc_ok_def attach_ok_def kern_ok_def)
    qed
  qed
  then show "proc_ok held pid r' k'" "by_pid pid (held k) (held k')" "truncation_only E f \<Longrightarrow> \<not> del \<Longrightarrow> f k' = f k" by auto
qed

section \<open>Processes on one database file\<close>

record 'k shm_sys =
  procs :: "nat \<Rightarrow> unixShmNode option"
  kern :: 'k

definition sys_map :: "'k os \<Rightarrow> bool \<Rightarrow> nat \<Rightarrow> nat \<Rightarrow> nat \<Rightarrow> nat \<Rightarrow> bool \<Rightarrow> 'k shm_sys \<Rightarrow> 'k shm_sys" where
  "sys_map E ro pid c iRegion sz ext s =
    (case unixShmMap E False ro pid c iRegion sz ext (procs s pid) (kern s) of (rc, pp, r, k) \<Rightarrow>
       \<lparr>procs = (procs s)(pid := r), kern = k\<rparr>)"

definition sys_lock :: "'k os \<Rightarrow> nat \<Rightarrow> nat \<Rightarrow> nat \<Rightarrow> nat \<Rightarrow> shm_op \<Rightarrow> 'k shm_sys \<Rightarrow> 'k shm_sys" where
  "sys_lock E pid c ofst n flags s =
    (case procs s pid of None \<Rightarrow> s
     | Some nd \<Rightarrow> (case unixShmLock E pid nd c ofst n flags (kern s) of (rc, nd, k) \<Rightarrow> \<lparr>procs = (procs s)(pid := Some nd), kern = k\<rparr>))"

definition sys_unmap :: "'k os \<Rightarrow> nat \<Rightarrow> nat \<Rightarrow> bool \<Rightarrow> 'k shm_sys \<Rightarrow> 'k shm_sys" where
  "sys_unmap E pid c del s =
    (case procs s pid of None \<Rightarrow> s
     | Some nd \<Rightarrow> (case unixShmUnmap E pid c del nd (kern s) of (rc, r, k) \<Rightarrow> \<lparr>procs = (procs s)(pid := r), kern = k\<rparr>))"

text \<open>The connection handle \<open>c\<close> of a process has.\<close>

definition conn :: "'k shm_sys \<Rightarrow> nat \<Rightarrow> nat \<Rightarrow> unixShm option" where
  "conn s pid c = (case procs s pid of None \<Rightarrow> None | Some nd \<Rightarrow> map_of (pFirst nd) c)"

text \<open>One call of a shared-memory method by a process. A connection is closed without locks, and the file
  is deleted only by a process that is alone (it holds the database file exclusively).\<close>

inductive shm_step :: "'k os \<Rightarrow> nat \<Rightarrow> 'k shm_sys \<Rightarrow> 'k shm_sys \<Rightarrow> bool" for E where
  map: "shm_step E pid s (sys_map E ro pid c iRegion sz ext s)"
| lock: "pred_option (\<lambda>p. lock_request p ofst n flags) (conn s pid c) \<Longrightarrow> shm_step E pid s (sys_lock E pid c ofst n flags s)"
| unmap: "pred_option (\<lambda>p. sharedMask p = 0 \<and> exclMask p = 0) (conn s pid c) \<Longrightarrow> del \<longrightarrow> (\<forall>q. q \<noteq> pid \<longrightarrow> procs s q = None) \<Longrightarrow>
    shm_step E pid s (sys_unmap E pid c del s)"

inductive shm_reach :: "'k os \<Rightarrow> 'k \<Rightarrow> 'k shm_sys \<Rightarrow> bool" for E k0 where
  start: "shm_reach E k0 \<lparr>procs = (\<lambda>_. None), kern = k0\<rparr>"
| step: "shm_reach E k0 s \<Longrightarrow> shm_step E pid s s' \<Longrightarrow> shm_reach E k0 s'"

inductive_cases shm_stepE: "shm_step E pid s s'"

definition sys_ok :: "('k \<Rightarrow> nat \<Rightarrow> nat \<Rightarrow> lock_type) \<Rightarrow> 'k shm_sys \<Rightarrow> bool" where
  "sys_ok held s \<longleftrightarrow> (\<forall>pid. proc_ok held pid (procs s pid) (kern s)) \<and> kern_excl (held (kern s))"

lemma sys_ok_pid: "sys_ok held s \<Longrightarrow> proc_ok held pid (procs s pid) (kern s)"
  by (simp add: sys_ok_def)

lemma proc_ok_other: "proc_ok held q r k \<Longrightarrow> held k' q = held k q \<Longrightarrow> proc_ok held q r k'"
  by (auto simp: proc_ok_def attach_ok_def kern_ok_def split: option.splits)

lemma sys_ok_upd:
  assumes "sys_ok held s" "proc_ok held pid r k" "by_pid pid (held (kern s)) (held k)"
  shows "sys_ok held \<lparr>procs = (procs s)(pid := r), kern = k\<rparr>"
  using assms proc_ok_other [OF sys_ok_pid [OF assms(1)]] unfolding sys_ok_def by_pid_def by simp

lemma lock_post_proc: "lock_post held pid nd k nd' k' \<Longrightarrow> proc_ok held pid (Some nd) k \<Longrightarrow> proc_ok held pid (Some nd') k'"
  unfolding lock_post_def proc_ok_def attach_ok_def
  by (auto simp: kern_ok_def dest: arg_cong [where f = length] split: if_splits)

text \<open>Every call keeps the invariant, and no call truncates the shared memory under a process that uses it.\<close>

lemma sys_map_ok:
  assumes "posix_locks E held" "sys_ok held s"
  shows "sys_ok held (sys_map E ro pid c iRegion sz ext s)"
    "truncation_only E f \<Longrightarrow> q \<noteq> pid \<Longrightarrow> held (kern s) q UNIX_SHM_DMS \<noteq> F_UNLCK \<Longrightarrow> f (kern (sys_map E ro pid c iRegion sz ext s)) = f (kern s)"
proof -
  obtain rc pp r k where m: "unixShmMap E False ro pid c iRegion sz ext (procs s pid) (kern s) = (rc, pp, r, k)"
    by (cases "unixShmMap E False ro pid c iRegion sz ext (procs s pid) (kern s)")
  note pst = unixShmMap_post [OF m assms(1) sys_ok_pid [OF assms(2)]]
  show "sys_ok held (sys_map E ro pid c iRegion sz ext s)" using sys_ok_upd [OF assms(2) pst(1,2)] m by (simp add: sys_map_def)
  show "truncation_only E f \<Longrightarrow> q \<noteq> pid \<Longrightarrow> held (kern s) q UNIX_SHM_DMS \<noteq> F_UNLCK \<Longrightarrow> f (kern (sys_map E ro pid c iRegion sz ext s)) = f (kern s)"
    using pst(3) [of f q] m by (simp add: sys_map_def)
qed

lemma unixShmLock_keeps:
  assumes "truncation_only E f" "unixShmLock E pid nd c ofst n flags k = (rc, nd', k')"
  shows "f k' = f k"
  using assms(2) by (auto simp: unixShmLock_def shm_shared_def shm_exclusive_def shm_unlock_def Let_def
    dest!: truncation_lock [OF assms(1)] split: option.splits shm_op.splits if_splits prod.splits)

lemma sys_lock_ok:
  assumes "posix_locks E held" "sys_ok held s" "pred_option (\<lambda>p. lock_request p ofst n flags) (conn s pid c)"
  shows "sys_ok held (sys_lock E pid c ofst n flags s)" "truncation_only E f \<Longrightarrow> f (kern (sys_lock E pid c ofst n flags s)) = f (kern s)"
proof -
  have "sys_ok held (sys_lock E pid c ofst n flags s) \<and> (truncation_only E f \<longrightarrow> f (kern (sys_lock E pid c ofst n flags s)) = f (kern s))"
  proof (cases "procs s pid")
    case None
    then show ?thesis using assms(2) by (simp add: sys_lock_def)
  next
    case (Some nd)
    obtain rc nd' k where m: "unixShmLock E pid nd c ofst n flags (kern s) = (rc, nd', k)" by (cases "unixShmLock E pid nd c ofst n flags (kern s)")
    have ok: "proc_ok held pid (Some nd) (kern s)" using sys_ok_pid [OF assms(2), of pid] Some by simp
    have "lock_post held pid nd (kern s) nd' k"
      using unixShmLock_post [OF m posix_D(1) [OF assms(1)]] ok assms(3) Some by (simp add: proc_ok_def attach_ok_def conn_def option.pred_set)
    from sys_ok_upd [OF assms(2) lock_post_proc [OF this ok]] this show ?thesis
      using Some m unixShmLock_keeps [OF _ m, of f] by (simp add: sys_lock_def lock_post_def)
  qed
  then show "sys_ok held (sys_lock E pid c ofst n flags s)" "truncation_only E f \<Longrightarrow> f (kern (sys_lock E pid c ofst n flags s)) = f (kern s)" by auto
qed

lemma sys_unmap_ok:
  assumes "posix_locks E held" "sys_ok held s" "pred_option (\<lambda>p. sharedMask p = 0 \<and> exclMask p = 0) (conn s pid c)"
  shows "sys_ok held (sys_unmap E pid c del s)" "truncation_only E f \<Longrightarrow> \<not> del \<Longrightarrow> f (kern (sys_unmap E pid c del s)) = f (kern s)"
proof -
  have "sys_ok held (sys_unmap E pid c del s) \<and> (truncation_only E f \<longrightarrow> \<not> del \<longrightarrow> f (kern (sys_unmap E pid c del s)) = f (kern s))"
  proof (cases "procs s pid")
    case None
    then show ?thesis using assms(2) by (simp add: sys_unmap_def)
  next
    case (Some nd)
    obtain rc r k where m: "unixShmUnmap E pid c del nd (kern s) = (rc, r, k)" by (cases "unixShmUnmap E pid c del nd (kern s)")
    have ok: "proc_ok held pid (Some nd) (kern s)" using sys_ok_pid [OF assms(2), of pid] Some by simp
    have no: "\<And>p. map_of (pFirst nd) c = Some p \<Longrightarrow> sharedMask p = 0 \<and> exclMask p = 0" using assms(3) Some by (simp add: conn_def option.pred_set)
    note pst = unixShmUnmap_post [OF m assms(1) ok no]
    have u: "sys_unmap E pid c del s = \<lparr>procs = (procs s)(pid := r), kern = k\<rparr>" using Some m by (simp add: sys_unmap_def)
    show ?thesis unfolding u using sys_ok_upd [OF assms(2) pst(1,2)] pst(3) [of f] by simp
  qed
  then show "sys_ok held (sys_unmap E pid c del s)" "truncation_only E f \<Longrightarrow> \<not> del \<Longrightarrow> f (kern (sys_unmap E pid c del s)) = f (kern s)" by auto
qed

lemma shm_step_ok: "shm_step E pid s s' \<Longrightarrow> posix_locks E held \<Longrightarrow> sys_ok held s \<Longrightarrow> sys_ok held s'"
  by (erule shm_step.cases) (auto intro: sys_map_ok sys_lock_ok sys_unmap_ok)

lemma shm_step_truncates:
  assumes "shm_step E pid s s'" "posix_locks E held" "sys_ok held s" "truncation_only E f" "q \<noteq> pid" "procs s q = Some nd" "\<not> isUnlocked nd"
  shows "f (kern s') = f (kern s)"
proof -
  have "held (kern s) q UNIX_SHM_DMS \<noteq> F_UNLCK" using sys_ok_pid [OF assms(3), of q] assms(6,7) by (simp add: proc_ok_def attach_ok_def)
  with assms(1) show ?thesis
  proof cases
    case (map ro c iRegion sz ext)
    then show ?thesis using sys_map_ok(2) [OF assms(2,3,4,5)] \<open>held (kern s) q UNIX_SHM_DMS \<noteq> F_UNLCK\<close> by simp
  next
    case (lock c ofst n flags)
    then show ?thesis using sys_lock_ok(2) [OF assms(2,3) _ assms(4)] by simp
  next
    case (unmap c del)
    then show ?thesis using sys_unmap_ok(2) [OF assms(2,3) _ assms(4)] assms(5,6) by auto
  qed
qed

lemma shm_reach_ok:
  assumes "shm_reach E k0 s" "posix_locks E held" "held k0 = (\<lambda>_ _. F_UNLCK)"
  shows "sys_ok held s"
  using assms(1)
proof induction
  case start
  then show ?case using assms(3) by (simp add: sys_ok_def proc_ok_def kern_excl_def conflicts_def)
qed (rule shm_step_ok [OF _ assms(2)])

section \<open>What the locks guarantee\<close>

lemma conn_node:
  assumes "sys_ok held s" "conn s pid c = Some p"
  obtains nd where "procs s pid = Some nd" "node_ok nd" "kern_ok held pid nd (kern s)" "hShm nd \<ge> 0" "map_of (pFirst nd) c = Some p"
  using assms sys_ok_pid [OF assms(1), of pid] by (auto simp: conn_def proc_ok_def attach_ok_def split: option.splits)

text \<open>The counter of a slot a connection holds, and the lock of its process.\<close>

lemma node_counts:
  assumes "node_ok nd" "map_of (pFirst nd) c = Some p" "i < SQLITE_SHM_NLOCK"
  shows "bit (exclMask p) i \<Longrightarrow> aLock nd ! i = - 1" "bit (sharedMask p) i \<Longrightarrow> aLock nd ! i > 0"
    "bit (exclMask p) i \<Longrightarrow> map_of (pFirst nd) d = Some p' \<Longrightarrow> d \<noteq> c \<Longrightarrow> \<not> bit (exclMask p') i \<and> \<not> bit (sharedMask p') i"
proof -
  let ?M = "map_of (pFirst nd)"
  note ok = node_slot [OF assms(1,3)]
  show "aLock nd ! i = - 1" if "bit (exclMask p) i"
    using ok that assms(2) by (auto simp: slot_ok_def excl_on_def)
  show "aLock nd ! i > 0" if "bit (sharedMask p) i"
  proof -
    have "c \<in> shared_on ?M i" using that assms(2) by (auto simp: shared_on_def)
    then have "card (shared_on ?M i) > 0" using finite_on(2) card_gt_0_iff by blast
    then show ?thesis using ok \<open>c \<in> shared_on ?M i\<close> by (auto simp: slot_ok_def)
  qed
  show "\<not> bit (exclMask p') i \<and> \<not> bit (sharedMask p') i" if "bit (exclMask p) i" "?M d = Some p'" "d \<noteq> c"
  proof -
    have "c \<in> excl_on ?M i" using that assms(2) by (auto simp: excl_on_def)
    then have "excl_on ?M i = {c}" "shared_on ?M i = {}" using ok by (auto simp: slot_ok_def)
    then show ?thesis using that(2,3) by (auto simp: excl_on_def shared_on_def)
  qed
qed

lemma conn_lock:
  assumes "sys_ok held s" "conn s pid c = Some p" "i < SQLITE_SHM_NLOCK"
  shows "bit (exclMask p) i \<Longrightarrow> held (kern s) pid (i + UNIX_SHM_BASE) = F_WRLCK"
    "bit (sharedMask p) i \<Longrightarrow> held (kern s) pid (i + UNIX_SHM_BASE) = F_RDLCK"
proof -
  obtain nd where nd: "procs s pid = Some nd" "node_ok nd" "kern_ok held pid nd (kern s)" "map_of (pFirst nd) c = Some p"
    using conn_node [OF assms(1,2)] by metis
  show "bit (exclMask p) i \<Longrightarrow> held (kern s) pid (i + UNIX_SHM_BASE) = F_WRLCK"
    "bit (sharedMask p) i \<Longrightarrow> held (kern s) pid (i + UNIX_SHM_BASE) = F_RDLCK"
    using node_counts(1,2) [OF nd(2,4) assms(3)] kern_slot [OF nd(3) assms(3)] by (auto simp: lock_of_def)
qed

lemma sys_exclusion:
  assumes "sys_ok held s" "conn s pid c = Some p" "conn s qid d = Some q" "(pid, c) \<noteq> (qid, d)" "i < SQLITE_SHM_NLOCK" "bit (exclMask p) i"
  shows "\<not> bit (exclMask q) i" "\<not> bit (sharedMask q) i"
proof -
  have "\<not> bit (exclMask q) i \<and> \<not> bit (sharedMask q) i"
  proof (cases "pid = qid")
    case True
    obtain nd where nd: "procs s pid = Some nd" "node_ok nd" "map_of (pFirst nd) c = Some p" using conn_node [OF assms(1,2)] by metis
    moreover have "map_of (pFirst nd) d = Some q" using assms(3) True nd(1) by (simp add: conn_def)
    ultimately show ?thesis using node_counts(3) [OF nd(2,3) assms(5,6)] assms(4) True by auto
  next
    case False
    then have "\<not> conflicts (held (kern s) pid (i + 120)) (held (kern s) qid (i + 120))"
      using assms(1) unfolding sys_ok_def kern_excl_def by blast
    then show ?thesis using conn_lock(1) [OF assms(1,2,5,6)] conn_lock [OF assms(1,3,5)] by (auto simp: conflicts_def)
  qed
  then show "\<not> bit (exclMask q) i" "\<not> bit (sharedMask q) i" by auto
qed

text \<open>A request that conflicts with a lock of another connection is turned down.\<close>

lemma exclusive_busy:
  assumes "sys_ok held s" "posix_locks E held" "procs s pid = Some nd" "conn s pid c = Some p" "conn s qid d = Some q" "(pid, c) \<noteq> (qid, d)"
    "ofst + n \<le> SQLITE_SHM_NLOCK" "ofst \<le> i" "i < ofst + n" "bit (exclMask q) i \<or> bit (sharedMask q) i"
    "unixShmLock E pid nd c ofst n ShmLockExclusive (kern s) = (rc, nd', k')"
  shows "rc = SQLITE_BUSY \<and> nd' = nd \<and> held k' pid = held (kern s) pid"
proof -
  have i: "i < 8" using assms(7,9) by simp
  obtain x where x: "procs s pid = Some x" "node_ok x" "kern_ok held pid x (kern s)" "hShm x \<ge> 0" "map_of (pFirst x) c = Some p"
    using conn_node [OF assms(1,4)] by metis
  then have nd: "node_ok nd" "map_of (pFirst nd) c = Some p" "hShm nd \<ge> 0" using assms(3) by auto
  have r: "shm_exclusive E pid nd c p ofst n (kern s) = (rc, nd', k')" using assms(11) nd(2) by (simp add: unixShmLock_def)
  show ?thesis
  proof (cases "list_ex (\<lambda>ii. aLock nd ! ii \<noteq> 0) [ofst..<ofst + n]")
    case True
    then show ?thesis using r by (auto simp: shm_exclusive_def)
  next
    case False
    then have z: "aLock nd ! i = 0" using assms(8,9) by (auto simp: list_ex_iff)
    have "pid \<noteq> qid"
    proof
      assume "pid = qid"
      then have "map_of (pFirst nd) d = Some q" using assms(3,5) by (simp add: conn_def)
      from node_counts(1,2) [OF nd(1) this i] show False using z assms(10) by auto
    qed
    obtain rc1 k1 where l: "unixShmSystemLock E pid nd F_WRLCK (ofst + 120) n (kern s) = (rc1, k1)"
      by (cases "unixShmSystemLock E pid nd F_WRLCK (ofst + 120) n (kern s)")
    note sys = system_lock [OF l posix_D(1) [OF assms(2)] nd(3)]
    have "conflicts F_WRLCK (held (kern s) qid (i + 120))" using conn_lock [OF assms(1,5) i] assms(10) by (auto simp: conflicts_def)
    then have "rc1 \<noteq> SQLITE_OK" using sys(4) [of qid "i + 120"] \<open>pid \<noteq> qid\<close> assms(8,9) by auto
    then show ?thesis using r False l sys(2,3) by (auto simp: shm_exclusive_def fun_eq_iff)
  qed
qed

lemma shared_busy:
  assumes "sys_ok held s" "posix_locks E held" "procs s pid = Some nd" "conn s pid c = Some p" "conn s qid d = Some q" "(pid, c) \<noteq> (qid, d)"
    "i < SQLITE_SHM_NLOCK" "bit (exclMask q) i" "unixShmLock E pid nd c i 1 ShmLockShared (kern s) = (rc, nd', k')"
  shows "rc = SQLITE_BUSY \<and> nd' = nd \<and> held k' pid = held (kern s) pid"
proof -
  obtain x where x: "procs s pid = Some x" "node_ok x" "kern_ok held pid x (kern s)" "hShm x \<ge> 0" "map_of (pFirst x) c = Some p"
    using conn_node [OF assms(1,4)] by metis
  then have nd: "node_ok nd" "map_of (pFirst nd) c = Some p" "hShm nd \<ge> 0" "kern_ok held pid nd (kern s)" using assms(3) by auto
  have "\<not> bit (sharedMask p) i" using sys_exclusion(2) [OF assms(1,5,4) _ assms(7,8)] assms(6) by auto
  then have "bit (sharedMask p) j \<longrightarrow> \<not> (i \<le> j \<and> j < i + 1)" for j by (auto simp: le_less_Suc_eq)
  then have "sharedMask p AND lock_mask i 1 = 0" using mask_meets [of "sharedMask p" i 1] assms(7) by auto
  then have r: "shm_shared E pid nd c p i 1 (kern s) = (rc, nd', k')" using assms(9) nd(2) by (simp add: unixShmLock_def)
  show ?thesis
  proof (cases "pid = qid")
    case True
    then have "map_of (pFirst nd) d = Some q" using assms(3,5) by (simp add: conn_def)
    from node_counts(1) [OF nd(1) this assms(7,8)] show ?thesis using r by (auto simp: shm_shared_def)
  next
    case False
    have w: "held (kern s) qid (i + 120) = F_WRLCK" by (rule conn_lock(1) [OF assms(1,5,7,8)])
    have "\<not> conflicts (held (kern s) pid (i + 120)) (held (kern s) qid (i + 120))"
      using assms(1) False unfolding sys_ok_def kern_excl_def by blast
    then have "held (kern s) pid (i + 120) = F_UNLCK" using w by (auto simp: conflicts_def)
    then have z: "aLock nd ! i = 0" using kern_slot [OF nd(4) assms(7)] by (auto simp: lock_of_def split: if_splits)
    obtain rc1 k1 where l: "unixShmSystemLock E pid nd F_RDLCK (i + 120) 1 (kern s) = (rc1, k1)"
      by (cases "unixShmSystemLock E pid nd F_RDLCK (i + 120) 1 (kern s)")
    note sys = system_lock [OF l posix_D(1) [OF assms(2)] nd(3)]
    have "rc1 \<noteq> SQLITE_OK" using sys(4) [of qid "i + 120"] False w by (auto simp: conflicts_def)
    then show ?thesis using r z l sys(2,3) by (auto simp: shm_shared_def fun_eq_iff)
  qed
qed

text \<open>When \<^verbatim>\<open>unixFcntlExternalReader\<close> sees no readers, no connection of another process holds a read mark.\<close>

lemma unixFcntlExternalReader_none:
  assumes "sys_ok held s" "posix_locks E held" "unixFcntlExternalReader E pid (Some nd) (kern s) = (SQLITE_OK, False)"
    "conn s qid d = Some q" "qid \<noteq> pid" "3 \<le> i" "i < SQLITE_SHM_NLOCK"
  shows "\<not> bit (exclMask q) i \<and> \<not> bit (sharedMask q) i"
proof -
  have "osGetlk E pid 123 5 (kern s) = Some F_UNLCK" using assms(3) by (auto simp: unixFcntlExternalReader_def split: option.splits)
  then have "held (kern s) qid (i + UNIX_SHM_BASE) = F_UNLCK"
    using posix_D(2) [OF assms(2)] assms(5-7) unfolding getlk_law_def by fastforce
  then show ?thesis using conn_lock [OF assms(1,4,7)] by auto
qed

section \<open>Regions\<close>

lemma shm_connect_regions:
  assumes "shm_connect E bp ro pid c (Some nd) k = (rc, r, k')"
  obtains nd' where "r = Some nd'" "apRegion nd' = apRegion nd" "hShm nd' = hShm nd" "rc \<noteq> SQLITE_READONLY"
  using assms by (auto simp: shm_connect_def unixOpenSharedMemory_def split: if_splits prod.splits)

lemma shm_relock_regions:
  assumes "shm_relock E pid nd k = (rc, nd', k')"
  shows "apRegion nd' = apRegion nd \<and> hShm nd' = hShm nd \<and> rc \<noteq> SQLITE_READONLY"
  using assms by (auto simp: shm_relock_def unixLockSharedMemory_def unixShmSystemLock_def Let_def
    split: if_splits prod.splits option.splits lock_type.splits)

lemma round_up: "0 < m \<Longrightarrow> i < (i + m) div m * m" for i m :: nat
  using div_mult_mod_eq [of "i + m" m] mod_less_divisor [of m "i + m"] by linarith

lemma unixShmMap_regions:
  assumes "unixShmMap E bp ro pid c i sz ext (Some nd) k = (rc, pp, r, k')"
  shows "\<exists>nd' ap. r = Some nd' \<and> apRegion nd' = apRegion nd @ ap"
    "rc = SQLITE_OK \<or> rc = SQLITE_READONLY \<Longrightarrow> ext \<or> hShm nd < 0 \<Longrightarrow> \<exists>nd'. r = Some nd' \<and> i < length (apRegion nd') \<and> pp = Some (Some (apRegion nd' ! i))"
proof -
  obtain rc1 r1 k1 where c: "shm_connect E bp ro pid c (Some nd) k = (rc1, r1, k1)" by (cases "shm_connect E bp ro pid c (Some nd) k")
  then obtain nd1 where r1: "r1 = Some nd1" "apRegion nd1 = apRegion nd" "hShm nd1 = hShm nd" "rc1 \<noteq> SQLITE_READONLY" using shm_connect_regions by metis
  obtain rc2 nd2 k2 where l: "shm_relock E pid nd1 k1 = (rc2, nd2, k2)" by (cases "shm_relock E pid nd1 k1")
  note nd2 = shm_relock_regions [OF l]
  define n where "n = (i + unixShmRegionPerMap E) div unixShmRegionPerMap E * unixShmRegionPerMap E"
  have n: "i < n" unfolding n_def by (rule round_up [OF unixShmRegionPerMap_pos])
  obtain rc3 nd3 k3 where m: "map_upto E pid n sz ext nd2 k2 = (rc3, nd3, k3)" by (cases "map_upto E pid n sz ext nd2 k2")
  note up = map_upto_post(1) [OF m] map_upto_post(3) [OF m]
  define nd' where "nd' = (if rc1 \<noteq> SQLITE_OK then nd1 else if rc2 \<noteq> SQLITE_OK \<or> n \<le> length (apRegion nd2) then nd2 else nd3)"
  have res: "r = Some nd'" "rc1 = SQLITE_OK \<Longrightarrow> pp = Some (if length (apRegion nd') > i then Some (apRegion nd' ! i) else None)"
    using assms c r1(1) l m by (auto simp: unixShmMap_def Let_def n_def [symmetric] nd'_def not_less split: if_splits)
  show "\<exists>nd' ap. r = Some nd' \<and> apRegion nd' = apRegion nd @ ap"
    using res(1) r1(2) nd2 up(1) by (auto simp: nd'_def region_post_def)
  assume ok: "rc = SQLITE_OK \<or> rc = SQLITE_READONLY" "ext \<or> hShm nd < 0"
  have "rc1 = SQLITE_OK \<and> rc2 = SQLITE_OK \<and> (n \<le> length (apRegion nd2) \<or> rc3 = SQLITE_OK)"
    using assms c r1 l m ok(1) nd2 map_upto_rc [OF m] by (auto simp: unixShmMap_def Let_def n_def [symmetric] split: if_splits)
  moreover from this have "n \<le> length (apRegion nd')" using up(2) ok(2) nd2 r1(3) by (auto simp: nd'_def)
  ultimately have "rc1 = SQLITE_OK \<and> i < length (apRegion nd')" using n by simp
  then show "\<exists>nd'. r = Some nd' \<and> i < length (apRegion nd') \<and> pp = Some (Some (apRegion nd' ! i))" using res by simp
qed

section \<open>An operating system\<close>

text \<open>The locks as a list of the settings of bytes, the latest first, and how often the \<^verbatim>\<open>-shm\<close> file
  was truncated.\<close>

type_synonym flocks = "((nat \<times> nat) \<times> lock_type) list \<times> nat"

definition flocks_held :: "flocks \<Rightarrow> nat \<Rightarrow> nat \<Rightarrow> lock_type" where
  "flocks_held k pid b = (case map_of (fst k) (pid, b) of None \<Rightarrow> F_UNLCK | Some t \<Rightarrow> t)"

definition flocks_set :: "nat \<Rightarrow> lock_type \<Rightarrow> nat \<Rightarrow> nat \<Rightarrow> flocks \<Rightarrow> bool \<times> flocks" where
  "flocks_set pid t ofst n k =
    (if list_ex (\<lambda>((q, b), _). q \<noteq> pid \<and> ofst \<le> b \<and> b < ofst + n \<and> conflicts t (flocks_held k q b)) (fst k) then (False, k)
     else (True, map (\<lambda>b. ((pid, b), t)) [ofst..<ofst + n] @ fst k, snd k))"

definition flocks_get :: "nat \<Rightarrow> nat \<Rightarrow> nat \<Rightarrow> flocks \<Rightarrow> lock_type option" where
  "flocks_get pid ofst n k =
    (let other = (\<lambda>t. list_ex (\<lambda>((q, b), _). q \<noteq> pid \<and> ofst \<le> b \<and> b < ofst + n \<and> flocks_held k q b = t) (fst k))
     in Some (if other F_WRLCK then F_WRLCK else if other F_RDLCK then F_RDLCK else F_UNLCK))"

definition flocks_os :: "flocks os" where
  "flocks_os = \<lparr>osGetpagesize = 4096, sqlite3_malloc = (\<lambda>_ k. (Some 0, k)), osFstat = (\<lambda>_ k. (True, k)),
     osFstatShm = (\<lambda>_ k. (Some 32768, k)), robust_open = (\<lambda>_ _ k. (5, k)), robustFchown = (\<lambda>_ k. k),
     osSetPosixAdvisoryLock = flocks_set, osGetlk = flocks_get,
     robust_ftruncate = (\<lambda>_ _ k. (True, fst k, snd k + 1)),
     robust_close = (\<lambda>pid k. (filter (\<lambda>((q, _), _). q \<noteq> pid) (fst k), snd k)), osUnlink = (\<lambda>_ k. (fst k, snd k + 1)),
     seekAndWriteFd = (\<lambda>_ _ k. (True, k)), osMmap = (\<lambda>_ _ _ off k. (Some (4096 + off), k)), osMunmap = (\<lambda>_ _ k. k),
     sqlite3_free = (\<lambda>_ _ k. k)\<rparr>"

lemma flocks_none: "(q, b) \<notin> fst ` set (fst k) \<Longrightarrow> flocks_held k q b = F_UNLCK"
  by (simp add: flocks_held_def map_of_eq_None_iff [THEN iffD2])

lemma map_of_setting: "map_of (map (\<lambda>b. ((pid, b), t)) bs @ L) (q, b) = (if q = pid \<and> b \<in> set bs then Some t else map_of L (q, b))"
  by (induction bs) auto

lemma map_of_closed: "map_of (filter (\<lambda>((q, _), _). q \<noteq> pid) L) (q, b) = (if q = pid then None else map_of L (q, b))"
  by (induction L) auto

lemma flocks_set_ok:
  assumes "flocks_set pid t ofst n k = (True, k')"
  shows "q \<noteq> pid \<Longrightarrow> ofst \<le> b \<Longrightarrow> b < ofst + n \<Longrightarrow> \<not> conflicts t (flocks_held k q b)"
    "flocks_held k' q b = (if q = pid \<and> ofst \<le> b \<and> b < ofst + n then t else flocks_held k q b)"
proof -
  have r: "k' = (map (\<lambda>b. ((pid, b), t)) [ofst..<ofst + n] @ fst k, snd k)"
    and no: "\<forall>x\<in>set (fst k). fst (fst x) \<noteq> pid \<and> ofst \<le> snd (fst x) \<and> snd (fst x) < ofst + n \<longrightarrow> \<not> conflicts t (flocks_held k (fst (fst x)) (snd (fst x)))"
    using assms by (auto simp: flocks_set_def list_ex_iff split: if_splits)
  show "\<not> conflicts t (flocks_held k q b)" if "q \<noteq> pid" "ofst \<le> b" "b < ofst + n"
  proof (cases "(q, b) \<in> fst ` set (fst k)")
    case True
    then show ?thesis using no that by auto
  next
    case False
    then show ?thesis using flocks_none by (simp add: conflicts_def)
  qed
  show "flocks_held k' q b = (if q = pid \<and> ofst \<le> b \<and> b < ofst + n then t else flocks_held k q b)"
    unfolding r flocks_held_def fst_conv map_of_setting by simp
qed

lemma flocks_set_failed: "flocks_set pid t ofst n k = (False, k') \<Longrightarrow> k' = k"
  by (auto simp: flocks_set_def split: if_splits)

lemma flocks_lock_law: "lock_law flocks_os flocks_held"
  unfolding lock_law_def flocks_os_def
  by (auto dest: flocks_set_failed flocks_set_ok(1) simp: flocks_set_ok(2))

lemma flocks_posix: "posix_locks flocks_os flocks_held"
proof -
  have "flocks_held k q b = F_UNLCK" if "flocks_get pid ofst n k = Some F_UNLCK" "q \<noteq> pid" "ofst \<le> b" "b < ofst + n" for pid q b k ofst n
    using that flocks_none [of q b k] by (cases "flocks_held k q b") (force simp: flocks_get_def Let_def list_ex_iff split: if_splits)+
  then have "getlk_law flocks_os flocks_held" by (simp add: getlk_law_def flocks_os_def)
  then show ?thesis using flocks_lock_law
    by (auto simp: posix_locks_def plain_calls_def flocks_os_def flocks_held_def map_of_closed fun_eq_iff)
qed

lemma flocks_truncations: "truncation_only flocks_os (snd :: flocks \<Rightarrow> nat)"
  by (simp add: truncation_only_def plain_calls_def flocks_os_def flocks_set_def)

section \<open>Properties\<close>

text \<open>Two processes attach; the first takes the write lock, the second a read lock.\<close>

abbreviation flocks_none_attached :: "flocks shm_sys" where
  "flocks_none_attached \<equiv> \<lparr>procs = (\<lambda>_. None), kern = ([], 0)\<rparr>"

lemmas attach_defs = unixShmMap_def shm_connect_def unixOpenSharedMemory_def new_shm_node_def open_shm_file_def
  unixLockSharedMemory_def unixShmSystemLock_def shm_relock_def map_upto_def map_alloc_def map_region_def
  unixShmRegionPerMap_def flocks_os_def flocks_get_def flocks_set_def flocks_held_def conflicts_def

lemmas lock_defs = sys_lock_def unixShmLock_def shm_shared_def shm_exclusive_def unixShmSystemLock_def lock_mask_def set_range_def
  set_conn_def flocks_os_def flocks_set_def flocks_held_def conflicts_def

definition attached :: "nat \<Rightarrow> int list \<Rightarrow> u16 \<Rightarrow> u16 \<Rightarrow> unixShmNode" where
  "attached c a shared excl = \<lparr>hShm = 5, szRegion = 32768, apRegion = [4096], isReadonly = False, isUnlocked = False, nRef = 1,
     pFirst = [(c, \<lparr>sharedMask = shared, exclMask = excl\<rparr>)], aLock = a\<rparr>"

definition two_attached :: "flocks shm_sys" where
  "two_attached = sys_map flocks_os False 1 7 0 32768 True (sys_map flocks_os False 0 0 0 32768 True flocks_none_attached)"

definition two_locking :: "flocks shm_sys" where
  "two_locking = sys_lock flocks_os 1 7 4 1 ShmLockShared (sys_lock flocks_os 0 0 0 1 ShmLockExclusive two_attached)"

lemma two_attached_eq:
  "two_attached = \<lparr>procs = [0 \<mapsto> attached 0 (replicate 8 0) 0 0, 1 \<mapsto> attached 7 (replicate 8 0) 0 0],
     kern = ([((1, 128), F_RDLCK), ((0, 128), F_RDLCK), ((0, 128), F_WRLCK)], 1)\<rparr>"
  by (simp add: two_attached_def attached_def sys_map_def attach_defs map_regions.simps Let_def upt_rec)

lemma two_locking_eq:
  "two_locking = \<lparr>procs = [0 \<mapsto> attached 0 ((replicate 8 0)[0 := - 1]) 0 1, 1 \<mapsto> attached 7 ((replicate 8 0)[4 := 1]) 16 0],
     kern = ([((1, 124), F_RDLCK), ((0, 120), F_WRLCK), ((1, 128), F_RDLCK), ((0, 128), F_RDLCK), ((0, 128), F_WRLCK)], 1)\<rparr>"
  by (simp add: two_locking_def two_attached_eq attached_def lock_defs upt_rec)

lemma two_attached_reach: "shm_reach flocks_os ([], 0) two_attached"
  unfolding two_attached_def by (intro shm_reach.step [OF shm_reach.step [OF shm_reach.start shm_step.map] shm_step.map])

lemma two_locking_reach: "shm_reach flocks_os ([], 0) two_locking"
proof -
  have 1: "shm_step flocks_os 0 two_attached (sys_lock flocks_os 0 0 0 1 ShmLockExclusive two_attached)"
    by (rule shm_step.lock) (simp add: two_attached_eq conn_def attached_def lock_request_def)
  have 2: "shm_step flocks_os 1 (sys_lock flocks_os 0 0 0 1 ShmLockExclusive two_attached) two_locking"
    unfolding two_locking_def
    by (rule shm_step.lock) (simp add: two_attached_eq lock_defs conn_def attached_def lock_request_def)
  show ?thesis by (rule shm_reach.step [OF shm_reach.step [OF two_attached_reach 1] 2])
qed

lemma flocks_start: "flocks_held ([], 0) = (\<lambda>_ _. F_UNLCK)"
  by (simp add: flocks_held_def fun_eq_iff)

text \<open>C13. The assertions of the locking code never fail: whatever the processes do, in every state they
  reach the counters of a node agree with the masks of the connections on it
  (\<^verbatim>\<open>assertLockingArrayOk\<close>), no connection holds a slot both ways, a counter is never below -1 and at
  least 1 while a shared lock is held, and the reference count is the number of connections, never 0.\<close>

theorem shm_assertions_hold:
  assumes "posix_locks E held" "held k0 = (\<lambda>_ _. F_UNLCK)" "shm_reach E k0 s" "procs s pid = Some nd"
  shows "assertLockingArrayOk nd \<and> (\<forall>i<SQLITE_SHM_NLOCK. aLock nd ! i \<ge> - 1) \<and>
    (\<forall>c p. map_of (pFirst nd) c = Some p \<longrightarrow>
       exclMask p AND sharedMask p = 0 \<and> (\<forall>i<SQLITE_SHM_NLOCK. bit (sharedMask p) i \<longrightarrow> aLock nd ! i \<ge> 1)) \<and>
    nRef nd = int (length (pFirst nd)) \<and> nRef nd > 0 \<and> hShm nd \<ge> 0"
proof -
  have a: "attach_ok held pid nd (kern s)" "pFirst nd \<noteq> []"
    using sys_ok_pid [OF shm_reach_ok [OF assms(3,1,2)], of pid] assms(4) by (simp_all add: proc_ok_def)
  then have ok: "node_ok nd" by (simp add: attach_ok_def)
  have "aLock nd ! i \<ge> - 1" if "i < 8" for i using node_slot [OF ok that] by (auto simp: slot_ok_def)
  moreover have "exclMask p AND sharedMask p = 0 \<and> (\<forall>i<8. bit (sharedMask p) i \<longrightarrow> aLock nd ! i \<ge> 1)" if "map_of (pFirst nd) c = Some p" for c p
    using node_masks [OF ok that] node_counts(2) [OF ok that] by (auto simp: masks_ok_def bit_and_iff int_one_le_iff_zero_less intro!: bit_eqI)
  ultimately show ?thesis using node_ok_check [OF ok] a by (simp add: attach_ok_def)
qed

theorem shm_assertions_hold_witness:
  "assertLockingArrayOk (attached 0 ((replicate 8 0)[0 := - 1]) 0 1)"
  using shm_assertions_hold [OF flocks_posix flocks_start two_locking_reach, of 0] by (simp add: two_locking_eq)

text \<open>C6. Mutual exclusion: in every state the processes reach, when one connection holds a slot
  exclusively, no other connection of the same or of another process holds it in any way.\<close>

theorem shm_mutual_exclusion:
  assumes "posix_locks E held" "held k0 = (\<lambda>_ _. F_UNLCK)" "shm_reach E k0 s"
    "conn s pid c = Some p" "conn s qid d = Some q" "(pid, c) \<noteq> (qid, d)" "i < SQLITE_SHM_NLOCK" "bit (exclMask p) i"
  shows "\<not> bit (exclMask q) i \<and> \<not> bit (sharedMask q) i"
  using sys_exclusion [OF shm_reach_ok [OF assms(3,1,2)] assms(4-8)] by simp

theorem shm_mutual_exclusion_witness: "\<not> bit (exclMask \<lparr>sharedMask = 16, exclMask = 0\<rparr>) 0 \<and> \<not> bit (sharedMask \<lparr>sharedMask = 16, exclMask = 0\<rparr>) 0"
  by (rule shm_mutual_exclusion [OF flocks_posix flocks_start two_locking_reach, of 0 0 "\<lparr>sharedMask = 0, exclMask = 1\<rparr>" 1 7])
    (simp_all add: two_locking_eq conn_def attached_def)

text \<open>C14. A request that conflicts with a lock of another connection, in this process or in another, is
  answered with \<^verbatim>\<open>SQLITE_BUSY\<close>, and neither the counters and masks nor the locks of the process
  change.\<close>

theorem unixShmLock_busy:
  assumes "posix_locks E held" "held k0 = (\<lambda>_ _. F_UNLCK)" "shm_reach E k0 s" "procs s pid = Some nd"
    "conn s pid c = Some p" "conn s qid d = Some q" "(pid, c) \<noteq> (qid, d)" "ofst + n \<le> SQLITE_SHM_NLOCK" "ofst \<le> i" "i < ofst + n"
    "flags = ShmLockExclusive \<and> (bit (exclMask q) i \<or> bit (sharedMask q) i) \<or> flags = ShmLockShared \<and> n = 1 \<and> bit (exclMask q) i"
    "unixShmLock E pid nd c ofst n flags (kern s) = (rc, nd', k')"
  shows "rc = SQLITE_BUSY \<and> nd' = nd \<and> held k' pid = held (kern s) pid"
  using assms(11)
proof
  note ok = shm_reach_ok [OF assms(3,1,2)]
  show ?thesis if "flags = ShmLockExclusive \<and> (bit (exclMask q) i \<or> bit (sharedMask q) i)"
    using exclusive_busy [OF ok assms(1,4-10)] that assms(12) by simp
  assume sh: "flags = ShmLockShared \<and> n = 1 \<and> bit (exclMask q) i"
  then have "i = ofst" using assms(9,10) by simp
  then show ?thesis using shared_busy [OF ok assms(1,4-7), of i rc nd' k'] sh assms(8,12) by simp
qed

theorem unixShmLock_busy_witness:
  "fst (unixShmLock flocks_os 0 (attached 0 ((replicate 8 0)[0 := - 1]) 0 1) 0 3 5 ShmLockExclusive (kern two_locking)) = SQLITE_BUSY"
proof -
  let ?nd = "attached 0 ((replicate 8 0)[0 := - 1]) 0 1"
  obtain rc nd' k' where r: "unixShmLock flocks_os 0 ?nd 0 3 5 ShmLockExclusive (kern two_locking) = (rc, nd', k')"
    by (cases "unixShmLock flocks_os 0 ?nd 0 3 5 ShmLockExclusive (kern two_locking)")
  have "rc = SQLITE_BUSY \<and> nd' = ?nd \<and> flocks_held k' 0 = flocks_held (kern two_locking) 0"
    by (rule unixShmLock_busy [OF flocks_posix flocks_start two_locking_reach, of 0 ?nd 0
          "\<lparr>sharedMask = 0, exclMask = 1\<rparr>" 1 7 "\<lparr>sharedMask = 16, exclMask = 0\<rparr>" 3 5 4])
      (use r in \<open>simp_all add: two_locking_eq conn_def attached_def bit_numeral_rec\<close>)
  then show ?thesis using r by simp
qed





end
