(* ===== verification/Spec2Isabelle.thy ===== *)
theory Spec2Isabelle
  imports Prelude Varint WalFormat WalIndex WalSort WalIter Bitvec Ctype NumText IntArith WalConn WalRecover WalTrans WalWrite WalCommit WalCkpt PagerWal UnixShm
begin

text \<open>
  Verification of the storage core of libSQL.
\<close>

end
